(* ===== verification/Prelude.thy ===== *)
theory Prelude
  imports Main "HOL-Library.Word" "HOL-Library.Monad_Syntax" "HOL-Library.Signed_Division"
begin

unbundle bit_operations_syntax

text \<open>
  Shared vocabulary of the development: the machine types of the i386 kernel, C arrays and
  C strings, little-endian encodings, the error numbers of \<^verbatim>\<open>include/errno.h\<close>, and the
  generic lemmas the component theories use.

  A kernel routine that can fail to come back to its caller has a result of type
  \<open>'a option\<close>: \<open>None\<close> stands for \<^verbatim>\<open>panic()\<close> (which spins for ever), for a loop that never
  ends, for a sleep nobody can end, and for an access outside an array, after which C
  promises nothing. The three constants below name the reason in the model's text.
\<close>

section \<open>Machine types and failures\<close>

type_synonym byte = "8 word"
type_synonym u16 = "16 word"
type_synonym u32 = "32 word"

text \<open>A C \<^verbatim>\<open>char\<close> array (or any memory block): an index gives the byte at that offset.\<close>

type_synonym cbuf = "nat \<Rightarrow> byte"

definition panic :: "string \<Rightarrow> 'a option" where
  "panic msg = None"

definition overrun :: "string \<Rightarrow> 'a option" where
  "overrun msg = None"

definition sleeps :: "string \<Rightarrow> 'a option" where
  "sleeps msg = None"

named_theorems failing "the results that never reach the caller"

lemma panic_None [failing, simp]: "panic msg = None"
  by (simp add: panic_def)

lemma overrun_None [failing, simp]: "overrun msg = None"
  by (simp add: overrun_def)

lemma sleeps_None [failing, simp]: "sleeps msg = None"
  by (simp add: sleeps_def)

lemmas bind_Some_iff = Option.bind_eq_Some_conv

lemma unat_of_nat_small: "n < 2 ^ LENGTH('a) \<Longrightarrow> unat (of_nat n :: 'a::len word) = n"
  by (simp add: unat_of_nat take_bit_nat_eq_self)

section \<open>Error numbers\<close>

abbreviation ERROR :: int where "ERROR \<equiv> 99"
abbreviation EPERM :: int where "EPERM \<equiv> 1"
abbreviation ENOENT :: int where "ENOENT \<equiv> 2"
abbreviation ESRCH :: int where "ESRCH \<equiv> 3"
abbreviation EINTR :: int where "EINTR \<equiv> 4"
abbreviation EIO :: int where "EIO \<equiv> 5"
abbreviation ENOEXEC :: int where "ENOEXEC \<equiv> 8"
abbreviation EBADF :: int where "EBADF \<equiv> 9"
abbreviation ECHILD :: int where "ECHILD \<equiv> 10"
abbreviation EAGAIN :: int where "EAGAIN \<equiv> 11"
abbreviation ENOMEM :: int where "ENOMEM \<equiv> 12"
abbreviation EACCES :: int where "EACCES \<equiv> 13"
abbreviation EEXIST :: int where "EEXIST \<equiv> 17"
abbreviation EXDEV :: int where "EXDEV \<equiv> 18"
abbreviation ENOTDIR :: int where "ENOTDIR \<equiv> 20"
abbreviation EISDIR :: int where "EISDIR \<equiv> 21"
abbreviation EINVAL :: int where "EINVAL \<equiv> 22"
abbreviation EMFILE :: int where "EMFILE \<equiv> 24"
abbreviation ENOTTY :: int where "ENOTTY \<equiv> 25"
abbreviation ENOSPC :: int where "ENOSPC \<equiv> 28"
abbreviation ESPIPE :: int where "ESPIPE \<equiv> 29"
abbreviation ENOSYS :: int where "ENOSYS \<equiv> 38"
abbreviation ENOTEMPTY :: int where "ENOTEMPTY \<equiv> 39"

section \<open>C arrays and strings\<close>

text \<open>The sizes fixed in \<^verbatim>\<open>linux/security.h\<close> and \<^verbatim>\<open>linux/fs.h\<close>.\<close>

abbreviation KEY_SIZE :: nat where "KEY_SIZE \<equiv> 32"
abbreviation BLOCK_SIZE :: nat where "BLOCK_SIZE \<equiv> 1024"

text \<open>
  \<open>strlen_in N a\<close> is \<^verbatim>\<open>strlen\<close> on an array of \<open>N\<close> bytes: \<open>None\<close> when no terminating zero
  lies inside the array, where the C routine would read on behind it.
\<close>

definition strlen_in :: "nat \<Rightarrow> cbuf \<Rightarrow> nat option" where
  "strlen_in N a = List.find (\<lambda>i. a i = 0) [0..<N]"

text \<open>The array after \<^verbatim>\<open>strcpy\<close> has stored a string and its terminating zero in it.\<close>

definition store_str :: "byte list \<Rightarrow> cbuf \<Rightarrow> cbuf" where
  "store_str s a = (\<lambda>i. if i < length s then s ! i else if i = length s then 0 else a i)"

text \<open>\<^verbatim>\<open>memcpy\<close>/\<^verbatim>\<open>rep movsb\<close> of \<open>n\<close> bytes to the start of an array.\<close>

definition copy_bytes :: "nat \<Rightarrow> cbuf \<Rightarrow> cbuf \<Rightarrow> cbuf" where
  "copy_bytes n src dst = (\<lambda>i. if i < n then src i else dst i)"

definition bytes_of :: "nat \<Rightarrow> nat \<Rightarrow> cbuf \<Rightarrow> byte list" where
  "bytes_of from n a = map (\<lambda>i. a (from + i)) [0..<n]"

lemma strlen_in_Some:
  "strlen_in N a = Some n \<longleftrightarrow> n < N \<and> a n = 0 \<and> (\<forall>i<n. a i \<noteq> 0)"
proof
  assume "strlen_in N a = Some n"
  then obtain i where i: "i < length [0..<N]" "a ([0..<N] ! i) = 0" "n = [0..<N] ! i"
    "\<forall>j<i. \<not> a ([0..<N] ! j) = 0"
    by (auto simp: strlen_in_def find_Some_iff)
  then show "n < N \<and> a n = 0 \<and> (\<forall>i<n. a i \<noteq> 0)" by auto
next
  assume "n < N \<and> a n = 0 \<and> (\<forall>i<n. a i \<noteq> 0)"
  then show "strlen_in N a = Some n"
    unfolding strlen_in_def find_Some_iff by (intro exI [of _ n]) auto
qed

lemma strlen_in_None: "strlen_in N a = None \<longleftrightarrow> (\<forall>i<N. a i \<noteq> 0)"
  by (auto simp: strlen_in_def find_None_iff)

lemma strlen_in_store_str:
  assumes "length s < N" and "0 \<notin> set s"
  shows "strlen_in N (store_str s a) = Some (length s)"
  using assms by (auto simp: strlen_in_Some store_str_def) (metis nth_mem)

lemma bytes_of_store_str [simp]: "bytes_of 0 (length s) (store_str s a) = s"
  by (rule nth_equalityI) (simp_all add: bytes_of_def store_str_def)

lemma length_bytes_of [simp]: "length (bytes_of from n a) = n"
  by (simp add: bytes_of_def)

lemma nth_bytes_of [simp]: "i < n \<Longrightarrow> bytes_of from n a ! i = a (from + i)"
  by (simp add: bytes_of_def)

text \<open>Exchanging two elements of an array.\<close>

definition swap_at :: "nat \<Rightarrow> nat \<Rightarrow> 'a list \<Rightarrow> 'a list" where
  "swap_at i j xs = xs[i := xs ! j, j := xs ! i]"

lemma length_swap_at [simp]: "length (swap_at i j xs) = length xs"
  by (simp add: swap_at_def)

lemma nth_swap_at:
  "i < length xs \<Longrightarrow> j < length xs \<Longrightarrow> k < length xs \<Longrightarrow>
    swap_at i j xs ! k = (if k = j then xs ! i else if k = i then xs ! j else xs ! k)"
  by (simp add: swap_at_def nth_list_update)

lemma swap_at_zip:
  "length xs = length ys \<Longrightarrow> i < length xs \<Longrightarrow> j < length xs \<Longrightarrow>
    zip (swap_at i j xs) (swap_at i j ys) = swap_at i j (zip xs ys)"
  by (rule nth_equalityI) (auto simp: nth_swap_at)

lemma swap_at_same [simp]: "i < length xs \<Longrightarrow> swap_at i i xs = xs"
  by (simp add: swap_at_def)

section \<open>Little-endian encodings\<close>

text \<open>\<^verbatim>\<open>unsigned short\<close> and \<^verbatim>\<open>unsigned long\<close> fields of the structures kept in disk blocks.\<close>

definition get16 :: "cbuf \<Rightarrow> nat \<Rightarrow> u16" where
  "get16 a p = ucast (a p) OR push_bit 8 (ucast (a (Suc p)))"

definition put16 :: "nat \<Rightarrow> u16 \<Rightarrow> cbuf \<Rightarrow> cbuf" where
  "put16 p v a = a(p := ucast v, Suc p := ucast (drop_bit 8 v))"

definition get32 :: "cbuf \<Rightarrow> nat \<Rightarrow> u32" where
  "get32 a p = ucast (get16 a p) OR push_bit 16 (ucast (get16 a (p + 2)))"

definition put32 :: "nat \<Rightarrow> u32 \<Rightarrow> cbuf \<Rightarrow> cbuf" where
  "put32 p v a = put16 (p + 2) (ucast (drop_bit 16 v)) (put16 p (ucast v) a)"

lemma get16_cong: "a p = b p \<Longrightarrow> a (Suc p) = b (Suc p) \<Longrightarrow> get16 a p = get16 b p"
  by (simp add: get16_def)

lemma bit_get16:
  "bit (get16 a p) n \<longleftrightarrow> (if n < 8 then bit (a p) n else n < 16 \<and> bit (a (Suc p)) (n - 8))"
  by (auto simp: get16_def bit_simps dest: bit_imp_le_length)

lemma get16_put16 [simp]: "get16 (put16 p v a) p = v"
  by (rule bit_word_eqI) (auto simp: bit_get16 put16_def bit_simps)

lemma put16_other: "q \<noteq> p \<Longrightarrow> q \<noteq> Suc p \<Longrightarrow> put16 p v a q = a q"
  by (simp add: put16_def)

lemma get16_put16_other:
  "q + 1 < p \<or> p + 1 < q \<Longrightarrow> get16 (put16 p v a) q = get16 a q"
  by (rule get16_cong) (auto simp: put16_other)

lemma get32_put32 [simp]: "get32 (put32 p v a) p = v"
proof -
  have "get16 (put32 p v a) p = ucast v"
    by (simp add: put32_def get16_put16_other)
  moreover have "get16 (put32 p v a) (p + 2) = ucast (drop_bit 16 v)"
    by (simp only: put32_def get16_put16)
  moreover have "ucast (ucast v :: u16) OR push_bit 16 (ucast (ucast (drop_bit 16 v) :: u16)) = v"
    by (rule bit_word_eqI) (auto simp: bit_simps dest: bit_imp_le_length)
  ultimately show ?thesis
    unfolding get32_def by metis
qed

end
