(* ===== verification/EncTable.thy ===== *)
theory EncTable
  imports Prelude
begin

text \<open>
  The table of encrypted files of \<^verbatim>\<open>fs/security.c\<close> (\<^verbatim>\<open>add_func\<close>, \<^verbatim>\<open>remove_func\<close>,
  \<^verbatim>\<open>search_func\<close>, \<^verbatim>\<open>clear_table\<close>), the hash of a key (\<^verbatim>\<open>hash\<close>, \<^verbatim>\<open>compare_hash\<close>) and the
  pointer stack of the directory walk, with the structures of \<^verbatim>\<open>include/datastructs.h\<close>.

  The table is an open-addressing hash table of 61 slots; a slot is free when its inode
  number is 0. The probing loops of the code have no bound, so they are
  \<^theory_text>\<open>partial_function (option)\<close>: \<open>None\<close> is a loop that never ends.
\<close>

section \<open>Data\<close>

abbreviation TABLE_SIZE :: nat where "TABLE_SIZE \<equiv> 61"
abbreviation HKEY_SIZE :: nat where "HKEY_SIZE \<equiv> 14"
abbreviation STACK_SIZE :: nat where "STACK_SIZE \<equiv> 100"

abbreviation ERR_ALR_ENC :: int where "ERR_ALR_ENC \<equiv> -1"
abbreviation ERR_NOT_FND :: int where "ERR_NOT_FND \<equiv> -1"
abbreviation ERR_RM :: int where "ERR_RM \<equiv> -1"
abbreviation SUCC_RM :: int where "SUCC_RM \<equiv> 1"

record e_dir =
  ed_i_num :: u16
  ed_h_key :: cbuf

type_synonym hash_table = "nat \<Rightarrow> e_dir"

text \<open>
  The index of the \<open>i\<close>-th probe. \<^verbatim>\<open>HASH2(x)\<close> is the macro text \<^verbatim>\<open>1+(x%(TABLE_SIZE-1))\<close>
  without brackets of its own, so \<^verbatim>\<open>(HASH1(x) + (i++)*HASH2(x))%TABLE_SIZE\<close> is the
  C expression \<^verbatim>\<open>(x%61 + (i++)*1+(x%(61-1)))%61\<close>.
\<close>

definition HASH_probe :: "u16 \<Rightarrow> nat \<Rightarrow> nat" where
  "HASH_probe x i = (unat x mod TABLE_SIZE + i * 1 + unat x mod (TABLE_SIZE - 1)) mod TABLE_SIZE"

section \<open>Key hashes\<close>

definition compare_hash :: "cbuf \<Rightarrow> cbuf \<Rightarrow> int" where
  "compare_hash hash1 hash2 =
     (if list_all (\<lambda>i. hash1 i = hash2 i) [0..<HKEY_SIZE] then 1 else - EINVAL)"

text \<open>The rolling hash: one step of \<^verbatim>\<open>hash * 33 + str[i%l]\<close> (the characters are signed) and
  the letter stored for it; \<^verbatim>\<open>diff\<close> is \<^verbatim>\<open>'Z' - 'A'\<close>.\<close>

definition hash_step :: "byte list \<Rightarrow> nat \<Rightarrow> u32 \<Rightarrow> u32" where
  "hash_step str i h = (push_bit 5 h + h) + scast (str ! (i mod length str))"

definition hash_char :: "u32 \<Rightarrow> byte" where
  "hash_char h = 65 + ucast (h mod 25)"

fun hash_loop :: "byte list \<Rightarrow> nat \<Rightarrow> nat \<Rightarrow> u32 \<Rightarrow> cbuf \<Rightarrow> cbuf" where
  "hash_loop str i 0 h dest = dest"
| "hash_loop str i (Suc left) h dest =
     (let h' = hash_step str i h
      in hash_loop str (Suc i) left h' (dest(i := hash_char h')))"

definition hash :: "byte list \<Rightarrow> cbuf \<Rightarrow> nat \<Rightarrow> cbuf option" where
  "hash str dest len =
     (if len > 0 \<and> length str = 0 then overrun ''i%l divides by zero''
      else Some (hash_loop str 0 len 5381 dest))"

section \<open>Table operations\<close>

partial_function (option) add_probe :: "hash_table \<Rightarrow> u16 \<Rightarrow> nat \<Rightarrow> nat option option" where
  "add_probe t n i =
     (let index = HASH_probe n i in
      if ed_i_num (t index) = n then Some None
      else if ed_i_num (t index) \<noteq> 0 then add_probe t n (Suc i)
      else Some (Some index))"

definition add_func :: "hash_table \<Rightarrow> e_dir option \<Rightarrow> (int \<times> hash_table) option" where
  "add_func t value =
     (case value of
        None \<Rightarrow> Some (ERR_RM, t)
      | Some v \<Rightarrow> do {
          r \<leftarrow> add_probe t (ed_i_num v) 0;
          (case r of
             None \<Rightarrow> Some (ERR_ALR_ENC, t)
           | Some index \<Rightarrow> Some (int index, t(index := v)))
        })"

partial_function (option) search_probe :: "hash_table \<Rightarrow> u16 \<Rightarrow> nat \<Rightarrow> int option" where
  "search_probe t n i =
     (let index = HASH_probe n i in
      if ed_i_num (t index) = n then Some (int index)
      else if ed_i_num (t index) \<noteq> 0 then search_probe t n (Suc i)
      else Some ERR_NOT_FND)"

definition search_func :: "hash_table \<Rightarrow> u16 \<Rightarrow> int option" where
  "search_func t n = search_probe t n 0"

definition clear_slot :: "hash_table \<Rightarrow> nat \<Rightarrow> hash_table" where
  "clear_slot t index = t(index := (t index)\<lparr>ed_i_num := 0\<rparr>)"

text \<open>
  The loop of \<^verbatim>\<open>remove_func\<close>; \<open>i\<close> is the value of the C variable at the loop test, \<open>index\<close> the
  slot last computed. In the branch that removes the entry the code computes \<^verbatim>\<open>index\<close> twice,
  incrementing \<^verbatim>\<open>i\<close> each time.
\<close>

partial_function (option) remove_loop ::
    "cbuf \<Rightarrow> u16 \<Rightarrow> hash_table \<Rightarrow> nat \<Rightarrow> nat \<Rightarrow> bool \<Rightarrow> (int \<times> hash_table) option" where
  "remove_loop hk n t i index found =
     (if ed_i_num (t index) = 0 then Some (if found then SUCC_RM else ERR_RM, t)
      else if ed_i_num (t index) = n \<and> \<not> found then
        (if compare_hash hk (ed_h_key (t index)) = - EINVAL then Some (- EINVAL, t)
         else remove_loop hk n (clear_slot t index) (Suc (Suc i)) (HASH_probe n (Suc i)) True)
      else if found then
        Option.bind (add_func (clear_slot t index) (Some (t index)))
          (\<lambda>r. remove_loop hk n (snd r) (Suc i) (HASH_probe n i) found)
      else remove_loop hk n t (Suc i) (HASH_probe n i) found)"

definition remove_func :: "cbuf \<Rightarrow> hash_table \<Rightarrow> u16 \<Rightarrow> (int \<times> hash_table) option" where
  "remove_func hash_to_use t n = remove_loop hash_to_use n t 1 (HASH_probe n 0) False"

definition clear_table :: "hash_table \<Rightarrow> hash_table" where
  "clear_table t = (\<lambda>i. if i < TABLE_SIZE then (t i)\<lparr>ed_i_num := 0\<rparr> else t i)"

text \<open>\<^verbatim>\<open>print_func\<close> prints one line for each slot in use: the inode number and the 14 hash bytes.\<close>

definition print_func :: "hash_table \<Rightarrow> (u16 \<times> byte list) list" where
  "print_func t =
     map (\<lambda>i. (ed_i_num (t i), bytes_of 0 HKEY_SIZE (ed_h_key (t i))))
       (filter (\<lambda>i. ed_i_num (t i) \<noteq> 0) [0..<TABLE_SIZE])"

section \<open>The stack of inodes\<close>

record 'p stack =
  st_values :: "nat \<Rightarrow> 'p"
  st_sp :: nat

definition push_func :: "'p stack \<Rightarrow> 'p \<Rightarrow> 'p stack option" where
  "push_func s v =
     (if st_sp s < STACK_SIZE
      then Some (s\<lparr>st_values := (st_values s)(st_sp s := v), st_sp := Suc (st_sp s)\<rparr>)
      else overrun ''stack values'')"

definition pop_func :: "'p stack \<Rightarrow> ('p \<times> 'p stack) option" where
  "pop_func s =
     (if st_sp s = 0 then overrun ''stack values''
      else Some (st_values s (st_sp s - 1), s\<lparr>st_sp := st_sp s - 1\<rparr>))"

definition is_empty_func :: "'p stack \<Rightarrow> bool" where
  "is_empty_func s = (st_sp s = 0)"

section \<open>Probe sequences\<close>

definition home :: "u16 \<Rightarrow> nat" where
  "home n = HASH_probe n 0"

definition disp :: "u16 \<Rightarrow> nat \<Rightarrow> nat" where
  "disp n k = (k + TABLE_SIZE - home n) mod TABLE_SIZE"

lemma HASH_probe_lt [simp]: "HASH_probe n i < 61"
  by (simp add: HASH_probe_def)

lemma home_lt [simp]: "home n < 61"
  by (simp add: home_def)

lemma HASH_probe_home: "HASH_probe n i = (home n + i) mod 61"
proof -
  have "(home n + i) mod 61 = (unat n mod 61 + 0 * 1 + unat n mod (61 - 1) + i) mod 61"
    unfolding home_def HASH_probe_def by (rule mod_add_left_eq)
  then show ?thesis by (simp add: HASH_probe_def ac_simps)
qed

lemma HASH_probe_step: "(HASH_probe n i + e) mod 61 = HASH_probe n (i + e)"
  by (simp add: HASH_probe_home mod_simps add.assoc)

lemma shift_ne: "k < 61 \<Longrightarrow> 0 < e \<Longrightarrow> e < 61 \<Longrightarrow> (k + e) mod 61 \<noteq> (k::nat)"
  by (cases "k + e < 61") (auto simp: le_mod_geq)

lemma disp_lt [simp]: "disp n k < 61"
  by (simp add: disp_def)

lemma HASH_probe_disp: "k < 61 \<Longrightarrow> HASH_probe n (disp n k) = k"
proof -
  assume "k < 61"
  have "home n + (k + 61 - home n) = k + 61"
    using home_lt [of n] by linarith
  then have "(home n + (k + 61 - home n)) mod 61 = k"
    using \<open>k < 61\<close> by simp
  then show ?thesis
    by (simp only: HASH_probe_home disp_def mod_add_right_eq)
qed

lemma disp_HASH_probe: "d < 61 \<Longrightarrow> disp n (HASH_probe n d) = d"
proof -
  assume "d < 61"
  show ?thesis
  proof (cases "home n + d < 61")
    case True
    then show ?thesis using \<open>d < 61\<close> by (simp add: HASH_probe_home disp_def)
  next
    case False
    then have "(home n + d) mod 61 = home n + d - 61"
      using \<open>d < 61\<close> home_lt [of n] le_mod_geq [of 61 "home n + d"] mod_less [of "home n + d - 61" 61]
      by linarith
    then show ?thesis using False \<open>d < 61\<close> by (simp add: HASH_probe_home disp_def)
  qed
qed

lemma HASH_probe_inj: "d < 61 \<Longrightarrow> e < 61 \<Longrightarrow> HASH_probe n d = HASH_probe n e \<Longrightarrow> d = e"
  by (metis disp_HASH_probe)

lemma HASH_probe_cycle: "HASH_probe n (i + 61) = HASH_probe n i"
  by (simp add: HASH_probe_home add.assoc [symmetric])

lemma HASH_probe_mod: "HASH_probe n (i mod 61) = HASH_probe n i"
  by (simp add: HASH_probe_home mod_simps)

text \<open>Every slot is reached by the first 61 probes, so a property of all probes is one of all slots.\<close>

lemma all_probes: "(\<forall>d. P (HASH_probe n d)) \<longleftrightarrow> (\<forall>k<61. P k)"
  by (metis HASH_probe_lt HASH_probe_disp)

section \<open>The loops stop at the first matching or free slot\<close>

definition stop_at :: "hash_table \<Rightarrow> u16 \<Rightarrow> nat \<Rightarrow> bool" where
  "stop_at t n i \<longleftrightarrow> ed_i_num (t (HASH_probe n i)) = n \<or> ed_i_num (t (HASH_probe n i)) = 0"

lemma add_probe_skip:
  "(\<And>e. e < d \<Longrightarrow> \<not> stop_at t n (i + e)) \<Longrightarrow> add_probe t n i = add_probe t n (i + d)"
proof (induction d arbitrary: i)
  case (Suc d)
  have "\<not> stop_at t n i" using Suc.prems [of 0] by simp
  then have "add_probe t n i = add_probe t n (Suc i)"
    by (subst add_probe.simps) (simp add: stop_at_def Let_def)
  also have "\<dots> = add_probe t n (Suc i + d)"
    by (rule Suc.IH) (metis Suc.prems Suc_less_eq add_Suc_shift)
  finally show ?case by simp
qed simp

lemma add_probe_first:
  assumes "stop_at t n (i + d)" and "\<And>e. e < d \<Longrightarrow> \<not> stop_at t n (i + e)"
  shows "add_probe t n i = Some (if ed_i_num (t (HASH_probe n (i + d))) = n then None
                                 else Some (HASH_probe n (i + d)))"
proof -
  have "add_probe t n i = add_probe t n (i + d)"
    by (rule add_probe_skip) (rule assms(2))
  also have "\<dots> = Some (if ed_i_num (t (HASH_probe n (i + d))) = n then None
                                 else Some (HASH_probe n (i + d)))"
    using assms(1) by (subst add_probe.simps) (auto simp: stop_at_def Let_def)
  finally show ?thesis .
qed

lemma add_probe_returns: "add_probe t n i = Some r \<Longrightarrow> \<exists>j\<ge>i. stop_at t n j"
proof (rule add_probe.raw_induct [where P = "\<lambda>t n i r. \<exists>j\<ge>i. stop_at t n j"])
  fix f t n i r
  assume IH: "\<And>t n i r. f t n i = Some r \<Longrightarrow> \<exists>j\<ge>i. stop_at t n j"
    and eq: "(let index = HASH_probe n i in if ed_i_num (t index) = n then Some None
        else if ed_i_num (t index) \<noteq> 0 then f t n (Suc i) else Some (Some index)) = Some r"
  show "\<exists>j\<ge>i. stop_at t n j"
  proof (cases "stop_at t n i")
    case False
    with eq have "f t n (Suc i) = Some r" by (simp add: stop_at_def Let_def)
    from IH [OF this] show ?thesis by (auto dest: Suc_leD)
  qed auto
qed

lemma search_probe_skip:
  "(\<And>e. e < d \<Longrightarrow> \<not> stop_at t n (i + e)) \<Longrightarrow> search_probe t n i = search_probe t n (i + d)"
proof (induction d arbitrary: i)
  case (Suc d)
  have "\<not> stop_at t n i" using Suc.prems [of 0] by simp
  then have "search_probe t n i = search_probe t n (Suc i)"
    by (subst search_probe.simps) (simp add: stop_at_def Let_def)
  also have "\<dots> = search_probe t n (Suc i + d)"
    by (rule Suc.IH) (metis Suc.prems Suc_less_eq add_Suc_shift)
  finally show ?case by simp
qed simp

lemma search_probe_first:
  assumes "stop_at t n (i + d)" and "\<And>e. e < d \<Longrightarrow> \<not> stop_at t n (i + e)"
  shows "search_probe t n i = Some (if ed_i_num (t (HASH_probe n (i + d))) = n
           then int (HASH_probe n (i + d)) else ERR_NOT_FND)"
proof -
  have "search_probe t n i = search_probe t n (i + d)"
    by (rule search_probe_skip) (rule assms(2))
  also have "\<dots> = Some (if ed_i_num (t (HASH_probe n (i + d))) = n
           then int (HASH_probe n (i + d)) else ERR_NOT_FND)"
    using assms(1) by (subst search_probe.simps) (auto simp: stop_at_def Let_def)
  finally show ?thesis .
qed

lemma search_probe_returns: "search_probe t n i = Some r \<Longrightarrow> \<exists>j\<ge>i. stop_at t n j"
proof (rule search_probe.raw_induct [where P = "\<lambda>t n i r. \<exists>j\<ge>i. stop_at t n j"])
  fix f t n i r
  assume IH: "\<And>t n i r. f t n i = Some r \<Longrightarrow> \<exists>j\<ge>i. stop_at t n j"
    and eq: "(let index = HASH_probe n i in if ed_i_num (t index) = n then Some (int index)
        else if ed_i_num (t index) \<noteq> 0 then f t n (Suc i) else Some ERR_NOT_FND) = Some r"
  show "\<exists>j\<ge>i. stop_at t n j"
  proof (cases "stop_at t n i")
    case False
    with eq have "f t n (Suc i) = Some r" by (simp add: stop_at_def Let_def)
    from IH [OF this] show ?thesis by (auto dest: Suc_leD)
  qed auto
qed

text \<open>The first stopping probe, when there is one among the slots.\<close>

lemma first_stop:
  assumes "k < 61" and "ed_i_num (t k) = n \<or> ed_i_num (t k) = 0"
  shows "\<exists>d\<le>disp n k. stop_at t n d \<and> (\<forall>e<d. \<not> stop_at t n e)"
proof -
  have "stop_at t n (disp n k)"
    using assms by (simp add: stop_at_def HASH_probe_disp)
  then have "stop_at t n (LEAST d. stop_at t n d) \<and> (LEAST d. stop_at t n d) \<le> disp n k"
    by (blast intro: LeastI Least_le)
  then show ?thesis
    by (blast dest: not_less_Least)
qed

section \<open>Well-formed tables\<close>

text \<open>
  \<open>stored t n k\<close>: slot \<open>k\<close> holds the entry of inode \<open>n\<close>. A table is well formed when the
  probes for every stored inode meet no free slot and no second copy before its slot.
\<close>

definition stored :: "hash_table \<Rightarrow> u16 \<Rightarrow> nat \<Rightarrow> bool" where
  "stored t n k \<longleftrightarrow> n \<noteq> 0 \<and> k < TABLE_SIZE \<and> ed_i_num (t k) = n"

definition free_slots :: "hash_table \<Rightarrow> nat set" where
  "free_slots t = {k. k < TABLE_SIZE \<and> ed_i_num (t k) = 0}"

definition tab_ok :: "hash_table \<Rightarrow> bool" where
  "tab_ok t \<longleftrightarrow> (\<forall>n k. stored t n k \<longrightarrow> (\<forall>e<disp n k. \<not> stop_at t n e))"

definition distinct_tab :: "hash_table \<Rightarrow> bool" where
  "distinct_tab t \<longleftrightarrow> (\<forall>n k k'. stored t n k \<and> stored t n k' \<longrightarrow> k = k')"

lemma free_slots_finite [simp]: "finite (free_slots t)"
  by (simp add: free_slots_def)

lemma stop_at_stored: "stored t n k \<Longrightarrow> stop_at t n (disp n k)"
  by (simp add: stored_def stop_at_def HASH_probe_disp)

lemma tab_ok_distinct: "tab_ok t \<Longrightarrow> distinct_tab t"
  unfolding tab_ok_def distinct_tab_def
  by (metis HASH_probe_disp linorder_neqE_nat stop_at_stored stored_def)

lemma search_func_stored:
  assumes "tab_ok t" and "stored t n k"
  shows "search_func t n = Some (int k)"
proof -
  have "search_probe t n 0 = Some (if ed_i_num (t (HASH_probe n (0 + disp n k))) = n
           then int (HASH_probe n (0 + disp n k)) else ERR_NOT_FND)"
    using assms by (intro search_probe_first) (auto simp: stop_at_stored tab_ok_def)
  with assms(2) show ?thesis
    by (simp add: search_func_def stored_def HASH_probe_disp)
qed

lemma search_func_absent:
  assumes "n \<noteq> 0" and "\<And>k. \<not> stored t n k" and "free_slots t \<noteq> {}"
  shows "search_func t n = Some ERR_NOT_FND"
proof -
  from assms(3) obtain k where "k < 61" "ed_i_num (t k) = 0"
    by (auto simp: free_slots_def)
  then obtain d where "stop_at t n d" "\<And>e. e < d \<Longrightarrow> \<not> stop_at t n e"
    using first_stop [of k t n] by blast
  then have "search_probe t n (0::nat) = Some (if ed_i_num (t (HASH_probe n (0 + d))) = n
           then int (HASH_probe n (0 + d)) else ERR_NOT_FND)"
    by (intro search_probe_first) auto
  then show ?thesis
    using assms(1,2) by (auto simp: search_func_def stored_def)
qed

lemma no_stop:
  assumes "n \<noteq> 0" "\<And>k. \<not> stored t n k" "free_slots t = {}"
  shows "\<not> stop_at t n j"
  using assms by (auto simp: stop_at_def stored_def free_slots_def)

lemma search_func_full:
  "n \<noteq> 0 \<Longrightarrow> (\<And>k. \<not> stored t n k) \<Longrightarrow> free_slots t = {} \<Longrightarrow> search_func t n = None"
  unfolding search_func_def by (metis no_stop search_probe_returns not_None_eq)

lemma add_func_full:
  "ed_i_num v \<noteq> 0 \<Longrightarrow> (\<And>k. \<not> stored t (ed_i_num v) k) \<Longrightarrow> free_slots t = {} \<Longrightarrow>
    add_func t (Some v) = None"
  by (cases "add_probe t (ed_i_num v) 0") (simp_all add: add_func_def, metis add_probe_returns no_stop)

lemma add_func_present:
  assumes "tab_ok t" and "stored t (ed_i_num v) k"
  shows "add_func t (Some v) = Some (ERR_ALR_ENC, t)"
proof -
  let ?n = "ed_i_num v"
  have "add_probe t ?n 0 = Some (if ed_i_num (t (HASH_probe ?n (0 + disp ?n k))) = ?n then None
                                 else Some (HASH_probe ?n (0 + disp ?n k)))"
    using assms by (intro add_probe_first) (auto simp: stop_at_stored tab_ok_def)
  with assms(2) show ?thesis
    by (simp add: add_func_def stored_def HASH_probe_disp)
qed

text \<open>An absent inode goes to the first free slot of its probe sequence.\<close>

lemma add_func_absent:
  assumes "ed_i_num v \<noteq> 0" and "\<And>k. \<not> stored t (ed_i_num v) k" and "f \<in> free_slots t"
  obtains k where "add_func t (Some v) = Some (int k, t(k := v))" "k \<in> free_slots t"
    "disp (ed_i_num v) k \<le> disp (ed_i_num v) f"
    "\<And>e. e < disp (ed_i_num v) k \<Longrightarrow> \<not> stop_at t (ed_i_num v) e"
proof -
  let ?n = "ed_i_num v"
  from assms(3) obtain d where d: "d \<le> disp ?n f" "stop_at t ?n d"
    "\<And>e. e < d \<Longrightarrow> \<not> stop_at t ?n e"
    using first_stop [of f t "ed_i_num v"] unfolding free_slots_def by blast
  let ?k = "HASH_probe ?n d"
  have lt: "d < 61" using d(1) disp_lt [of ?n f] by linarith
  have ne: "ed_i_num (t ?k) \<noteq> ?n" using assms(1) assms(2) [of ?k] by (auto simp: stored_def)
  then have free: "?k \<in> free_slots t" using d(2) by (auto simp: stop_at_def free_slots_def)
  have "add_probe t ?n 0 = Some (if ed_i_num (t (HASH_probe ?n (0 + d))) = ?n then None
                                 else Some (HASH_probe ?n (0 + d)))"
    using d by (intro add_probe_first) auto
  then have "add_func t (Some v) = Some (int ?k, t(?k := v))"
    using ne by (simp add: add_func_def)
  then show ?thesis
    using free d lt that by (simp add: disp_HASH_probe)
qed

lemma tab_ok_add:
  assumes "tab_ok t" and n: "ed_i_num v = n" "n \<noteq> 0" and k: "k \<in> free_slots t"
    and before: "\<And>e. e < disp n k \<Longrightarrow> \<not> stop_at t n e"
  shows "tab_ok (t(k := v))"
  unfolding tab_ok_def
proof (intro allI impI)
  fix m j e
  assume st: "stored (t(k := v)) m j" and e: "e < disp m j"
  show "\<not> stop_at (t(k := v)) m e"
  proof (cases "j = k")
    case True
    with st n have "m = n" by (simp add: stored_def)
    with True e have "HASH_probe m e \<noteq> k"
      by (metis disp_HASH_probe disp_lt less_trans nat_neq_iff)
    with before [of e] True e \<open>m = n\<close> show ?thesis by (simp add: stop_at_def)
  next
    case False
    with st have "stored t m j" by (simp add: stored_def)
    with assms(1) e have "\<not> stop_at t m e" by (simp add: tab_ok_def)
    moreover from this k have "HASH_probe m e \<noteq> k"
      by (auto simp: stop_at_def free_slots_def)
    ultimately show ?thesis by (simp add: stop_at_def)
  qed
qed

lemma free_slots_upd: "ed_i_num v \<noteq> 0 \<Longrightarrow> free_slots (t(k := v)) = free_slots t - {k}"
  by (auto simp: free_slots_def)

lemma stored_upd_free:
  "k \<in> free_slots t \<Longrightarrow> ed_i_num v \<noteq> 0 \<Longrightarrow>
    (\<exists>j. stored (t(k := v)) m j) \<longleftrightarrow> m = ed_i_num v \<or> (\<exists>j. stored t m j)"
  by (auto simp: stored_def free_slots_def)

section \<open>The table as a registry\<close>

text \<open>
  What the file encryption relies on, as an interface: a registry with a number of free
  places, a partial insertion that answers an index or -1, and a lookup.
\<close>

primrec put_all :: "('t \<Rightarrow> 'e \<Rightarrow> (int \<times> 't) option) \<Rightarrow> 't \<Rightarrow> 'e list \<Rightarrow> 't option" where
  "put_all put t [] = Some t"
| "put_all put t (e # es) = Option.bind (put t e) (\<lambda>r. put_all put (snd r) es)"

locale registry =
  fixes inv :: "'t \<Rightarrow> bool" and room :: "'t \<Rightarrow> nat" and has :: "'t \<Rightarrow> 'k \<Rightarrow> bool"
    and key :: "'e \<Rightarrow> 'k" and proper :: "'e \<Rightarrow> bool"
    and put :: "'t \<Rightarrow> 'e \<Rightarrow> (int \<times> 't) option" and find :: "'t \<Rightarrow> 'k \<Rightarrow> int option"
  assumes put_absent: "inv t \<Longrightarrow> proper e \<Longrightarrow> \<not> has t (key e) \<Longrightarrow> 0 < room t \<Longrightarrow>
      \<exists>r t'. put t e = Some (r, t') \<and> inv t' \<and> Suc (room t') = room t \<and>
        (\<forall>k. has t' k \<longleftrightarrow> k = key e \<or> has t k)"
    and put_present: "inv t \<Longrightarrow> proper e \<Longrightarrow> has t (key e) \<Longrightarrow> put t e = Some (-1, t)"
    and find_has: "inv t \<Longrightarrow> has t k \<Longrightarrow> \<exists>i\<ge>0. find t k = Some i"
begin

lemma put_step:
  assumes "inv t" "proper e" "0 < room t"
  shows "\<exists>r t'. put t e = Some (r, t') \<and> inv t' \<and> room t \<le> Suc (room t') \<and>
    (\<forall>k. has t' k \<longleftrightarrow> k = key e \<or> has t k)"
proof (cases "has t (key e)")
  case True
  then have "put t e = Some (-1, t)" by (rule put_present [OF assms(1,2)])
  with True assms show ?thesis by auto
next
  case False
  from put_absent [OF assms(1,2) this assms(3)] obtain r t' where
    "put t e = Some (r, t')" "inv t'" "Suc (room t') = room t"
    "\<forall>k. has t' k \<longleftrightarrow> k = key e \<or> has t k" by blast
  then show ?thesis by auto
qed

lemma put_all_has:
  "inv t \<Longrightarrow> \<forall>e\<in>set es. proper e \<Longrightarrow> length es \<le> room t \<Longrightarrow>
    \<exists>t'. put_all put t es = Some t' \<and> inv t' \<and>
      (\<forall>k. has t' k \<longleftrightarrow> k \<in> key ` set es \<or> has t k)"
proof (induction es arbitrary: t)
  case (Cons e es)
  from Cons.prems have "inv t" "proper e" "0 < room t" by auto
  then obtain r t' where put: "put t e = Some (r, t')" "inv t'" "room t \<le> Suc (room t')"
    and has: "\<forall>k. has t' k \<longleftrightarrow> k = key e \<or> has t k"
    using put_step by blast
  from Cons.prems put(3) have "\<forall>e\<in>set es. proper e" "length es \<le> room t'" by auto
  from Cons.IH [OF put(2) this] obtain t'' where "put_all put t' es = Some t''" "inv t''"
    "\<forall>k. has t'' k \<longleftrightarrow> k \<in> key ` set es \<or> has t' k"
    by blast
  with put(1) has show ?case by auto
qed simp

lemma put_all_find:
  assumes "inv t" "\<forall>e\<in>set es. proper e" "length es \<le> room t"
  shows "\<exists>t'. put_all put t es = Some t' \<and> (\<forall>e\<in>set es. \<exists>i\<ge>0. find t' (key e) = Some i)"
proof -
  from put_all_has [OF assms] obtain t' where "put_all put t es = Some t'" and inv: "inv t'"
    and has: "\<forall>k. has t' k \<longleftrightarrow> k \<in> key ` set es \<or> has t k" by blast
  moreover have "\<exists>i\<ge>0. find t' (key e) = Some i" if "e \<in> set es" for e
    by (rule find_has [OF inv]) (simp add: has that)
  ultimately show ?thesis by auto
qed

end

definition tab_has :: "hash_table \<Rightarrow> u16 \<Rightarrow> bool" where
  "tab_has t n \<longleftrightarrow> (\<exists>k. stored t n k)"

interpretation enc: registry tab_ok "\<lambda>t. card (free_slots t)" tab_has ed_i_num
  "\<lambda>v. ed_i_num v \<noteq> 0" "\<lambda>t v. add_func t (Some v)" search_func
proof
  fix t :: hash_table and v :: e_dir
  assume "tab_ok t" and v: "ed_i_num v \<noteq> 0" and "\<not> tab_has t (ed_i_num v)"
    and "0 < card (free_slots t)"
  then have absent: "\<And>k. \<not> stored t (ed_i_num v) k" and "free_slots t \<noteq> {}"
    by (auto simp: tab_has_def card_gt_0_iff)
  then obtain k where k: "add_func t (Some v) = Some (int k, t(k := v))" "k \<in> free_slots t"
    "\<And>e. e < disp (ed_i_num v) k \<Longrightarrow> \<not> stop_at t (ed_i_num v) e"
    using add_func_absent [OF v absent] by blast
  have "tab_ok (t(k := v))"
    using \<open>tab_ok t\<close> v k by (intro tab_ok_add) auto
  moreover have "Suc (card (free_slots (t(k := v)))) = card (free_slots t)"
    using v k(2) by (simp add: free_slots_upd card_Suc_Diff1 del: card_Diff_insert)
  ultimately show "\<exists>r t'. add_func t (Some v) = Some (r, t') \<and> tab_ok t' \<and>
      Suc (card (free_slots t')) = card (free_slots t) \<and>
      (\<forall>k. tab_has t' k \<longleftrightarrow> k = ed_i_num v \<or> tab_has t k)"
    using k(1,2) v by (auto simp: tab_has_def stored_upd_free)
next
  fix t :: hash_table and v :: e_dir
  assume "tab_ok t" "tab_has t (ed_i_num v)"
  then show "add_func t (Some v) = Some (-1, t)"
    by (auto simp: tab_has_def add_func_present)
next
  fix t n
  assume "tab_ok t" "tab_has t n"
  then show "\<exists>i\<ge>0. search_func t n = Some i"
    by (auto simp: tab_has_def search_func_stored)
qed

section \<open>Removal\<close>

definition entries :: "hash_table \<Rightarrow> (u16 \<times> cbuf) set" where
  "entries t = {(ed_i_num (t k), ed_h_key (t k)) | k. k < TABLE_SIZE \<and> ed_i_num (t k) \<noteq> 0}"

lemma entries_stored: "(n, h) \<in> entries t \<longleftrightarrow> (\<exists>k. stored t n k \<and> ed_h_key (t k) = h)"
  by (auto simp: entries_def stored_def)

text \<open>Total probe distance of the entries: what re-adding an entry can only decrease.\<close>

definition spread :: "hash_table \<Rightarrow> nat" where
  "spread t = (\<Sum>k<TABLE_SIZE. if ed_i_num (t k) = 0 then 0 else disp (ed_i_num (t k)) k)"

lemma spread_move:
  assumes "k < 61" "j < 61" "k \<noteq> j" and "ed_i_num (t k) = 0" and "ed_i_num (t j) \<noteq> 0"
    and "disp (ed_i_num (t j)) k < disp (ed_i_num (t j)) j"
  shows "spread ((clear_slot t j)(k := t j)) < spread t"
proof -
  let ?w = "\<lambda>t k. if ed_i_num (t k) = 0 then 0 else disp (ed_i_num (t k)) k"
  let ?t = "(clear_slot t j)(k := t j)" and ?R = "{..<61} - {k} - {j}"
  have split: "sum f {..<61} = f k + (f j + sum f ?R)" for f :: "nat \<Rightarrow> nat"
    using assms by (subst sum.remove [of _ k], simp, simp, subst sum.remove [of _ j]) auto
  have "sum (?w ?t) ?R = sum (?w t) ?R"
    by (rule sum.cong) (auto simp: clear_slot_def)
  then show ?thesis
    unfolding spread_def using assms by (simp only: split) (simp add: clear_slot_def)
qed

lemma readd_step:
  assumes dis: "distinct_tab t" and j: "j < 61" and occ: "ed_i_num (t j) \<noteq> 0"
  obtains r t' where "add_func (clear_slot t j) (Some (t j)) = Some (r, t')"
    and "t' = t \<or> spread t' < spread t \<and> ed_i_num (t' j) = 0"
    and "distinct_tab t'" and "entries t' = entries t"
proof -
  let ?t1 = "clear_slot t j" and ?m = "ed_i_num (t j)"
  have absent: "\<not> stored ?t1 ?m k" for k
    using dis j occ by (auto simp: stored_def clear_slot_def distinct_tab_def)
  have "j \<in> free_slots ?t1" using j by (simp add: free_slots_def clear_slot_def)
  from add_func_absent [OF occ absent this] obtain k where
    add: "add_func ?t1 (Some (t j)) = Some (int k, ?t1(k := t j))" and k: "k \<in> free_slots ?t1"
    and le: "disp ?m k \<le> disp ?m j" by blast
  show ?thesis
  proof (cases "k = j")
    case True
    then have "?t1(k := t j) = t" by (simp add: clear_slot_def)
    with add dis show ?thesis by (intro that [of "int k" t]) auto
  next
    case False
    with k have k': "k < 61" "ed_i_num (t k) = 0"
      by (auto simp: free_slots_def clear_slot_def)
    let ?t' = "?t1(k := t j)"
    have st: "stored ?t' n i \<longleftrightarrow> (if i = k then n = ?m \<and> n \<noteq> 0 else i \<noteq> j \<and> stored t n i)" for n i
      using k' j occ False by (auto simp: stored_def clear_slot_def)
    have jst: "stored t ?m j" using j occ by (simp add: stored_def)
    have "disp ?m k \<noteq> disp ?m j"
      using False k' j by (metis HASH_probe_disp)
    with le have "spread ?t' < spread t"
      using k' j occ False by (intro spread_move) auto
    moreover have "distinct_tab ?t'"
      unfolding distinct_tab_def
    proof (intro allI impI)
      fix n a b
      assume "stored ?t' n a \<and> stored ?t' n b"
      then show "a = b"
        unfolding st using dis jst by (auto simp: distinct_tab_def split: if_splits)
    qed
    moreover have "entries ?t' = entries t"
    proof (rule set_eqI, clarify)
      fix n h
      have "\<not> stored t n k" using k' by (simp add: stored_def)
      then show "(n, h) \<in> entries ?t' \<longleftrightarrow> (n, h) \<in> entries t"
        unfolding entries_stored st
        using False jst dis occ
        by (auto simp: clear_slot_def distinct_tab_def) (metis stored_def)+
    qed
    ultimately show ?thesis
      using add False by (intro that [of "int k" ?t']) (auto simp: clear_slot_def)
  qed
qed

lemma remove_loop_found:
  assumes "distinct_tab t" and "ed_i_num (t (HASH_probe n (j + s))) = 0"
  shows "\<exists>t'. remove_loop hk n t (Suc j) (HASH_probe n j) True = Some (SUCC_RM, t') \<and>
    distinct_tab t' \<and> entries t' = entries t"
  using assms
proof (induction "spread t" arbitrary: t j s rule: less_induct)
  case (less t)
  note outer = less.hyps
  from less.prems show ?case
  proof (induction s arbitrary: j)
    case 0
    then show ?case by (subst remove_loop.simps) simp
  next
    case (Suc s)
    let ?k = "HASH_probe n j"
    show ?case
    proof (cases "ed_i_num (t ?k) = 0")
      case True
      then show ?thesis using Suc.prems by (subst remove_loop.simps) simp
    next
      case False
      obtain r t' where add: "add_func (clear_slot t ?k) (Some (t ?k)) = Some (r, t')"
        and t': "t' = t \<or> spread t' < spread t \<and> ed_i_num (t' ?k) = 0"
        and ok: "distinct_tab t'" "entries t' = entries t"
        using readd_step [OF Suc.prems(1) _ False] by auto
      have step: "remove_loop hk n t (Suc j) ?k True =
          remove_loop hk n t' (Suc (Suc j)) (HASH_probe n (Suc j)) True"
        using False add by (subst remove_loop.simps) simp
      from t' show ?thesis
      proof
        assume "t' = t"
        then show ?thesis unfolding step using Suc.IH [of "Suc j"] Suc.prems by simp
      next
        assume sp: "spread t' < spread t \<and> ed_i_num (t' ?k) = 0"
        have "ed_i_num (t' (HASH_probe n (Suc j + 60))) = 0"
          using sp HASH_probe_cycle [of n j] by (simp add: add.commute)
        with outer [of t' "Suc j" 60] sp ok
        show ?thesis unfolding step by simp
      qed
    qed
  qed
qed

lemma remove_loop_seek:
  "(\<And>e. e < d \<Longrightarrow> \<not> stop_at t n (j + e)) \<Longrightarrow>
    remove_loop hk n t (Suc j) (HASH_probe n j) False =
    remove_loop hk n t (Suc (j + d)) (HASH_probe n (j + d)) False"
proof (induction d arbitrary: j)
  case (Suc d)
  have "\<not> stop_at t n j" using Suc.prems [of 0] by simp
  then have "remove_loop hk n t (Suc j) (HASH_probe n j) False =
      remove_loop hk n t (Suc (Suc j)) (HASH_probe n (Suc j)) False"
    by (subst remove_loop.simps) (simp add: stop_at_def)
  also have "\<dots> = remove_loop hk n t (Suc (Suc j + d)) (HASH_probe n (Suc j + d)) False"
    by (rule Suc.IH) (metis Suc.prems Suc_less_eq add_Suc_shift)
  finally show ?case by simp
qed simp

lemma remove_func_seek:
  assumes "tab_ok t" and "stored t n k"
  shows "remove_func hk t n =
    (if compare_hash hk (ed_h_key (t k)) = - EINVAL then Some (- EINVAL, t)
     else remove_loop hk n (clear_slot t k) (Suc (disp n k + 2)) (HASH_probe n (disp n k + 2)) True)"
proof -
  let ?d = "disp n k"
  have "remove_func hk t n = remove_loop hk n t (Suc (0 + ?d)) (HASH_probe n (0 + ?d)) False"
    unfolding remove_func_def One_nat_def
    using assms by (intro remove_loop_seek) (auto simp: tab_ok_def)
  moreover have "HASH_probe n ?d = k" using assms(2) by (simp add: stored_def HASH_probe_disp)
  ultimately show ?thesis
    using assms(2) by (subst (asm) remove_loop.simps) (simp add: stored_def)
qed

lemma compare_hash_cases: "compare_hash h g = 1 \<or> compare_hash h g = - EINVAL"
  by (simp add: compare_hash_def)

lemma compare_hash_refl [simp]: "compare_hash h h = 1"
  by (simp add: compare_hash_def list_all_iff)

lemma clear_slot_entries:
  assumes "distinct_tab t" "stored t n k"
  shows "entries (clear_slot t k) = entries t - {(n, ed_h_key (t k))}"
    and "distinct_tab (clear_slot t k)" and "k \<in> free_slots (clear_slot t k)"
proof -
  have st: "stored (clear_slot t k) m i \<longleftrightarrow> i \<noteq> k \<and> stored t m i" for m i
    by (auto simp: stored_def clear_slot_def)
  show "entries (clear_slot t k) = entries t - {(n, ed_h_key (t k))}"
  proof (rule set_eqI, clarify)
    fix m h
    have one: "stored t m i \<Longrightarrow> m = n \<longleftrightarrow> i = k" for i
      using assms by (auto simp: distinct_tab_def stored_def)
    have "ed_h_key (clear_slot t k i) = ed_h_key (t i)" for i
      by (simp add: clear_slot_def)
    then show "(m, h) \<in> entries (clear_slot t k) \<longleftrightarrow> (m, h) \<in> entries t - {(n, ed_h_key (t k))}"
      using one by (auto simp: entries_stored st)
  qed
  show "distinct_tab (clear_slot t k)"
    using assms(1) by (simp add: distinct_tab_def st) blast
  show "k \<in> free_slots (clear_slot t k)"
    using assms(2) by (simp add: free_slots_def clear_slot_def stored_def)
qed

lemma remove_func_absent:
  assumes "n \<noteq> 0" "\<And>k. \<not> stored t n k" "free_slots t \<noteq> {}"
  shows "remove_func hk t n = Some (ERR_RM, t)"
proof -
  from assms(3) obtain k where "k < 61" "ed_i_num (t k) = 0"
    by (auto simp: free_slots_def)
  with first_stop [of k t n] obtain d where d: "stop_at t n d" "\<And>e. e < d \<Longrightarrow> \<not> stop_at t n e"
    by blast
  have "remove_func hk t n = remove_loop hk n t (Suc (0 + d)) (HASH_probe n (0 + d)) False"
    unfolding remove_func_def One_nat_def by (rule remove_loop_seek) (simp add: d)
  moreover have "ed_i_num (t (HASH_probe n d)) = 0"
    using d(1) assms(1,2) by (auto simp: stop_at_def stored_def)
  ultimately show ?thesis
    by (subst (asm) remove_loop.simps) simp
qed

lemma remove_func_stored:
  assumes ok: "tab_ok t" and st: "stored t n k" and key: "compare_hash hk (ed_h_key (t k)) = 1"
  shows "\<exists>t'. remove_func hk t n = Some (SUCC_RM, t') \<and> distinct_tab t' \<and>
    entries t' = entries t - {(n, ed_h_key (t k))}"
proof -
  let ?t = "clear_slot t k" and ?j = "disp n k + 2"
  note dis = tab_ok_distinct [OF ok]
  have k: "k < 61" using st by (simp add: stored_def)
  have "HASH_probe n (?j + 59) = k"
    using HASH_probe_cycle [of n "disp n k"] HASH_probe_disp [OF k, of n] by (simp add: ac_simps)
  then have "ed_i_num (?t (HASH_probe n (?j + 59))) = 0" by (simp add: clear_slot_def)
  with remove_loop_found [of ?t n ?j 59 hk] clear_slot_entries [OF dis st] key
  show ?thesis by (simp add: remove_func_seek [OF ok st])
qed

section \<open>Properties\<close>

text \<open>Sample tables: an empty one, and one with the colliding inodes 31 and 61.\<close>

definition empty_table :: "cbuf \<Rightarrow> hash_table" where
  "empty_table h = (\<lambda>_. \<lparr>ed_i_num = 0, ed_h_key = h\<rparr>)"

definition pair_table :: "cbuf \<Rightarrow> hash_table" where
  "pair_table h = (empty_table h)(1 := \<lparr>ed_i_num = 31, ed_h_key = h\<rparr>, 2 := \<lparr>ed_i_num = 61, ed_h_key = h\<rparr>)"

lemma empty_table_ok [simp]: "tab_ok (empty_table h)" "free_slots (empty_table h) = {..<61}"
  "\<not> stored (empty_table h) n k"
  by (auto simp: tab_ok_def stored_def empty_table_def free_slots_def)

lemma pair_table_stored:
  "stored (pair_table h) n k \<longleftrightarrow> n = 31 \<and> k = 1 \<or> n = 61 \<and> k = 2"
  by (auto simp: stored_def pair_table_def empty_table_def split: if_splits)

lemma pair_home [simp]: "HASH_probe 31 e = Suc e mod 61" "HASH_probe 61 e = Suc e mod 61"
proof -
  have "HASH_probe 31 e = (61 + Suc e) mod 61" by (simp add: HASH_probe_def)
  then show "HASH_probe 31 e = Suc e mod 61" by (simp only: mod_add_self1)
  show "HASH_probe 61 e = Suc e mod 61" by (simp add: HASH_probe_def)
qed

lemma pair_disp [simp]: "disp 31 (Suc 0) = 0" "disp 61 2 = Suc 0" "disp 61 (Suc (Suc 0)) = Suc 0"
  by (simp_all add: disp_def home_def)

definition some_hash :: cbuf where
  "some_hash = (\<lambda>_. 65)"

lemma pair_table_ok [simp]: "tab_ok (pair_table h)"
  by (auto simp: tab_ok_def pair_table_stored stop_at_def) (auto simp: pair_table_def)

text \<open>
  Every branch of the lookup in a well-formed table: the slot of a registered file, -1 for
  an unregistered one while a slot is free, and no answer at all once the table is full.
\<close>

theorem search_func_spec:
  assumes "tab_ok t" and "n \<noteq> 0"
  shows "(\<forall>k. stored t n k \<longrightarrow> search_func t n = Some (int k)) \<and>
    ((\<nexists>k. stored t n k) \<and> free_slots t \<noteq> {} \<longrightarrow> search_func t n = Some ERR_NOT_FND) \<and>
    ((\<nexists>k. stored t n k) \<and> free_slots t = {} \<longrightarrow> search_func t n = None)"
  using assms search_func_stored [of t n] search_func_absent [of n t] search_func_full [of n t]
  by blast

theorem search_func_spec_witness:
  "search_func (pair_table some_hash) 61 = Some 2 \<and> search_func (empty_table some_hash) 61 = Some (-1)"
proof -
  have "stored (pair_table some_hash) 61 2" by (simp add: pair_table_stored)
  then have "search_func (pair_table some_hash) 61 = Some (int 2)"
    using search_func_spec [of "pair_table some_hash" 61] by simp
  moreover have "search_func (empty_table some_hash) 61 = Some (-1)"
    using search_func_spec [of "empty_table some_hash" 61] by (simp add: lessThan_empty_iff)
  ultimately show ?thesis by simp
qed

text \<open>
  Every branch of an insertion into a well-formed table: a new file gets a free slot and the
  table stays well formed, a registered file is answered with \<^verbatim>\<open>ERR_ALR_ENC\<close>, and inserting a new
  file into a full table never returns.
\<close>

theorem add_func_spec:
  assumes "tab_ok t" and "ed_i_num v \<noteq> 0"
  shows "((\<nexists>k. stored t (ed_i_num v) k) \<and> free_slots t \<noteq> {} \<longrightarrow>
      (\<exists>k\<in>free_slots t. add_func t (Some v) = Some (int k, t(k := v)) \<and> tab_ok (t(k := v)))) \<and>
    ((\<exists>k. stored t (ed_i_num v) k) \<longrightarrow> add_func t (Some v) = Some (ERR_ALR_ENC, t)) \<and>
    ((\<nexists>k. stored t (ed_i_num v) k) \<and> free_slots t = {} \<longrightarrow> add_func t (Some v) = None)"
proof (intro conjI impI)
  assume new: "(\<nexists>k. stored t (ed_i_num v) k) \<and> free_slots t \<noteq> {}"
  then obtain f where "f \<in> free_slots t" by blast
  with add_func_absent [OF assms(2)] new obtain k where
    "add_func t (Some v) = Some (int k, t(k := v))" "k \<in> free_slots t"
    "\<And>e. e < disp (ed_i_num v) k \<Longrightarrow> \<not> stop_at t (ed_i_num v) e" by metis
  with tab_ok_add [OF assms(1) refl assms(2)]
  show "\<exists>k\<in>free_slots t. add_func t (Some v) = Some (int k, t(k := v)) \<and> tab_ok (t(k := v))"
    by blast
next
  assume "\<exists>k. stored t (ed_i_num v) k"
  then show "add_func t (Some v) = Some (ERR_ALR_ENC, t)"
    using add_func_present [OF assms(1)] by blast
next
  assume "(\<nexists>k. stored t (ed_i_num v) k) \<and> free_slots t = {}"
  then show "add_func t (Some v) = None"
    using add_func_full [OF assms(2)] by blast
qed

theorem add_func_spec_witness:
  "add_func (pair_table some_hash) (Some \<lparr>ed_i_num = 31, ed_h_key = some_hash\<rparr>) = Some (ERR_ALR_ENC, pair_table some_hash)"
proof -
  have "\<exists>k. stored (pair_table some_hash) 31 k" by (auto simp: pair_table_stored)
  then show ?thesis
    using add_func_spec [of "pair_table some_hash" "\<lparr>ed_i_num = 31, ed_h_key = some_hash\<rparr>"] by simp
qed

text \<open>
  C5: Registering any list of files, no more than there are free slots, succeeds one file after
  the other, and every one of them is found afterwards.
\<close>

theorem registered_files_found:
  assumes "tab_ok t" and "\<forall>v\<in>set vs. ed_i_num v \<noteq> 0" and "length vs \<le> card (free_slots t)"
  shows "\<exists>t'. put_all (\<lambda>t v. add_func t (Some v)) t vs = Some t' \<and>
    (\<forall>v\<in>set vs. \<exists>i\<ge>0. search_func t' (ed_i_num v) = Some i)"
  using assms by (rule enc.put_all_find)

theorem registered_files_found_witness:
  "\<exists>t'. put_all (\<lambda>t v. add_func t (Some v)) (empty_table some_hash)
      [\<lparr>ed_i_num = 31, ed_h_key = some_hash\<rparr>, \<lparr>ed_i_num = 61, ed_h_key = some_hash\<rparr>] = Some t' \<and>
    (\<exists>i\<ge>0. search_func t' 61 = Some i)"
  using registered_files_found [of "empty_table some_hash"
    "[\<lparr>ed_i_num = 31, ed_h_key = some_hash\<rparr>, \<lparr>ed_i_num = 61, ed_h_key = some_hash\<rparr>]"] by auto

text \<open>
  Removing a registered file from a well-formed table returns; with the wrong key hash it
  answers \<^verbatim>\<open>-EINVAL\<close> and changes nothing, with the right one exactly that file's entry is gone
  from the stored entries, whatever the re-adding loop moved.
\<close>

theorem remove_func_spec:
  assumes "tab_ok t" and "stored t n k"
  shows "(compare_hash hk (ed_h_key (t k)) = 1 \<longrightarrow>
      (\<exists>t'. remove_func hk t n = Some (SUCC_RM, t') \<and> distinct_tab t' \<and>
        entries t' = entries t - {(n, ed_h_key (t k))})) \<and>
    (compare_hash hk (ed_h_key (t k)) \<noteq> 1 \<longrightarrow> remove_func hk t n = Some (- EINVAL, t))"
  using remove_func_stored [OF assms, of hk] remove_func_seek [OF assms, of hk]
    compare_hash_cases [of hk "ed_h_key (t k)"] by auto

theorem remove_func_spec_witness:
  "\<exists>t'. remove_func some_hash (pair_table some_hash) 31 = Some (SUCC_RM, t') \<and> entries t' = {(61, some_hash)}"
proof -
  have st: "stored (pair_table some_hash) 31 1" by (simp add: pair_table_stored)
  have "entries (pair_table some_hash) = {(31, some_hash), (61, some_hash)}"
    by (auto simp: entries_stored pair_table_stored) (auto simp: pair_table_def)
  moreover have "ed_h_key (pair_table some_hash 1) = some_hash" by (simp add: pair_table_def)
  ultimately show ?thesis
    using remove_func_spec [OF pair_table_ok st, of some_hash] by auto
qed

text \<open>
  C12: The removal skips the slot right behind the removed one (it computes the next index
  twice): an entry displaced to that slot, with a free slot after it, stays in the table but is
  no longer found, so its file can never be decrypted again.
\<close>

theorem remove_func_strands:
  assumes ok: "tab_ok t" and st: "stored t n k" and key: "compare_hash hk (ed_h_key (t k)) = 1"
    and nb: "stored t m ((k + 1) mod TABLE_SIZE)" and moved: "0 < disp m ((k + 1) mod TABLE_SIZE)"
    and gap: "ed_i_num (t ((k + 2) mod TABLE_SIZE)) = 0"
  shows "\<exists>t'. remove_func hk t n = Some (SUCC_RM, t') \<and> stored t' m ((k + 1) mod TABLE_SIZE) \<and>
    search_func t' m = Some ERR_NOT_FND"
proof -
  let ?t = "clear_slot t k"
  have k: "k < 61" using st by (simp add: stored_def)
  have P: "HASH_probe n (disp n k + e) = (k + e) mod 61" for e
    using HASH_probe_step [of n "disp n k" e] HASH_probe_disp [OF k, of n] by simp
  have "(k + 2) mod 61 \<noteq> k" by (rule shift_ne [OF k]) simp_all
  then have "ed_i_num (?t (HASH_probe n (disp n k + 2))) = 0"
    using gap P [of 2] by (simp add: clear_slot_def)
  then have rm: "remove_func hk t n = Some (SUCC_RM, ?t)"
    unfolding remove_func_seek [OF ok st] using key by (subst remove_loop.simps) simp
  have ne: "(k + 1) mod 61 \<noteq> k" by (rule shift_ne [OF k]) simp_all
  with nb have st': "stored ?t m ((k + 1) mod 61)" by (simp add: stored_def clear_slot_def)
  obtain d where d: "disp m ((k + 1) mod 61) = Suc d" using moved by (metis gr0_implies_Suc)
  have "HASH_probe m (Suc d) = (k + 1) mod 61"
    using HASH_probe_disp [of "(k + 1) mod 61" m] d by simp
  then have "(HASH_probe m d + 1) mod 61 = (k + 1) mod 61"
    using HASH_probe_step [of m d 1] by simp
  then have hd: "HASH_probe m d = k"
    using k HASH_probe_lt [of m d] by (auto simp: mod_Suc split: if_splits)
  have "m \<noteq> 0" using nb by (simp add: stored_def)
  have "stop_at ?t m (0 + d)" by (simp add: stop_at_def hd clear_slot_def)
  moreover have "\<not> stop_at ?t m (0 + e)" if "e < d" for e
  proof -
    have "e < disp m ((k + 1) mod 61)" using d that by simp
    with ok nb have "\<not> stop_at t m e" by (simp add: tab_ok_def)
    moreover have "HASH_probe m e \<noteq> k"
      using that d hd disp_lt [of m "(k + 1) mod 61"] HASH_probe_inj [of e d m] by auto
    ultimately show ?thesis by (simp add: stop_at_def clear_slot_def)
  qed
  ultimately have "search_probe ?t m 0 = Some (if ed_i_num (?t (HASH_probe m (0 + d))) = m
           then int (HASH_probe m (0 + d)) else ERR_NOT_FND)"
    by (rule search_probe_first)
  then have "search_func ?t m = Some ERR_NOT_FND"
    using \<open>m \<noteq> 0\<close> by (simp add: search_func_def hd clear_slot_def)
  with rm st' show ?thesis by blast
qed

theorem remove_func_strands_witness:
  "\<exists>t'. remove_func some_hash (pair_table some_hash) 31 = Some (SUCC_RM, t') \<and> stored t' 61 2 \<and>
    search_func t' 61 = Some ERR_NOT_FND"
proof -
  have "stored (pair_table some_hash) 31 1" "stored (pair_table some_hash) 61 ((1 + 1) mod TABLE_SIZE)"
    by (simp_all add: pair_table_stored)
  moreover have "compare_hash some_hash (ed_h_key (pair_table some_hash 1)) = 1" by (simp add: pair_table_def)
  moreover have "0 < disp 61 ((1 + 1) mod TABLE_SIZE)" by simp
  moreover have "ed_i_num (pair_table some_hash ((1 + 2) mod TABLE_SIZE)) = 0"
    by (simp add: pair_table_def empty_table_def)
  ultimately show ?thesis
    using remove_func_strands [of "pair_table some_hash" 31 1 some_hash 61] by (simp add: numeral_2_eq_2)
qed

section \<open>Key hashes are weak\<close>

lemma hash_loop_cong:
  assumes "\<And>i. s ! (i mod length s) = s' ! (i mod length s')"
  shows "hash_loop s i left h d = hash_loop s' i left h d"
  by (induction left arbitrary: i h d) (simp_all add: hash_step_def assms Let_def)

lemma hash_loop_outside: "j < i \<Longrightarrow> hash_loop s i left h d j = d j"
  by (induction left arbitrary: i h d) (simp_all add: Let_def)

lemma hash_loop_inside: "i \<le> j \<Longrightarrow> j < i + left \<Longrightarrow> \<exists>g. hash_loop s i left h d j = hash_char g"
proof (induction left arbitrary: i h d)
  case (Suc left)
  show ?case
  proof (cases "j = i")
    case True
    then show ?thesis by (auto simp: Let_def hash_loop_outside)
  next
    case False
    with Suc show ?thesis by (simp add: Let_def)
  qed
qed simp

lemma unat_hash_char: "unat (hash_char g) = 65 + unat (g mod 25)" "unat (g mod 25) < 25"
proof -
  show lt: "unat (g mod 25) < 25" by (simp add: unat_mod)
  have "unat (ucast (g mod 25) :: byte) = unat (g mod 25)"
    using lt by (simp add: unsigned_ucast_eq take_bit_eq_mod)
  then show "unat (hash_char g) = 65 + unat (g mod 25)"
    using lt by (simp add: hash_char_def unat_word_ariths)
qed

text \<open>
  A key and its repetition have the same hash, because the hash runs over \<^verbatim>\<open>str[i%l]\<close>: the
  stored hash cannot tell the key \<^verbatim>\<open>ab\<close> from \<^verbatim>\<open>abab\<close>.
\<close>

theorem hash_of_doubled_key: "hash (key @ key) dest len = hash key dest len"
proof -
  have "(key @ key) ! (i mod length (key @ key)) = key ! (i mod length key)" if "key \<noteq> []" for i
  proof -
    let ?l = "length key" and ?x = "i mod (2 * length key)"
    have "?x mod ?l = i mod ?l" by (simp add: mod_mod_cancel)
    moreover have "?x < 2 * ?l" using that by simp
    moreover have "(key @ key) ! x = key ! (x mod ?l)" if "x < 2 * ?l" for x
      using that by (cases "x < ?l") (simp_all add: nth_append le_mod_geq)
    ultimately show ?thesis by (simp add: mult_2 [symmetric])
  qed
  then show ?thesis
    by (cases "key = []") (auto simp: hash_def intro!: hash_loop_cong)
qed

text \<open>
  The hash of a non-empty key fills exactly the requested bytes, each with a letter from
  \<^verbatim>\<open>A\<close> to \<^verbatim>\<open>Y\<close>, and leaves the memory behind them alone.
\<close>

theorem hash_letters:
  assumes "key \<noteq> []"
  shows "\<exists>d. hash key dest len = Some d \<and> (\<forall>i<len. 65 \<le> unat (d i) \<and> unat (d i) \<le> 89) \<and>
    (\<forall>i\<ge>len. d i = dest i)"
proof -
  have out: "hash_loop key i left h d j = d j" if "i + left \<le> j" for i left h d j
    using that by (induction left arbitrary: i h d) (simp_all add: Let_def)
  have "65 \<le> unat (hash_loop key 0 len 5381 dest i) \<and> unat (hash_loop key 0 len 5381 dest i) \<le> 89"
    if "i < len" for i
  proof -
    obtain g where "hash_loop key 0 len 5381 dest i = hash_char g"
      using hash_loop_inside [of 0 i len key 5381 dest] \<open>i < len\<close> by auto
    then show ?thesis using unat_hash_char [of g] by simp
  qed
  with out [of 0 len] assms show ?thesis by (simp add: hash_def)
qed

theorem hash_letters_witness:
  "\<exists>d. hash [97, 98] some_hash HKEY_SIZE = Some d \<and> 65 \<le> unat (d 13) \<and> d 14 = some_hash 14"
  using hash_letters [of "[97, 98]" some_hash HKEY_SIZE] by auto

end
