(* ===== verification/Cipher.thy ===== *)
theory Cipher
  imports Prelude "HOL-Library.Multiset"
begin

text \<open>
  The block cipher of \<^verbatim>\<open>fs/security.c\<close>, \<^verbatim>\<open>encrypt_block\<close> and \<^verbatim>\<open>decrypt_block\<close>: a columnar
  transposition of a 1024-byte block. The block is written into a matrix column by column, the
  columns are ordered by the letters of the key, and the matrix is read back row by row.

  \<open>key_to_use\<close> is the string at that pointer, \<open>b_data\<close> the data of the buffer, \<open>buffer\<close> the
  memory the result is written to, and \<open>stack\<close> what the local array \<^verbatim>\<open>encrypted\<close> (or
  \<^verbatim>\<open>decrypted\<close>) holds before the code writes to it: the code reads one cell it never wrote.
\<close>


section \<open>The code\<close>

text \<open>\<^verbatim>\<open>for(i=0, k=0; i<BLOCK_SIZE; i++, k = (k+col_size)%(BLOCK_SIZE-1)) encrypted[k] = b_data[i]\<close>\<close>

function build_matrix :: "cbuf \<Rightarrow> nat \<Rightarrow> nat \<Rightarrow> nat \<Rightarrow> cbuf \<Rightarrow> cbuf" where
  "build_matrix b_data col_size i k m =
     (if i < BLOCK_SIZE
      then build_matrix b_data col_size (Suc i) ((k + col_size) mod (BLOCK_SIZE - 1)) (m(k := b_data i))
      else m)"
  by pat_completeness auto
termination
  by (relation "measure (\<lambda>(b, c, i, k, m). BLOCK_SIZE - i)") auto

declare build_matrix.simps [simp del]

text \<open>The matrix both routines start from, with the first byte put right afterwards.\<close>

definition block_matrix :: "cbuf \<Rightarrow> nat \<Rightarrow> cbuf \<Rightarrow> cbuf" where
  "block_matrix b_data col_size stack = (build_matrix b_data col_size 0 0 stack)(0 := b_data 0)"

text \<open>The inner sorting loop of \<^verbatim>\<open>encrypt_block\<close>: the key letters and the column pointers move together.\<close>

function encr_pass :: "nat \<Rightarrow> nat \<Rightarrow> int \<Rightarrow> byte list \<Rightarrow> nat list \<Rightarrow> byte list \<times> nat list" where
  "encr_pass i j curr_min key columns =
     (if j < length key
      then (if sint (key ! j) < curr_min
            then encr_pass i (Suc j) (sint (key ! j)) (swap_at i j key) (swap_at i j columns)
            else encr_pass i (Suc j) curr_min key columns)
      else (key, columns))"
  by pat_completeness auto
termination
  by (relation "measure (\<lambda>(i, j, m, key, c). length key - j)") auto

declare encr_pass.simps [simp del]

definition encr_sort :: "byte list \<Rightarrow> nat list \<Rightarrow> byte list \<times> nat list" where
  "encr_sort key columns =
     fold (\<lambda>i (key, columns). encr_pass i i (sint (key ! i)) key columns) [0..<length key] (key, columns)"

text \<open>The loops of \<^verbatim>\<open>decrypt_block\<close>: sorting a copy of the key, then moving the columns back.\<close>

function sort_pass :: "nat \<Rightarrow> nat \<Rightarrow> byte list \<Rightarrow> byte list" where
  "sort_pass i j sorted_key =
     (if j < length sorted_key
      then (if sint (sorted_key ! j) < sint (sorted_key ! i)
            then sort_pass i (Suc j) (swap_at i j sorted_key)
            else sort_pass i (Suc j) sorted_key)
      else sorted_key)"
  by pat_completeness auto
termination
  by (relation "measure (\<lambda>(i, j, key). length key - j)") auto

declare sort_pass.simps [simp del]

definition sort_letters :: "byte list \<Rightarrow> byte list" where
  "sort_letters key = fold (\<lambda>i key. sort_pass i i key) [0..<length key] key"

function decr_pass ::
    "byte list \<Rightarrow> nat \<Rightarrow> nat \<Rightarrow> byte list \<Rightarrow> nat list \<Rightarrow> byte list \<times> nat list" where
  "decr_pass key i j sorted_key columns =
     (if j < length sorted_key
      then (if key ! i = sorted_key ! j
            then decr_pass key i (Suc j) (swap_at i j sorted_key) (swap_at i j columns)
            else decr_pass key i (Suc j) sorted_key columns)
      else (sorted_key, columns))"
  by pat_completeness auto
termination
  by (relation "measure (\<lambda>(k, i, j, key, c). length key - j)") auto

declare decr_pass.simps [simp del]

definition decr_rearrange :: "byte list \<Rightarrow> byte list \<Rightarrow> nat list \<Rightarrow> byte list \<times> nat list" where
  "decr_rearrange key sorted_key columns =
     fold (\<lambda>i (s, c). decr_pass key i i s c) [0..<length key] (sorted_key, columns)"

text \<open>Reading the matrix back: \<^verbatim>\<open>buffer[k++] = *(columns[j]+i)\<close>.\<close>

primrec copy_row :: "cbuf \<Rightarrow> nat \<Rightarrow> nat list \<Rightarrow> nat \<Rightarrow> cbuf \<Rightarrow> cbuf" where
  "copy_row m i [] k buffer = buffer"
| "copy_row m i (col # columns) k buffer = copy_row m i columns (Suc k) (buffer(k := m (col + i)))"

primrec copy_rows :: "cbuf \<Rightarrow> nat list \<Rightarrow> nat \<Rightarrow> nat \<Rightarrow> nat \<Rightarrow> cbuf \<Rightarrow> cbuf" where
  "copy_rows m columns i 0 k buffer = buffer"
| "copy_rows m columns i (Suc left) k buffer =
     copy_rows m columns (Suc i) left (k + length columns) (copy_row m i columns k buffer)"

definition column_pointers :: "nat \<Rightarrow> nat \<Rightarrow> nat list" where
  "column_pointers key_len col_size = map (\<lambda>i. i * col_size) [0..<key_len]"

definition encrypt_block :: "byte list \<Rightarrow> cbuf \<Rightarrow> cbuf \<Rightarrow> cbuf \<Rightarrow> cbuf option" where
  "encrypt_block key_to_use stack b_data buffer =
     (let key_len = length key_to_use; col_size = BLOCK_SIZE div key_len in
      if KEY_SIZE \<le> key_len then overrun ''key[KEY_SIZE]''
      else if key_len = 0 then overrun ''BLOCK_SIZE / key_len''
      else
        let encrypted = block_matrix b_data col_size stack;
            columns = snd (encr_sort key_to_use (column_pointers key_len col_size))
        in Some (copy_rows encrypted columns 0 col_size 0 buffer))"

definition decrypt_block :: "byte list \<Rightarrow> cbuf \<Rightarrow> cbuf \<Rightarrow> cbuf \<Rightarrow> cbuf option" where
  "decrypt_block key_to_use stack b_data buffer =
     (let key_len = length key_to_use; col_size = BLOCK_SIZE div key_len in
      if KEY_SIZE \<le> key_len then overrun ''sorted_key[KEY_SIZE]''
      else if key_len = 0 then overrun ''BLOCK_SIZE/key_len''
      else
        let decrypted = block_matrix b_data col_size stack;
            columns = snd (decr_rearrange key_to_use (sort_letters key_to_use)
                             (column_pointers key_len col_size))
        in Some (copy_rows decrypted columns 0 col_size 0 buffer))"

section \<open>The matrix\<close>

text \<open>
  With \<open>n\<close> columns of \<open>c\<close> bytes, \<open>n * c = 1024\<close>, multiplication by \<open>c\<close> modulo 1023 is undone
  by multiplication by \<open>n\<close>: cell \<open>q\<close> of the matrix comes from byte \<open>q * n mod 1023\<close>. Only
  cell 0 is written twice (by bytes 0 and 1023), and cell 1023 never.
\<close>

definition last_writer :: "nat \<Rightarrow> nat \<Rightarrow> nat" where
  "last_writer n q = (if q = 0 then 1023 else q * n mod 1023)"

lemma mult_1024_mod: "a * 1024 mod 1023 = a mod (1023 :: nat)"
proof -
  have "a * 1024 mod 1023 = a * (1024 mod 1023) mod (1023::nat)" by (simp only: mod_mult_right_eq)
  then show ?thesis by simp
qed

lemma writer_cell:
  assumes "n * c = 1024" and "q < 1023"
  shows "last_writer n q * c mod 1023 = q"
proof (cases "q = 0")
  case True
  then show ?thesis by (simp add: last_writer_def mult.commute)
next
  case False
  have "q * n mod 1023 * c mod 1023 = q * (n * c) mod 1023"
    by (simp add: mod_mult_left_eq mult.assoc)
  also have "\<dots> = q" using assms by (simp add: mult_1024_mod)
  finally show ?thesis using False by (simp add: last_writer_def)
qed

lemma cell_writer:
  assumes "n * c = 1024" and "i * c mod 1023 = q" and "i \<le> 1023"
  shows "i = last_writer n q \<or> i = 0 \<and> q = 0"
proof -
  have "q * n mod 1023 = i * (c * n) mod 1023"
    unfolding assms(2) [symmetric] by (simp add: mod_mult_left_eq mult.assoc)
  also have "\<dots> = i mod 1023" using assms(1) by (simp add: mult.commute [of c n] mult_1024_mod)
  finally have undo: "q * n mod 1023 = i mod 1023" .
  show ?thesis
  proof (cases "i = 1023")
    case True
    then have "q = 0" using assms(2) by (simp add: mult.commute)
    with True show ?thesis by (simp add: last_writer_def)
  next
    case False
    with assms(3) undo have "q * n mod 1023 = i" by simp
    then show ?thesis by (cases "q = 0") (simp_all add: last_writer_def)
  qed
qed

lemma last_writer_le: "last_writer n q \<le> 1023"
  using mod_less_divisor [of 1023 "q * n"] by (simp add: last_writer_def del: mod_less_divisor)

lemma build_matrix_eq:
  assumes nc: "n * c = 1024"
  shows "i \<le> 1024 \<Longrightarrow> k = i * c mod 1023 \<Longrightarrow>
    build_matrix b c i k m q = (if q < 1023 \<and> i \<le> last_writer n q then b (last_writer n q) else m q)"
proof (induction "1024 - i" arbitrary: i k m)
  case 0
  then show ?case using last_writer_le [of n q] by (subst build_matrix.simps) auto
next
  case (Suc d)
  then have i: "i < 1024" by simp
  let ?m = "m(k := b i)"
  have "(k + c) mod 1023 = Suc i * c mod 1023"
    using Suc.prems(2) by (simp add: mod_add_right_eq mod_add_left_eq add.commute)
  then have IH: "build_matrix b c (Suc i) ((k + c) mod 1023) ?m q =
      (if q < 1023 \<and> Suc i \<le> last_writer n q then b (last_writer n q) else ?m q)"
    using Suc.hyps(1) [of "Suc i"] Suc.hyps(2) i by simp
  have unf: "build_matrix b c i k m q = build_matrix b c (Suc i) ((k + c) mod 1023) ?m q"
    using i by (subst build_matrix.simps) simp
  have k: "k < 1023" using Suc.prems(2) by simp
  show ?case
  proof (cases "q = k")
    case True
    have "i = last_writer n k \<or> i = 0 \<and> k = 0"
      using i Suc.prems(2) by (intro cell_writer [OF nc]) auto
    then have "i = last_writer n k \<or> Suc i \<le> last_writer n k"
      by (auto simp: last_writer_def)
    with True k show ?thesis unfolding unf IH by auto
  next
    case False
    have "q < 1023 \<longrightarrow> last_writer n q \<noteq> i"
      using writer_cell [OF nc, of q] False Suc.prems(2) by auto
    with False show ?thesis unfolding unf IH by auto
  qed
qed

lemma block_matrix_eq:
  assumes "n * c = 1024" and "q \<le> 1023"
  shows "block_matrix b c stack q = (if q = 1023 then stack 1023 else b (q * n mod 1023))"
  using assms by (auto simp: block_matrix_def build_matrix_eq [OF assms(1)] last_writer_def)

text \<open>Row \<open>r\<close> of column \<open>s\<close> is byte \<open>r * n + s\<close> of the block, but for the cell never written.\<close>

lemma block_matrix_cell:
  assumes nc: "n * c = 1024" and s: "s < n" and r: "r < c"
  shows "block_matrix b c stack (s * c + r) = (if r * n + s = 1023 then stack 1023 else b (r * n + s))"
proof -
  have q: "s * c + r \<le> 1023" and p: "r * n + s \<le> 1023"
  proof -
    have "s * c + c \<le> n * c" using s by (metis Suc_leI add.commute mult_Suc mult_le_mono1)
    then show "s * c + r \<le> 1023" using nc r by simp
    have "r * n + n \<le> c * n" using r by (metis Suc_leI add.commute mult_Suc mult_le_mono1)
    then show "r * n + s \<le> 1023" using nc s by (simp add: mult.commute [of c n])
  qed
  have "(s * c + r) * n mod 1023 = (s * (c * n) + r * n) mod 1023"
    by (simp add: algebra_simps)
  also have "\<dots> = (s * 1024 mod 1023 + r * n) mod 1023"
    using nc by (simp add: mult.commute [of c n] mod_add_left_eq)
  also have "\<dots> = (r * n + s) mod 1023"
    by (simp add: mult_1024_mod mod_add_left_eq mod_add_right_eq add.commute)
  finally have src: "(s * c + r) * n mod 1023 = (r * n + s) mod 1023" .
  have "s * c + r = 1023 \<longleftrightarrow> r * n + s = 1023"
  proof
    assume "s * c + r = 1023"
    then have "(r * n + s) mod 1023 = 0" using src by simp
    moreover have "r * n + s \<noteq> 0" using \<open>s * c + r = 1023\<close> s by auto
    ultimately show "r * n + s = 1023" using p by (metis le_neq_implies_less mod_less)
  next
    assume "r * n + s = 1023"
    have "(s * c + r) mod 1023 = (r * n + s) * c mod 1023"
    proof -
      have "(r * n + s) * c = r * 1024 + s * c" using nc by (simp add: algebra_simps)
      then show ?thesis by (metis add.commute mod_add_left_eq mult_1024_mod)
    qed
    then have "(s * c + r) mod 1023 = 0" using \<open>r * n + s = 1023\<close> by simp
    moreover have "s * c + r \<noteq> 0" using \<open>r * n + s = 1023\<close> r by auto
    ultimately show "s * c + r = 1023" using q by (metis le_neq_implies_less mod_less)
  qed
  then show ?thesis
    using src p q by (auto simp: block_matrix_eq [OF nc])
qed

section \<open>Reading the matrix back\<close>

lemma copy_row_eq:
  "copy_row m i columns k buffer p =
     (if k \<le> p \<and> p < k + length columns then m (columns ! (p - k) + i) else buffer p)"
proof (induction columns arbitrary: k buffer)
  case (Cons col columns)
  then show ?case by (cases "p = k") (auto simp: nth_Cons' Suc_le_eq)
qed auto

lemma copy_rows_eq:
  assumes "columns \<noteq> []"
  shows "copy_rows m columns i left k buffer p =
     (if k \<le> p \<and> p < k + left * length columns
      then m (columns ! ((p - k) mod length columns) + (i + (p - k) div length columns)) else buffer p)"
proof (induction left arbitrary: i k buffer)
  case (Suc left)
  let ?n = "length columns"
  have n: "0 < ?n" using assms by simp
  show ?case
  proof (cases "k + ?n \<le> p")
    case True
    then have "(p - k) mod ?n = (p - (k + ?n)) mod ?n" "(p - k) div ?n = Suc ((p - (k + ?n)) div ?n)"
      using n by (simp_all add: le_mod_geq le_div_geq)
    with True show ?thesis by (simp add: Suc.IH copy_row_eq)
  next
    case False
    then show ?thesis by (auto simp: Suc.IH copy_row_eq)
  qed
qed auto

section \<open>Exchange sorting, once for both routines\<close>

text \<open>
  What one pass of an exchange sort guarantees: it permutes the array, leaves the cells before
  its position alone and puts a least element (by \<open>key\<close>) at its position.
\<close>

locale exchange_passes =
  fixes pass :: "nat \<Rightarrow> 'a list \<Rightarrow> 'a list" and key :: "'a \<Rightarrow> int"
  assumes pass_mset: "i < length xs \<Longrightarrow> mset (pass i xs) = mset xs"
    and pass_before: "i < length xs \<Longrightarrow> j < i \<Longrightarrow> pass i xs ! j = xs ! j"
    and pass_least: "i \<le> j \<Longrightarrow> j < length xs \<Longrightarrow> key (pass i xs ! i) \<le> key (pass i xs ! j)"
begin

lemma pass_length: "i < length xs \<Longrightarrow> length (pass i xs) = length xs"
  by (rule mset_eq_length) (rule pass_mset)

lemma passes_prefix:
  "m \<le> length xs \<Longrightarrow> mset (fold pass [0..<m] xs) = mset xs \<and>
    (\<forall>a b. a < m \<and> a \<le> b \<and> b < length xs \<longrightarrow>
      key (fold pass [0..<m] xs ! a) \<le> key (fold pass [0..<m] xs ! b))"
proof (induction m)
  case (Suc m)
  let ?old = "fold pass [0..<m] xs" and ?new = "pass m (fold pass [0..<m] xs)"
  have m: "m < length ?old" and len: "length ?old = length xs"
    using Suc by (auto dest: mset_eq_length)
  have IH: "key (?old ! a) \<le> key (?old ! b)" if "a < m" "a \<le> b" "b < length xs" for a b
    using Suc that by auto
  have pre: "take m ?new = take m ?old"
    using m by (intro nth_equalityI) (simp_all add: pass_length pass_before)
  have "mset (take m ?new) + mset (drop m ?new) = mset (take m ?old) + mset (drop m ?old)"
    unfolding mset_append [symmetric] append_take_drop_id by (rule pass_mset [OF m])
  then have "mset (drop m ?new) = mset (drop m ?old)" by (simp add: pre)
  then have rest: "set (drop m ?new) = set (drop m ?old)" by (rule mset_eq_setD)
  have ord: "key (?new ! a) \<le> key (?new ! b)" if ab: "a < Suc m" "a \<le> b" "b < length xs" for a b
  proof (cases "a = m")
    case True
    have "key (?new ! m) \<le> key (?new ! b)" using ab True len by (intro pass_least) auto
    with True show ?thesis by simp
  next
    case False
    with ab have a: "a < m" by simp
    then have na: "?new ! a = ?old ! a" by (rule pass_before [OF m])
    show ?thesis
    proof (cases "b < m")
      case True
      then show ?thesis using IH [of a b] a ab m by (simp add: na pass_before)
    next
      case False
      then have "drop m ?new ! (b - m) \<in> set (drop m ?new)"
        using ab len m by (intro nth_mem) (simp add: pass_length)
      then have "?new ! b \<in> set (drop m ?old)"
        using False ab len m rest by (simp add: pass_length)
      then obtain i where "i < length xs - m" "?new ! b = ?old ! (m + i)"
        using len by (auto simp: in_set_conv_nth)
      then show ?thesis using IH [of a "m + i"] a by (simp add: na)
    qed
  qed
  have "mset ?new = mset xs" using pass_mset [OF m] Suc by simp
  with ord show ?case by simp
qed simp

lemma passes_sorted:
  "mset (fold pass [0..<length xs] xs) = mset xs"
  "sorted (map key (fold pass [0..<length xs] xs))"
proof -
  show ms: "mset (fold pass [0..<length xs] xs) = mset xs"
    using passes_prefix [of "length xs" xs] by simp
  then have "length (fold pass [0..<length xs] xs) = length xs" by (rule mset_eq_length)
  then show "sorted (map key (fold pass [0..<length xs] xs))"
    using passes_prefix [of "length xs" xs] by (auto simp: sorted_iff_nth_mono)
qed

end

lemma mset_swap_at: "i < length xs \<Longrightarrow> j < length xs \<Longrightarrow> mset (swap_at i j xs) = mset xs"
  unfolding swap_at_def by (rule mset_swap)

lemma sort_pass_spec:
  assumes "i < length xs" "i \<le> j" and "\<And>a. i \<le> a \<Longrightarrow> a < j \<Longrightarrow> sint (xs ! i) \<le> sint (xs ! a)"
  shows "mset (sort_pass i j xs) = mset xs \<and> (\<forall>a<i. sort_pass i j xs ! a = xs ! a) \<and>
    (\<forall>a. i \<le> a \<and> a < length xs \<longrightarrow> sint (sort_pass i j xs ! i) \<le> sint (sort_pass i j xs ! a))"
  using assms
proof (induction i j xs rule: sort_pass.induct)
  case (1 i j xs)
  show ?case
  proof (cases "j < length xs")
    case False
    with "1.prems" show ?thesis by (subst (1 2 3 4) sort_pass.simps) auto
  next
    case True
    show ?thesis
    proof (cases "sint (xs ! j) < sint (xs ! i)")
      case less: True
      let ?ys = "swap_at i j xs"
      have ij: "i < j" using less "1.prems"(2) by (metis le_neq_implies_less less_irrefl)
      have ys: "?ys ! a = (if a = j then xs ! i else if a = i then xs ! j else xs ! a)"
        if "a < length xs" for a
        using that True "1.prems"(1) by (intro nth_swap_at)
      have "sint (?ys ! i) \<le> sint (?ys ! a)" if "i \<le> a" "a < Suc j" for a
        using that less ij True "1.prems"(1) "1.prems"(3) [of a] by (auto simp: ys less_Suc_eq)
      then have IH: "mset (sort_pass i (Suc j) ?ys) = mset ?ys \<and>
          (\<forall>a<i. sort_pass i (Suc j) ?ys ! a = ?ys ! a) \<and>
          (\<forall>a. i \<le> a \<and> a < length ?ys \<longrightarrow>
            sint (sort_pass i (Suc j) ?ys ! i) \<le> sint (sort_pass i (Suc j) ?ys ! a))"
        using "1.IH"(1) [OF True less] "1.prems" by simp
      moreover have "sort_pass i j xs = sort_pass i (Suc j) ?ys"
        using True less by (subst sort_pass.simps) simp
      moreover have "?ys ! a = xs ! a" if "a < i" for a
        using that ij True by (simp add: ys)
      ultimately show ?thesis using True "1.prems"(1) by (simp add: mset_swap_at)
    next
      case ge: False
      have "sint (xs ! i) \<le> sint (xs ! a)" if "i \<le> a" "a < Suc j" for a
        using that ge "1.prems"(3) [of a] by (auto simp: less_Suc_eq)
      then show ?thesis
        using "1.IH"(2) [OF True ge] "1.prems" True ge
        by (subst (1 2 3 4) sort_pass.simps) auto
    qed
  qed
qed

interpretation dsort: exchange_passes "\<lambda>i xs. sort_pass i i xs" "sint :: byte \<Rightarrow> int"
proof
  fix i j :: nat and xs :: "byte list"
  have le: "sint (xs ! i) \<le> sint (xs ! a)" if "i \<le> a" "a < i" for a using that by simp
  show "mset (sort_pass i i xs) = mset xs" if "i < length xs"
    using sort_pass_spec [of i xs i] that by auto
  show "sort_pass i i xs ! j = xs ! j" if "i < length xs" "j < i"
    using sort_pass_spec [of i xs i] that by auto
  show "sint (sort_pass i i xs ! i) \<le> sint (sort_pass i i xs ! j)" if "i \<le> j" "j < length xs"
    using sort_pass_spec [of i xs i] that by auto
qed

lemma letters_sorted: "mset (sort_letters key) = mset key" "sorted (map sint (sort_letters key))"
  unfolding sort_letters_def by (rule dsort.passes_sorted)+

section \<open>Where the columns go\<close>

lemma zip_swap_mset:
  "length c = length k \<Longrightarrow> i < length k \<Longrightarrow> j < length k \<Longrightarrow>
    mset (zip (swap_at i j k) (swap_at i j c)) = mset (zip k c)"
  by (simp add: swap_at_zip mset_swap_at)

lemma encr_pass_spec:
  assumes "m = sint (key ! i)" "i \<le> j" "i < length key" "length columns = length key"
  shows "\<exists>c'. encr_pass i j m key columns = (sort_pass i j key, c') \<and> length c' = length key \<and>
    mset (zip (sort_pass i j key) c') = mset (zip key columns)"
  using assms
proof (induction i j m key columns rule: encr_pass.induct)
  case (1 i j m key columns)
  show ?case
  proof (cases "j < length key")
    case False
    with "1.prems" show ?thesis
      by (simp add: encr_pass.simps [of i j] sort_pass.simps [of i j])
  next
    case True
    show ?thesis
    proof (cases "sint (key ! j) < m")
      case less: True
      let ?k = "swap_at i j key" and ?c = "swap_at i j columns"
      have "sint (key ! j) = sint (?k ! i)"
        using less "1.prems" True by (auto simp: nth_swap_at)
      then obtain c' where c': "encr_pass i (Suc j) (sint (key ! j)) ?k ?c = (sort_pass i (Suc j) ?k, c')"
        "length c' = length ?k" "mset (zip (sort_pass i (Suc j) ?k) c') = mset (zip ?k ?c)"
        using "1.IH"(1) [OF True less] "1.prems" by auto
      moreover have "mset (zip ?k ?c) = mset (zip key columns)"
        using "1.prems" True by (intro zip_swap_mset) auto
      ultimately show ?thesis
        using less True "1.prems" by (simp add: encr_pass.simps [of i j] sort_pass.simps [of i j])
    next
      case ge: False
      show ?thesis
        using "1.IH"(2) [OF True ge] "1.prems" True ge
        by (simp add: encr_pass.simps [of i j] sort_pass.simps [of i j])
    qed
  qed
qed

lemma encr_fold:
  "m \<le> length key \<Longrightarrow> length columns = length key \<Longrightarrow>
    \<exists>c'. fold (\<lambda>i (key, columns). encr_pass i i (sint (key ! i)) key columns) [0..<m] (key, columns) =
      (fold (\<lambda>i key. sort_pass i i key) [0..<m] key, c') \<and> length c' = length key \<and>
      mset (zip (fold (\<lambda>i key. sort_pass i i key) [0..<m] key) c') = mset (zip key columns)"
proof (induction m)
  case (Suc m)
  let ?k = "fold (\<lambda>i key. sort_pass i i key) [0..<m] key"
  have len: "length ?k = length key"
    using dsort.passes_prefix [of m key] Suc.prems by (auto dest: mset_eq_length)
  obtain c where c: "fold (\<lambda>i (key, columns). encr_pass i i (sint (key ! i)) key columns) [0..<m]
      (key, columns) = (?k, c)" "length c = length key" "mset (zip ?k c) = mset (zip key columns)"
    using Suc by auto
  then show ?case
    using encr_pass_spec [of "sint (?k ! m)" ?k m m c] len Suc.prems by auto
qed simp

lemma encr_sort_spec:
  assumes "length columns = length key"
  obtains c' where "encr_sort key columns = (sort_letters key, c')" "length c' = length key"
    "mset (zip (sort_letters key) c') = mset (zip key columns)"
  using encr_fold [of "length key" key columns] assms by (auto simp: encr_sort_def sort_letters_def)

lemma decr_pass_spec:
  assumes "i \<le> j" "i < length s" "length c = length s" "distinct s"
    and "s ! i = key ! i \<or> (\<exists>b. j \<le> b \<and> b < length s \<and> s ! b = key ! i)"
  shows "\<exists>s' c'. decr_pass key i j s c = (s', c') \<and> length s' = length s \<and> length c' = length s \<and>
    mset (zip s' c') = mset (zip s c) \<and> s' ! i = key ! i \<and> (\<forall>a<i. s' ! a = s ! a)"
  using assms
proof (induction key i j s c rule: decr_pass.induct)
  case (1 key i j s c)
  show ?case
  proof (cases "j < length s")
    case False
    with "1.prems" show ?thesis by (auto simp: decr_pass.simps [of key i j])
  next
    case True
    show ?thesis
    proof (cases "key ! i = s ! j")
      case hit: True
      let ?s = "swap_at i j s" and ?c = "swap_at i j c"
      have "distinct ?s"
        using mset_swap_at [of i s j] "1.prems" True by (metis mset_eq_imp_distinct_iff)
      moreover have "?s ! i = key ! i"
        using "1.prems" True hit by (cases "i = j") (simp_all add: nth_swap_at)
      ultimately have "\<exists>s' c'. decr_pass key i (Suc j) ?s ?c = (s', c') \<and> length s' = length ?s \<and>
          length c' = length ?s \<and> mset (zip s' c') = mset (zip ?s ?c) \<and> s' ! i = key ! i \<and>
          (\<forall>a<i. s' ! a = ?s ! a)"
        using "1.IH"(1) [OF True hit] "1.prems" by simp
      moreover have "mset (zip ?s ?c) = mset (zip s c)"
        using "1.prems" True by (intro zip_swap_mset) auto
      moreover have "?s ! a = s ! a" if "a < i" for a
        using that "1.prems" True by (simp add: nth_swap_at)
      ultimately show ?thesis
        using True hit by (auto simp: decr_pass.simps [of key i j])
    next
      case miss: False
      have "s ! i = key ! i \<or> (\<exists>b. Suc j \<le> b \<and> b < length s \<and> s ! b = key ! i)"
        using "1.prems"(5) miss by (metis Suc_leI le_neq_implies_less)
      then show ?thesis
        using "1.IH"(2) [OF True miss] "1.prems" True miss
        by (simp add: decr_pass.simps [of key i j])
    qed
  qed
qed

lemma decr_fold:
  assumes key: "distinct key" "mset s = mset key" and c: "length c = length key"
  shows "m \<le> length key \<Longrightarrow>
    \<exists>s' c'. fold (\<lambda>i (s, c). decr_pass key i i s c) [0..<m] (s, c) = (s', c') \<and>
      length s' = length key \<and> length c' = length key \<and> mset (zip s' c') = mset (zip s c) \<and>
      (\<forall>a<m. s' ! a = key ! a)"
proof (induction m)
  case 0
  then show ?case using c key(2) by (auto dest: mset_eq_length)
next
  case (Suc m)
  then obtain s' c' where fold: "fold (\<lambda>i (s, c). decr_pass key i i s c) [0..<m] (s, c) = (s', c')"
    and len: "length s' = length key" "length c' = length key"
    and ms: "mset (zip s' c') = mset (zip s c)" and pre: "\<forall>a<m. s' ! a = key ! a"
    by auto
  have ls: "length s = length key" using key(2) by (rule mset_eq_length)
  have "mset s' = mset (map fst (zip s' c'))" using len by simp
  also have "\<dots> = mset s" using ms c ls by (metis map_fst_zip mset_map)
  finally have mss: "mset s' = mset key" using key(2) by simp
  then have dis: "distinct s'" using key(1) mset_eq_imp_distinct_iff by blast
  have "key ! m \<in> set s'" using mss Suc.prems by (metis Suc_le_lessD nth_mem set_mset_mset)
  then obtain b where b: "b < length s'" "s' ! b = key ! m" by (auto simp: in_set_conv_nth)
  have "m \<le> b"
  proof (rule ccontr)
    assume "\<not> m \<le> b"
    with pre b have "key ! b = key ! m" "b \<noteq> m" by auto
    with key(1) Suc.prems \<open>\<not> m \<le> b\<close> show False by (auto simp: nth_eq_iff_index_eq)
  qed
  with b dis len Suc.prems have "\<exists>s'' c''. decr_pass key m m s' c' = (s'', c'') \<and>
      length s'' = length s' \<and> length c'' = length s' \<and> mset (zip s'' c'') = mset (zip s' c') \<and>
      s'' ! m = key ! m \<and> (\<forall>a<m. s'' ! a = s' ! a)"
    by (intro decr_pass_spec) auto
  then show ?case
    using fold len ms pre by (auto simp: less_Suc_eq)
qed

text \<open>A permutation of the first \<open>n\<close> numbers, as the list of its values.\<close>

definition perm_list :: "nat \<Rightarrow> nat list \<Rightarrow> bool" where
  "perm_list n \<sigma> \<longleftrightarrow> mset \<sigma> = mset [0..<n]"

lemma perm_listD:
  assumes "perm_list n \<sigma>"
  shows "length \<sigma> = n" "distinct \<sigma>" "set \<sigma> = {..<n}" "i < n \<Longrightarrow> \<sigma> ! i < n"
proof -
  show l: "length \<sigma> = n"
    using mset_eq_length [of \<sigma> "[0..<n]"] assms by (simp add: perm_list_def)
  show "distinct \<sigma>" using assms by (metis distinct_upt mset_eq_imp_distinct_iff perm_list_def)
  show st: "set \<sigma> = {..<n}"
    using assms by (metis atLeast0LessThan atLeast_upt mset_eq_setD perm_list_def)
  show "i < n \<Longrightarrow> \<sigma> ! i < n" using l st nth_mem by blast
qed

lemma columns_perm:
  assumes len: "length k = n" "length s = n" "length c' = n" and c: "0 < c"
    and ms: "mset (zip s c') = mset (zip k (column_pointers n c))"
  obtains \<sigma> where "c' = map (\<lambda>t. t * c) \<sigma>" "perm_list n \<sigma>" "\<And>i. i < n \<Longrightarrow> k ! (\<sigma> ! i) = s ! i"
proof -
  let ?\<sigma> = "map (\<lambda>x. x div c) c'"
  have el: "\<exists>t<n. k ! t = s ! i \<and> c' ! i = t * c" if "i < n" for i
  proof -
    have "(s ! i, c' ! i) \<in> set (zip s c')" using that len by (auto simp: set_zip)
    then have "(s ! i, c' ! i) \<in> set (zip k (column_pointers n c))"
      using ms by (metis set_mset_mset)
    then show ?thesis using len(1) by (auto simp: set_zip column_pointers_def)
  qed
  have "mset c' = mset (map snd (zip s c'))" using len by simp
  also have "\<dots> = mset (column_pointers n c)"
    using ms len(1) by (metis column_pointers_def length_map length_upt map_snd_zip minus_nat.diff_0 mset_map)
  finally have "mset ?\<sigma> = mset (map (\<lambda>x. x div c) (column_pointers n c))"
    by (metis mset_map)
  also have "map (\<lambda>x. x div c) (column_pointers n c) = [0..<n]"
    using c by (simp add: column_pointers_def comp_def)
  finally have "perm_list n ?\<sigma>" by (simp add: perm_list_def)
  moreover have "k ! (?\<sigma> ! i) = s ! i \<and> ?\<sigma> ! i * c = c' ! i" if "i < n" for i
    using el [OF that] that c len(3) by auto
  moreover from this have "c' = map (\<lambda>t. t * c) ?\<sigma>"
    using len(3) by (intro nth_equalityI) auto
  ultimately show ?thesis using that by blast
qed

text \<open>
  What a pass through the matrix does to a block: within every row of \<open>n\<close> bytes the columns are
  permuted, and whichever place the last byte of the block goes to receives \<open>junk\<close> instead.
\<close>

definition permuted :: "nat list \<Rightarrow> byte \<Rightarrow> cbuf \<Rightarrow> cbuf" where
  "permuted \<sigma> junk b p =
     (let n = length \<sigma>; s = p div n * n + \<sigma> ! (p mod n) in if s = 1023 then junk else b s)"

lemma mul_add_div: "t < n \<Longrightarrow> (a * n + t) div n = (a::nat)"
  by (subst div_mult_self3) auto

lemma permuted_pair:
  assumes "x < 2" and "y < 2" and "p < 511"
  shows "permuted [x, y] junk b (2 * p) = b (2 * p + x)" "permuted [x, y] junk b (2 * p + 1) = b (2 * p + y)"
proof -
  have "length [x, y] = 2" by simp
  moreover have "2 * p div 2 * 2 + [x, y] ! (2 * p mod 2) = 2 * p + x"
    "(2 * p + 1) div 2 * 2 + [x, y] ! ((2 * p + 1) mod 2) = 2 * p + y" by simp_all
  moreover have "2 * p + x \<noteq> 1023" "2 * p + y \<noteq> 1023" using assms by linarith+
  ultimately show "permuted [x, y] junk b (2 * p) = b (2 * p + x)"
    "permuted [x, y] junk b (2 * p + 1) = b (2 * p + y)"
    unfolding permuted_def Let_def by (metis)+
qed

lemma copy_permuted:
  assumes nc: "n * c = 1024" and perm: "perm_list n \<sigma>" and p: "p < 1024"
  shows "copy_rows (block_matrix b c stack) (map (\<lambda>t. t * c) \<sigma>) 0 c 0 buffer p =
    permuted \<sigma> (stack 1023) b p"
proof -
  have n: "0 < n" and cn: "c * n = 1024" using nc by (auto intro: gr0I simp: mult.commute)
  have l: "length \<sigma> = n" using perm by (rule perm_listD)
  have r: "p div n < c" using p cn n by (simp add: less_mult_imp_div_less)
  have j: "p mod n < n" using n by simp
  have s: "\<sigma> ! (p mod n) < n" using perm_listD(4) [OF perm j] .
  have "copy_rows (block_matrix b c stack) (map (\<lambda>t. t * c) \<sigma>) 0 c 0 buffer p =
      block_matrix b c stack (\<sigma> ! (p mod n) * c + p div n)"
    using n l p cn j by (subst copy_rows_eq) auto
  also have "\<dots> = permuted \<sigma> (stack 1023) b p"
    unfolding block_matrix_cell [OF nc s r] permuted_def l Let_def ..
  finally show ?thesis .
qed

lemma copy_rows_outside:
  "columns \<noteq> [] \<Longrightarrow> left * length columns \<le> p \<Longrightarrow> copy_rows m columns 0 left 0 buffer p = buffer p"
  by (simp add: copy_rows_eq)

definition good_length :: "nat \<Rightarrow> bool" where
  "good_length n \<longleftrightarrow> n \<in> {2, 4, 8, 16}"

lemma good_lengthD:
  "good_length n \<Longrightarrow> n * (1024 div n) = 1024" "good_length n \<Longrightarrow> n < 32"
  "good_length n \<Longrightarrow> 2 \<le> n" "good_length n \<Longrightarrow> 0 < 1024 div n"
  by (auto simp: good_length_def)

lemma encrypt_block_perm:
  assumes "good_length (length key)"
  obtains \<sigma> where "perm_list (length key) \<sigma>"
    "\<And>i. i < length key \<Longrightarrow> key ! (\<sigma> ! i) = sort_letters key ! i"
    "\<And>stack b buffer. \<exists>out. encrypt_block key stack b buffer = Some out \<and>
      (\<forall>p<1024. out p = permuted \<sigma> (stack 1023) b p) \<and> (\<forall>p\<ge>1024. out p = buffer p)"
proof -
  let ?n = "length key" let ?c = "1024 div ?n"
  note good = good_lengthD [OF assms]
  obtain c' where c': "encr_sort key (column_pointers ?n ?c) = (sort_letters key, c')" "length c' = ?n"
    "mset (zip (sort_letters key) c') = mset (zip key (column_pointers ?n ?c))"
    by (rule encr_sort_spec [of "column_pointers ?n ?c" key]) (simp_all add: column_pointers_def)
  have "length (sort_letters key) = ?n" using letters_sorted(1) by (rule mset_eq_length)
  from columns_perm [OF refl this c'(2) good(4) c'(3)] obtain \<sigma> where
    \<sigma>: "c' = map (\<lambda>t. t * ?c) \<sigma>" "perm_list ?n \<sigma>" "\<And>i. i < ?n \<Longrightarrow> key ! (\<sigma> ! i) = sort_letters key ! i"
    by blast
  have "\<exists>out. encrypt_block key stack b buffer = Some out \<and>
      (\<forall>p<1024. out p = permuted \<sigma> (stack 1023) b p) \<and> (\<forall>p\<ge>1024. out p = buffer p)"
    for stack b buffer
  proof -
    have "?c * length c' = 1024" using good(1) c'(2) by (simp add: mult.commute)
    then have "copy_rows (block_matrix b ?c stack) c' 0 ?c 0 buffer p = buffer p" if "1024 \<le> p" for p
      using that c'(2) good(3) by (intro copy_rows_outside) auto
    moreover have "encrypt_block key stack b buffer =
        Some (copy_rows (block_matrix b ?c stack) c' 0 ?c 0 buffer)"
      using good c'(1) by (auto simp: encrypt_block_def Let_def)
    ultimately show ?thesis
      using copy_permuted [OF good(1) \<sigma>(2)] \<sigma>(1) by auto
  qed
  then show ?thesis using that \<sigma>(2,3) by blast
qed

lemma decrypt_block_perm:
  assumes "good_length (length key)" and dis: "distinct key"
  obtains \<tau> where "perm_list (length key) \<tau>"
    "\<And>i. i < length key \<Longrightarrow> sort_letters key ! (\<tau> ! i) = key ! i"
    "\<And>stack b buffer. \<exists>out. decrypt_block key stack b buffer = Some out \<and>
      (\<forall>p<1024. out p = permuted \<tau> (stack 1023) b p) \<and> (\<forall>p\<ge>1024. out p = buffer p)"
proof -
  let ?n = "length key" let ?c = "1024 div ?n"
  note good = good_lengthD [OF assms(1)]
  have ls: "length (sort_letters key) = ?n" using letters_sorted(1) by (rule mset_eq_length)
  obtain s' c' where c': "decr_rearrange key (sort_letters key) (column_pointers ?n ?c) = (s', c')"
    "length s' = ?n" "length c' = ?n" "\<forall>a<?n. s' ! a = key ! a"
    "mset (zip s' c') = mset (zip (sort_letters key) (column_pointers ?n ?c))"
    using decr_fold [OF dis letters_sorted(1), of "column_pointers ?n ?c" ?n]
    by (auto simp: decr_rearrange_def column_pointers_def)
  from columns_perm [OF ls c'(2,3) good(4) c'(5)] obtain \<tau> where
    \<tau>: "c' = map (\<lambda>t. t * ?c) \<tau>" "perm_list ?n \<tau>" "\<And>i. i < ?n \<Longrightarrow> sort_letters key ! (\<tau> ! i) = s' ! i"
    by blast
  have "\<exists>out. decrypt_block key stack b buffer = Some out \<and>
      (\<forall>p<1024. out p = permuted \<tau> (stack 1023) b p) \<and> (\<forall>p\<ge>1024. out p = buffer p)"
    for stack b buffer
  proof -
    have "?c * length c' = 1024" using good(1) c'(3) by (simp add: mult.commute)
    then have "copy_rows (block_matrix b ?c stack) c' 0 ?c 0 buffer p = buffer p" if "1024 \<le> p" for p
      using that c'(3) good(3) by (intro copy_rows_outside) auto
    moreover have "decrypt_block key stack b buffer =
        Some (copy_rows (block_matrix b ?c stack) c' 0 ?c 0 buffer)"
      using good c'(1) by (auto simp: decrypt_block_def Let_def)
    ultimately show ?thesis
      using copy_permuted [OF good(1) \<tau>(2)] \<tau>(1) by auto
  qed
  then show ?thesis using that \<tau>(2,3) c'(4) by metis
qed

section \<open>Properties\<close>

text \<open>
  With a key of 2, 4, 8 or 16 letters, \<^verbatim>\<open>encrypt_block\<close> returns and writes exactly the 1024
  bytes of the buffer: within each row of the block the columns are permuted by an order that
  sorts the key letters, and byte 1023 is replaced by what the stack held.
\<close>

theorem encrypt_block_permutes:
  assumes "good_length (length key)"
  shows "\<exists>\<sigma>. perm_list (length key) \<sigma> \<and> sorted (map (\<lambda>s. sint (key ! s)) \<sigma>) \<and>
    (\<forall>stack b buffer. \<exists>out. encrypt_block key stack b buffer = Some out \<and>
      (\<forall>p<BLOCK_SIZE. out p = permuted \<sigma> (stack 1023) b p) \<and> (\<forall>p\<ge>BLOCK_SIZE. out p = buffer p))"
proof -
  obtain \<sigma> where \<sigma>: "perm_list (length key) \<sigma>"
    "\<And>i. i < length key \<Longrightarrow> key ! (\<sigma> ! i) = sort_letters key ! i"
    "\<And>stack b buffer. \<exists>out. encrypt_block key stack b buffer = Some out \<and>
      (\<forall>p<1024. out p = permuted \<sigma> (stack 1023) b p) \<and> (\<forall>p\<ge>1024. out p = buffer p)"
    using encrypt_block_perm [OF assms] by blast
  have "length \<sigma> = length (sort_letters key)"
    using perm_listD(1) [OF \<sigma>(1)] letters_sorted(1) [of key] by (metis mset_eq_length)
  then have "map (\<lambda>s. sint (key ! s)) \<sigma> = map sint (sort_letters key)"
    using \<sigma>(2) perm_listD(1) [OF \<sigma>(1)] by (intro nth_equalityI) auto
  then show ?thesis using \<sigma> letters_sorted(2) [of key] by metis
qed

theorem encrypt_block_permutes_witness:
  "\<exists>\<sigma>. perm_list 2 \<sigma> \<and> sorted (map (\<lambda>s. sint ([98, 97] ! s :: byte)) \<sigma>) \<and>
    (\<exists>out. encrypt_block [98, 97] (\<lambda>_. 0) (\<lambda>i. of_nat i) (\<lambda>_. 0) = Some out)"
proof -
  have "good_length (length [98, 97 :: byte])" by (simp add: good_length_def)
  from encrypt_block_permutes [OF this] show ?thesis by (fastforce simp: numeral_2_eq_2)
qed

lemma build_matrix_last:
  "i \<le> 1023 \<Longrightarrow> k = i * c mod 1023 \<Longrightarrow>
    (build_matrix (b(1023 := x)) c i k m)(0 := y) = (build_matrix b c i k m)(0 := y)"
proof (induction "1023 - i" arbitrary: i k m)
  case 0
  then have "i = 1023" "k = 0" by (simp_all add: mult.commute)
  moreover have "build_matrix b' c 1024 k' m' = m'" for b' k' m'
    by (subst build_matrix.simps) simp
  ultimately show ?case by (subst (1 2) build_matrix.simps) simp
next
  case (Suc d)
  then have i: "i < 1023" and k: "k = i * c mod 1023" by linarith+
  have k': "(k + c) mod 1023 = Suc i * c mod 1023"
    unfolding k by (simp add: mod_simps add.commute)
  have "(build_matrix (b(1023 := x)) c (Suc i) ((k + c) mod 1023) m')(0 := y) =
      (build_matrix b c (Suc i) ((k + c) mod 1023) m')(0 := y)" for m'
    using Suc.hyps(2) i by (intro Suc.hyps(1)) (simp_all add: k')
  moreover have "build_matrix b' c i k m =
      build_matrix b' c (Suc i) ((k + c) mod 1023) (m(k := b' i))" for b'
    using i by (subst build_matrix.simps) simp
  ultimately show ?case using i by simp
qed

text \<open>
  The last byte of the plain block is never encrypted: two blocks that differ only there give
  the same ciphertext under every key, so no decryption can restore it.
\<close>

theorem encrypt_ignores_last_byte:
  "encrypt_block key stack (b(1023 := x)) buffer = encrypt_block key stack b buffer"
proof -
  have "block_matrix (b(1023 := x)) c stack = block_matrix b c stack" for c
    unfolding block_matrix_def using build_matrix_last [of 0 0 c b x stack "b 0"] by simp
  then show ?thesis by (simp only: encrypt_block_def)
qed

lemma last_row: "good_length n \<Longrightarrow> 1023 mod n = n - 1 \<and> 1023 div n * n = 1024 - n \<and> n \<le> 1024"
  by (auto simp: good_length_def)

lemma row_col:
  assumes "good_length n" and "p < 1024"
  shows "p div n * n \<le> 1024 - n" "p mod n < n" "p div n * n + p mod n = p"
proof -
  have "p div n \<le> 1023 div n" using assms(2) by (intro div_le_mono) simp
  then have "p div n * n \<le> 1023 div n * n" by simp
  then show "p div n * n \<le> 1024 - n" using last_row [OF assms(1)] by simp
  show "p mod n < n" using good_lengthD(3) [OF assms(1)] by simp
  show "p div n * n + p mod n = p" by simp
qed

text \<open>
  \<open>lays C \<sigma>\<close>: the routine writes the block permuted by \<open>\<sigma>\<close> and nothing else. \<open>undoes \<tau> \<sigma> q\<close>: the two
  permutations give the block back but for byte 1023, which holds the byte \<open>x\<close> of the first pass, and byte
  \<open>q\<close>, which holds the \<open>y\<close> of the second.
\<close>

definition lays :: "(cbuf \<Rightarrow> cbuf \<Rightarrow> cbuf \<Rightarrow> cbuf option) \<Rightarrow> nat list \<Rightarrow> bool" where
  "lays C \<sigma> \<longleftrightarrow> (\<forall>stack b buffer. \<exists>out. C stack b buffer = Some out \<and>
     (\<forall>p<BLOCK_SIZE. out p = permuted \<sigma> (stack 1023) b p) \<and> (\<forall>p\<ge>BLOCK_SIZE. out p = buffer p))"

definition undoes :: "nat list \<Rightarrow> nat list \<Rightarrow> nat \<Rightarrow> bool" where
  "undoes \<tau> \<sigma> q \<longleftrightarrow> (\<forall>x y b e p. p < BLOCK_SIZE \<longrightarrow> (\<forall>p<BLOCK_SIZE. e p = permuted \<sigma> x b p) \<longrightarrow>
     permuted \<tau> y e p = (if p = q then y else if p = 1023 then x else b p))"

lemma cipher_perms:
  assumes "good_length (length key)" and dis: "distinct key"
  obtains \<sigma> \<tau> q where "perm_list (length key) \<sigma>" "perm_list (length key) \<tau>"
    "BLOCK_SIZE - length key \<le> q" "q < BLOCK_SIZE"
    "lays (encrypt_block key) \<sigma>" "lays (decrypt_block key) \<tau>" "undoes \<tau> \<sigma> q"
proof -
  let ?n = "length key"
  note good = good_lengthD [OF assms(1)] and row = row_col [OF assms(1)] and lr = last_row [OF assms(1)]
  obtain \<sigma> where \<sigma>: "perm_list ?n \<sigma>" "\<And>i. i < ?n \<Longrightarrow> key ! (\<sigma> ! i) = sort_letters key ! i"
    and enc: "\<And>stack b buffer. \<exists>out. encrypt_block key stack b buffer = Some out \<and>
      (\<forall>p<1024. out p = permuted \<sigma> (stack 1023) b p) \<and> (\<forall>p\<ge>1024. out p = buffer p)"
    using encrypt_block_perm [OF assms(1)] by blast
  obtain \<tau> where \<tau>: "perm_list ?n \<tau>" "\<And>i. i < ?n \<Longrightarrow> sort_letters key ! (\<tau> ! i) = key ! i"
    and dec: "\<And>stack b buffer. \<exists>out. decrypt_block key stack b buffer = Some out \<and>
      (\<forall>p<1024. out p = permuted \<tau> (stack 1023) b p) \<and> (\<forall>p\<ge>1024. out p = buffer p)"
    using decrypt_block_perm [OF assms] by blast
  note \<sigma>lt = perm_listD(4) [OF \<sigma>(1)] and \<tau>lt = perm_listD(4) [OF \<tau>(1)]
  have \<sigma>\<tau>: "\<sigma> ! (\<tau> ! i) = i" if "i < ?n" for i
  proof -
    have "key ! (\<sigma> ! (\<tau> ! i)) = key ! i" using \<sigma>(2) [OF \<tau>lt] \<tau>(2) that by simp
    then show ?thesis using dis that \<sigma>lt \<tau>lt by (simp add: nth_eq_iff_index_eq)
  qed
  have \<tau>\<sigma>: "\<tau> ! (\<sigma> ! i) = i" if "i < ?n" for i
    using \<sigma>\<tau> [OF \<sigma>lt [OF that]] that \<sigma>lt \<tau>lt perm_listD(1,2) [OF \<sigma>(1)]
    by (simp add: nth_eq_iff_index_eq)
  let ?q = "1024 - ?n + \<sigma> ! (?n - 1)"
  have last: "\<sigma> ! (?n - 1) < ?n" using good(3) by (intro \<sigma>lt) simp
  have at: "permuted \<tau> y e p = (if p = ?q then y else if p = 1023 then x else b p)"
    if p: "p < 1024" and e: "\<And>p. p < 1024 \<Longrightarrow> e p = permuted \<sigma> x b p"
    for x y b e p
  proof -
    let ?r = "p div ?n * ?n" and ?j = "p mod ?n"
    let ?s = "?r + \<tau> ! ?j"
    have j: "\<tau> ! ?j < ?n" using row(2) [OF p] by (rule \<tau>lt)
    have "?s = 1023 \<longleftrightarrow> p = ?q"
    proof
      assume "?s = 1023"
      then have "\<tau> ! ?j = ?n - 1" using lr j mod_mult_self3 [of "p div ?n" ?n "\<tau> ! ?j"] by simp
      then have "?j = \<sigma> ! (?n - 1)" using \<sigma>\<tau> [OF row(2) [OF p]] by simp
      with \<open>?s = 1023\<close> \<open>\<tau> ! ?j = ?n - 1\<close> row(3) [OF p] lr good(3) show "p = ?q" by linarith
    next
      assume pq: "p = ?q"
      have "p mod ?n = (1023 div ?n * ?n + \<sigma> ! (?n - 1)) mod ?n" using pq lr by simp
      then have "?j = \<sigma> ! (?n - 1)" using last by simp
      then have "\<tau> ! ?j = ?n - 1" using \<tau>\<sigma> good(3) by simp
      with pq \<open>?j = \<sigma> ! (?n - 1)\<close> row(3) [OF p] lr good(3) show "?s = 1023" by linarith
    qed
    moreover have "e ?s = (if p = 1023 then x else b p)"
    proof -
      have "?s < 1024" using row(1) [OF p] j lr by linarith
      moreover have "?s div ?n = p div ?n" "?s mod ?n = \<tau> ! ?j"
        using j by (simp_all add: mul_add_div)
      ultimately show ?thesis
        using e \<sigma>\<tau> [OF row(2) [OF p]] row(3) [OF p] perm_listD(1) [OF \<sigma>(1)]
        by (simp add: permuted_def Let_def)
    qed
    ultimately show ?thesis
      using p perm_listD(1) [OF \<tau>(1)] by (simp add: permuted_def Let_def)
  qed
  have q: "1024 - ?n \<le> ?q" "?q < 1024" using last lr by auto
  have "lays (encrypt_block key) \<sigma>" "lays (decrypt_block key) \<tau>" using enc dec unfolding lays_def by blast+
  moreover have "undoes \<tau> \<sigma> ?q" unfolding undoes_def using at by blast
  ultimately show ?thesis using that \<sigma>(1) \<tau>(1) q by blast
qed

text \<open>
  C2: With a key of distinct letters decryption undoes encryption on every byte of the block but
  two: byte 1023 and one byte \<open>q\<close> of the last row, whose value after the round trip is whatever
  the stack of the decryption held.
\<close>

theorem cipher_roundtrip:
  assumes "good_length (length key)" and dis: "distinct key"
  shows "\<exists>q. BLOCK_SIZE - length key \<le> q \<and> q < BLOCK_SIZE \<and>
    (\<forall>stack1 stack2 b buf1 buf2. \<exists>e d. encrypt_block key stack1 b buf1 = Some e \<and>
      decrypt_block key stack2 e buf2 = Some d \<and>
      (\<forall>p<BLOCK_SIZE. p \<noteq> 1023 \<and> p \<noteq> q \<longrightarrow> d p = b p) \<and> d q = stack2 1023)"
proof -
  obtain \<sigma> \<tau> q where q: "1024 - length key \<le> q" "q < 1024"
    and c: "lays (encrypt_block key) \<sigma>" "lays (decrypt_block key) \<tau>" "undoes \<tau> \<sigma> q"
    by (rule cipher_perms [OF assms])
  show ?thesis
  proof (intro exI [of _ q] conjI allI q)
    fix stack1 stack2 b buf1 buf2
    from c(1) obtain e where e: "encrypt_block key stack1 b buf1 = Some e"
      "\<forall>p<1024. e p = permuted \<sigma> (stack1 1023) b p" unfolding lays_def by blast
    from c(2) obtain d where d: "decrypt_block key stack2 e buf2 = Some d"
      "\<forall>p<1024. d p = permuted \<tau> (stack2 1023) e p" unfolding lays_def by blast
    have "d p = (if p = q then stack2 1023 else if p = 1023 then stack1 1023 else b p)" if "p < 1024" for p
      using c(3) [unfolded undoes_def, rule_format, OF that, of e "stack1 1023" b "stack2 1023"] d(2) e(2) that by simp
    then show "\<exists>e d. encrypt_block key stack1 b buf1 = Some e \<and> decrypt_block key stack2 e buf2 = Some d \<and>
      (\<forall>p<1024. p \<noteq> 1023 \<and> p \<noteq> q \<longrightarrow> d p = b p) \<and> d q = stack2 1023"
      using e(1) d(1) q(2) by (intro exI [of _ e] exI [of _ d]) auto
  qed
qed

theorem cipher_roundtrip_witness:
  "\<exists>q<BLOCK_SIZE. \<exists>e d. encrypt_block [98, 97] (\<lambda>_. 7) (\<lambda>_. 5) (\<lambda>_. 0) = Some e \<and>
    decrypt_block [98, 97] (\<lambda>_. 9) e (\<lambda>_. 0) = Some d \<and> d 0 = 5 \<and> d q = 9"
proof -
  have "good_length (length [98, 97 :: byte])" "distinct [98, 97 :: byte]"
    by (simp_all add: good_length_def)
  from cipher_roundtrip [OF this] obtain q where q: "1022 \<le> q" "q < 1024"
    and rt: "\<forall>stack1 stack2 b buf1 buf2. \<exists>e d. encrypt_block [98, 97] stack1 b buf1 = Some e \<and>
      decrypt_block [98, 97] stack2 e buf2 = Some d \<and>
      (\<forall>p<1024. p \<noteq> 1023 \<and> p \<noteq> q \<longrightarrow> d p = b p) \<and> d q = stack2 1023"
    by auto
  from rt obtain e d where "encrypt_block [98, 97] (\<lambda>_. 7) (\<lambda>_. 5) (\<lambda>_. 0) = Some e"
    "decrypt_block [98, 97] (\<lambda>_. 9) e (\<lambda>_. 0) = Some d"
    "\<forall>p<1024. p \<noteq> 1023 \<and> p \<noteq> q \<longrightarrow> d p = 5" "d q = 9" by blast
  then show ?thesis using q by (intro exI [of _ q] exI [of _ e] exI [of _ d]) auto
qed

text \<open>
  A key with a repeated letter does not decrypt: under the key \<^verbatim>\<open>cc\<close>, for any letter, every
  pair of bytes comes back exchanged.
\<close>

theorem repeated_letter_garbles:
  "\<exists>e d. encrypt_block [c, c] stack1 b buf1 = Some e \<and> decrypt_block [c, c] stack2 e buf2 = Some d \<and>
    (\<forall>p<511. d (2 * p) = b (2 * p + 1) \<and> d (2 * p + 1) = b (2 * p))"
proof -
  have enc: "encr_sort [c, c] (column_pointers 2 512) = ([c, c], [0, 512])"
    by (simp add: encr_sort_def column_pointers_def upt_rec encr_pass.simps numeral_2_eq_2)
  have srt: "sort_letters [c, c] = [c, c]"
    by (simp add: sort_letters_def upt_rec sort_pass.simps)
  have dec: "decr_rearrange [c, c] [c, c] (column_pointers 2 512) = ([c, c], [512, 0])"
    by (simp add: decr_rearrange_def column_pointers_def upt_rec decr_pass.simps numeral_2_eq_2 swap_at_def)
  have nc: "2 * 512 = (1024::nat)" by simp
  have id: "perm_list 2 [0, 1]" and sw: "perm_list 2 [1, 0]" by (simp_all add: perm_list_def upt_rec)
  let ?e = "copy_rows (block_matrix b 512 stack1) [0, 512] 0 512 0 buf1"
  let ?d = "copy_rows (block_matrix ?e 512 stack2) [512, 0] 0 512 0 buf2"
  have e: "?e q = permuted [0, 1] (stack1 1023) b q" if "q < 1024" for q
    using copy_permuted [OF nc id that, of b stack1 buf1] by simp
  have d: "?d q = permuted [1, 0] (stack2 1023) ?e q" if "q < 1024" for q
    using copy_permuted [OF nc sw that, of ?e stack2 buf2] by simp
  have "?d (2 * p) = b (2 * p + 1) \<and> ?d (2 * p + 1) = b (2 * p)" if "p < 511" for p
    using that by (simp only: d e permuted_pair) (simp add: d e permuted_pair)
  moreover have "length [c, c] = 2" "BLOCK_SIZE div 2 = 512" by simp_all
  then have "encrypt_block [c, c] stack1 b buf1 = Some ?e" "decrypt_block [c, c] stack2 ?e buf2 = Some ?d"
    unfolding encrypt_block_def decrypt_block_def Let_def by (simp_all only: enc srt dec prod.case fst_conv snd_conv) simp_all
  ultimately show ?thesis by blast
qed

theorem repeated_letter_garbles_witness:
  "\<exists>e d. encrypt_block [99, 99] (\<lambda>_. 0) (\<lambda>i. of_nat i) (\<lambda>_. 0) = Some e \<and>
    decrypt_block [99, 99] (\<lambda>_. 0) e (\<lambda>_. 0) = Some d \<and> d 6 = 7 \<and> d 7 = 6"
proof -
  obtain e d where ed: "encrypt_block [99, 99] (\<lambda>_. 0) (\<lambda>i. of_nat i) (\<lambda>_. 0) = Some e"
    "decrypt_block [99, 99] (\<lambda>_. 0) e (\<lambda>_. 0) = Some d"
    "\<forall>p<511. d (2 * p) = of_nat (2 * p + 1) \<and> d (2 * p + 1) = of_nat (2 * p)"
    using repeated_letter_garbles by blast
  show ?thesis using ed(1,2) ed(3) [THEN spec, of 3] by auto
qed

end
