(* ===== verification/Task.thy ===== *)
theory Task
  imports EncTable
begin

text \<open>
  The data every system call works on (\<^verbatim>\<open>include/linux/sched.h\<close>, \<^verbatim>\<open>include/linux/head.h\<close>,
  \<^verbatim>\<open>include/linux/security.h\<close>, \<^verbatim>\<open>include/asm/segment.h\<close>): segment descriptors, the saved
  processor state, \<^verbatim>\<open>struct task_struct\<close>, the task table and the globals of \<^verbatim>\<open>kernel/sched.c\<close>
  and of the key manager.

  A pointer to a task is the index of its slot in \<^verbatim>\<open>task[]\<close>; a \<^verbatim>\<open>NULL\<close> slot is \<open>None\<close>. Pointers to
  in-core inodes and to open files are indices into \<^verbatim>\<open>inode_table\<close> and \<^verbatim>\<open>file_table\<close>.
\<close>

section \<open>Segment descriptors\<close>

record desc_struct =
  da :: u32
  db :: u32

text \<open>
  \<^verbatim>\<open>_set_base\<close>, \<^verbatim>\<open>_get_base\<close> and \<^verbatim>\<open>_set_limit\<close> store the pieces of a base address and of a limit
  into bytes 2, 3, 4, 7 and 0, 1, 6 of the eight descriptor bytes; here on the two words.
\<close>

definition set_base :: "u32 \<Rightarrow> desc_struct \<Rightarrow> desc_struct" where
  "set_base base d =
     d\<lparr>da := (da d AND mask 16) OR push_bit 16 base,
       db := (db d AND push_bit 8 (mask 16)) OR (base AND push_bit 24 (mask 8))
             OR (drop_bit 16 base AND mask 8)\<rparr>"

definition get_base :: "desc_struct \<Rightarrow> u32" where
  "get_base d = (db d AND push_bit 24 (mask 8)) OR push_bit 16 (db d AND mask 8) OR drop_bit 16 (da d)"

definition set_limit :: "u32 \<Rightarrow> desc_struct \<Rightarrow> desc_struct" where
  "set_limit limit d =
     (let l = drop_bit 12 (limit - 1) in
      d\<lparr>da := (da d AND push_bit 16 (mask 16)) OR (l AND mask 16),
        db := (db d AND NOT (push_bit 16 (mask 8))) OR (db d AND push_bit 20 (mask 4))
              OR (l AND push_bit 16 (mask 8))\<rparr>)"

text \<open>\<^verbatim>\<open>get_limit\<close> is the \<^verbatim>\<open>lsl\<close> instruction (limit in bytes, by the granularity bit 23) plus one.\<close>

definition get_limit :: "desc_struct \<Rightarrow> u32" where
  "get_limit d =
     (let raw = (da d AND mask 16) OR (db d AND push_bit 16 (mask 4)) in
      if bit (db d) 23 then (push_bit 12 raw OR mask 12) + 1 else raw + 1)"

section \<open>Tasks\<close>

abbreviation NR_TASKS :: nat where "NR_TASKS \<equiv> 64"
abbreviation NR_OPEN :: nat where "NR_OPEN \<equiv> 20"
abbreviation HZ :: u32 where "HZ \<equiv> 100"
abbreviation PAGE_SIZE :: u32 where "PAGE_SIZE \<equiv> 4096"

abbreviation TASK_RUNNING :: u32 where "TASK_RUNNING \<equiv> 0"
abbreviation TASK_INTERRUPTIBLE :: u32 where "TASK_INTERRUPTIBLE \<equiv> 1"
abbreviation TASK_UNINTERRUPTIBLE :: u32 where "TASK_UNINTERRUPTIBLE \<equiv> 2"
abbreviation TASK_ZOMBIE :: u32 where "TASK_ZOMBIE \<equiv> 3"
abbreviation TASK_STOPPED :: u32 where "TASK_STOPPED \<equiv> 4"

record tss_struct =
  back_link :: u32
  esp0 :: u32
  ss0 :: u32
  esp1 :: u32
  ss1 :: u32
  esp2 :: u32
  ss2 :: u32
  cr3 :: u32
  r_eip :: u32
  r_eflags :: u32
  r_eax :: u32
  r_ecx :: u32
  r_edx :: u32
  r_ebx :: u32
  r_esp :: u32
  r_ebp :: u32
  r_esi :: u32
  r_edi :: u32
  r_es :: u32
  r_cs :: u32
  r_ss :: u32
  r_ds :: u32
  r_fs :: u32
  r_gs :: u32
  r_ldt :: u32
  trace_bitmap :: u32
  i387 :: cbuf

record task_struct =
  t_state :: u32
  t_counter :: u32
  t_priority :: u32
  t_signal :: u32
  t_sig_restorer :: u32
  t_sig_fn :: "nat \<Rightarrow> u32"
  t_exit_code :: u32
  t_end_code :: u32
  t_end_data :: u32
  t_brk :: u32
  t_start_stack :: u32
  t_pid :: u32
  t_father :: u32
  t_pgrp :: u32
  t_session :: u32
  t_leader :: u32
  t_uid :: u16
  t_euid :: u16
  t_suid :: u16
  t_gid :: u16
  t_egid :: u16
  t_sgid :: u16
  t_alarm :: u32
  t_utime :: u32
  t_stime :: u32
  t_cutime :: u32
  t_cstime :: u32
  t_start_time :: u32
  t_used_math :: u16
  t_tty :: int
  t_umask :: u16
  t_pwd :: "nat option"
  t_root :: "nat option"
  t_close_on_exec :: u32
  t_filp :: "nat \<Rightarrow> nat option"
  t_ldt :: "nat \<Rightarrow> desc_struct"
  t_tss :: tss_struct
  t_key :: cbuf
  t_h_key :: cbuf
  t_k_timeout :: u32

definition LDT_sel :: "nat \<Rightarrow> u32" where
  "LDT_sel n = push_bit 4 (of_nat n) + 40"

text \<open>\<open>INIT_TASK\<close>; \<open>init_addr\<close> and \<open>pg_dir\<close> are the link-time addresses of \<^verbatim>\<open>init_task\<close> and the page directory.\<close>

definition INIT_TASK :: "u32 \<Rightarrow> u32 \<Rightarrow> task_struct" where
  "INIT_TASK init_addr pg_dir =
     \<lparr>t_state = 0, t_counter = 15, t_priority = 15, t_signal = 0, t_sig_restorer = 0,
      t_sig_fn = (\<lambda>_. 0), t_exit_code = 0, t_end_code = 0, t_end_data = 0, t_brk = 0,
      t_start_stack = 0, t_pid = 0, t_father = - 1, t_pgrp = 0, t_session = 0, t_leader = 0,
      t_uid = 0, t_euid = 0, t_suid = 0, t_gid = 0, t_egid = 0, t_sgid = 0,
      t_alarm = 0, t_utime = 0, t_stime = 0, t_cutime = 0, t_cstime = 0, t_start_time = 0,
      t_used_math = 0, t_tty = - 1, t_umask = 91, t_pwd = None, t_root = None,
      t_close_on_exec = 0, t_filp = (\<lambda>_. None),
      t_ldt = (\<lambda>i. if i = 1 then \<lparr>da = 0x9f, db = 0xc0fa00\<rparr>
                   else if i = 2 then \<lparr>da = 0x9f, db = 0xc0f200\<rparr> else \<lparr>da = 0, db = 0\<rparr>),
      t_tss = \<lparr>back_link = 0, esp0 = PAGE_SIZE + init_addr, ss0 = 0x10, esp1 = 0, ss1 = 0,
        esp2 = 0, ss2 = 0, cr3 = pg_dir, r_eip = 0, r_eflags = 0, r_eax = 0, r_ecx = 0, r_edx = 0,
        r_ebx = 0, r_esp = 0, r_ebp = 0, r_esi = 0, r_edi = 0, r_es = 0x17, r_cs = 0x17,
        r_ss = 0x17, r_ds = 0x17, r_fs = 0x17, r_gs = 0x17, r_ldt = LDT_sel 0,
        trace_bitmap = 0x80000000, i387 = (\<lambda>_. 0)\<rparr>,
      t_key = (\<lambda>_. 0), t_h_key = (\<lambda>_. 0), t_k_timeout = 0\<rparr>"

section \<open>The process side of the kernel\<close>

text \<open>\<^verbatim>\<open>key_to_use\<close> and \<^verbatim>\<open>hash_to_use\<close> are global pointers, to the global key or into a task.\<close>

datatype key_ptr = Null_key | Global_key | Task_key nat

record kproc =
  task :: "nat \<Rightarrow> task_struct option"
  current :: nat
  last_task_used_math :: "nat option"
  jiffies :: u32
  startup_time :: u32
  last_pid :: u32
  encryption_key :: cbuf
  g_h_key :: cbuf
  key_to_use :: key_ptr
  hash_to_use :: key_ptr
  enc_table :: hash_table
  fsmem :: cbuf

definition CURRENT_TIME :: "'a kproc_scheme \<Rightarrow> u32" where
  "CURRENT_TIME k = startup_time k + of_int (sint (jiffies k) sdiv 100)"

text \<open>\<open>cur k\<close> is \<^verbatim>\<open>*current\<close>; \<open>on_task i f\<close> and \<open>on_cur f\<close> are assignments to fields of a task.\<close>

definition cur :: "'a kproc_scheme \<Rightarrow> task_struct" where
  "cur k = the (task k (current k))"

definition on_task :: "nat \<Rightarrow> (task_struct \<Rightarrow> task_struct) \<Rightarrow> 'a kproc_scheme \<Rightarrow> 'a kproc_scheme" where
  "on_task i f k = k\<lparr>task := (task k)(i := map_option f (task k i))\<rparr>"

definition on_cur :: "(task_struct \<Rightarrow> task_struct) \<Rightarrow> 'a kproc_scheme \<Rightarrow> 'a kproc_scheme" where
  "on_cur f k = on_task (current k) f k"

text \<open>The current task exists; every kernel path relies on it.\<close>

definition running :: "'a kproc_scheme \<Rightarrow> bool" where
  "running k \<longleftrightarrow> current k < NR_TASKS \<and> task k (current k) \<noteq> None"

text \<open>\<^verbatim>\<open>get_fs_byte\<close>, \<^verbatim>\<open>get_fs_word\<close>, \<^verbatim>\<open>get_fs_long\<close> and their stores, on the segment of the caller.\<close>

definition get_fs_byte :: "'a kproc_scheme \<Rightarrow> nat \<Rightarrow> byte" where
  "get_fs_byte k addr = fsmem k addr"

definition get_fs_word :: "'a kproc_scheme \<Rightarrow> nat \<Rightarrow> u16" where
  "get_fs_word k addr = get16 (fsmem k) addr"

definition get_fs_long :: "'a kproc_scheme \<Rightarrow> nat \<Rightarrow> u32" where
  "get_fs_long k addr = get32 (fsmem k) addr"

definition put_fs_byte :: "byte \<Rightarrow> nat \<Rightarrow> 'a kproc_scheme \<Rightarrow> 'a kproc_scheme" where
  "put_fs_byte v addr k = k\<lparr>fsmem := (fsmem k)(addr := v)\<rparr>"

definition put_fs_word :: "u16 \<Rightarrow> nat \<Rightarrow> 'a kproc_scheme \<Rightarrow> 'a kproc_scheme" where
  "put_fs_word v addr k = k\<lparr>fsmem := put16 addr v (fsmem k)\<rparr>"

definition put_fs_long :: "u32 \<Rightarrow> nat \<Rightarrow> 'a kproc_scheme \<Rightarrow> 'a kproc_scheme" where
  "put_fs_long v addr k = k\<lparr>fsmem := put32 addr v (fsmem k)\<rparr>"

section \<open>Lemmas\<close>

named_theorems task_simps "reading the kernel state after a store"

lemma task_on_task [task_simps]:
  "task (on_task i f k) = (task k)(i := map_option f (task k i))"
  by (simp add: on_task_def)

lemma on_task_frame [task_simps]:
  "current (on_task i f k) = current k" "jiffies (on_task i f k) = jiffies k"
  "startup_time (on_task i f k) = startup_time k" "last_pid (on_task i f k) = last_pid k"
  "last_task_used_math (on_task i f k) = last_task_used_math k"
  "encryption_key (on_task i f k) = encryption_key k" "g_h_key (on_task i f k) = g_h_key k"
  "key_to_use (on_task i f k) = key_to_use k" "hash_to_use (on_task i f k) = hash_to_use k"
  "enc_table (on_task i f k) = enc_table k" "fsmem (on_task i f k) = fsmem k"
  by (simp_all add: on_task_def)

lemma task_on_cur [task_simps]:
  "task (on_cur f k) = (task k)(current k := map_option f (task k (current k)))"
  by (simp add: on_cur_def task_simps)

lemma on_cur_frame [task_simps]:
  "current (on_cur f k) = current k" "jiffies (on_cur f k) = jiffies k"
  "startup_time (on_cur f k) = startup_time k" "last_pid (on_cur f k) = last_pid k"
  "last_task_used_math (on_cur f k) = last_task_used_math k"
  "encryption_key (on_cur f k) = encryption_key k" "g_h_key (on_cur f k) = g_h_key k"
  "key_to_use (on_cur f k) = key_to_use k" "hash_to_use (on_cur f k) = hash_to_use k"
  "enc_table (on_cur f k) = enc_table k" "fsmem (on_cur f k) = fsmem k"
  by (simp_all add: on_cur_def task_simps)

lemma cur_on_cur [task_simps]: "running k \<Longrightarrow> cur (on_cur f k) = f (cur k)"
  by (auto simp: cur_def task_simps running_def)

lemma running_on_cur [task_simps]: "running (on_cur f k) = running k"
  by (simp add: running_def task_simps)

lemma on_task_other [task_simps]: "j \<noteq> i \<Longrightarrow> task (on_task i f k) j = task k j"
  by (simp add: task_simps)

text \<open>The pieces of a base address come back, and neither store disturbs the other.\<close>

lemma get_base_set_base [simp]: "get_base (set_base base d) = base"
proof -
  have "db (set_base base d) AND push_bit 24 (mask 8) = base AND push_bit 24 (mask 8)"
    "db (set_base base d) AND mask 8 = drop_bit 16 base AND mask 8"
    "drop_bit 16 (da (set_base base d)) = base AND mask 16"
    by (rule bit_word_eqI; simp add: set_base_def bit_simps; linarith?; fail)+
  moreover have "(base AND push_bit 24 (mask 8)) OR push_bit 16 (drop_bit 16 base AND mask 8) OR
      (base AND mask 16) = base"
  proof (rule bit_word_eqI)
    fix n assume "n < LENGTH(32)"
    moreover have "n < 16 \<or> 16 \<le> n \<and> n < 24 \<or> 24 \<le> n" by linarith
    ultimately show "bit ((base AND push_bit 24 (mask 8)) OR
        push_bit 16 (drop_bit 16 base AND mask 8) OR (base AND mask 16)) n = bit base n"
      by (elim disjE) (auto simp: bit_simps)
  qed
  ultimately show ?thesis by (simp only: get_base_def)
qed

lemma get_base_set_limit [simp]: "get_base (set_limit limit d) = get_base d"
proof -
  have "db (set_limit limit d) AND push_bit 24 (mask 8) = db d AND push_bit 24 (mask 8)"
    "db (set_limit limit d) AND mask 8 = db d AND mask 8"
    by (rule bit_word_eqI; simp add: set_limit_def Let_def bit_simps; linarith?; fail)+
  moreover have "drop_bit 16 (da (set_limit limit d)) = drop_bit 16 (da d)"
    by (rule bit_word_eqI) (auto simp: set_limit_def Let_def bit_simps dest: bit_imp_le_length)
  ultimately show ?thesis by (simp only: get_base_def)
qed

lemma get_limit_set_base [simp]: "get_limit (set_base base d) = get_limit d"
proof -
  have "da (set_base base d) AND mask 16 = da d AND mask 16"
    "db (set_base base d) AND push_bit 16 (mask 4) = db d AND push_bit 16 (mask 4)"
    by (rule bit_word_eqI; simp add: set_base_def bit_simps; linarith?; fail)+
  moreover have "bit (db (set_base base d)) 23 = bit (db d) 23"
    by (simp add: set_base_def bit_simps)
  ultimately show ?thesis by (simp add: get_limit_def Let_def)
qed

section \<open>A sample process table\<close>

text \<open>States the concrete examples of the later theories start from.\<close>

definition some_task :: "u32 \<Rightarrow> u32 \<Rightarrow> u32 \<Rightarrow> task_struct" where
  "some_task pid st counter = (INIT_TASK 0 0)\<lparr>t_pid := pid, t_state := st, t_counter := counter\<rparr>"

definition some_kernel :: "(nat \<Rightarrow> task_struct option) \<Rightarrow> kproc" where
  "some_kernel tasks = \<lparr>task = tasks, current = 1, last_task_used_math = None, jiffies = 500,
     startup_time = 0, last_pid = 9, encryption_key = (\<lambda>_. 0), g_h_key = (\<lambda>_. 0),
     key_to_use = Global_key, hash_to_use = Global_key,
     enc_table = empty_table (\<lambda>_. 0), fsmem = (\<lambda>_. 0)\<rparr>"

end
