(* ===== verification/KeyManager.thy ===== *)
theory KeyManager
  imports Task Cipher
begin

text \<open>
  The key manager of \<^verbatim>\<open>fs/security.c\<close> (\<^verbatim>\<open>set_key\<close>, \<^verbatim>\<open>rnd_key_gen\<close>, \<^verbatim>\<open>clear_key\<close>,
  \<^verbatim>\<open>is_power_of_two\<close>, \<^verbatim>\<open>userspace_string_cpy\<close>) and the system calls \<^verbatim>\<open>keyset\<close>,
  \<^verbatim>\<open>keyclear\<close> and \<^verbatim>\<open>keygen\<close> of \<^verbatim>\<open>kernel/sys.c\<close>. A key lives in a 32-byte buffer, the global one
  or the one in the task; the messages printed on the console are not part of the model.
\<close>

abbreviation CHARSET_SIZE :: nat where "CHARSET_SIZE \<equiv> 65"
abbreviation K_GLOBAL :: int where "K_GLOBAL \<equiv> 2"
abbreviation K_LOCAL :: int where "K_LOCAL \<equiv> 1"
abbreviation LOCK_TIMEOUT :: u32 where "LOCK_TIMEOUT \<equiv> 45"
abbreviation GLOK_TIMEOUT :: u32 where "GLOK_TIMEOUT \<equiv> 120"

section \<open>Operations\<close>

definition is_power_of_two :: "u32 \<Rightarrow> bool" where
  "is_power_of_two num = (if num < 2 then False else num AND (num - 1) = 0)"

text \<open>The string a kernel buffer of \<^verbatim>\<open>KEY_SIZE\<close> bytes holds; without a zero in it C reads on behind it.\<close>

definition key_string :: "cbuf \<Rightarrow> byte list option" where
  "key_string a = map_option (\<lambda>n. bytes_of 0 n a) (strlen_in KEY_SIZE a)"

text \<open>
  \<^verbatim>\<open>userspace_string_cpy\<close>: one byte after the other from the caller's segment, with no regard to
  the size of the kernel buffer; \<open>overrun\<close> as soon as a byte is n behind its end.
\<close>

function userspace_string_cpy_from :: "cbuf \<Rightarrow> nat \<Rightarrow> nat \<Rightarrow> cbuf \<Rightarrow> cbuf option" where
  "userspace_string_cpy_from um usr_str i kernel_str =
     (if KEY_SIZE \<le> i then overrun ''kernel_str''
      else if um usr_str \<noteq> 0
           then userspace_string_cpy_from um (Suc usr_str) (Suc i) (kernel_str(i := um usr_str))
           else Some (kernel_str(i := 0)))"
  by pat_completeness auto
termination
  by (relation "measure (\<lambda>(um, u, i, s). KEY_SIZE - i)") auto

definition userspace_string_cpy :: "'a kproc_scheme \<Rightarrow> cbuf \<Rightarrow> nat \<Rightarrow> cbuf option" where
  "userspace_string_cpy k kernel_str usr_str = userspace_string_cpy_from (fsmem k) usr_str 0 kernel_str"

text \<open>The choice made by \<^verbatim>\<open>(!current->key[0])?encryption_key:current->key\<close>.\<close>

definition select_key :: "'a kproc_scheme \<Rightarrow> 'a kproc_scheme" where
  "select_key k =
     (let p = (if t_key (cur k) 0 = 0 then Global_key else Task_key (current k))
      in k\<lparr>key_to_use := p, hash_to_use := p\<rparr>)"

definition set_key :: "cbuf \<Rightarrow> int \<Rightarrow> 'a kproc_scheme \<Rightarrow> (int \<times> 'a kproc_scheme) option" where
  "set_key key glob_key k =
     do { str \<leftarrow> key_string key;
          if is_power_of_two (of_nat (length str)) then
            do { k \<leftarrow>
                   (if glob_key = K_LOCAL then
                      do { h \<leftarrow> hash str (t_h_key (cur k)) HKEY_SIZE;
                           Some (on_cur (\<lambda>t. t\<lparr>t_key := store_str str (t_key t), t_h_key := h,
                             t_k_timeout := jiffies k + HZ * LOCK_TIMEOUT\<rparr>) k) }
                    else
                      do { h \<leftarrow> hash str (g_h_key k) HKEY_SIZE;
                           Some (on_task 0 (\<lambda>t. t\<lparr>t_k_timeout := jiffies k + HZ * GLOK_TIMEOUT\<rparr>)
                             (k\<lparr>encryption_key := store_str str (encryption_key k), g_h_key := h\<rparr>)) });
                 Some (0, select_key k) }
          else Some (1, k) }"

text \<open>\<^verbatim>\<open>a\<close> to \<^verbatim>\<open>z\<close>, \<^verbatim>\<open>A\<close> to \<^verbatim>\<open>Z\<close>, \<^verbatim>\<open>1\<close> to \<^verbatim>\<open>9\<close>: 61 letters in an array of 65.\<close>

definition char_set :: "byte list" where
  "char_set = map of_nat ([97..<123] @ [65..<91] @ [49..<58])"

text \<open>
  \<^verbatim>\<open>rnd_key_gen\<close>. \<open>tsc n\<close> is the 64-bit counter the n-th \<^verbatim>\<open>RDTSC\<close> of the loop reads; the index is the
  sum of its halves modulo the letters left. The letter drawn is replaced by the last one
  left, so none is drawn twice. \<open>done\<close> counts the letters n.
\<close>

definition tsc_index :: "64 word \<Rightarrow> u32" where
  "tsc_index c = ucast c + ucast (drop_bit 32 c)"

fun rnd_key_loop ::
  "(nat \<Rightarrow> 64 word) \<Rightarrow> nat \<Rightarrow> nat \<Rightarrow> byte list \<Rightarrow> cbuf \<Rightarrow> cbuf option" where
  "rnd_key_loop tsc n 0 letters key =
     (if KEY_SIZE \<le> n then overrun ''key'' else Some (key(n := 0)))"
| "rnd_key_loop tsc n (Suc level) letters key =
     (if letters = [] then overrun ''index %= 0''
      else if KEY_SIZE \<le> n then overrun ''key''
      else let index = unat (tsc_index (tsc n)) mod length letters;
               letters' = butlast (letters[index := last letters])
           in rnd_key_loop tsc (Suc n) level letters' (key(n := letters ! index)))"

definition rnd_key_gen :: "(nat \<Rightarrow> 64 word) \<Rightarrow> cbuf \<Rightarrow> int \<Rightarrow> (int \<times> cbuf) option" where
  "rnd_key_gen tsc key level =
     (if level < 0 \<or> 30 < level then overrun ''0x2 << level''
      else do { key \<leftarrow> rnd_key_loop tsc 0 (2 * 2 ^ nat level) char_set key; Some (1, key) })"

definition clear_key :: "int \<Rightarrow> 'a kproc_scheme \<Rightarrow> int \<times> 'a kproc_scheme" where
  "clear_key glob_flag k =
     (if glob_flag = K_GLOBAL
      then (0, k\<lparr>g_h_key := (g_h_key k)(0 := 0), encryption_key := (encryption_key k)(0 := 0)\<rparr>)
      else (0, on_cur (\<lambda>t. t\<lparr>t_key := (t_key t)(0 := 0), t_h_key := (t_h_key t)(0 := 0)\<rparr>) k))"

definition sys_keyset :: "cbuf \<Rightarrow> nat \<Rightarrow> int \<Rightarrow> 'a kproc_scheme \<Rightarrow> (int \<times> 'a kproc_scheme) option" where
  "sys_keyset stack key glob_flag k =
     do { key \<leftarrow> userspace_string_cpy k stack key; set_key key glob_flag k }"

definition sys_keyclear :: "int \<Rightarrow> 'a kproc_scheme \<Rightarrow> int \<times> 'a kproc_scheme" where
  "sys_keyclear glob_flag k = (0, snd (clear_key glob_flag k))"

definition sys_keygen ::
  "(nat \<Rightarrow> 64 word) \<Rightarrow> cbuf \<Rightarrow> int \<Rightarrow> 'a kproc_scheme \<Rightarrow> (int \<times> 'a kproc_scheme) option" where
  "sys_keygen tsc stack level k =
     do { (r, key) \<leftarrow> rnd_key_gen tsc stack level;
          if r \<noteq> 0 then do { (_, k) \<leftarrow> set_key key K_GLOBAL k; Some (1, k) } else Some (- 1, k) }"

text \<open>What \<^verbatim>\<open>key_to_use\<close> and \<^verbatim>\<open>hash_to_use\<close> point to now: a key of another process when that set them last.\<close>

definition key_bytes :: "'a kproc_scheme \<Rightarrow> cbuf option" where
  "key_bytes k = (case key_to_use k of Null_key \<Rightarrow> overrun ''NULL key_to_use''
     | Global_key \<Rightarrow> Some (encryption_key k) | Task_key i \<Rightarrow> map_option t_key (task k i))"

definition hash_bytes :: "'a kproc_scheme \<Rightarrow> cbuf option" where
  "hash_bytes k = (case hash_to_use k of Null_key \<Rightarrow> overrun ''NULL hash_to_use''
     | Global_key \<Rightarrow> Some (g_h_key k) | Task_key i \<Rightarrow> map_option t_h_key (task k i))"

definition key_in_use :: "'a kproc_scheme \<Rightarrow> byte list option" where
  "key_in_use k = do { a \<leftarrow> key_bytes k; key_string a }"

section \<open>Lemmas\<close>

lemmas [simp del] = userspace_string_cpy_from.simps

lemma is_power_of_two_values:
  "is_power_of_two 2" "is_power_of_two 4" "is_power_of_two 8" "is_power_of_two 16"
  by (simp_all add: is_power_of_two_def)

lemma key_string_Some:
  "key_string a = Some s \<longleftrightarrow>
     length s < KEY_SIZE \<and> a (length s) = 0 \<and> (\<forall>i<length s. a i = s ! i \<and> s ! i \<noteq> 0)"
proof
  assume "key_string a = Some s"
  then show "length s < KEY_SIZE \<and> a (length s) = 0 \<and> (\<forall>i<length s. a i = s ! i \<and> s ! i \<noteq> 0)"
    by (auto simp: key_string_def strlen_in_Some)
next
  assume a: "length s < KEY_SIZE \<and> a (length s) = 0 \<and> (\<forall>i<length s. a i = s ! i \<and> s ! i \<noteq> 0)"
  then have "strlen_in KEY_SIZE a = Some (length s)" by (auto simp: strlen_in_Some)
  moreover have "bytes_of 0 (length s) a = s" using a by (intro nth_equalityI) auto
  ultimately show "key_string a = Some s" by (simp add: key_string_def)
qed

lemma key_string_store_str:
  "length s < KEY_SIZE \<Longrightarrow> 0 \<notin> set s \<Longrightarrow> key_string (store_str s a) = Some s"
  unfolding key_string_Some by (auto simp: store_str_def) (metis nth_mem)

lemma set_last_butlast:
  assumes "distinct xs" and "i < length xs"
  shows "distinct (butlast (xs[i := last xs]))" "set (butlast (xs[i := last xs])) = set xs - {xs ! i}"
proof -
  obtain ys z where xs: "xs = ys @ [z]" using assms(2) by (cases xs rule: rev_cases) auto
  show "distinct (butlast (xs[i := last xs]))"
    using assms unfolding xs by (cases "i < length ys") (auto simp: list_update_append distinct_list_update)
  show "set (butlast (xs[i := last xs])) = set xs - {xs ! i}"
  proof (cases "i < length ys")
    case True
    then have "set (ys[i := z]) = insert z (set ys - {ys ! i})"
      using assms(1) unfolding xs by (intro set_update_distinct) auto
    then show ?thesis using True assms(1) unfolding xs
      by (auto simp: list_update_append nth_append)
  next
    case False
    then have "i = length ys" using assms(2) xs by simp
    then show ?thesis using assms(1) unfolding xs by auto
  qed
qed

lemma rnd_key_loop_spec:
  "\<lbrakk>n + level < KEY_SIZE; level \<le> length letters; distinct letters; 0 \<notin> set letters\<rbrakk> \<Longrightarrow>
    \<exists>key'. rnd_key_loop tsc n level letters key = Some key' \<and> (\<forall>i<n. key' i = key i) \<and>
      key' (n + level) = 0 \<and> set (bytes_of n level key') \<subseteq> set letters \<and> distinct (bytes_of n level key')"
proof (induction level arbitrary: n letters key)
  case 0
  then show ?case by (simp add: bytes_of_def)
next
  case (Suc level)
  let ?i = "unat (tsc_index (tsc n)) mod length letters"
  let ?l = "butlast (letters[?i := last letters])"
  have ne: "letters \<noteq> []" using Suc.prems(2) by auto
  then have i: "?i < length letters" by simp
  note sl = set_last_butlast [OF Suc.prems(3) i]
  have "Suc n + level < KEY_SIZE" "level \<le> length ?l" "0 \<notin> set ?l"
    using Suc.prems sl by auto
  from Suc.IH [OF this(1,2) sl(1) this(3)] obtain key' where
    k: "rnd_key_loop tsc (Suc n) level ?l (key(n := letters ! ?i)) = Some key'"
    "\<forall>i<Suc n. key' i = (key(n := letters ! ?i)) i" "key' (Suc n + level) = 0"
    "set (bytes_of (Suc n) level key') \<subseteq> set ?l" "distinct (bytes_of (Suc n) level key')"
    by blast
  have "bytes_of n (Suc level) key' = letters ! ?i # bytes_of (Suc n) level key'"
    using k(2) by (intro nth_equalityI) (auto simp: nth_Cons split: nat.splits)
  moreover have "rnd_key_loop tsc n (Suc level) letters key = Some key'"
    using k(1) ne Suc.prems(1) by (simp add: Let_def)
  ultimately show ?case
    using k i sl by (intro exI [of _ key']) (auto dest: nth_mem)
qed

lemma rnd_key_loop_overrun:
  "KEY_SIZE \<le> n + level \<Longrightarrow> rnd_key_loop tsc n level letters key = None"
  by (induction level arbitrary: n letters key) (simp_all add: Let_def)

lemma char_set_ok: "distinct char_set" "0 \<notin> set char_set" "length char_set = 61"
proof -
  have unat: "unat (of_nat n :: byte) = n" if "n < 256" for n
    using that by (simp add: unat_of_nat)
  have "inj_on (of_nat :: nat \<Rightarrow> byte) {..<256}"
    by (rule inj_on_inverseI [of _ unat]) (simp add: unat)
  then show "distinct char_set"
    unfolding char_set_def distinct_map by (auto intro: inj_on_subset)
  show "0 \<notin> set char_set" unfolding char_set_def
    by (auto simp: in_set_conv_nth dest!: arg_cong [of _ _ unat] simp: unat)
  show "length char_set = 61" by (simp add: char_set_def)
qed

lemma strlen_in_unterminated: "(\<And>i. i < N \<Longrightarrow> a i \<noteq> 0) \<Longrightarrow> strlen_in N a = None"
  by (simp add: strlen_in_None)

lemma rnd_key_gen_string:
  assumes "0 \<le> level" and "level \<le> 3"
  shows "\<exists>key' str. rnd_key_gen tsc key level = Some (1, key') \<and> key_string key' = Some str \<and>
    length str = 2 ^ (nat level + 1) \<and> distinct str \<and> set str \<subseteq> set char_set"
proof -
  obtain l where l: "level = int l" "l \<le> 3" using assms nonneg_int_cases by fastforce
  let ?n = "2 * 2 ^ l :: nat"
  have "(2::nat) ^ l \<le> 2 ^ 3" using l(2) by (intro power_increasing) auto
  then have n: "0 + ?n < KEY_SIZE" "?n \<le> length char_set" by (simp_all add: char_set_ok)
  from rnd_key_loop_spec [OF n char_set_ok(1,2), of tsc key] obtain key' where
    k: "rnd_key_loop tsc 0 ?n char_set key = Some key'" "key' ?n = 0"
    "set (bytes_of 0 ?n key') \<subseteq> set char_set" "distinct (bytes_of 0 ?n key')" by auto
  have "key_string key' = Some (bytes_of 0 ?n key')"
    using k(2,3) n char_set_ok(2) unfolding key_string_Some
    by (auto simp: subset_iff in_set_conv_nth)
  then show ?thesis using k l by (auto simp: rnd_key_gen_def)
qed

section \<open>Properties\<close>

text \<open>
  For the levels 1 to 3 the key generator returns, whatever the cycle counter reads, and
  leaves in the buffer a string of \<open>2 ^ (level + 1)\<close> letters of the character set, no two the
  same; that is a key the cipher round trip needs.
\<close>

theorem rnd_key_gen_distinct:
  assumes "0 \<le> level" and "level \<le> 3"
  shows "\<exists>key' str. rnd_key_gen tsc key level = Some (1, key') \<and> key_string key' = Some str \<and>
    length str = 2 ^ (nat level + 1) \<and> distinct str \<and> set str \<subseteq> set char_set"
  using assms by (rule rnd_key_gen_string)

theorem rnd_key_gen_distinct_witness:
  "\<exists>key' str. rnd_key_gen (\<lambda>n. of_nat (7 * n)) (\<lambda>_. 0) 2 = Some (1, key') \<and> key_string key' = Some str \<and>
    length str = 8 \<and> distinct str"
  using rnd_key_gen_distinct [of 2 "\<lambda>n. of_nat (7 * n)" "\<lambda>_. 0"] by fastforce

text \<open>
  From level 4 on the generator stores letters (at level 4 the terminating zero) behind its
  caller's 32-byte buffer.
\<close>

theorem rnd_key_gen_overruns:
  assumes "4 \<le> level"
  shows "rnd_key_gen tsc key level = None"
proof -
  have "(2::nat) ^ 4 \<le> 2 ^ nat level" using assms by (intro power_increasing) auto
  then have "rnd_key_loop tsc 0 (2 * 2 ^ nat level) char_set key = None"
    by (intro rnd_key_loop_overrun) simp
  then show ?thesis by (simp add: rnd_key_gen_def)
qed

theorem rnd_key_gen_overruns_witness: "rnd_key_gen (\<lambda>_. 0) (\<lambda>_. 0) 4 = None"
  by (rule rnd_key_gen_overruns) simp

lemma hash_Some: "str \<noteq> [] \<Longrightarrow> hash str dest n = Some (hash_loop str 0 n 5381 dest)"
  by (simp add: hash_def)

lemma set_key_global:
  assumes "key_string key = Some str" and "str \<noteq> []" and "is_power_of_two (of_nat (length str))"
    and "glob \<noteq> K_LOCAL"
  shows "set_key key glob k = Some (0, select_key
    (on_task 0 (\<lambda>t. t\<lparr>t_k_timeout := jiffies k + HZ * GLOK_TIMEOUT\<rparr>)
      (k\<lparr>encryption_key := store_str str (encryption_key k),
         g_h_key := hash_loop str 0 HKEY_SIZE 5381 (g_h_key k)\<rparr>)))"
  using assms by (simp add: set_key_def hash_Some)

lemma select_key_frame [task_simps]:
  "task (select_key k) = task k" "current (select_key k) = current k" "fsmem (select_key k) = fsmem k"
  "encryption_key (select_key k) = encryption_key k" "g_h_key (select_key k) = g_h_key k"
  "enc_table (select_key k) = enc_table k" "jiffies (select_key k) = jiffies k"
  by (simp_all add: select_key_def Let_def)

lemma key_in_use_select:
  "running k \<Longrightarrow> key_in_use (select_key k) =
    key_string (if t_key (cur k) 0 = 0 then encryption_key k else t_key (cur k))"
  by (auto simp: key_in_use_def key_bytes_def select_key_def cur_def running_def Let_def)

lemma running_frame [task_simps]:
  "running (select_key k) = running k" "running (on_task i f k) = running k"
  "running (k\<lparr>encryption_key := a\<rparr>) = running k" "running (k\<lparr>g_h_key := a\<rparr>) = running k"
  by (auto simp: running_def task_simps)

lemma key_string_ne: "key_string a = Some s \<Longrightarrow> a 0 = 0 \<longleftrightarrow> s = []"
  by (cases s) (auto simp: key_string_Some)

lemma power_lengths: "level \<le> 3 \<Longrightarrow> 1 \<le> level \<Longrightarrow> (2::nat) ^ (nat level + 1) \<in> {4, 8, 16}"
proof -
  assume "level \<le> 3" "1 \<le> level"
  then have "nat level = 1 \<or> nat level = 2 \<or> nat level = 3" by linarith
  then show ?thesis by (elim disjE) simp_all
qed

text \<open>
  C13: After \<^verbatim>\<open>keygen\<close> with a level from 1 to 3 the global key is a string of distinct letters
  whose length the cipher handles, its hash is stored beside it, the timer of task 0 is set to
  120 seconds from now, and a process without a key of its own uses it from now on.
\<close>

theorem sys_keygen_installs:
  assumes "1 \<le> level" and "level \<le> 3" and "running k"
  shows "\<exists>k' str. sys_keygen tsc stack level k = Some (1, k') \<and> good_length (length str) \<and> distinct str \<and>
    key_string (encryption_key k') = Some str \<and> hash str (g_h_key k) HKEY_SIZE = Some (g_h_key k') \<and>
    (\<forall>t. task k 0 = Some t \<longrightarrow>
      map_option t_k_timeout (task k' 0) = Some (jiffies k + HZ * GLOK_TIMEOUT)) \<and>
    (t_key (cur k) 0 = 0 \<longrightarrow> key_in_use k' = Some str)"
proof -
  obtain key' str where g: "rnd_key_gen tsc stack level = Some (1, key')" "key_string key' = Some str"
    and len: "length str = 2 ^ (nat level + 1)" and str: "distinct str" "set str \<subseteq> set char_set"
    using rnd_key_gen_string [of level tsc stack] assms by auto
  have ln: "length str \<in> {4, 8, 16}" unfolding len using assms(1,2) by (intro power_lengths)
  then have good: "good_length (length str)" "str \<noteq> []" "is_power_of_two (of_nat (length str))"
    "length str < KEY_SIZE"
    by (auto simp: good_length_def is_power_of_two_values)
  have nz: "0 \<notin> set str" using str(2) char_set_ok(2) by blast
  let ?k = "on_task 0 (\<lambda>t. t\<lparr>t_k_timeout := jiffies k + HZ * GLOK_TIMEOUT\<rparr>)
      (k\<lparr>encryption_key := store_str str (encryption_key k),
         g_h_key := hash_loop str 0 HKEY_SIZE 5381 (g_h_key k)\<rparr>)"
  have sk: "sys_keygen tsc stack level k = Some (1, select_key ?k)"
    by (simp add: sys_keygen_def g set_key_global [OF g(2) good(2,3)])
  have ks: "key_string (store_str str (encryption_key k)) = Some str"
    using good(4) nz by (rule key_string_store_str)
  have "t_key (cur ?k) = t_key (cur k)"
    using assms(3) by (auto simp: cur_def task_simps running_def)
  moreover have "running ?k" using assms(3) by (simp add: task_simps)
  ultimately have "t_key (cur k) 0 = 0 \<longrightarrow> key_in_use (select_key ?k) = Some str"
    by (simp add: key_in_use_select task_simps ks)
  then show ?thesis
    using good str sk ks by (intro exI [of _ "select_key ?k"] exI [of _ str]) (auto simp: task_simps hash_Some)
qed

theorem sys_keygen_installs_witness:
  "\<exists>k' str. sys_keygen (\<lambda>n. of_nat (7 * n)) (\<lambda>_. 0) 2 (some_kernel [1 \<mapsto> some_task 7 0 3]) = Some (1, k') \<and>
    good_length (length str) \<and> key_in_use k' = Some str"
proof -
  have "running (some_kernel [1 \<mapsto> some_task 7 0 3])" by (simp add: running_def some_kernel_def)
  moreover have "t_key (cur (some_kernel [1 \<mapsto> some_task 7 0 3])) 0 = 0"
    by (simp add: cur_def some_kernel_def some_task_def INIT_TASK_def)
  ultimately show ?thesis
    using sys_keygen_installs [of 2 "some_kernel [1 \<mapsto> some_task 7 0 3]" "\<lambda>n. of_nat (7 * n)" "\<lambda>_. 0"] by fastforce
qed

end
