(* ===== verification/Sched.thy ===== *)
theory Sched
  imports KeyManager
begin

text \<open>
  The scheduler, \<^verbatim>\<open>kernel/sched.c\<close>: \<^verbatim>\<open>schedule\<close> with its alarm, key-timeout and signal
  checks, the wait queues \<^verbatim>\<open>sleep_on\<close>, \<^verbatim>\<open>interruptible_sleep_on\<close> and \<^verbatim>\<open>wake_up\<close>, the
  timer tick and the small system calls of that file.

  \<^verbatim>\<open>switch_to(n)\<close> makes another process run. A routine that calls \<^verbatim>\<open>schedule\<close> and goes on later
  is therefore modelled in two halves: what it does up to the switch, and what it does when its
  process is current again. The local variable \<^verbatim>\<open>tmp\<close> that lives across the switch is passed from
  one half to the other.
\<close>

section \<open>The checks\<close>

abbreviation SIGCHLD :: nat where "SIGCHLD \<equiv> 17"
abbreviation SIGALRM :: nat where "SIGALRM \<equiv> 14"

definition sig_bit :: "nat \<Rightarrow> u32" where
  "sig_bit sig = push_bit (sig - 1) 1"

definition expired :: "u32 \<Rightarrow> u32 \<Rightarrow> bool" where
  "expired timeout now \<longleftrightarrow> timeout \<noteq> 0 \<and> sint timeout < sint now"

definition check_alarm :: "nat \<Rightarrow> 'a kproc_scheme \<Rightarrow> 'a kproc_scheme" where
  "check_alarm i k = (case task k i of None \<Rightarrow> k | Some p \<Rightarrow>
     if expired (t_alarm p) (jiffies k)
     then on_task i (\<lambda>p. p\<lparr>t_signal := t_signal p OR sig_bit SIGALRM, t_alarm := 0\<rparr>) k else k)"

definition check_key :: "nat \<Rightarrow> 'a kproc_scheme \<Rightarrow> 'a kproc_scheme" where
  "check_key i k = (case task k i of None \<Rightarrow> k | Some p \<Rightarrow>
     if expired (t_k_timeout p) (jiffies k)
     then on_task i (\<lambda>p. p\<lparr>t_k_timeout := 0\<rparr>) (snd (sys_keyclear K_LOCAL k)) else k)"

definition check_global_key :: "'a kproc_scheme \<Rightarrow> 'a kproc_scheme" where
  "check_global_key k = (case task k 0 of None \<Rightarrow> k | Some p \<Rightarrow>
     if expired (t_k_timeout p) (jiffies k)
     then on_task 0 (\<lambda>p. p\<lparr>t_k_timeout := 0\<rparr>) (snd (sys_keyclear K_GLOBAL k)) else k)"

definition check_signal :: "nat \<Rightarrow> 'a kproc_scheme \<Rightarrow> 'a kproc_scheme" where
  "check_signal i k = (case task k i of None \<Rightarrow> k | Some p \<Rightarrow>
     if t_signal p \<noteq> 0 \<and> t_state p = TASK_INTERRUPTIBLE
     then on_task i (\<lambda>p. p\<lparr>t_state := TASK_RUNNING\<rparr>) k else k)"

definition check_task :: "nat \<Rightarrow> 'a kproc_scheme \<Rightarrow> 'a kproc_scheme" where
  "check_task i k = (if task k i = None then k
     else check_signal i (check_global_key (check_key i (check_alarm i k))))"

text \<open>\<^verbatim>\<open>for(p = &LAST_TASK ; p > &FIRST_TASK ; --p)\<close>\<close>

definition down_tasks :: "nat list" where
  "down_tasks = rev [1..<NR_TASKS]"

definition check_tasks :: "'a kproc_scheme \<Rightarrow> 'a kproc_scheme" where
  "check_tasks k = fold check_task down_tasks k"

section \<open>The scheduler proper\<close>

definition pick_step :: "'a kproc_scheme \<Rightarrow> nat \<Rightarrow> int \<times> nat \<Rightarrow> int \<times> nat" where
  "pick_step k i = (\<lambda>(c, next). case task k i of None \<Rightarrow> (c, next) | Some p \<Rightarrow>
     if t_state p = TASK_RUNNING \<and> c < sint (t_counter p) then (sint (t_counter p), i) else (c, next))"

definition pick :: "'a kproc_scheme \<Rightarrow> int \<times> nat" where
  "pick k = fold (pick_step k) down_tasks (- 1, 0)"

definition recharge_task :: "task_struct \<Rightarrow> task_struct" where
  "recharge_task p = p\<lparr>t_counter := signed_drop_bit 1 (t_counter p) + t_priority p\<rparr>"

definition recharge :: "'a kproc_scheme \<Rightarrow> 'a kproc_scheme" where
  "recharge k = fold (\<lambda>i. on_task i recharge_task) down_tasks k"

partial_function (option) schedule_loop :: "'a kproc_scheme \<Rightarrow> (nat \<times> 'a kproc_scheme) option" where
  "schedule_loop k =
     (if fst (pick k) \<noteq> 0 then Some (snd (pick k), k) else schedule_loop (recharge k))"

definition switch_to :: "nat \<Rightarrow> 'a kproc_scheme \<Rightarrow> 'a kproc_scheme" where
  "switch_to n k = k\<lparr>current := n\<rparr>"

definition schedule :: "'a kproc_scheme \<Rightarrow> 'a kproc_scheme option" where
  "schedule k = do { (n, k) \<leftarrow> schedule_loop (check_tasks k); Some (switch_to n k) }"

section \<open>Wait queues\<close>

text \<open>
  A wait queue is one pointer \<^verbatim>\<open>*p\<close>, the head. \<open>sleep_on_enter\<close> gives \<^verbatim>\<open>tmp\<close>, the new head and
  the state after the switch; \<open>sleep_on_leave\<close> is the rest, with that \<^verbatim>\<open>tmp\<close>.
\<close>

definition sleep_on_enter ::
  "nat option \<Rightarrow> 'a kproc_scheme \<Rightarrow> (nat option \<times> nat option \<times> 'a kproc_scheme) option" where
  "sleep_on_enter head k =
     (if current k = 0 then panic ''task[0] trying to sleep''
      else do { k' \<leftarrow> schedule (on_cur (\<lambda>t. t\<lparr>t_state := TASK_UNINTERRUPTIBLE\<rparr>) k);
                Some (head, Some (current k), k') })"

definition set_runnable :: "nat option \<Rightarrow> 'a kproc_scheme \<Rightarrow> 'a kproc_scheme" where
  "set_runnable p k = (case p of None \<Rightarrow> k | Some i \<Rightarrow> on_task i (\<lambda>t. t\<lparr>t_state := 0\<rparr>) k)"

definition sleep_on_leave :: "nat option \<Rightarrow> 'a kproc_scheme \<Rightarrow> 'a kproc_scheme" where
  "sleep_on_leave tmp k = set_runnable tmp k"

definition interruptible_sleep_on_enter ::
  "nat option \<Rightarrow> 'a kproc_scheme \<Rightarrow> (nat option \<times> nat option \<times> 'a kproc_scheme) option" where
  "interruptible_sleep_on_enter head k =
     (if current k = 0 then panic ''task[0] trying to sleep''
      else do { k' \<leftarrow> schedule (on_cur (\<lambda>t. t\<lparr>t_state := TASK_INTERRUPTIBLE\<rparr>) k);
                Some (head, Some (current k), k') })"

text \<open>Resumed: \<open>Inl\<close> when another task has queued up behind and the sleeper goes back to sleep.\<close>

definition interruptible_sleep_on_resume ::
  "nat option \<Rightarrow> nat option \<Rightarrow> 'a kproc_scheme \<Rightarrow> ('a kproc_scheme + nat option \<times> 'a kproc_scheme) option" where
  "interruptible_sleep_on_resume tmp head k =
     (if head \<noteq> None \<and> head \<noteq> Some (current k)
      then do { k' \<leftarrow> schedule (on_cur (\<lambda>t. t\<lparr>t_state := TASK_INTERRUPTIBLE\<rparr>) (set_runnable head k));
                Some (Inl k') }
      else Some (Inr (None, set_runnable tmp k)))"

definition wake_up :: "nat option \<Rightarrow> 'a kproc_scheme \<Rightarrow> nat option \<times> 'a kproc_scheme" where
  "wake_up head k = (None, set_runnable head k)"

section \<open>The timer and the system calls\<close>

definition do_timer :: "u32 \<Rightarrow> 'a kproc_scheme \<Rightarrow> 'a kproc_scheme option" where
  "do_timer cpl k =
     (let k = (if cpl \<noteq> 0 then on_cur (\<lambda>t. t\<lparr>t_utime := t_utime t + 1\<rparr>) k
               else on_cur (\<lambda>t. t\<lparr>t_stime := t_stime t + 1\<rparr>) k);
          k = on_cur (\<lambda>t. t\<lparr>t_counter := t_counter t - 1\<rparr>) k
      in if sint (t_counter (cur k)) > 0 then Some k
         else let k = on_cur (\<lambda>t. t\<lparr>t_counter := 0\<rparr>) k
              in if cpl = 0 then Some k else schedule k)"

text \<open>\<open>math_state_restore\<close>: the floating point registers are saved into the task that used them last.\<close>

definition math_state_restore :: "cbuf \<Rightarrow> 'a kproc_scheme \<Rightarrow> 'a kproc_scheme" where
  "math_state_restore fpu k =
     (let k = (case last_task_used_math k of None \<Rightarrow> k
                | Some i \<Rightarrow> on_task i (\<lambda>t. t\<lparr>t_tss := (t_tss t)\<lparr>i387 := fpu\<rparr>\<rparr>) k);
          k = (if t_used_math (cur k) \<noteq> 0 then k else on_cur (\<lambda>t. t\<lparr>t_used_math := 1\<rparr>) k)
      in k\<lparr>last_task_used_math := Some (current k)\<rparr>)"

definition sys_pause :: "'a kproc_scheme \<Rightarrow> (int \<times> 'a kproc_scheme) option" where
  "sys_pause k =
     do { k \<leftarrow> schedule (on_cur (\<lambda>t. t\<lparr>t_state := TASK_INTERRUPTIBLE\<rparr>) k); Some (0, k) }"

definition sys_alarm :: "u32 \<Rightarrow> 'a kproc_scheme \<Rightarrow> u32 \<times> 'a kproc_scheme" where
  "sys_alarm seconds k =
     (seconds, on_cur (\<lambda>t. t\<lparr>t_alarm := if sint seconds > 0 then jiffies k + HZ * seconds else 0\<rparr>) k)"

definition sys_getpid :: "'a kproc_scheme \<Rightarrow> u32" where
  "sys_getpid k = t_pid (cur k)"

definition sys_getppid :: "'a kproc_scheme \<Rightarrow> u32" where
  "sys_getppid k = t_father (cur k)"

definition sys_getuid :: "'a kproc_scheme \<Rightarrow> u16" where
  "sys_getuid k = t_uid (cur k)"

definition sys_geteuid :: "'a kproc_scheme \<Rightarrow> u16" where
  "sys_geteuid k = t_euid (cur k)"

definition sys_getgid :: "'a kproc_scheme \<Rightarrow> u16" where
  "sys_getgid k = t_gid (cur k)"

definition sys_getegid :: "'a kproc_scheme \<Rightarrow> u16" where
  "sys_getegid k = t_egid (cur k)"

definition sys_nice :: "u32 \<Rightarrow> 'a kproc_scheme \<Rightarrow> int \<times> 'a kproc_scheme" where
  "sys_nice increment k =
     (if sint (t_priority (cur k) - increment) > 0
      then (0, on_cur (\<lambda>t. t\<lparr>t_priority := t_priority t - increment\<rparr>) k) else (0, k))"

definition catchable :: "nat list" where
  "catchable = [1, 2, 3, 4, 5, 6, 8, 10, 11, 12, 13, 14, 17]"

definition sys_signal :: "u32 \<Rightarrow> u32 \<Rightarrow> u32 \<Rightarrow> 'a kproc_scheme \<Rightarrow> u32 \<times> 'a kproc_scheme" where
  "sys_signal sig addr restorer k =
     (if unat sig \<in> set catchable
      then (t_sig_fn (cur k) (unat sig - 1),
            on_cur (\<lambda>t. t\<lparr>t_sig_fn := (t_sig_fn t)(unat sig - 1 := addr), t_sig_restorer := restorer\<rparr>) k)
      else (- 1, k))"

text \<open>\<^verbatim>\<open>sched_init\<close> on the task table; descriptor table and timer chip set-up are hardware accesses.\<close>

definition sched_init :: "'a kproc_scheme \<Rightarrow> 'a kproc_scheme" where
  "sched_init k = k\<lparr>task := (\<lambda>i. if 1 \<le> i \<and> i < NR_TASKS then None else task k i)\<rparr>"

section \<open>Lemmas\<close>

lemma fold_pointwise:
  assumes "distinct xs"
    and "\<And>i k. i \<in> set xs \<Longrightarrow> P k \<Longrightarrow> P (f i k) \<and> (\<forall>j. view (f i k) j = (if j = i then g (view k j) else view k j))"
    and "P k"
  shows "P (fold f xs k) \<and> (\<forall>j. view (fold f xs k) j = (if j \<in> set xs then g (view k j) else view k j))"
  using assms
proof (induction xs arbitrary: k)
  case Nil
  then show ?case by simp
next
  case (Cons x xs)
  have "P (f x k) \<and> (\<forall>j. view (f x k) j = (if j = x then g (view k j) else view k j))"
    using Cons.prems(2,3) by simp
  then show ?case using Cons.IH [of "f x k"] Cons.prems(1,2) by auto
qed

lemma down_tasks_simps [simp]: "distinct down_tasks" "set down_tasks = {1..<NR_TASKS}"
  by (auto simp: down_tasks_def)

subsection \<open>What the checks do to a task\<close>

text \<open>The fields the scheduler looks at.\<close>

definition sched_view :: "task_struct \<Rightarrow> u32 \<times> u32 \<times> u32 \<times> u32 \<times> u32 \<times> u32" where
  "sched_view p = (t_alarm p, t_signal p, t_state p, t_counter p, t_priority p, t_pid p)"

definition task_view where
  "task_view k i = map_option sched_view (task k i)"

definition checked where
  "checked now = map_option (\<lambda>(al, sg, st, c, pr, pid).
     let sg' = (if expired al now then sg OR sig_bit SIGALRM else sg)
     in (if expired al now then 0 else al, sg',
         if sg' \<noteq> 0 \<and> st = TASK_INTERRUPTIBLE then TASK_RUNNING else st, c, pr, pid))"

lemma task_view_keyclear [simp]: "task_view (snd (sys_keyclear g k)) = task_view k"
  by (rule ext) (auto simp: task_view_def sys_keyclear_def clear_key_def task_simps
    sched_view_def [abs_def] option.map_comp comp_def)

lemma keyclear_frame [simp]:
  "jiffies (snd (sys_keyclear g k)) = jiffies k" "current (snd (sys_keyclear g k)) = current k"
  by (simp_all add: sys_keyclear_def clear_key_def task_simps)

lemma task_view_timeout [simp]:
  "task_view (on_task i (\<lambda>p. p\<lparr>t_k_timeout := v\<rparr>) k) = task_view k"
  by (rule ext) (auto simp: task_view_def task_simps sched_view_def [abs_def] option.map_comp comp_def)

lemma check_key_view [simp]:
  "task_view (check_key i k) = task_view k" "task_view (check_global_key k) = task_view k"
  by (simp_all add: check_key_def check_global_key_def split: option.split)

lemma checks_frame [simp]:
  "jiffies (check_alarm i k) = jiffies k" "jiffies (check_key i k) = jiffies k"
  "jiffies (check_global_key k) = jiffies k" "jiffies (check_signal i k) = jiffies k"
  "current (check_alarm i k) = current k" "current (check_key i k) = current k"
  "current (check_global_key k) = current k" "current (check_signal i k) = current k"
  by (simp_all add: check_alarm_def check_key_def check_global_key_def check_signal_def task_simps
    split: option.split)

lemma check_task_frame [simp]:
  "jiffies (check_task i k) = jiffies k" "current (check_task i k) = current k"
  by (simp_all add: check_task_def)

lemma check_alarm_view:
  "task_view (check_alarm i k) j = (if j = i then map_option (\<lambda>(al, sg, r).
     if expired al (jiffies k) then (0, sg OR sig_bit SIGALRM, r) else (al, sg, r)) (task_view k j)
     else task_view k j)"
  by (auto simp: check_alarm_def task_view_def task_simps sched_view_def split: option.split)

lemma check_signal_view:
  "task_view (check_signal i k) j = (if j = i then map_option (\<lambda>(al, sg, st, r).
     (al, sg, if sg \<noteq> 0 \<and> st = TASK_INTERRUPTIBLE then TASK_RUNNING else st, r)) (task_view k j)
     else task_view k j)"
  by (auto simp: check_signal_def task_view_def task_simps sched_view_def split: option.split)

lemma check_task_view:
  "task_view (check_task i k) j = (if j = i then checked (jiffies k) (task_view k j) else task_view k j)"
proof (cases "task k i")
  case None
  then show ?thesis by (auto simp: check_task_def checked_def task_view_def)
next
  case (Some p)
  then show ?thesis
    by (simp add: check_task_def check_signal_view check_alarm_view checked_def Let_def
      option.map_comp comp_def split_def)
      (auto simp: task_view_def)
qed

lemma check_tasks_view:
  "jiffies (check_tasks k) = jiffies k \<and> current (check_tasks k) = current k \<and>
    (\<forall>j. task_view (check_tasks k) j =
      (if j \<in> {1..<NR_TASKS} then checked (jiffies k) (task_view k j) else task_view k j))"
  using fold_pointwise [of down_tasks "\<lambda>k'. jiffies k' = jiffies k \<and> current k' = current k"
    check_task task_view "checked (jiffies k)" k]
  unfolding check_tasks_def by (simp add: check_task_view)

subsection \<open>The choice of the next task\<close>

text \<open>
  \<open>runnable k i c\<close>: slot \<open>i\<close> holds a task in state running with counter \<open>c\<close>. \<open>sched_ok\<close> is the
  range the priorities and counters keep: no priority is zero and no recharge overflows.
\<close>

definition runnable :: "'a kproc_scheme \<Rightarrow> nat \<Rightarrow> int \<Rightarrow> bool" where
  "runnable k i c \<longleftrightarrow> 1 \<le> i \<and> i < NR_TASKS \<and>
     (\<exists>p. task k i = Some p \<and> t_state p = TASK_RUNNING \<and> sint (t_counter p) = c)"

definition charge_ok :: "task_struct \<Rightarrow> bool" where
  "charge_ok p \<longleftrightarrow> 0 < sint (t_priority p) \<and> sint (t_priority p) < 2 ^ 30 \<and>
     0 \<le> sint (t_counter p) \<and> sint (t_counter p) \<le> 2 * sint (t_priority p)"

definition sched_ok :: "'a kproc_scheme \<Rightarrow> bool" where
  "sched_ok k \<longleftrightarrow> (\<forall>i\<in>{1..<NR_TASKS}. \<forall>p. task k i = Some p \<longrightarrow> charge_ok p)"

definition best :: "'a kproc_scheme \<Rightarrow> nat set \<Rightarrow> int \<times> nat \<Rightarrow> bool" where
  "best k S = (\<lambda>(c, n).
     (\<forall>i\<in>S. \<forall>d. runnable k i d \<longrightarrow> d \<le> c) \<and>
     (if \<exists>i\<in>S. \<exists>d. runnable k i d then n \<in> S \<and> runnable k n c \<and> 0 \<le> c else c = - 1 \<and> n = 0))"

lemma pick_step_best:
  assumes ok: "sched_ok k" and i: "1 \<le> i" "i < NR_TASKS" and b: "best k S r"
  shows "best k (insert i S) (pick_step k i r)"
proof (cases "\<exists>d. runnable k i d")
  case False
  then have "pick_step k i r = r"
    using i by (auto simp: pick_step_def runnable_def split: option.split prod.split)
  then show ?thesis using b False by (auto simp: best_def split: prod.splits)
next
  case True
  then obtain p where p: "task k i = Some p" "t_state p = TASK_RUNNING" by (auto simp: runnable_def)
  let ?c = "sint (t_counter p)"
  have c0: "0 \<le> ?c" using ok i p(1) by (auto simp: sched_ok_def charge_ok_def)
  have run: "runnable k i d \<longleftrightarrow> d = ?c" for d using p i by (auto simp: runnable_def)
  obtain c n where r: "r = (c, n)" by (cases r)
  have step: "pick_step k i (c, n) = (if c < ?c then (?c, i) else (c, n))"
    using p by (simp add: pick_step_def)
  have le: "d \<le> c" if "j \<in> S" "runnable k j d" for j d
    using b that unfolding r best_def by auto
  have n: "if \<exists>i\<in>S. \<exists>d. runnable k i d then n \<in> S \<and> runnable k n c \<and> 0 \<le> c else c = - 1 \<and> n = 0"
    using b unfolding r best_def by auto
  show ?thesis
  proof (cases "c < ?c")
    case True
    have "d \<le> ?c" if "j \<in> insert i S" "runnable k j d" for j d
      using le [of j d] that run True by auto
    then show ?thesis using True c0 run unfolding r step best_def by auto
  next
    case False
    then have "\<exists>i\<in>S. \<exists>d. runnable k i d" using n c0 by (auto split: if_splits)
    moreover have "d \<le> c" if "j \<in> insert i S" "runnable k j d" for j d
      using le [of j d] that run False by auto
    ultimately show ?thesis using False n unfolding r step best_def by auto
  qed
qed

lemma pick_best: "sched_ok k \<Longrightarrow> best k {1..<NR_TASKS} (pick k)"
proof -
  assume ok: "sched_ok k"
  have "best k (S \<union> set xs) (fold (pick_step k) xs r)" if "best k S r" "set xs \<subseteq> {1..<NR_TASKS}" for xs r S
    using that
  proof (induction xs arbitrary: r S)
    case Nil
    then show ?case by simp
  next
    case (Cons x xs)
    then have "best k (insert x S) (pick_step k x r)" using ok by (intro pick_step_best) auto
    from Cons.IH [OF this] Cons.prems(2) show ?case by simp
  qed
  from this [of "{}" "(- 1, 0)" down_tasks] show ?thesis by (simp add: pick_def best_def)
qed

lemma recharge_task_ok:
  assumes "charge_ok p"
  shows "sint (t_counter (recharge_task p)) = sint (t_counter p) div 2 + sint (t_priority p)"
    "charge_ok (recharge_task p)" "0 < sint (t_counter (recharge_task p))"
proof -
  have "sint (signed_drop_bit 1 (t_counter p)) = sint (t_counter p) div 2"
    by (simp add: sint_signed_drop_bit_eq drop_bit_eq_div)
  moreover have "sint (signed_drop_bit 1 (t_counter p) + t_priority p) =
      sint (signed_drop_bit 1 (t_counter p)) + sint (t_priority p)"
    using assms calculation unfolding charge_ok_def sint_word_ariths
    by (intro signed_take_bit_int_eq_self) auto
  ultimately show c: "sint (t_counter (recharge_task p)) = sint (t_counter p) div 2 + sint (t_priority p)"
    by (simp add: recharge_task_def)
  have pr: "t_priority (recharge_task p) = t_priority p" by (simp add: recharge_task_def)
  show "0 < sint (t_counter (recharge_task p))" unfolding c using assms
    by (intro add_nonneg_pos) (auto simp: charge_ok_def)
  then show "charge_ok (recharge_task p)"
    using assms c unfolding charge_ok_def pr by linarith
qed

lemma task_recharge:
  "task (recharge k) i = (if i \<in> {1..<NR_TASKS} then map_option recharge_task (task k i) else task k i)"
  using fold_pointwise [of down_tasks "\<lambda>_. True" "\<lambda>i. on_task i recharge_task" task "map_option recharge_task" k]
  by (simp add: recharge_def task_simps)

lemma recharge_frame [simp]: "current (recharge k) = current k" "jiffies (recharge k) = jiffies k"
proof -
  have "current (fold (\<lambda>i. on_task i recharge_task) xs k) = current k \<and>
      jiffies (fold (\<lambda>i. on_task i recharge_task) xs k) = jiffies k" for xs
    by (induction xs arbitrary: k) (simp_all add: task_simps)
  then show "current (recharge k) = current k" "jiffies (recharge k) = jiffies k"
    by (simp_all add: recharge_def)
qed

lemma sched_ok_recharge: "sched_ok k \<Longrightarrow> sched_ok (recharge k)"
  by (auto simp: sched_ok_def task_recharge recharge_task_ok)

lemma runnable_recharge:
  "sched_ok k \<Longrightarrow> runnable (recharge k) i d \<Longrightarrow> 0 < d \<and> (\<exists>c. runnable k i c)"
proof -
  assume ok: "sched_ok k" and r: "runnable (recharge k) i d"
  then obtain p where p: "task k i = Some p" "1 \<le> i" "i < NR_TASKS" "d = sint (t_counter (recharge_task p))"
    "t_state p = TASK_RUNNING"
    by (auto simp: runnable_def task_recharge) (auto simp: recharge_task_def)
  then have "charge_ok p" using ok by (auto simp: sched_ok_def)
  then show ?thesis using recharge_task_ok(3) p by (auto simp: runnable_def)
qed

lemma schedule_loop_picks:
  assumes ok: "sched_ok k"
  shows "\<exists>k'. schedule_loop k = Some (snd (pick k'), k') \<and> (k' = k \<or> k' = recharge k) \<and> fst (pick k') \<noteq> 0"
proof (cases "fst (pick k) = 0")
  case False
  then show ?thesis by (subst schedule_loop.simps) auto
next
  case True
  then obtain n where p: "pick k = (0, n)" by (cases "pick k") auto
  have "\<exists>i\<in>{1..<NR_TASKS}. \<exists>d. runnable k i d"
    using pick_best [OF ok] unfolding p best_def by (auto split: if_splits)
  then obtain i where "i \<in> {1..<NR_TASKS}" "\<exists>d. runnable (recharge k) i d"
    by (auto simp: runnable_def task_recharge recharge_task_def)
  then have "fst (pick (recharge k)) \<noteq> 0"
    using pick_best [OF sched_ok_recharge [OF ok]] runnable_recharge [OF ok]
    unfolding best_def by (fastforce split: prod.splits if_splits)
  moreover have "schedule_loop k = schedule_loop (recharge k)"
    using True by (subst schedule_loop.simps) simp
  ultimately show ?thesis
    by (intro exI [of _ "recharge k"]) (simp, subst schedule_loop.simps, simp)
qed

text \<open>Ready to run once the signals and alarms have been looked at.\<close>

definition ready :: "'a kproc_scheme \<Rightarrow> nat \<Rightarrow> bool" where
  "ready k i \<longleftrightarrow> 1 \<le> i \<and> i < NR_TASKS \<and> (\<exists>p. task k i = Some p \<and> (t_state p = TASK_RUNNING \<or>
     t_state p = TASK_INTERRUPTIBLE \<and> (t_signal p \<noteq> 0 \<or> expired (t_alarm p) (jiffies k))))"

lemma sig_bit_or [simp]: "sg OR sig_bit SIGALRM \<noteq> 0"
proof
  assume "sg OR sig_bit SIGALRM = 0"
  then have "bit (sg OR sig_bit SIGALRM) 13 = False" by simp
  then show False by (simp add: sig_bit_def bit_simps)
qed

lemma check_tasks_task:
  assumes "task k i = Some p" and "1 \<le> i" and "i < NR_TASKS"
  shows "\<exists>p'. task (check_tasks k) i = Some p' \<and> t_counter p' = t_counter p \<and> t_priority p' = t_priority p \<and>
    t_pid p' = t_pid p \<and> t_alarm p' = (if expired (t_alarm p) (jiffies k) then 0 else t_alarm p) \<and>
    t_signal p' = (if expired (t_alarm p) (jiffies k) then t_signal p OR sig_bit SIGALRM else t_signal p) \<and>
    t_state p' = (if ready k i then TASK_RUNNING else t_state p)"
proof -
  have "task_view (check_tasks k) i = checked (jiffies k) (Some (sched_view p))"
    using check_tasks_view [of k] assms by (simp add: task_view_def)
  then obtain p' where "task (check_tasks k) i = Some p'"
    "Some (sched_view p') = checked (jiffies k) (Some (sched_view p))"
    by (auto simp: task_view_def checked_def)
  then show ?thesis using assms
    by (intro exI [of _ p']) (auto simp: checked_def sched_view_def Let_def ready_def split: if_splits)
qed

lemma check_tasks_None: "1 \<le> i \<Longrightarrow> i < NR_TASKS \<Longrightarrow> task (check_tasks k) i = None \<longleftrightarrow> task k i = None"
  using check_tasks_view [of k] by (auto simp: task_view_def checked_def dest!: spec [of _ i])

lemma sched_ok_check_tasks: "sched_ok k \<Longrightarrow> sched_ok (check_tasks k)"
  unfolding sched_ok_def
proof (intro ballI allI impI)
  fix i p'
  assume ok: "\<forall>i\<in>{1..<NR_TASKS}. \<forall>p. task k i = Some p \<longrightarrow> charge_ok p"
    and i: "i \<in> {1..<NR_TASKS}" and p': "task (check_tasks k) i = Some p'"
  then obtain p where "task k i = Some p" using check_tasks_None [of i k] by auto
  then show "charge_ok p'" using check_tasks_task [of k i p] p' i ok by (auto simp: charge_ok_def)
qed

lemma runnable_check_tasks: "(\<exists>c. runnable (check_tasks k) i c) \<longleftrightarrow> ready k i"
proof (cases "1 \<le> i \<and> i < NR_TASKS \<and> task k i \<noteq> None")
  case True
  then obtain p where p: "task k i = Some p" by auto
  then obtain p' where "task (check_tasks k) i = Some p'" "t_state p' = (if ready k i then TASK_RUNNING else t_state p)"
    using check_tasks_task [OF p] True by auto
  then show ?thesis using True p by (auto simp: runnable_def ready_def split: if_splits)
next
  case False
  then show ?thesis using check_tasks_None [of i k] by (auto simp: runnable_def ready_def)
qed

lemma runnable_recharge_iff: "(\<exists>c. runnable (recharge k) i c) \<longleftrightarrow> (\<exists>c. runnable k i c)"
  by (auto simp: runnable_def task_recharge recharge_task_def)

section \<open>Properties\<close>

text \<open>
  C3: With priorities and counters in their range \<^verbatim>\<open>schedule\<close> always comes to an end. It switches
  to a ready task whose counter is not smaller than any other ready task's and is not used up, and
  to the idle task exactly when no task is ready; the range of the counters is kept.
\<close>

theorem schedule_picks:
  assumes "sched_ok k"
  shows "\<exists>k'. schedule k = Some k' \<and> sched_ok k' \<and> (\<forall>i. (\<exists>c. runnable k' i c) \<longleftrightarrow> ready k i) \<and>
    (if \<exists>i. ready k i
     then \<exists>c. runnable k' (current k') c \<and> 0 < c \<and> (\<forall>i d. runnable k' i d \<longrightarrow> d \<le> c)
     else current k' = 0)"
proof -
  let ?m = "check_tasks k"
  note ok = sched_ok_check_tasks [OF assms]
  obtain k1 where k1: "schedule_loop ?m = Some (snd (pick k1), k1)" "k1 = ?m \<or> k1 = recharge ?m"
    "fst (pick k1) \<noteq> 0" using schedule_loop_picks [OF ok] by blast
  have ok1: "sched_ok k1" using k1(2) ok sched_ok_recharge by blast
  have run: "(\<exists>c. runnable k1 i c) \<longleftrightarrow> ready k i" for i
    using k1(2) runnable_check_tasks runnable_recharge_iff by metis
  let ?k' = "switch_to (snd (pick k1)) k1"
  have sw: "runnable ?k' = runnable k1" "current ?k' = snd (pick k1)" "sched_ok ?k'"
    using ok1 by (auto simp: switch_to_def runnable_def sched_ok_def fun_eq_iff)
  have lt: "runnable k1 i c \<Longrightarrow> i \<in> {1..<NR_TASKS}" for i c by (simp add: runnable_def)
  obtain c n where p: "pick k1 = (c, n)" by (cases "pick k1")
  then have c: "c \<noteq> 0" using k1(3) by simp
  have le: "d \<le> c" if "runnable k1 i d" for i d
    using pick_best [OF ok1] lt [OF that] that unfolding p best_def by auto
  have "if \<exists>i\<in>{1..<NR_TASKS}. \<exists>d. runnable k1 i d
      then n \<in> {1..<NR_TASKS} \<and> runnable k1 n c \<and> 0 \<le> c else c = - 1 \<and> n = 0"
    using pick_best [OF ok1] unfolding p best_def prod.case by (rule conjunct2)
  moreover have "(\<exists>i\<in>{1..<NR_TASKS}. \<exists>d. runnable k1 i d) \<longleftrightarrow> (\<exists>i. ready k i)"
    using run lt by metis
  ultimately have "if \<exists>i. ready k i then runnable k1 n c \<and> 0 < c else n = 0"
    using c by (auto split: if_splits)
  then have "if \<exists>i. ready k i
     then \<exists>c. runnable k1 (snd (pick k1)) c \<and> 0 < c \<and> (\<forall>i d. runnable k1 i d \<longrightarrow> d \<le> c)
     else snd (pick k1) = 0"
    using le by (auto simp: p split: if_splits)
  moreover have "current (switch_to m k1) = m" for m by (simp add: switch_to_def)
  ultimately show ?thesis using k1(1) sw run by (intro exI [of _ ?k']) (simp add: schedule_def)
qed

text \<open>A table with one sleeper that has a signal pending and one task with a used-up counter.\<close>

definition two_tasks :: "nat \<Rightarrow> task_struct option" where
  "two_tasks = [0 \<mapsto> some_task 0 0 15, 1 \<mapsto> some_task 7 TASK_RUNNING 0,
     2 \<mapsto> (some_task 8 TASK_INTERRUPTIBLE 3)\<lparr>t_alarm := 400\<rparr>]"

lemma two_tasks_ok: "sched_ok (some_kernel two_tasks)"
  by (auto simp: sched_ok_def some_kernel_def two_tasks_def some_task_def INIT_TASK_def charge_ok_def split: if_splits)

theorem schedule_picks_witness:
  "\<exists>k' c. schedule (some_kernel two_tasks) = Some k' \<and> runnable k' (current k') c \<and> 0 < c"
proof -
  have "ready (some_kernel two_tasks) 1"
    by (simp add: ready_def some_kernel_def two_tasks_def some_task_def)
  then show ?thesis using schedule_picks [OF two_tasks_ok] by (auto split: if_splits)
qed

text \<open>
  A task whose alarm time has passed has \<^verbatim>\<open>SIGALRM\<close> pending after the checks of \<^verbatim>\<open>schedule\<close>
  and its alarm is off; it is runnable if it waited interruptibly. Every other task keeps its
  alarm and its signals.
\<close>

theorem check_tasks_alarm:
  assumes "task k i = Some p" and "1 \<le> i" and "i < NR_TASKS"
  shows "\<exists>p'. task (check_tasks k) i = Some p' \<and>
    (if expired (t_alarm p) (jiffies k)
     then t_alarm p' = 0 \<and> t_signal p' = t_signal p OR sig_bit SIGALRM \<and>
          (t_state p = TASK_INTERRUPTIBLE \<longrightarrow> t_state p' = TASK_RUNNING)
     else t_alarm p' = t_alarm p \<and> t_signal p' = t_signal p) \<and>
    (t_state p \<noteq> TASK_INTERRUPTIBLE \<longrightarrow> t_state p' = t_state p)"
proof -
  have "t_state p = TASK_INTERRUPTIBLE \<Longrightarrow> expired (t_alarm p) (jiffies k) \<Longrightarrow> ready k i"
    and "ready k i \<Longrightarrow> t_state p = TASK_RUNNING \<or> t_state p = TASK_INTERRUPTIBLE"
    using assms by (auto simp: ready_def)
  then show ?thesis using check_tasks_task [OF assms] by auto
qed

theorem check_tasks_alarm_witness:
  "\<exists>p'. task (check_tasks (some_kernel two_tasks)) 2 = Some p' \<and> t_alarm p' = 0 \<and>
    t_signal p' = 8192 \<and> t_state p' = TASK_RUNNING"
  using check_tasks_alarm [of "some_kernel two_tasks" 2 "(some_task 8 TASK_INTERRUPTIBLE 3)\<lparr>t_alarm := 400\<rparr>"]
  by (auto simp: some_kernel_def two_tasks_def some_task_def INIT_TASK_def expired_def sig_bit_def)

text \<open>
  C14: When the key of another task has timed out, the check clears the key of the \<^emph>\<open>current\<close> task
  and leaves the timed-out key in place, with its timer off.
\<close>

theorem key_timeout_clears_current:
  assumes "task k i = Some p" and "i \<noteq> current k" and "task k (current k) = Some c"
    and "expired (t_k_timeout p) (jiffies k)"
  shows "task (check_key i k) i = Some (p\<lparr>t_k_timeout := 0\<rparr>) \<and>
    task (check_key i k) (current k) =
      Some (c\<lparr>t_key := (t_key c)(0 := 0), t_h_key := (t_h_key c)(0 := 0)\<rparr>)"
  using assms by (simp add: check_key_def sys_keyclear_def clear_key_def task_simps)

theorem key_timeout_clears_current_witness:
  "\<exists>c. task (check_key 2 (some_kernel (two_tasks(2 \<mapsto> (some_task 8 0 3)\<lparr>t_k_timeout := 499,
      t_key := (\<lambda>_. 97)\<rparr>, 1 \<mapsto> (some_task 7 0 3)\<lparr>t_key := (\<lambda>_. 98)\<rparr>)))) 1 = Some c \<and> t_key c 0 = 0"
  using key_timeout_clears_current [of "some_kernel (two_tasks(2 \<mapsto> (some_task 8 0 3)\<lparr>t_k_timeout := 499,
      t_key := (\<lambda>_. 97)\<rparr>, 1 \<mapsto> (some_task 7 0 3)\<lparr>t_key := (\<lambda>_. 98)\<rparr>))" 2]
  by (auto simp: some_kernel_def some_task_def INIT_TASK_def expired_def)

subsection \<open>Wait queues lose nobody\<close>

lemma schedule_effect:
  assumes "sched_ok k" and "schedule k = Some k'"
  shows "sched_ok k'" "current k' = 0 \<or> (\<exists>c. runnable k' (current k') c)"
    "1 \<le> i \<Longrightarrow> i < NR_TASKS \<Longrightarrow> map_option t_state (task k' i) =
      (if ready k i then Some TASK_RUNNING else map_option t_state (task k i))"
proof -
  note ok = sched_ok_check_tasks [OF assms(1)]
  obtain k1 where k1: "schedule_loop (check_tasks k) = Some (snd (pick k1), k1)"
    "k1 = check_tasks k \<or> k1 = recharge (check_tasks k)" using schedule_loop_picks [OF ok] by blast
  have k': "k' = switch_to (snd (pick k1)) k1" using assms(2) k1(1) by (simp add: schedule_def)
  have ok1: "sched_ok k1" using k1(2) ok sched_ok_recharge by blast
  then show "sched_ok k'" by (simp add: k' switch_to_def sched_ok_def)
  have "snd (pick k1) = 0 \<or> (\<exists>c. runnable k1 (snd (pick k1)) c)"
    using pick_best [OF ok1] by (auto simp: best_def split: prod.splits if_splits)
  then show "current k' = 0 \<or> (\<exists>c. runnable k' (current k') c)"
    by (auto simp: k' switch_to_def runnable_def)
  assume i: "1 \<le> i" "i < NR_TASKS"
  have "map_option t_state (task k' i) = map_option t_state (task (check_tasks k) i)"
    using k1(2) by (auto simp: k' switch_to_def task_recharge option.map_comp comp_def recharge_task_def)
  also have "\<dots> = (if ready k i then Some TASK_RUNNING else map_option t_state (task k i))"
  proof (cases "task k i")
    case None
    then show ?thesis using check_tasks_None [OF i, of k] by (simp add: ready_def)
  next
    case (Some p)
    then show ?thesis using check_tasks_task [OF Some i] by auto
  qed
  finally show "map_option t_state (task k' i) = \<dots>" .
qed

text \<open>
  One wait queue and the tasks sleeping in it: its head, and for each task between the two halves
  of \<^verbatim>\<open>sleep_on\<close> the value of its local variable \<^verbatim>\<open>tmp\<close>.
\<close>

type_synonym 'a wait_state = "'a kproc_scheme \<times> nat option \<times> (nat \<rightharpoonup> nat option)"

inductive wq_step :: "'a wait_state \<Rightarrow> 'a wait_state \<Rightarrow> bool" where
  wq_sleep: "\<lbrakk>fr (current k) = None; sleep_on_enter head k = Some (tmp, head', k')\<rbrakk> \<Longrightarrow>
    wq_step (k, head, fr) (k', head', fr(current k \<mapsto> tmp))"
| wq_resume: "fr (current k) = Some tmp \<Longrightarrow>
    wq_step (k, head, fr) (sleep_on_leave tmp k, head, fr(current k := None))"
| wq_wake: "wake_up head k = (head', k') \<Longrightarrow> wq_step (k, head, fr) (k', head', fr)"
| wq_switch: "\<lbrakk>fr (current k) = None; schedule k = Some k'\<rbrakk> \<Longrightarrow> wq_step (k, head, fr) (k', head, fr)"

inductive_cases wq_stepE: "wq_step (k, head, fr) s"

definition st_of :: "'a kproc_scheme \<Rightarrow> nat \<Rightarrow> u32 option" where
  "st_of k i = map_option t_state (task k i)"

text \<open>
  The shape of a queue: \<open>S\<close>, the tasks that sleep and have not been woken, are exactly the targets
  of the head and of the \<^verbatim>\<open>tmp\<close> variables, each of one of them, and the pointers have no cycle.
\<close>

definition wq_shape :: "nat option \<Rightarrow> (nat \<rightharpoonup> nat option) \<Rightarrow> nat set \<Rightarrow> bool" where
  "wq_shape head fr S \<longleftrightarrow> S \<subseteq> dom fr \<and>
     (\<forall>i\<in>S. head = Some i \<or> (\<exists>j. fr j = Some (Some i))) \<and>
     (\<forall>i. head = Some i \<longrightarrow> i \<in> S \<and> (\<forall>j. fr j \<noteq> Some (Some i))) \<and>
     (\<forall>i j. fr j = Some (Some i) \<longrightarrow> i \<in> S) \<and>
     (\<forall>i j j'. fr j = Some (Some i) \<longrightarrow> fr j' = Some (Some i) \<longrightarrow> j = j') \<and>
     (\<exists>rank :: nat \<Rightarrow> nat. \<forall>i j. fr j = Some (Some i) \<longrightarrow> rank i < rank j)"

lemma wq_shapeD:
  assumes "wq_shape head fr S"
  shows "S \<subseteq> dom fr" "\<And>i. i \<in> S \<Longrightarrow> head = Some i \<or> (\<exists>j. fr j = Some (Some i))"
    "\<And>i. head = Some i \<Longrightarrow> i \<in> S \<and> (\<forall>j. fr j \<noteq> Some (Some i))"
    "\<And>i j. fr j = Some (Some i) \<Longrightarrow> i \<in> S"
    "\<And>i j j'. fr j = Some (Some i) \<Longrightarrow> fr j' = Some (Some i) \<Longrightarrow> j = j'"
  using assms unfolding wq_shape_def by blast+

lemma wq_shapeI:
  assumes "S \<subseteq> dom fr" "\<And>i. i \<in> S \<Longrightarrow> head = Some i \<or> (\<exists>j. fr j = Some (Some i))"
    "\<And>i. head = Some i \<Longrightarrow> i \<in> S \<and> (\<forall>j. fr j \<noteq> Some (Some i))"
    "\<And>i j. fr j = Some (Some i) \<Longrightarrow> i \<in> S"
    "\<And>i j j'. fr j = Some (Some i) \<Longrightarrow> fr j' = Some (Some i) \<Longrightarrow> j = j'"
    "\<And>i j. fr j = Some (Some i) \<Longrightarrow> (rank :: nat \<Rightarrow> nat) i < rank j"
  shows "wq_shape head fr S"
  unfolding wq_shape_def using assms by (intro conjI exI [of _ rank]) simp_all

lemma wq_shape_sleep:
  assumes "wq_shape head fr S" and "fr c = None"
  shows "wq_shape (Some c) (fr(c \<mapsto> head)) (insert c S)"
proof -
  obtain rank :: "nat \<Rightarrow> nat" where r: "\<And>i j. fr j = Some (Some i) \<Longrightarrow> rank i < rank j"
    using assms(1) unfolding wq_shape_def by blast
  have c: "c \<notin> S" "\<And>j. fr j \<noteq> Some (Some c)" "head \<noteq> Some c"
    using assms unfolding wq_shape_def by auto
  let ?rank = "rank(c := case head of None \<Rightarrow> 0 | Some i \<Rightarrow> Suc (rank i))"
  have "\<forall>i j. (fr(c \<mapsto> head)) j = Some (Some i) \<longrightarrow> ?rank i < ?rank j"
    using r c by auto
  moreover have pt: "(fr(c \<mapsto> head)) j = Some (Some i) \<longleftrightarrow> fr j = Some (Some i) \<or> j = c \<and> head = Some i" for i j
    using assms(2) by auto
  note D = wq_shapeD [OF assms(1)]
  show ?thesis
  proof (rule wq_shapeI [where rank = ?rank])
    show "insert c S \<subseteq> dom (fr(c \<mapsto> head))" using D(1) by auto
    show "Some c = Some i \<or> (\<exists>j. (fr(c \<mapsto> head)) j = Some (Some i))" if "i \<in> insert c S" for i
      unfolding pt using that D(2) by blast
    show "i \<in> insert c S \<and> (\<forall>j. (fr(c \<mapsto> head)) j \<noteq> Some (Some i))" if "Some c = Some i" for i
      unfolding pt using that c(2,3) by simp
    show "i \<in> insert c S" if "(fr(c \<mapsto> head)) j = Some (Some i)" for i j
      using that D(3,4) unfolding pt by blast
    show "j = j'" if "(fr(c \<mapsto> head)) j = Some (Some i)" "(fr(c \<mapsto> head)) j' = Some (Some i)" for i j j'
      using that D(3,5) unfolding pt by blast
  qed (use calculation in blast)
qed

lemma wq_shape_resume:
  assumes "wq_shape head fr S" and "fr c = Some tmp" and "c \<notin> S"
  shows "wq_shape head (fr(c := None)) (S - set_option tmp)"
proof -
  note D = wq_shapeD [OF assms(1)]
  obtain rank :: "nat \<Rightarrow> nat" where r: "\<And>i j. fr j = Some (Some i) \<Longrightarrow> rank i < rank j"
    using assms(1) unfolding wq_shape_def by blast
  have pt: "(fr(c := None)) j = Some (Some i) \<longleftrightarrow> fr j = Some (Some i) \<and> j \<noteq> c" for i j by simp
  have tmp: "tmp = Some i \<longleftrightarrow> fr c = Some (Some i)" for i using assms(2) by simp
  have S: "i \<in> S - set_option tmp \<longleftrightarrow> i \<in> S \<and> fr c \<noteq> Some (Some i)" for i using tmp by auto
  show ?thesis
  proof (rule wq_shapeI [where rank = rank])
    show "S - set_option tmp \<subseteq> dom (fr(c := None))" using D(1) assms(3) by auto
    show "head = Some i \<or> (\<exists>j. (fr(c := None)) j = Some (Some i))" if "i \<in> S - set_option tmp" for i
      using that D(2) unfolding pt S by metis
    show "i \<in> S - set_option tmp \<and> (\<forall>j. (fr(c := None)) j \<noteq> Some (Some i))" if "head = Some i" for i
      using that D(3) unfolding pt S by blast
    show "i \<in> S - set_option tmp" if "(fr(c := None)) j = Some (Some i)" for i j
      using that D(4,5) unfolding pt S by blast
    show "j = j'" if "(fr(c := None)) j = Some (Some i)" "(fr(c := None)) j' = Some (Some i)" for i j j'
      using that D(5) unfolding pt by blast
  qed (use r in \<open>simp split: if_splits\<close>)
qed

lemma wq_shape_wake:
  assumes "wq_shape head fr S"
  shows "wq_shape None fr (S - set_option head)"
  using assms unfolding wq_shape_def by auto

lemma wq_shape_empty: "wq_shape None Map.empty {}"
  by (simp add: wq_shape_def)

text \<open>No head and no woken task means no sleeper.\<close>

lemma wq_shape_nobody:
  assumes "wq_shape None fr (dom fr)" and "finite (dom fr)"
  shows "fr = Map.empty"
proof (rule ccontr)
  assume "fr \<noteq> Map.empty"
  then have ne: "dom fr \<noteq> {}" by simp
  obtain rank :: "nat \<Rightarrow> nat" where r: "\<And>i j. fr j = Some (Some i) \<Longrightarrow> rank i < rank j"
    using assms(1) unfolding wq_shape_def by blast
  obtain i where i: "i \<in> dom fr" "rank i = Max (rank ` dom fr)"
    using Max_in [of "rank ` dom fr"] assms(2) ne by fastforce
  have "\<exists>j. fr j = Some (Some i)" using assms(1) i(1) unfolding wq_shape_def by simp
  then obtain j where j: "fr j = Some (Some i)" by blast
  then have "rank j \<le> Max (rank ` dom fr)" using assms(2) by (intro Max_ge) auto
  then show False using r [OF j] i(2) by simp
qed

definition unwoken :: "'a kproc_scheme \<Rightarrow> (nat \<rightharpoonup> nat option) \<Rightarrow> nat set" where
  "unwoken k fr = {i. fr i \<noteq> None \<and> st_of k i = Some TASK_UNINTERRUPTIBLE}"

definition wq_inv :: "'a wait_state \<Rightarrow> bool" where
  "wq_inv = (\<lambda>(k, head, fr). sched_ok k \<and> current k < NR_TASKS \<and>
     st_of k 0 \<noteq> None \<and> st_of k (current k) \<noteq> None \<and>
     (fr (current k) \<noteq> None \<longrightarrow> st_of k (current k) = Some TASK_RUNNING) \<and>
     (\<forall>i. fr i \<noteq> None \<longrightarrow> 1 \<le> i \<and> i < NR_TASKS \<and>
       (st_of k i = Some TASK_RUNNING \<or> st_of k i = Some TASK_UNINTERRUPTIBLE)) \<and>
     wq_shape head fr (unwoken k fr))"

lemma st_of_schedule:
  assumes "sched_ok k" and "schedule k = Some k'" and "1 \<le> i" and "i < NR_TASKS"
  shows "st_of k' i = (if ready k i then Some TASK_RUNNING else st_of k i)"
  unfolding st_of_def using assms by (rule schedule_effect(3))

lemma ready_st_of: "ready k i \<Longrightarrow> st_of k i \<noteq> Some TASK_UNINTERRUPTIBLE"
  "st_of k i = Some TASK_RUNNING \<Longrightarrow> 1 \<le> i \<Longrightarrow> i < NR_TASKS \<Longrightarrow> ready k i"
  by (auto simp: ready_def st_of_def)

lemma st_of_runnable [simp]:
  "st_of (set_runnable p k) i = (if p = Some i \<and> st_of k i \<noteq> None then Some TASK_RUNNING else st_of k i)"
  by (auto simp: set_runnable_def st_of_def task_simps split: option.split)

lemma set_runnable_frame [simp]:
  "current (set_runnable p k) = current k" "sched_ok (set_runnable p k) = sched_ok k"
  by (auto simp: set_runnable_def sched_ok_def task_simps charge_ok_def split: option.split if_splits)

lemma schedule_current:
  assumes "sched_ok k" and "schedule k = Some k'"
  shows "current k' < NR_TASKS" "current k' = 0 \<or> st_of k' (current k') = Some TASK_RUNNING"
  using schedule_effect(2) [OF assms] by (auto simp: runnable_def st_of_def)

lemma st_of_schedule_idle:
  assumes "sched_ok k" and "schedule k = Some k'"
  shows "st_of k' 0 = st_of k 0"
proof -
  obtain k1 where k1: "schedule_loop (check_tasks k) = Some (snd (pick k1), k1)"
    "k1 = check_tasks k \<or> k1 = recharge (check_tasks k)"
    using schedule_loop_picks [OF sched_ok_check_tasks [OF assms(1)]] by blast
  have "task_view (check_tasks k) 0 = task_view k 0" using check_tasks_view [of k] by auto
  then have "map_option t_state (task (check_tasks k) 0) = map_option t_state (task k 0)"
    by (cases "task k 0"; cases "task (check_tasks k) 0") (auto simp: task_view_def sched_view_def)
  then show ?thesis
    using assms(2) k1 by (auto simp: schedule_def st_of_def switch_to_def task_recharge)
qed

lemma st_of_sleeper:
  assumes "sched_ok k" and "schedule k = Some k'" and "1 \<le> i" and "i < NR_TASKS"
    and "st_of k i = Some TASK_RUNNING \<or> st_of k i = Some TASK_UNINTERRUPTIBLE"
  shows "st_of k' i = st_of k i"
  using assms(5) st_of_schedule [OF assms(1-4)] ready_st_of [of k i] assms(3,4) by auto

lemma wq_inv_schedule:
  assumes inv: "sched_ok k" "st_of k 0 \<noteq> None" "wq_shape head fr (unwoken k fr)"
    "\<forall>i. fr i \<noteq> None \<longrightarrow> 1 \<le> i \<and> i < NR_TASKS \<and>
       (st_of k i = Some TASK_RUNNING \<or> st_of k i = Some TASK_UNINTERRUPTIBLE)"
    and s: "schedule k = Some k'"
  shows "wq_inv (k', head, fr)"
proof -
  have st: "st_of k' i = st_of k i" if "fr i \<noteq> None" for i
    using st_of_sleeper [OF inv(1) s] inv(4) that by auto
  then have "unwoken k' fr = unwoken k fr" by (auto simp: unwoken_def)
  moreover have "st_of k' 0 \<noteq> None" using st_of_schedule_idle [OF inv(1) s] inv(2) by simp
  moreover have "fr 0 = None" using inv(4) by (metis not_one_le_zero)
  ultimately show ?thesis
    using schedule_current [OF inv(1) s] schedule_effect(1) [OF inv(1) s] inv(3,4) st
    by (auto simp: wq_inv_def)
qed

lemma wq_inv_step: "wq_step s s' \<Longrightarrow> wq_inv s \<Longrightarrow> wq_inv s'"
proof (induction rule: wq_step.induct)
  case (wq_sleep fr k head tmp head' k')
  let ?k = "on_cur (\<lambda>t. t\<lparr>t_state := TASK_UNINTERRUPTIBLE\<rparr>) k"
  have s: "current k \<noteq> 0" "schedule ?k = Some k'" "tmp = head" "head' = Some (current k)"
    using wq_sleep(2) by (auto simp: sleep_on_enter_def bind_Some_iff split: if_splits)
  have st: "st_of ?k i = (if i = current k then Some TASK_UNINTERRUPTIBLE else st_of k i)" for i
    using wq_sleep(3) by (auto simp: st_of_def task_simps wq_inv_def)
  have "unwoken ?k (fr(current k \<mapsto> head)) = insert (current k) (unwoken k fr)"
    by (auto simp: unwoken_def st)
  then have "wq_shape head' (fr(current k \<mapsto> tmp)) (unwoken ?k (fr(current k \<mapsto> tmp)))"
    using wq_sleep(1,3) s by (simp add: wq_inv_def wq_shape_sleep)
  moreover have "sched_ok ?k"
    using wq_sleep(3) by (auto simp: sched_ok_def wq_inv_def task_simps charge_ok_def)
  ultimately show ?case
    using wq_sleep(3) s(1) by (intro wq_inv_schedule [OF _ _ _ _ s(2)]) (auto simp: wq_inv_def st)
next
  case (wq_resume fr k tmp head)
  have c: "current k \<notin> unwoken k fr" using wq_resume by (auto simp: wq_inv_def unwoken_def)
  have "unwoken (sleep_on_leave tmp k) (fr(current k := None)) = unwoken k fr - set_option tmp"
    using c wq_resume by (auto simp: unwoken_def sleep_on_leave_def split: if_splits)
  then have "wq_shape head (fr(current k := None)) (unwoken (sleep_on_leave tmp k) (fr(current k := None)))"
    using wq_resume c by (simp add: wq_inv_def wq_shape_resume)
  then show ?case using wq_resume by (auto simp: wq_inv_def sleep_on_leave_def)
next
  case (wq_wake head k head' k' fr)
  then have e: "head' = None" "k' = set_runnable head k" by (auto simp: wake_up_def)
  have "unwoken k' fr = unwoken k fr - set_option head"
    by (auto simp: unwoken_def e split: if_splits)
  then have "wq_shape head' fr (unwoken k' fr)" using wq_wake e by (simp add: wq_inv_def wq_shape_wake)
  then show ?case using wq_wake e by (auto simp: wq_inv_def)
next
  case (wq_switch fr k k' head)
  then show ?case by (intro wq_inv_schedule [OF _ _ _ _ wq_switch(2)]) (auto simp: wq_inv_def)
qed

lemma wq_inv_reachable:
  assumes "wq_step\<^sup>*\<^sup>* (k0, None, Map.empty) s" and "sched_ok k0" and "running k0" and "task k0 0 \<noteq> None"
  shows "wq_inv s"
proof -
  have "wq_inv (k0, None, Map.empty)"
    using assms(2-4) by (auto simp: wq_inv_def running_def st_of_def unwoken_def wq_shape_empty)
  with assms(1) show ?thesis by (induction rule: rtranclp_induct) (auto intro: wq_inv_step)
qed

text \<open>
  C4: No wake-up is lost: start with nobody asleep and let tasks sleep on the queue, be scheduled,
  resume and wake the queue in any order. As long as some task has not come back from its sleep,
  the queue has a head for the next \<^verbatim>\<open>wake_up\<close>, or a sleeper that is runnable and will wake the
  next one when it runs.
\<close>

theorem no_lost_wakeup:
  assumes "wq_step\<^sup>*\<^sup>* (k0, None, Map.empty) (k, head, fr)"
    and "sched_ok k0" and "running k0" and "task k0 0 \<noteq> None" and "fr i \<noteq> None"
  shows "(\<exists>h. head = Some h \<and> st_of k h = Some TASK_UNINTERRUPTIBLE) \<or>
    (\<exists>j. fr j \<noteq> None \<and> st_of k j = Some TASK_RUNNING)"
proof (rule ccontr)
  have inv: "wq_inv (k, head, fr)" using assms(1-4) by (rule wq_inv_reachable)
  assume no: "\<not> ?thesis"
  have "st_of k j = Some TASK_UNINTERRUPTIBLE" if "fr j \<noteq> None" for j
    using no inv that unfolding wq_inv_def prod.case by blast
  then have "unwoken k fr = dom fr" by (auto simp: unwoken_def)
  moreover have "head = None"
  proof (rule ccontr)
    assume "head \<noteq> None"
    then obtain h where h: "head = Some h" by blast
    then have "h \<in> unwoken k fr" using inv by (auto simp: wq_inv_def wq_shape_def)
    then show False using no h by (auto simp: unwoken_def)
  qed
  moreover have "dom fr \<subseteq> {..<NR_TASKS}" using inv by (auto simp: wq_inv_def)
  then have "finite (dom fr)" by (rule finite_subset) simp
  ultimately have "fr = Map.empty" using inv by (intro wq_shape_nobody) (auto simp: wq_inv_def)
  then show False using assms(5) by simp
qed

theorem no_lost_wakeup_witness:
  "\<exists>k'. wq_step\<^sup>*\<^sup>* (some_kernel two_tasks, None, Map.empty) (k', None, [1 \<mapsto> None]) \<and>
    (\<exists>j. [1 \<mapsto> None] j \<noteq> None \<and> st_of k' j = Some TASK_RUNNING)"
proof -
  let ?k = "some_kernel two_tasks" and ?k1 = "on_cur (\<lambda>t. t\<lparr>t_state := TASK_UNINTERRUPTIBLE\<rparr>) (some_kernel two_tasks)"
  have "sched_ok ?k1"
    using two_tasks_ok by (auto simp: sched_ok_def task_simps charge_ok_def)
  then obtain k2 where k2: "schedule ?k1 = Some k2"
    using schedule_loop_picks [OF sched_ok_check_tasks] by (fastforce simp: schedule_def)
  have cur: "current ?k = 1" by (simp add: some_kernel_def)
  have "sleep_on_enter None ?k = Some (None, Some 1, k2)"
    using k2 by (simp add: sleep_on_enter_def cur)
  then have "wq_step (?k, None, Map.empty) (k2, Some 1, [1 \<mapsto> None])"
    using wq_sleep [of Map.empty ?k None] by (simp add: cur)
  moreover have "wq_step (k2, Some 1, [1 \<mapsto> None]) (set_runnable (Some 1) k2, None, [1 \<mapsto> None])"
    by (rule wq_wake) (simp add: wake_up_def)
  ultimately have r: "wq_step\<^sup>*\<^sup>* (?k, None, Map.empty) (set_runnable (Some 1) k2, None, [1 \<mapsto> None])"
    by (meson converse_rtranclp_into_rtranclp rtranclp.rtrancl_refl)
  have "running ?k" "task ?k 0 \<noteq> None" by (simp_all add: running_def some_kernel_def two_tasks_def)
  from no_lost_wakeup [OF r two_tasks_ok this, of 1] r show ?thesis
    by (intro exI [of _ "set_runnable (Some 1) k2"]) (auto split: if_splits)
qed

end
