(* ===== verification/Memory.thy ===== *)
theory Memory
  imports Prelude
begin

text \<open>
  Physical memory, \<^verbatim>\<open>mm/memory.c\<close>: the page allocator on \<^verbatim>\<open>mem_map\<close>, the page tables, copying
  them for \<^verbatim>\<open>fork\<close>, freeing them at exit, copy on write and demand paging.

  \<open>mem\<close> is the memory as 32-bit words, indexed by the byte address of the word; the page
  directory lies at address 0. The unit of memory beyond \<^verbatim>\<open>LOW_MEM\<close> is the page, with one
  reference count per page in \<^verbatim>\<open>mem_map\<close>. Flushing the translation buffer changes no memory.
\<close>

section \<open>Constants and state\<close>

abbreviation LOW_MEM :: u32 where "LOW_MEM \<equiv> 0x200000"
abbreviation HIGH_MEMORY :: u32 where "HIGH_MEMORY \<equiv> 0x800000"
abbreviation PAGING_PAGES :: nat where "PAGING_PAGES \<equiv> 1536"
abbreviation SIGSEGV :: nat where "SIGSEGV \<equiv> 11"

record mm =
  mem :: "u32 \<Rightarrow> u32"
  mem_map :: "nat \<Rightarrow> u16"

definition MAP_NR :: "u32 \<Rightarrow> nat" where
  "MAP_NR addr = unat (drop_bit 12 (addr - LOW_MEM))"

definition page_addr :: "nat \<Rightarrow> u32" where
  "page_addr n = push_bit 12 (of_nat n) + LOW_MEM"

definition page_of :: "u32 \<Rightarrow> u32" where
  "page_of entry = 0xfffff000 AND entry"

definition rd :: "mm \<Rightarrow> u32 \<Rightarrow> u32" where
  "rd m a = mem m a"

definition wr :: "u32 \<Rightarrow> u32 \<Rightarrow> mm \<Rightarrow> mm" where
  "wr a v m = m\<lparr>mem := (mem m)(a := v)\<rparr>"

text \<open>
  The words of the page at \<open>page\<close>, which is a multiple of 4096 in every call: the addresses the
  string instructions \<^verbatim>\<open>stosl\<close> and \<^verbatim>\<open>movsl\<close> walk over.
\<close>

definition in_page :: "u32 \<Rightarrow> u32 \<Rightarrow> bool" where
  "in_page page a \<longleftrightarrow> drop_bit 12 a = drop_bit 12 page"

definition copy_page :: "u32 \<Rightarrow> u32 \<Rightarrow> mm \<Rightarrow> mm" where
  "copy_page from to m =
     m\<lparr>mem := (\<lambda>a. if in_page to a then mem m (from + (a - to)) else mem m a)\<rparr>"

definition clear_page :: "u32 \<Rightarrow> mm \<Rightarrow> mm" where
  "clear_page page m = m\<lparr>mem := (\<lambda>a. if in_page page a then 0 else mem m a)\<rparr>"

section \<open>The allocator\<close>

text \<open>\<^verbatim>\<open>std; repne; scasw\<close> walks \<^verbatim>\<open>mem_map\<close> downwards from its last entry.\<close>

fun scan_free :: "(nat \<Rightarrow> u16) \<Rightarrow> nat \<Rightarrow> nat option" where
  "scan_free mp 0 = None"
| "scan_free mp (Suc n) = (if mp n = 0 then Some n else scan_free mp n)"

definition get_free_page :: "mm \<Rightarrow> u32 \<times> mm" where
  "get_free_page m =
     (case scan_free (mem_map m) PAGING_PAGES of
        None \<Rightarrow> (0, m)
      | Some n \<Rightarrow> (page_addr n, clear_page (page_addr n) (m\<lparr>mem_map := (mem_map m)(n := 1)\<rparr>)))"

definition free_page :: "u32 \<Rightarrow> mm \<Rightarrow> mm option" where
  "free_page addr m =
     (if addr < LOW_MEM then Some m
      else if HIGH_MEMORY < addr then panic ''trying to free nonexistent page''
      else let n = MAP_NR addr in
           if PAGING_PAGES \<le> n then overrun ''mem_map''
           else if mem_map m n \<noteq> 0 then Some (m\<lparr>mem_map := (mem_map m)(n := mem_map m n - 1)\<rparr>)
           else panic ''trying to free free page'')"

section \<open>Page tables\<close>

definition dir_entry :: "u32 \<Rightarrow> u32" where
  "dir_entry address = drop_bit 20 address AND 0xffc"

primrec free_entries :: "nat \<Rightarrow> u32 \<Rightarrow> mm \<Rightarrow> mm option" where
  "free_entries 0 pg_table m = Some m"
| "free_entries (Suc n) pg_table m =
     do { m \<leftarrow> (if bit (rd m pg_table) 0 then free_page (page_of (rd m pg_table)) m else Some m);
          free_entries n (pg_table + 4) (wr pg_table 0 m) }"

primrec free_dirs :: "nat \<Rightarrow> u32 \<Rightarrow> mm \<Rightarrow> mm option" where
  "free_dirs 0 dir m = Some m"
| "free_dirs (Suc n) dir m =
     (if \<not> bit (rd m dir) 0 then free_dirs n (dir + 4) m
      else do { m \<leftarrow> free_entries 1024 (page_of (rd m dir)) m;
                m \<leftarrow> free_page (page_of (rd m dir)) m;
                free_dirs n (dir + 4) (wr dir 0 m) })"

definition free_page_tables :: "u32 \<Rightarrow> u32 \<Rightarrow> mm \<Rightarrow> (int \<times> mm) option" where
  "free_page_tables from sz m =
     (if from AND 0x3fffff \<noteq> 0 then panic ''free_page_tables called with wrong alignment''
      else if from = 0 then panic ''Trying to free up swapper memory space''
      else do { m \<leftarrow> free_dirs (unat (drop_bit 22 (sz + 0x3fffff))) (dir_entry from) m; Some (0, m) })"

text \<open>\<^verbatim>\<open>this_page &= ~2\<close>: the entry without its write bit.\<close>

definition read_only :: "u32 \<Rightarrow> u32" where
  "read_only e = e AND NOT 2"

primrec copy_entries :: "nat \<Rightarrow> u32 \<Rightarrow> u32 \<Rightarrow> mm \<Rightarrow> mm option" where
  "copy_entries 0 from_page_table to_page_table m = Some m"
| "copy_entries (Suc nr) from_page_table to_page_table m =
     (if \<not> bit (rd m from_page_table) 0
      then copy_entries nr (from_page_table + 4) (to_page_table + 4) m
      else let this_page = read_only (rd m from_page_table);
               m = wr to_page_table this_page m
           in if this_page > LOW_MEM
              then let m = wr from_page_table this_page m; n = MAP_NR this_page
                   in if PAGING_PAGES \<le> n then overrun ''mem_map''
                      else copy_entries nr (from_page_table + 4) (to_page_table + 4)
                             (m\<lparr>mem_map := (mem_map m)(n := mem_map m n + 1)\<rparr>)
              else copy_entries nr (from_page_table + 4) (to_page_table + 4) m)"

text \<open>\<open>low\<close> says that kernel space is copied (\<^verbatim>\<open>from==0\<close>), of which the first 160 pages are taken.\<close>

primrec copy_dirs :: "nat \<Rightarrow> bool \<Rightarrow> u32 \<Rightarrow> u32 \<Rightarrow> mm \<Rightarrow> (int \<times> mm) option" where
  "copy_dirs 0 low from_dir to_dir m = Some (0, m)"
| "copy_dirs (Suc n) low from_dir to_dir m =
     (if bit (rd m to_dir) 0 then panic ''copy_page_tables: already exist''
      else if \<not> bit (rd m from_dir) 0 then copy_dirs n low (from_dir + 4) (to_dir + 4) m
      else let from_page_table = page_of (rd m from_dir); (to_page_table, m) = get_free_page m
           in if to_page_table = 0 then Some (- 1, m)
              else do { m \<leftarrow> copy_entries (if low then 0xA0 else 1024) from_page_table to_page_table
                              (wr to_dir (to_page_table OR 7) m);
                        copy_dirs n low (from_dir + 4) (to_dir + 4) m })"

definition copy_page_tables :: "u32 \<Rightarrow> u32 \<Rightarrow> u32 \<Rightarrow> mm \<Rightarrow> (int \<times> mm) option" where
  "copy_page_tables from to sz m =
     (if from AND 0x3fffff \<noteq> 0 \<or> to AND 0x3fffff \<noteq> 0 then panic ''copy_page_tables called with wrong alignment''
      else copy_dirs (unat (drop_bit 22 (sz + 0x3fffff))) (from = 0) (dir_entry from) (dir_entry to) m)"

definition put_page :: "u32 \<Rightarrow> u32 \<Rightarrow> mm \<Rightarrow> (u32 \<times> mm) option" where
  "put_page page address m =
     (if PAGING_PAGES \<le> MAP_NR page then overrun ''mem_map''
      else let slot = dir_entry address in
        if bit (rd m slot) 0
        then Some (page, wr (page_of (rd m slot) + push_bit 2 (drop_bit 12 address AND 0x3ff)) (page OR 7) m)
        else let (tmp, m) = get_free_page m in
             if tmp = 0 then Some (0, m)
             else Some (page, wr (tmp + push_bit 2 (drop_bit 12 address AND 0x3ff)) (page OR 7)
                                (wr slot (tmp OR 7) m)))"

section \<open>Page faults\<close>

text \<open>\<open>Inl sig\<close> is \<^verbatim>\<open>do_exit(sig)\<close>: the process ends there.\<close>

definition un_wp_page :: "u32 \<Rightarrow> mm \<Rightarrow> (nat + mm) option" where
  "un_wp_page table_entry m =
     (let old_page = page_of (rd m table_entry) in
      if old_page \<ge> LOW_MEM \<and> PAGING_PAGES \<le> MAP_NR old_page then overrun ''mem_map''
      else if old_page \<ge> LOW_MEM \<and> mem_map m (MAP_NR old_page) = 1
      then Some (Inr (wr table_entry (rd m table_entry OR 2) m))
      else let (new_page, m) = get_free_page m in
           if new_page = 0 then Some (Inl SIGSEGV)
           else let m = (if old_page \<ge> LOW_MEM
                         then m\<lparr>mem_map := (mem_map m)(MAP_NR old_page := mem_map m (MAP_NR old_page) - 1)\<rparr>
                         else m)
                in Some (Inr (copy_page old_page new_page (wr table_entry (new_page OR 7) m))))"

definition do_wp_page :: "u32 \<Rightarrow> u32 \<Rightarrow> mm \<Rightarrow> (nat + mm) option" where
  "do_wp_page error_code address m =
     un_wp_page ((drop_bit 10 address AND 0xffc) + page_of (rd m (dir_entry address))) m"

definition write_verify :: "u32 \<Rightarrow> mm \<Rightarrow> (nat + mm) option" where
  "write_verify address m =
     (let page = rd m (dir_entry address) in
      if \<not> bit page 0 then Some (Inr m)
      else let slot = page_of page + (drop_bit 10 address AND 0xffc)
           in if 3 AND rd m slot = 1 then un_wp_page slot m else Some (Inr m))"

definition do_no_page :: "u32 \<Rightarrow> u32 \<Rightarrow> mm \<Rightarrow> (nat + mm) option" where
  "do_no_page error_code address m =
     (let (tmp, m) = get_free_page m in
      if tmp = 0 then Some (Inl SIGSEGV)
      else do { (r, m) \<leftarrow> put_page tmp address m;
                if r \<noteq> 0 then Some (Inr m) else Some (Inl SIGSEGV) })"

text \<open>\<^verbatim>\<open>calc_mem\<close> prints these numbers: the free pages and, per directory entry, the pages present.\<close>

definition calc_mem :: "mm \<Rightarrow> nat \<times> (nat \<times> nat) list" where
  "calc_mem m =
     (length (filter (\<lambda>i. mem_map m i = 0) [0..<PAGING_PAGES]),
      map (\<lambda>i. (i, length (filter (\<lambda>j. bit (rd m (page_of (rd m (of_nat (4 * i))) + of_nat (4 * j))) 0) [0..<1024])))
        (filter (\<lambda>i. bit (rd m (of_nat (4 * i))) 0) [2..<1024]))"

section \<open>Lemmas\<close>

lemma scan_free_Some:
  "scan_free mp n = Some i \<longleftrightarrow> i < n \<and> mp i = 0 \<and> (\<forall>j. i < j \<and> j < n \<longrightarrow> mp j \<noteq> 0)"
  by (induction n) (auto simp: less_Suc_eq)

lemma scan_free_None: "scan_free mp n = None \<longleftrightarrow> (\<forall>j<n. mp j \<noteq> 0)"
  by (induction n) (auto simp: less_Suc_eq)

lemma page_addr_alt: "page_addr n = push_bit 12 (of_nat (n + 512))"
  by (simp add: page_addr_def push_bit_eq_mult algebra_simps)

lemma unat_page_addr: "n < PAGING_PAGES \<Longrightarrow> unat (page_addr n) = 4096 * (n + 512)"
proof -
  assume n: "n < PAGING_PAGES"
  have "page_addr n = of_nat (4096 * (n + 512))"
    by (simp add: page_addr_alt push_bit_eq_mult)
  moreover have "4096 * (n + 512) < 2 ^ LENGTH(32)" using n by simp
  ultimately show ?thesis by (simp only: unat_of_nat_small)
qed

lemma unat_drop12: "unat (drop_bit 12 a :: u32) = unat a div 4096"
  by (simp add: unat_drop_bit_eq) (simp add: drop_bit_eq_div)

lemma page_addr_bounds:
  assumes "n < PAGING_PAGES"
  shows "LOW_MEM \<le> page_addr n" "page_addr n \<le> HIGH_MEMORY" "page_addr n \<noteq> 0" "MAP_NR (page_addr n) = n"
proof -
  note u = unat_page_addr [OF assms]
  show "LOW_MEM \<le> page_addr n" "page_addr n \<le> HIGH_MEMORY"
    using assms by (simp_all add: word_le_nat_alt u)
  show "page_addr n \<noteq> 0" using u by (metis add_is_0 mult_is_0 unat_0 zero_neq_numeral)
  have "push_bit 12 (of_nat n) = (of_nat (4096 * n) :: u32)" by (simp add: push_bit_eq_mult)
  moreover have "4096 * n < 2 ^ LENGTH(32)" using assms by simp
  ultimately have "unat (push_bit 12 (of_nat n) :: u32) = 4096 * n" by (simp only: unat_of_nat_small)
  then show "MAP_NR (page_addr n) = n"
    unfolding MAP_NR_def page_addr_def by (simp add: unat_drop_bit_eq) (simp add: drop_bit_eq_div)
qed

lemma page_of_page_addr [simp]:
  "page_of (page_addr n) = page_addr n" "page_of (page_addr n OR 7) = page_addr n"
proof -
  have m: "(0xfffff000 :: u32) = push_bit 12 (mask 20)" "(7 :: u32) = mask 3" by (simp_all add: mask_eq_exp_minus_1)
  show "page_of (page_addr n) = page_addr n" "page_of (page_addr n OR 7) = page_addr n"
    unfolding page_of_def page_addr_alt m by (rule bit_word_eqI; auto simp: bit_simps)+
qed

lemma mem_simps [simp]:
  "mem (wr a v m) = (mem m)(a := v)" "mem_map (wr a v m) = mem_map m" "rd m a = mem m a"
  "mem_map (clear_page p m) = mem_map m" "mem_map (copy_page f t m) = mem_map m"
  by (simp_all add: wr_def rd_def clear_page_def copy_page_def)

lemma get_free_page_cases:
  obtains (full) "\<forall>n<PAGING_PAGES. mem_map m n \<noteq> 0" "get_free_page m = (0, m)"
  | (page) n where "n < PAGING_PAGES" "mem_map m n = 0" "\<forall>j. n < j \<and> j < PAGING_PAGES \<longrightarrow> mem_map m j \<noteq> 0"
      "get_free_page m = (page_addr n, clear_page (page_addr n) (m\<lparr>mem_map := (mem_map m)(n := 1)\<rparr>))"
  by (cases "scan_free (mem_map m) PAGING_PAGES") (auto simp: get_free_page_def scan_free_None scan_free_Some)

section \<open>Properties\<close>

text \<open>A machine with no page taken.\<close>

definition empty_mm :: mm where
  "empty_mm = \<lparr>mem = (\<lambda>_. 0), mem_map = (\<lambda>_. 0)\<rparr>"

text \<open>
  \<^verbatim>\<open>get_free_page\<close> gives 0 and changes nothing when every page is in use. Otherwise it gives
  the highest unused page, which is then counted once and holds zeros; no other count and no
  word outside the page changes.
\<close>

theorem get_free_page_spec:
  "case get_free_page m of (p, m') \<Rightarrow>
     if \<forall>n<PAGING_PAGES. mem_map m n \<noteq> 0 then p = 0 \<and> m' = m
     else \<exists>n<PAGING_PAGES. p = page_addr n \<and> mem_map m n = 0 \<and>
       (\<forall>j. n < j \<and> j < PAGING_PAGES \<longrightarrow> mem_map m j \<noteq> 0) \<and> mem_map m' = (mem_map m)(n := 1) \<and>
       (\<forall>a. mem m' a = (if in_page p a then 0 else mem m a))"
  by (cases m rule: get_free_page_cases) (auto simp: clear_page_def)

theorem get_free_page_spec_witness:
  "\<exists>m'. get_free_page empty_mm = (page_addr 1535, m') \<and> mem_map m' 1535 = 1 \<and> mem_map m' 1534 = 0"
proof -
  have "\<not> (\<forall>n<PAGING_PAGES. mem_map empty_mm n \<noteq> 0)"
    by (simp add: empty_mm_def) (rule exI [of _ 0], simp)
  then obtain n m' where n: "get_free_page empty_mm = (page_addr n, m')" "n < PAGING_PAGES"
    "\<And>j. n < j \<Longrightarrow> j < PAGING_PAGES \<Longrightarrow> mem_map empty_mm j \<noteq> 0" "mem_map m' = (mem_map empty_mm)(n := 1)"
    using get_free_page_spec [of empty_mm] by (auto split: prod.splits if_splits)
  have "n = 1535"
  proof (rule ccontr)
    assume "n \<noteq> 1535"
    then show False using n(2) n(3) [of 1535] by (simp add: empty_mm_def)
  qed
  then show ?thesis using n by (simp add: empty_mm_def)
qed

text \<open>
  A page taken with \<^verbatim>\<open>get_free_page\<close> can be given back: \<^verbatim>\<open>free_page\<close> does not panic and the
  reference counts are those before; giving it back twice is caught.
\<close>

theorem get_free_page_free:
  assumes "get_free_page m = (p, m1)" and "p \<noteq> 0"
  shows "\<exists>m2. free_page p m1 = Some m2 \<and> mem_map m2 = mem_map m \<and> free_page p m2 = None"
proof (cases m rule: get_free_page_cases)
  case full
  then show ?thesis using assms by simp
next
  case (page n)
  then show ?thesis using assms page_addr_bounds [OF page(1)] by (auto simp: free_page_def Let_def fun_eq_iff)
qed

theorem get_free_page_free_witness:
  "\<exists>m2. free_page (page_addr 1535) (snd (get_free_page empty_mm)) = Some m2 \<and> mem_map m2 = (\<lambda>_. 0) \<and>
    free_page (page_addr 1535) m2 = None"
proof -
  have "scan_free (\<lambda>_. 0) PAGING_PAGES = Some 1535" by (simp add: scan_free_Some)
  then have "get_free_page empty_mm = (page_addr 1535, snd (get_free_page empty_mm))"
    by (simp add: get_free_page_def empty_mm_def)
  from get_free_page_free [OF this] show ?thesis using page_addr_bounds(3) [of 1535] by (simp add: empty_mm_def)
qed

text \<open>
  The check \<^verbatim>\<open>addr>HIGH_MEMORY\<close> lets the address \<^verbatim>\<open>HIGH_MEMORY\<close> itself pass, whose index is one
  behind the end of \<^verbatim>\<open>mem_map\<close>.
\<close>

theorem free_page_high_memory: "free_page HIGH_MEMORY m = None \<and> MAP_NR HIGH_MEMORY = PAGING_PAGES"
  by (simp add: free_page_def MAP_NR_def)

text \<open>
  A physical address in use: it lies below the paged memory or in a page with a reference.
\<close>

definition in_use :: "mm \<Rightarrow> u32 \<Rightarrow> bool" where
  "in_use m a \<longleftrightarrow> a < LOW_MEM \<or> (MAP_NR a < PAGING_PAGES \<and> mem_map m (MAP_NR a) \<noteq> 0)"

lemma in_use_fresh:
  assumes "in_use m a" and "n < PAGING_PAGES" and "mem_map m n = 0"
  shows "\<not> in_page (page_addr n) a"
proof
  assume "in_page (page_addr n) a"
  then have "unat a div 4096 = n + 512"
    using unat_page_addr [OF assms(2)] unat_drop12 [of a] unat_drop12 [of "page_addr n"]
    by (simp add: in_page_def)
  then have ge: "512 * 4096 + n * 4096 \<le> unat a" "unat a < 512 * 4096 + n * 4096 + 4096" by linarith+
  then have le: "LOW_MEM \<le> a" by (simp add: word_le_nat_alt)
  then have "unat (a - LOW_MEM) = unat a - 512 * 4096" by (simp add: unat_sub)
  then have "MAP_NR a = n" using ge by (simp add: MAP_NR_def unat_drop12)
  then show False using assms(1,3) le by (simp add: in_use_def)
qed

lemma in_page_same: "in_page p a \<longleftrightarrow> in_page p b" if "in_page a b"
  using that by (simp add: in_page_def)

lemma page_of_shift: "page_of e = push_bit 12 (drop_bit 12 e)"
proof -
  have m: "(0xfffff000 :: u32) = NOT (mask 12)" by (simp add: mask_eq_exp_minus_1)
  show ?thesis unfolding page_of_def m
    by (rule bit_word_eqI) (auto simp: bit_simps dest: bit_imp_le_length)
qed

lemma page_of_in_page: "in_page (page_of e) e"
  unfolding in_page_def page_of_shift by (rule bit_word_eqI) (auto simp: bit_simps dest: bit_imp_le_length)

text \<open>An address inside the page of an aligned address, and the same offset in another page.\<close>

lemma in_page_offset:
  assumes "off < 4096"
  shows "in_page (page_of e) (page_of e + of_nat off)"
proof -
  have o: "unat (of_nat off :: u32) = off" using assms by (intro unat_of_nat_small) simp
  have u: "unat (page_of e) mod 4096 = 0"
    unfolding page_of_shift by (simp add: push_bit_eq_mult unat_word_ariths mod_mod_cancel)
  have "unat (page_of e) < 2 ^ LENGTH(32)" by (rule unsigned_less)
  moreover obtain q where q: "unat (page_of e) = 4096 * q" using u by (meson mod_eq_0_iff_dvd dvdE)
  ultimately have "unat (page_of e) + off < 2 ^ 32" using assms by simp
  then have "unat (page_of e + of_nat off) = unat (page_of e) + off"
    using o by (simp add: unat_word_ariths)
  then have "unat (page_of e + of_nat off) div 4096 = unat (page_of e) div 4096"
    using q assms by simp
  then show ?thesis
    unfolding in_page_def by (simp add: word_unat_eq_iff unat_drop12)
qed

text \<open>
  C10: Copy on write. When \<^verbatim>\<open>un_wp_page\<close> succeeds the page-table entry is writable and leads to a
  page that holds, word for word, what the old page held, and the old page keeps its contents. A page of the paged
  memory with a single owner is kept, with the write bit set and nothing else changed in the entry or in \<^verbatim>\<open>mem_map\<close>. Any other
  page is left: the entry leads to a different page, which was free and has exactly one reference now, with all access
  bits, and the old page loses one reference when it is in the paged memory.
\<close>

theorem un_wp_page_copies:
  assumes "un_wp_page te m = Some (Inr m')" and "in_use m te" and "in_use m (page_of (mem m te))"
    and "\<not> in_page (page_of (mem m te)) te" and "off < 4096"
  shows "bit (mem m' te) 1 \<and>
    mem m' (page_of (mem m' te) + of_nat off) = mem m (page_of (mem m te) + of_nat off) \<and>
    mem m' (page_of (mem m te) + of_nat off) = mem m (page_of (mem m te) + of_nat off) \<and>
    (if page_of (mem m te) \<ge> LOW_MEM \<and> mem_map m (MAP_NR (page_of (mem m te))) = 1
     then mem m' te = mem m te OR 2 \<and> page_of (mem m' te) = page_of (mem m te) \<and> mem_map m' = mem_map m
     else \<exists>n. mem m' te = page_addr n OR 7 \<and> page_of (mem m' te) = page_addr n \<and> page_addr n \<noteq> page_of (mem m te) \<and>
       n < PAGING_PAGES \<and> mem_map m n = 0 \<and> mem_map m' n = 1 \<and>
       (page_of (mem m te) \<ge> LOW_MEM \<longrightarrow> mem_map m' (MAP_NR (page_of (mem m te))) =
          mem_map m (MAP_NR (page_of (mem m te))) - 1))"
proof -
  let ?old = "page_of (mem m te)"
  have o: "in_page ?old (?old + of_nat off)" using assms(5) by (rule in_page_offset)
  then have ne: "?old + of_nat off \<noteq> te" using assms(4) by auto
  show ?thesis
  proof (cases "?old \<ge> LOW_MEM \<and> mem_map m (MAP_NR ?old) = 1")
    case True
    then have m': "m' = wr te (mem m te OR 2) m"
      using assms(1,3) by (auto simp: un_wp_page_def Let_def split: if_splits)
    have "drop_bit 12 (mem m te OR 2) = drop_bit 12 (mem m te)"
      by (rule bit_word_eqI) (auto simp: bit_simps)
    then have "page_of (mem m' te) = ?old" by (simp add: m' page_of_shift)
    moreover have "bit (mem m te OR 2) 1" by (simp add: bit_simps)
    ultimately show ?thesis using ne True by (simp add: m')
  next
    case False
    then obtain n m1 where n: "n < PAGING_PAGES" "mem_map m n = 0"
      and m1: "m1 = clear_page (page_addr n) (m\<lparr>mem_map := (mem_map m)(n := 1)\<rparr>)"
      and m': "m' = copy_page ?old (page_addr n) (wr te (page_addr n OR 7)
        (if ?old \<ge> LOW_MEM then m1\<lparr>mem_map := (mem_map m1)(MAP_NR ?old := mem_map m1 (MAP_NR ?old) - 1)\<rparr> else m1))"
      using assms(1) by (cases m rule: get_free_page_cases)
        (auto simp: un_wp_page_def Let_def page_addr_bounds split: if_splits)
    have fresh: "\<not> in_page (page_addr n) te" "\<not> in_page (page_addr n) ?old"
      using in_use_fresh assms(2,3) n by blast+
    have te: "mem m' te = page_addr n OR 7"
      using fresh(1) by (simp add: m' copy_page_def)
    have off: "in_page (page_addr n) (page_addr n + of_nat off)"
      using in_page_offset [OF assms(5), of "page_addr n"] by simp
    have fo: "\<not> in_page (page_addr n) (?old + of_nat off)"
      using fresh(2) o by (auto simp: in_page_def)
    have src: "mem m' a = mem m a" if "\<not> in_page (page_addr n) a" "a \<noteq> te" for a
      using that by (simp add: m' copy_page_def m1 clear_page_def)
    have "mem m' (page_addr n + of_nat off) = mem m (?old + of_nat off)"
      using off fo ne by (simp add: m' copy_page_def m1 clear_page_def)
    moreover have "page_addr n \<noteq> ?old" using fresh(2) by (auto simp: in_page_def)
    moreover have "MAP_NR ?old \<noteq> n" if "?old \<ge> LOW_MEM"
      using that assms(3) n(2) by (auto simp: in_use_def)
    moreover have "bit (page_addr n OR 7) 1" by (simp add: bit_simps)
    moreover have "mem_map m' n = 1" "?old \<ge> LOW_MEM \<Longrightarrow> mem_map m' (MAP_NR ?old) = mem_map m (MAP_NR ?old) - 1"
      using \<open>?old \<ge> LOW_MEM \<Longrightarrow> MAP_NR ?old \<noteq> n\<close> by (auto simp: m' m1)
    moreover have "page_of (mem m' te) = page_addr n" by (simp add: te)
    ultimately show ?thesis
      unfolding if_not_P [OF False] using src [OF fo ne] n te by (intro conjI exI [of _ n]) simp_all
  qed
qed

definition shared_mm :: mm where
  "shared_mm = \<lparr>mem = (\<lambda>_. 0)(0x1000 := 0x200005, 0x200008 := 77), mem_map = (\<lambda>_. 0)(0 := 2)\<rparr>"

theorem un_wp_page_copies_witness:
  "\<exists>m'. un_wp_page 0x1000 shared_mm = Some (Inr m') \<and> bit (mem m' 0x1000) 1 \<and>
    mem m' (page_of (mem m' 0x1000) + 8) = 77 \<and> mem m' 0x200008 = 77 \<and>
    page_of (mem m' 0x1000) \<noteq> 0x200000 \<and> mem_map m' 0 = 1"
proof -
  have old: "page_of (mem shared_mm 0x1000) = 0x200000" by (simp add: shared_mm_def page_of_def)
  have "scan_free (mem_map shared_mm) PAGING_PAGES = Some 1535"
    by (simp add: scan_free_Some shared_mm_def)
  then obtain m1 where g: "get_free_page shared_mm = (page_addr 1535, m1)"
    by (simp add: get_free_page_def)
  have "mem_map shared_mm (MAP_NR 0x200000) = 2" "MAP_NR 0x200000 = 0"
    by (simp_all add: MAP_NR_def shared_mm_def)
  then obtain m' where m': "un_wp_page 0x1000 shared_mm = Some (Inr m')"
    using page_addr_bounds(3) [of 1535] old by (simp add: un_wp_page_def Let_def g)
  have "in_use shared_mm 0x1000" "in_use shared_mm 0x200000" "\<not> in_page 0x200000 0x1000"
    by (simp_all add: in_use_def MAP_NR_def shared_mm_def in_page_def)
  then have "bit (mem m' 0x1000) 1 \<and> mem m' (page_of (mem m' 0x1000) + 8) = mem shared_mm 0x200008 \<and>
      mem m' 0x200008 = mem shared_mm 0x200008 \<and> page_of (mem m' 0x1000) \<noteq> 0x200000 \<and> mem_map m' 0 = 1"
    using un_wp_page_copies [OF m', of 8] \<open>mem_map shared_mm (MAP_NR 0x200000) = 2\<close> \<open>MAP_NR 0x200000 = 0\<close> by (auto simp: old)
  then show ?thesis using m' by (simp add: shared_mm_def)
qed

subsection \<open>Sharing and unsharing a page table\<close>

definition entries :: "mm \<Rightarrow> u32 \<Rightarrow> nat \<Rightarrow> u32 list" where
  "entries m t n = map (\<lambda>i. mem m (t + 4 * of_nat i)) [0..<n]"

lemma entries_Suc [simp]: "entries m t 0 = []" "entries m t (Suc n) = mem m t # entries m (t + 4) n"
  by (simp_all add: entries_def upt_conv_Cons map_Suc_upt [symmetric] algebra_simps del: upt_Suc)

text \<open>The page an entry refers to counts when it is present and not below the paged memory.\<close>

definition counted :: "u32 \<Rightarrow> nat \<Rightarrow> bool" where
  "counted e p \<longleftrightarrow> bit e 0 \<and> LOW_MEM \<le> page_of e \<and> MAP_NR e = p"

definition refs :: "u32 list \<Rightarrow> nat \<Rightarrow> nat" where
  "refs es p = length (filter (\<lambda>e. counted e p) es)"

lemma refs_simps [simp]:
  "refs [] p = 0" "refs (e # es) p = (if counted e p then Suc (refs es p) else refs es p)"
  by (simp_all add: refs_def)

lemma step_ne: "0 < k \<Longrightarrow> k < 2 ^ 30 \<Longrightarrow> 4 * of_nat k \<noteq> (0 :: u32)"
proof
  assume k: "0 < k" "k < (2::nat) ^ 30" and z: "4 * of_nat k = (0 :: u32)"
  have "unat (of_nat (4 * k) :: u32) = 4 * k" using k by (intro unat_of_nat_small) simp
  then show False using z k by simp
qed

lemma unat_page_of: "unat (page_of e) = 4096 * (unat e div 4096)"
proof -
  have "unat e div 4096 * 4096 \<le> unat e" by simp
  moreover have "unat e < 2 ^ LENGTH(32)" by (rule unsigned_less)
  ultimately have "4096 * (unat e div 4096) < 2 ^ LENGTH(32)" by linarith
  moreover have "page_of e = of_nat (4096 * unat (drop_bit 12 e))"
    by (simp add: page_of_shift push_bit_eq_mult)
  ultimately show ?thesis using unat_drop12 [of e] by (simp only: unat_of_nat_small)
qed

lemma MAP_NR_page_of:
  assumes "LOW_MEM \<le> page_of e"
  shows "MAP_NR (page_of e) = MAP_NR e" "LOW_MEM \<le> e"
proof -
  have u: "512 * 4096 \<le> 4096 * (unat e div 4096)" using assms by (simp add: word_le_nat_alt unat_page_of)
  then have "512 * 4096 \<le> unat e" by linarith
  then show le: "LOW_MEM \<le> e" by (simp add: word_le_nat_alt)
  show "MAP_NR (page_of e) = MAP_NR e"
  proof -
    obtain q r where q: "unat e = 4096 * q + r" "r < 4096" "unat e div 4096 = q"
      using div_mult_mod_eq [of "unat e" 4096] by (metis mult.commute mod_less_divisor zero_less_numeral)
    then have "unat e - 512 * 4096 = 4096 * (q - 512) + r" "4096 * q - 512 * 4096 = 4096 * (q - 512)"
      using u by simp_all
    then show ?thesis
      using assms le q by (simp add: MAP_NR_def unat_drop12 unat_sub unat_page_of)
  qed
qed

lemma MAP_NR_bound: "LOW_MEM \<le> e \<Longrightarrow> MAP_NR e < PAGING_PAGES \<Longrightarrow> e < HIGH_MEMORY"
  by (simp add: MAP_NR_def unat_drop12 unat_sub word_le_nat_alt word_less_nat_alt)

lemma free_page_counted:
  assumes "bit e 0" and "LOW_MEM \<le> page_of e \<longrightarrow> MAP_NR e < PAGING_PAGES \<and> mem_map m (MAP_NR e) \<noteq> 0"
  shows "free_page (page_of e) m =
    Some (m\<lparr>mem_map := (\<lambda>p. if counted e p then mem_map m p - 1 else mem_map m p)\<rparr>)"
proof (cases "LOW_MEM \<le> page_of e")
  case True
  note M = MAP_NR_page_of [OF True]
  have "page_of e < HIGH_MEMORY" using MAP_NR_bound [OF True] assms(2) True M by simp
  moreover have "(mem_map m)(MAP_NR e := mem_map m (MAP_NR e) - 1) =
      (\<lambda>p. if counted e p then mem_map m p - 1 else mem_map m p)"
    using True assms(1) by (auto simp: counted_def)
  ultimately show ?thesis using True assms M by (simp add: free_page_def Let_def not_less)
next
  case False
  then have "\<not> counted e p" for p by (simp add: counted_def)
  then show ?thesis using False by (simp add: free_page_def not_le)
qed

lemma entries_wr_below: "n < 2 ^ 30 \<Longrightarrow> entries (wr t v m) (t + 4) n = entries m (t + 4) n"
proof -
  assume n: "n < 2 ^ 30"
  have "t + 4 + 4 * of_nat i \<noteq> t" if "i < n" for i
    using step_ne [of "Suc i"] that n by (simp add: algebra_simps)
  then show ?thesis by (simp add: entries_def)
qed

lemma entries_mem_map [simp]: "entries (m\<lparr>mem_map := f\<rparr>) t n = entries m t n"
  by (simp add: entries_def)

lemma free_entries_spec:
  "\<lbrakk>n < 2 ^ 30; \<forall>p. refs (entries m t n) p \<le> unat (mem_map m p);
    \<forall>e\<in>set (entries m t n). bit e 0 \<longrightarrow> LOW_MEM \<le> page_of e \<longrightarrow> MAP_NR e < PAGING_PAGES\<rbrakk> \<Longrightarrow>
    \<exists>m'. free_entries n t m = Some m' \<and> (\<forall>p. unat (mem_map m' p) = unat (mem_map m p) - refs (entries m t n) p)"
proof (induction n arbitrary: t m)
  case 0
  then show ?case by simp
next
  case (Suc n)
  let ?e = "mem m t"
  let ?m = "m\<lparr>mem_map := (\<lambda>p. if counted ?e p then mem_map m p - 1 else mem_map m p)\<rparr>"
  have pos: "mem_map m p \<noteq> 0" if "counted ?e p" for p
    using Suc.prems(2) that by (auto dest!: spec [of _ p])
  then have dec: "unat (mem_map ?m p) = unat (mem_map m p) - (if counted ?e p then 1 else 0)" for p
    by (simp add: unat_minus_one)
  have ent: "entries (wr t 0 ?m) (t + 4) n = entries m (t + 4) n"
    using Suc.prems(1) by (simp add: entries_wr_below)
  have "(if bit ?e 0 then free_page (page_of ?e) m else Some m) = Some ?m"
  proof (cases "bit ?e 0")
    case True
    have "LOW_MEM \<le> page_of ?e \<longrightarrow> MAP_NR ?e < PAGING_PAGES \<and> mem_map m (MAP_NR ?e) \<noteq> 0"
      using Suc.prems(3) True pos [of "MAP_NR ?e"] by (auto simp: counted_def)
    then show ?thesis using True free_page_counted by simp
  next
    case False
    then show ?thesis by (simp add: counted_def)
  qed
  then have "free_entries (Suc n) t m = free_entries n (t + 4) (wr t 0 ?m)"
    by (simp only: free_entries.simps mem_simps Option.bind.bind_lunit)
  moreover have "\<forall>p. refs (entries (wr t 0 ?m) (t + 4) n) p \<le> unat (mem_map (wr t 0 ?m) p)"
  proof
    fix p
    show "refs (entries (wr t 0 ?m) (t + 4) n) p \<le> unat (mem_map (wr t 0 ?m) p)"
      using Suc.prems(2) [rule_format, of p] dec [of p] unfolding ent by (auto split: if_splits)
  qed
  ultimately show ?case
    using Suc.IH [of "wr t 0 ?m" "t + 4"] Suc.prems(1,3) dec unfolding ent by auto
qed

text \<open>The entry both tables hold after the copy: the same page, not writable.\<close>

lemma page_of_ro: "page_of (read_only e) = page_of e" "bit (read_only e) 0 = bit e 0"
proof -
  have b: "bit (read_only e) n \<longleftrightarrow> bit e n \<and> n \<noteq> 1" for n
    unfolding read_only_def bit_and_iff bit_not_iff bit_2_iff by (auto dest: bit_imp_le_length)
  have "drop_bit 12 (read_only e) = drop_bit 12 e"
    by (rule bit_word_eqI) (simp add: bit_drop_bit_eq b)
  then show "page_of (read_only e) = page_of e" by (simp add: page_of_shift)
  show "bit (read_only e) 0 = bit e 0" by (simp add: b)
qed

lemma counted_ro [simp]: "counted (read_only e) p = counted e p"
  using MAP_NR_page_of [of e] MAP_NR_page_of [of "read_only e"] by (auto simp: counted_def page_of_ro)

lemma above_low: "bit e 0 \<Longrightarrow> LOW_MEM < read_only e \<longleftrightarrow> LOW_MEM \<le> page_of e"
proof
  assume "bit e 0" and le: "LOW_MEM \<le> page_of e"
  have "\<not> bit LOW_MEM 0" by simp
  then have "read_only e \<noteq> LOW_MEM" using \<open>bit e 0\<close> page_of_ro(2) [of e] by auto
  moreover have "LOW_MEM \<le> read_only e" using MAP_NR_page_of(2) [of "read_only e"] le by (simp add: page_of_ro)
  ultimately show "LOW_MEM < read_only e" by simp
next
  assume "LOW_MEM < read_only e"
  then have "512 * 4096 \<le> unat (read_only e)" by (simp add: word_less_nat_alt)
  then have "512 * 4096 \<le> 4096 * (unat (read_only e) div 4096)"
    using div_le_mono [of "512 * 4096" "unat (read_only e)" 4096] by simp
  then have "LOW_MEM \<le> page_of (read_only e)" by (simp add: word_le_nat_alt unat_page_of)
  then show "LOW_MEM \<le> page_of e" by (simp add: page_of_ro)
qed

definition apart :: "u32 \<Rightarrow> u32 \<Rightarrow> nat \<Rightarrow> bool" where
  "apart f t n \<longleftrightarrow> n < 2 ^ 30 \<and> (\<forall>i<n. \<forall>j<n. f + 4 * of_nat i \<noteq> t + 4 * of_nat j)"

lemma apart_Suc:
  assumes "apart f t (Suc n)"
  shows "apart (f + 4) (t + 4) n" "f \<noteq> t"
    "i < n \<Longrightarrow> f + 4 + 4 * of_nat i \<notin> {f, t}" "i < n \<Longrightarrow> t + 4 + 4 * of_nat i \<notin> {f, t}"
proof -
  have eq: "x + 4 + 4 * of_nat i = x + 4 * of_nat (Suc i)" for x :: u32 and i by (simp add: algebra_simps)
  have ne: "f + 4 * of_nat i \<noteq> t + 4 * of_nat j" if "i < Suc n" "j < Suc n" for i j
    using assms that by (simp add: apart_def)
  show "apart (f + 4) (t + 4) n"
    using assms ne unfolding apart_def eq by auto
  show "f \<noteq> t" using ne [of 0 0] by simp
  assume i: "i < n"
  have z: "4 * of_nat (Suc i) \<noteq> (0 :: u32)" using assms i by (intro step_ne) (auto simp: apart_def)
  show "f + 4 + 4 * of_nat i \<notin> {f, t}" "t + 4 + 4 * of_nat i \<notin> {f, t}"
    unfolding eq using z ne [of "Suc i" 0] ne [of 0 "Suc i"] i by auto
qed

lemma entries_cong: "(\<And>i. i < n \<Longrightarrow> mem m (t + 4 * of_nat i) = mem m' (t + 4 * of_nat i)) \<Longrightarrow>
    entries m t n = entries m' t n"
  by (simp add: entries_def)

definition share :: "u32 \<Rightarrow> u32 \<Rightarrow> u32" where
  "share e old = (if bit e 0 then read_only e else old)"

lemma copy_entries_spec:
  "\<lbrakk>apart f t n; copy_entries n f t m = Some m'\<rbrakk> \<Longrightarrow>
    (\<forall>p. mem_map m' p = mem_map m p + of_nat (refs (entries m f n) p)) \<and>
    entries m' t n = map2 share (entries m f n) (entries m t n) \<and>
    (\<forall>e\<in>set (entries m f n). bit e 0 \<longrightarrow> LOW_MEM \<le> page_of e \<longrightarrow> MAP_NR e < PAGING_PAGES) \<and>
    (\<forall>a. (\<forall>i<n. a \<noteq> f + 4 * of_nat i \<and> a \<noteq> t + 4 * of_nat i) \<longrightarrow> mem m' a = mem m a)"
proof (induction n arbitrary: f t m)
  case 0
  then show ?case by simp
next
  case (Suc n)
  note ap = apart_Suc [OF Suc.prems(1)]
  let ?e = "mem m f" let ?ro = "read_only ?e"
  define m1 where "m1 = (if bit ?e 0 then (if LOW_MEM \<le> page_of ?e
      then (wr f ?ro (wr t ?ro m))\<lparr>mem_map := (mem_map m)(MAP_NR ?e := mem_map m (MAP_NR ?e) + 1)\<rparr>
      else wr t ?ro m) else m)"
  have idx: "MAP_NR ?ro = MAP_NR ?e" if "LOW_MEM \<le> page_of ?e"
    using MAP_NR_page_of(1) [of ?e] MAP_NR_page_of(1) [of ?ro] that by (simp add: page_of_ro)
  have rec: "copy_entries n (f + 4) (t + 4) m1 = Some m'"
    and bound: "bit ?e 0 \<longrightarrow> LOW_MEM \<le> page_of ?e \<longrightarrow> MAP_NR ?e < PAGING_PAGES"
    using Suc.prems(2) idx by (auto simp: m1_def Let_def above_low split: if_splits)
  note IH = Suc.IH [OF ap(1) rec]
  have other: "mem m1 a = mem m a" if "a \<notin> {f, t}" for a using that by (auto simp: m1_def)
  have ents: "entries m1 (f + 4) n = entries m (f + 4) n" "entries m1 (t + 4) n = entries m (t + 4) n"
    using other ap(3,4) by (auto intro!: entries_cong)
  have ft: "mem m1 t = share ?e (mem m t)" using ap(2) by (auto simp: m1_def share_def)
  have keep: "mem m' t = mem m1 t"
    using IH ap(3) ap(4) by (metis insertI1 insertI2)
  have mm: "mem_map m1 p = mem_map m p + (if counted ?e p then 1 else 0)" for p
    by (auto simp: m1_def counted_def)
  have "mem_map m' p = mem_map m p + of_nat (refs (entries m f (Suc n)) p)" for p
    using IH mm [of p] unfolding ents by simp
  moreover have "entries m' t (Suc n) = map2 share (entries m f (Suc n)) (entries m t (Suc n))"
    using IH keep ft unfolding ents by simp
  moreover have "mem m' a = mem m a" if a: "\<forall>i<Suc n. a \<noteq> f + 4 * of_nat i \<and> a \<noteq> t + 4 * of_nat i" for a
  proof -
    have "a \<noteq> f + 4 + 4 * of_nat i \<and> a \<noteq> t + 4 + 4 * of_nat i" if "i < n" for i
      using a [rule_format, of "Suc i"] that by (simp add: algebra_simps)
    then have "mem m' a = mem m1 a" using IH by blast
    then show ?thesis using other a [rule_format, of 0] by simp
  qed
  ultimately show ?case using IH bound unfolding ents by simp
qed

text \<open>
  C7: What \<^verbatim>\<open>fork\<close> shares, \<^verbatim>\<open>exit\<close> gives back. Copy the entries of a page table into a fresh table:
  both tables map the same pages, the copy without the write bit. Freeing the copy then succeeds
  and leaves every page with the reference count it had before the copy.
\<close>

theorem share_then_free:
  assumes "apart f t n" and "copy_entries n f t m = Some m1"
    and "\<forall>i<n. mem m (t + 4 * of_nat i) = 0"
    and "\<forall>p. unat (mem_map m p) + refs (entries m f n) p < 2 ^ 16"
  shows "(\<forall>i<n. bit (mem m (f + 4 * of_nat i)) 0 \<longrightarrow>
      mem m1 (t + 4 * of_nat i) = read_only (mem m (f + 4 * of_nat i))) \<and>
    (\<exists>m2. free_entries n t m1 = Some m2 \<and> mem_map m2 = mem_map m)"
proof
  note C = copy_entries_spec [OF assms(1,2)]
  have "length (entries m t n) = n" for m t by (simp add: entries_def)
  have at: "mem m1 (t + 4 * of_nat i) = share (mem m (f + 4 * of_nat i)) (mem m (t + 4 * of_nat i))"
    if "i < n" for i
    using arg_cong [of _ _ "\<lambda>xs. xs ! i", OF conjunct1 [OF conjunct2 [OF C]]] that
    by (simp add: entries_def)
  then show "\<forall>i<n. bit (mem m (f + 4 * of_nat i)) 0 \<longrightarrow>
      mem m1 (t + 4 * of_nat i) = read_only (mem m (f + 4 * of_nat i))" by (simp add: share_def)
  have sh: "entries m1 t n = map (\<lambda>e. share e 0) (entries m f n)"
    using at assms(3) by (simp add: entries_def)
  have refs: "refs (entries m1 t n) p = refs (entries m f n) p" for p
  proof -
    have "counted (share e 0) p = counted e p" for e
      by (auto simp: share_def) (auto simp: counted_def)
    then show ?thesis unfolding sh by (simp add: refs_def filter_map comp_def)
  qed
  have cnt: "unat (mem_map m1 p) = unat (mem_map m p) + refs (entries m f n) p" for p
    using C assms(4) by (simp add: unat_word_ariths unat_of_nat take_bit_nat_eq_self mod_simps)
  have "\<forall>e\<in>set (entries m1 t n). bit e 0 \<longrightarrow> LOW_MEM \<le> page_of e \<longrightarrow> MAP_NR e < PAGING_PAGES"
  proof (intro ballI impI)
    fix e assume e: "e \<in> set (entries m1 t n)" "bit e 0" "LOW_MEM \<le> page_of e"
    then obtain e0 where e0: "e0 \<in> set (entries m f n)" "e = read_only e0" "bit e0 0"
      unfolding sh by (auto simp: share_def split: if_splits)
    then have "MAP_NR e0 < PAGING_PAGES" using C e(3) by (simp add: page_of_ro)
    then show "MAP_NR e < PAGING_PAGES"
      using counted_ro [of e0 "MAP_NR e0"] e e0 by (simp add: counted_def page_of_ro)
  qed
  then obtain m2 where m2: "free_entries n t m1 = Some m2"
    "\<forall>p. unat (mem_map m2 p) = unat (mem_map m1 p) - refs (entries m1 t n) p"
    using free_entries_spec [of n m1 t] assms(1) cnt refs by (auto simp: apart_def)
  then have "mem_map m2 p = mem_map m p" for p by (simp add: word_unat_eq_iff cnt refs)
  then show "\<exists>m2. free_entries n t m1 = Some m2 \<and> mem_map m2 = mem_map m" using m2(1) by auto
qed

definition one_page_mm :: mm where
  "one_page_mm = \<lparr>mem = (\<lambda>_. 0)(0x1000 := 0x200007), mem_map = (\<lambda>_. 0)(0 := 1)\<rparr>"

theorem share_then_free_witness:
  "\<exists>m1 m2. copy_entries 1 0x1000 0x2000 one_page_mm = Some m1 \<and> mem m1 0x2000 = 0x200005 \<and>
    free_entries 1 0x2000 m1 = Some m2 \<and> mem_map m2 = mem_map one_page_mm"
proof -
  have ro: "read_only 0x200007 = 0x200005" by (simp add: read_only_def)
  then obtain m1 where m1: "copy_entries 1 0x1000 0x2000 one_page_mm = Some m1"
    by (simp add: one_page_mm_def Let_def MAP_NR_def)
  have "apart 0x1000 0x2000 1" by (simp add: apart_def)
  moreover have "unat (mem_map one_page_mm p) + refs (entries one_page_mm 0x1000 1) p < 2 ^ 16" for p
    by (simp add: one_page_mm_def)
  ultimately show ?thesis
    using share_then_free [OF _ m1] m1 ro by (auto simp: one_page_mm_def)
qed

end
