(* ===== verification/Buffer.thy ===== *)
theory Buffer
  imports Prelude
begin

text \<open>
  The buffer cache, \<^verbatim>\<open>fs/buffer.c\<close>, over the block transfers of \<^verbatim>\<open>fs/block_dev.c\<close>
  (\<^verbatim>\<open>ll_rw_block\<close>) and \<^verbatim>\<open>kernel/hd.c\<close> (\<^verbatim>\<open>rw_hd\<close>).

  A buffer head is an index into the table at \<^verbatim>\<open>start_buffer\<close>; a hash queue and the free list are
  the lists of their members, the free list from \<^verbatim>\<open>free_list\<close> on. The disk is part of the state,
  sector by sector, and a transfer is one step in which the whole block moves: the lock bit of a
  buffer is only held inside that step, so waiting for a buffer never waits. Sleeping until
  another process releases a buffer is \<open>sleeps\<close>.
\<close>

section \<open>State\<close>

abbreviation NR_HASH :: nat where "NR_HASH \<equiv> 307"
abbreviation ROOT_DEV :: u16 where "ROOT_DEV \<equiv> 0x301"

record buffer_head =
  b_data :: cbuf
  b_dev :: u16
  b_blocknr :: u16
  b_uptodate :: byte
  b_dirt :: byte
  b_count :: byte

record hd_struct =
  start_sect :: u32
  nr_sects :: u32

record bcache =
  nr_buffers :: nat
  buf :: "nat \<Rightarrow> buffer_head"
  hash_queue :: "nat \<Rightarrow> nat list"
  free_list :: "nat list"
  hd_part :: "nat \<Rightarrow> hd_struct"
  disk :: "nat \<Rightarrow> nat \<Rightarrow> cbuf"
  bad_block :: "nat \<Rightarrow> nat \<Rightarrow> bool"

definition on_buf :: "nat \<Rightarrow> (buffer_head \<Rightarrow> buffer_head) \<Rightarrow> bcache \<Rightarrow> bcache" where
  "on_buf i f b = b\<lparr>buf := (buf b)(i := f (buf b i))\<rparr>"

definition MAJOR :: "u16 \<Rightarrow> nat" where
  "MAJOR dev = unat dev div 256"

definition MINOR :: "u16 \<Rightarrow> nat" where
  "MINOR dev = unat dev mod 256"

section \<open>Block transfers\<close>

datatype rw = READ | WRITE

abbreviation HD_SECT :: nat where "HD_SECT \<equiv> 20"
abbreviation HD_HEAD :: nat where "HD_HEAD \<equiv> 4"
abbreviation NR_HD :: nat where "NR_HD \<equiv> 1"

text \<open>
  The transfer of two sectors from cylinder, head and sector on, after which the buffer is up to date
  and clean, or not up to date when the drive reports errors for them: what the request that \<^verbatim>\<open>rw_abs_hd\<close> queues
  has come to when its caller goes on, through \<^verbatim>\<open>read_intr\<close> and \<^verbatim>\<open>write_intr\<close>. Theory Hd has the queue and the handlers.
\<close>

definition chs_sector :: "nat \<Rightarrow> nat \<Rightarrow> nat \<Rightarrow> nat" where
  "chs_sector sec head cyl = (cyl * HD_HEAD + head) * HD_SECT + (sec - 1)"

definition rw_abs_hd :: "rw \<Rightarrow> nat \<Rightarrow> nat \<Rightarrow> nat \<Rightarrow> nat \<Rightarrow> nat \<Rightarrow> bcache \<Rightarrow> bcache" where
  "rw_abs_hd rw nr sec head cyl i b =
     (let lba = chs_sector sec head cyl in
      if bad_block b nr lba then on_buf i (\<lambda>bh. bh\<lparr>b_uptodate := 0\<rparr>) b
      else case rw of
        READ \<Rightarrow> on_buf i (\<lambda>bh. bh\<lparr>b_data := (\<lambda>p. if p < 512 then disk b nr lba p
            else if p < 1024 then disk b nr (Suc lba) (p - 512) else b_data bh p), b_uptodate := 1, b_dirt := 0\<rparr>) b
      | WRITE \<Rightarrow> on_buf i (\<lambda>bh. bh\<lparr>b_uptodate := 1, b_dirt := 0\<rparr>)
          (b\<lparr>disk := (disk b)(nr := (disk b nr)
             (lba := b_data (buf b i), Suc lba := (\<lambda>p. b_data (buf b i) (512 + p))))\<rparr>))"

definition rw_hd :: "rw \<Rightarrow> nat \<Rightarrow> bcache \<Rightarrow> bcache" where
  "rw_hd rw i b =
     (let block = 2 * unat (b_blocknr (buf b i)); dev = MINOR (b_dev (buf b i)) in
      if 5 * NR_HD \<le> dev \<or> block + 2 > unat (nr_sects (hd_part b dev)) then b
      else let block = block + unat (start_sect (hd_part b dev));
               sec = block mod HD_SECT; track = block div HD_SECT;
               cyl = track div HD_HEAD; head = track mod HD_HEAD
           in rw_abs_hd rw (dev div 5) (sec + 1) head cyl i b)"

text \<open>\<^verbatim>\<open>rd_blk\<close> has a routine for the major number of the hard disk only.\<close>

definition ll_rw_block :: "rw \<Rightarrow> nat \<Rightarrow> bcache \<Rightarrow> bcache option" where
  "ll_rw_block rw i b =
     (if MAJOR (b_dev (buf b i)) = 3 then Some (rw_hd rw i b)
      else panic ''Trying to read nonexistent block-device'')"

section \<open>The cache\<close>

primrec sync_buffers :: "(buffer_head \<Rightarrow> bool) \<Rightarrow> nat list \<Rightarrow> bcache \<Rightarrow> bcache option" where
  "sync_buffers P [] b = Some b"
| "sync_buffers P (i # is) b =
     (if P (buf b i) \<and> b_dirt (buf b i) \<noteq> 0
      then do { b \<leftarrow> ll_rw_block WRITE i b; sync_buffers P is b } else sync_buffers P is b)"

definition sync_dev :: "u16 \<Rightarrow> bcache \<Rightarrow> bcache option" where
  "sync_dev dev b = sync_buffers (\<lambda>bh. b_dev bh = dev) [0..<nr_buffers b] b"

text \<open>The last loop of \<^verbatim>\<open>sys_sync\<close>.\<close>

definition sync_all :: "bcache \<Rightarrow> bcache option" where
  "sync_all b = sync_buffers (\<lambda>bh. True) [0..<nr_buffers b] b"

definition hashfn :: "u16 \<Rightarrow> nat \<Rightarrow> nat" where
  "hashfn dev block = (unat dev XOR block) mod NR_HASH"

definition bhash :: "bcache \<Rightarrow> nat \<Rightarrow> nat" where
  "bhash b i = hashfn (b_dev (buf b i)) (unat (b_blocknr (buf b i)))"

definition remove_from_queues :: "nat \<Rightarrow> bcache \<Rightarrow> bcache option" where
  "remove_from_queues i b =
     (if i \<notin> set (free_list b) then panic ''Free block list corrupted''
      else let h = bhash b i in
        Some (b\<lparr>hash_queue := (hash_queue b)(h := remove1 i (hash_queue b h)),
                free_list := remove1 i (free_list b)\<rparr>))"

text \<open>
  A hash queue is a list of buffers. The last store, through \<^verbatim>\<open>b_next\<close>, keeps the backward links of that list; when the queue
  was empty it goes through a null pointer to a low address of the kernel, which is not modelled.
\<close>

definition insert_into_queues :: "nat \<Rightarrow> bcache \<Rightarrow> bcache" where
  "insert_into_queues i b =
     (let b = b\<lparr>free_list := free_list b @ [i]\<rparr> in
      if b_dev (buf b i) = 0 then b
      else let h = bhash b i in b\<lparr>hash_queue := (hash_queue b)(h := i # hash_queue b h)\<rparr>)"

definition holds :: "bcache \<Rightarrow> u16 \<Rightarrow> nat \<Rightarrow> nat \<Rightarrow> bool" where
  "holds b dev block i \<longleftrightarrow> b_dev (buf b i) = dev \<and> unat (b_blocknr (buf b i)) = block"

definition find_buffer :: "u16 \<Rightarrow> nat \<Rightarrow> bcache \<Rightarrow> nat option" where
  "find_buffer dev block b = List.find (holds b dev block) (hash_queue b (hashfn dev block))"

definition get_hash_table :: "u16 \<Rightarrow> nat \<Rightarrow> bcache \<Rightarrow> nat option \<times> bcache" where
  "get_hash_table dev block b =
     (case find_buffer dev block b of None \<Rightarrow> (None, b)
      | Some i \<Rightarrow> (Some i, on_buf i (\<lambda>bh. bh\<lparr>b_count := b_count bh + 1\<rparr>) b))"

text \<open>
  \<^verbatim>\<open>getblk\<close>. The second look-up guards against another process having read the block while this
  one slept; its \<^verbatim>\<open>goto repeat\<close> then finds that buffer.
\<close>

definition getblk :: "u16 \<Rightarrow> nat \<Rightarrow> bcache \<Rightarrow> (nat \<times> bcache) option" where
  "getblk dev block b =
     (case get_hash_table dev block b of
        (Some i, b) \<Rightarrow> Some (i, b)
      | (None, b) \<Rightarrow>
          (case List.find (\<lambda>i. b_count (buf b i) = 0) (free_list b) of
             None \<Rightarrow> sleeps ''Sleeping on free buffer ..''
           | Some tmp \<Rightarrow> do {
               b \<leftarrow> remove_from_queues tmp (on_buf tmp (\<lambda>bh. bh\<lparr>b_count := b_count bh + 1\<rparr>) b);
               b \<leftarrow> (if b_dirt (buf b tmp) \<noteq> 0 then sync_dev (b_dev (buf b tmp)) b else Some b);
               let b = on_buf tmp (\<lambda>bh. bh\<lparr>b_dev := dev, b_blocknr := of_nat block, b_dirt := 0, b_uptodate := 0\<rparr>) b;
               if find_buffer dev block b \<noteq> None
               then let b = insert_into_queues tmp (on_buf tmp (\<lambda>bh. bh\<lparr>b_dev := 0, b_blocknr := 0, b_count := 0\<rparr>) b)
                    in (case get_hash_table dev block b of (Some i, b) \<Rightarrow> Some (i, b) | _ \<Rightarrow> None)
               else Some (tmp, insert_into_queues tmp b) }))"

definition brelse :: "nat option \<Rightarrow> bcache \<Rightarrow> bcache option" where
  "brelse bh b =
     (case bh of None \<Rightarrow> Some b
      | Some i \<Rightarrow> if b_count (buf b i) = 0 then panic ''Trying to free free buffer''
                  else Some (on_buf i (\<lambda>bh. bh\<lparr>b_count := b_count bh - 1\<rparr>) b))"

definition bread :: "u16 \<Rightarrow> nat \<Rightarrow> bcache \<Rightarrow> (nat option \<times> bcache) option" where
  "bread dev block b =
     do { (i, b) \<leftarrow> getblk dev block b;
          if b_uptodate (buf b i) \<noteq> 0 then Some (Some i, b)
          else do { b \<leftarrow> ll_rw_block READ i b;
                    if b_uptodate (buf b i) \<noteq> 0 then Some (Some i, b)
                    else do { b \<leftarrow> brelse (Some i) b; Some (None, b) } } }"

text \<open>\<^verbatim>\<open>buffer_init\<close> lays out \<open>n\<close> buffers, all free and without a device.\<close>

definition buffer_init :: "nat \<Rightarrow> bcache \<Rightarrow> bcache" where
  "buffer_init n b = b\<lparr>nr_buffers := n,
     buf := (\<lambda>i. if i < n then (buf b i)\<lparr>b_dev := 0, b_dirt := 0, b_count := 0, b_uptodate := 0\<rparr> else buf b i),
     free_list := [0..<n], hash_queue := (\<lambda>_. [])\<rparr>"

text \<open>Storing into the data of a buffer.\<close>

definition store :: "nat \<Rightarrow> (cbuf \<Rightarrow> cbuf) \<Rightarrow> bcache \<Rightarrow> bcache" where
  "store i f b = on_buf i (\<lambda>bh. bh\<lparr>b_data := f (b_data bh)\<rparr>) b"

definition mark_dirty :: "nat \<Rightarrow> bcache \<Rightarrow> bcache" where
  "mark_dirty i b = on_buf i (\<lambda>bh. bh\<lparr>b_dirt := 1\<rparr>) b"

section \<open>Lemmas\<close>

named_theorems bc_simps "reading the cache after an operation"

lemma buf_on_buf [bc_simps]: "buf (on_buf i f b) j = (if j = i then f (buf b i) else buf b j)"
  by (simp add: on_buf_def)

lemma on_buf_frame [bc_simps]:
  "nr_buffers (on_buf i f b) = nr_buffers b" "hash_queue (on_buf i f b) = hash_queue b"
  "free_list (on_buf i f b) = free_list b" "hd_part (on_buf i f b) = hd_part b"
  "disk (on_buf i f b) = disk b" "bad_block (on_buf i f b) = bad_block b"
  by (simp_all add: on_buf_def)

subsection \<open>The disk behind a device\<close>

definition lba :: "bcache \<Rightarrow> u16 \<Rightarrow> nat \<Rightarrow> nat" where
  "lba b dev blk = 2 * blk + unat (start_sect (hd_part b (MINOR dev)))"

text \<open>A block that lies in its partition and can be read.\<close>

definition valid :: "bcache \<Rightarrow> u16 \<Rightarrow> nat \<Rightarrow> bool" where
  "valid b dev blk \<longleftrightarrow> MAJOR dev = 3 \<and> MINOR dev < 5 \<and> blk < 65536 \<and>
     2 * blk + 2 \<le> unat (nr_sects (hd_part b (MINOR dev))) \<and> \<not> bad_block b 0 (lba b dev blk)"

definition disk_block :: "bcache \<Rightarrow> u16 \<Rightarrow> nat \<Rightarrow> cbuf" where
  "disk_block b dev blk = (\<lambda>p. if p < 512 then disk b 0 (lba b dev blk) p
     else disk b 0 (Suc (lba b dev blk)) (p - 512))"

lemma chs_sector: "chs_sector (n mod HD_SECT + 1) (n div HD_SECT mod HD_HEAD) (n div HD_SECT div HD_HEAD) = n"
  by (simp add: chs_sector_def)

lemma rw_hd_valid:
  assumes "valid b (b_dev (buf b i)) (unat (b_blocknr (buf b i)))"
  shows "rw_hd READ i b = on_buf i (\<lambda>bh. bh\<lparr>b_data := (\<lambda>p. if p < 1024
      then disk_block b (b_dev (buf b i)) (unat (b_blocknr (buf b i))) p else b_data bh p),
      b_uptodate := 1, b_dirt := 0\<rparr>) b"
    "rw_hd WRITE i b = on_buf i (\<lambda>bh. bh\<lparr>b_uptodate := 1, b_dirt := 0\<rparr>)
      (b\<lparr>disk := (disk b)(0 := (disk b 0)
        (lba b (b_dev (buf b i)) (unat (b_blocknr (buf b i))) := b_data (buf b i),
         Suc (lba b (b_dev (buf b i)) (unat (b_blocknr (buf b i)))) := (\<lambda>p. b_data (buf b i) (512 + p))))\<rparr>)"
proof -
  let ?n = "2 * unat (b_blocknr (buf b i)) + unat (start_sect (hd_part b (MINOR (b_dev (buf b i)))))"
  have dv: "MINOR (b_dev (buf b i)) div 5 = 0" using assms by (simp add: valid_def)
  have "\<not> bad_block b 0 (chs_sector (?n mod HD_SECT + 1) (?n div HD_SECT mod HD_HEAD) (?n div HD_SECT div HD_HEAD))"
    using assms unfolding chs_sector by (simp add: valid_def lba_def)
  then show "rw_hd READ i b = on_buf i (\<lambda>bh. bh\<lparr>b_data := (\<lambda>p. if p < 1024
      then disk_block b (b_dev (buf b i)) (unat (b_blocknr (buf b i))) p else b_data bh p),
      b_uptodate := 1, b_dirt := 0\<rparr>) b"
    "rw_hd WRITE i b = on_buf i (\<lambda>bh. bh\<lparr>b_uptodate := 1, b_dirt := 0\<rparr>)
      (b\<lparr>disk := (disk b)(0 := (disk b 0)
        (lba b (b_dev (buf b i)) (unat (b_blocknr (buf b i))) := b_data (buf b i),
         Suc (lba b (b_dev (buf b i)) (unat (b_blocknr (buf b i)))) := (\<lambda>p. b_data (buf b i) (512 + p))))\<rparr>)"
    using assms dv unfolding rw_hd_def Let_def rw_abs_hd_def
    by (auto simp: valid_def chs_sector lba_def [symmetric] disk_block_def on_buf_def fun_eq_iff
      simp del: One_nat_def add_Suc_right Nat.add_0_right)
qed

subsection \<open>The invariant of the cache\<close>

text \<open>
  Every buffer is on the free list; a buffer with a device is in exactly the queue of its block,
  no block has two buffers, and all belong to the device \<open>D\<close>. A clean up-to-date buffer agrees
  with the disk, and a dirty one belongs to a block that can be written.
\<close>

definition queues_ok :: "bcache \<Rightarrow> bool" where
  "queues_ok b \<longleftrightarrow> distinct (free_list b) \<and> set (free_list b) = {..<nr_buffers b} \<and>
     (\<forall>h. distinct (hash_queue b h)) \<and>
     (\<forall>h i. i \<in> set (hash_queue b h) \<longleftrightarrow> i < nr_buffers b \<and> b_dev (buf b i) \<noteq> 0 \<and> bhash b i = h) \<and>
     (\<forall>i j. i < nr_buffers b \<longrightarrow> j < nr_buffers b \<longrightarrow> b_dev (buf b i) \<noteq> 0 \<longrightarrow>
       b_dev (buf b i) = b_dev (buf b j) \<longrightarrow> b_blocknr (buf b i) = b_blocknr (buf b j) \<longrightarrow> i = j)"

definition buf_ok :: "u16 \<Rightarrow> bcache \<Rightarrow> buffer_head \<Rightarrow> bool" where
  "buf_ok D b bh \<longleftrightarrow> (b_dev bh = 0 \<or> b_dev bh = D) \<and>
     (b_dev bh = D \<longrightarrow> b_uptodate bh \<noteq> 0 \<longrightarrow> b_dirt bh = 0 \<longrightarrow>
       (\<forall>p<1024. b_data bh p = disk_block b D (unat (b_blocknr bh)) p)) \<and>
     (b_dirt bh \<noteq> 0 \<longrightarrow> b_dev bh = D \<and> b_uptodate bh \<noteq> 0 \<and> valid b D (unat (b_blocknr bh)))"

definition bc_ok :: "u16 \<Rightarrow> bcache \<Rightarrow> bool" where
  "bc_ok D b \<longleftrightarrow> D \<noteq> 0 \<and> queues_ok b \<and> (\<forall>i<nr_buffers b. buf_ok D b (buf b i))"

text \<open>What a device contains, seen through the cache: the abstract state of this component.\<close>

definition view :: "bcache \<Rightarrow> u16 \<Rightarrow> nat \<Rightarrow> cbuf" where
  "view b D blk = (case find_buffer D blk b of None \<Rightarrow> disk_block b D blk
     | Some i \<Rightarrow> if b_uptodate (buf b i) \<noteq> 0 then b_data (buf b i) else disk_block b D blk)"

definition same_view :: "u16 \<Rightarrow> bcache \<Rightarrow> bcache \<Rightarrow> bool" where
  "same_view D b b' \<longleftrightarrow> nr_buffers b' = nr_buffers b \<and> hd_part b' = hd_part b \<and> bad_block b' = bad_block b \<and>
     (\<forall>blk p. valid b D blk \<longrightarrow> p < 1024 \<longrightarrow> view b' D blk p = view b D blk p)"

lemma same_view_refl [simp]: "same_view D b b"
  by (simp add: same_view_def)

lemma lba_cong: "hd_part b' = hd_part b \<Longrightarrow> lba b' = lba b"
  by (simp add: lba_def fun_eq_iff)

lemma valid_cong: "hd_part b' = hd_part b \<Longrightarrow> bad_block b' = bad_block b \<Longrightarrow> valid b' = valid b"
  by (simp add: valid_def lba_def fun_eq_iff)

lemma same_view_trans [trans]: "same_view D b b' \<Longrightarrow> same_view D b' b'' \<Longrightarrow> same_view D b b''"
  using valid_cong [of b' b] by (simp add: same_view_def)

lemma find_buffer_Some:
  assumes "queues_ok b" and "dev \<noteq> 0"
  shows "find_buffer dev block b = Some i \<longleftrightarrow> i < nr_buffers b \<and> holds b dev block i"
proof
  let ?q = "hash_queue b (hashfn dev block)"
  assume "find_buffer dev block b = Some i"
  then have "i \<in> set ?q" "holds b dev block i" by (auto simp: find_buffer_def find_Some_iff)
  then show "i < nr_buffers b \<and> holds b dev block i" using assms(1) by (auto simp: queues_ok_def)
next
  let ?q = "hash_queue b (hashfn dev block)"
  assume i: "i < nr_buffers b \<and> holds b dev block i"
  then have "i \<in> set ?q" using assms by (auto simp: queues_ok_def holds_def bhash_def)
  moreover from this i obtain j where j: "find_buffer dev block b = Some j"
    unfolding find_buffer_def by (cases "List.find (holds b dev block) ?q") (auto simp: find_None_iff)
  moreover from j have "j \<in> set ?q" "holds b dev block j" by (auto simp: find_buffer_def find_Some_iff)
  ultimately have "j = i" using assms i unfolding queues_ok_def holds_def by (metis word_unat_eq_iff)
  then show "find_buffer dev block b = Some i" using j by simp
qed

lemma find_buffer_None:
  assumes "queues_ok b" and "dev \<noteq> 0"
  shows "find_buffer dev block b = None \<longleftrightarrow> (\<forall>i<nr_buffers b. \<not> holds b dev block i)"
  using find_buffer_Some [OF assms, of block] by (cases "find_buffer dev block b") auto

text \<open>The view only depends on which buffer holds the block.\<close>

lemma view_cached:
  assumes "queues_ok b" and "D \<noteq> 0" and "i < nr_buffers b" and "holds b D blk i"
  shows "view b D blk = (if b_uptodate (buf b i) \<noteq> 0 then b_data (buf b i) else disk_block b D blk)"
  using find_buffer_Some [OF assms(1,2), of blk i] assms(3,4) by (simp add: view_def)

lemma view_uncached:
  assumes "queues_ok b" and "D \<noteq> 0" and "\<forall>i<nr_buffers b. \<not> holds b D blk i"
  shows "view b D blk = disk_block b D blk"
  using find_buffer_None [OF assms(1,2), of blk] assms(3) by (simp add: view_def)

text \<open>An update of a buffer that keeps its device and block number keeps the queues.\<close>

lemma queues_on_buf:
  assumes "queues_ok b" and "b_dev (f (buf b i)) = b_dev (buf b i)" and "b_blocknr (f (buf b i)) = b_blocknr (buf b i)"
  shows "queues_ok (on_buf i f b)"
proof -
  have d: "b_dev (buf (on_buf i f b) j) = b_dev (buf b j)"
    "b_blocknr (buf (on_buf i f b) j) = b_blocknr (buf b j)" for j
    using assms(2,3) by (simp_all add: bc_simps)
  then have "bhash (on_buf i f b) = bhash b" by (simp add: bhash_def fun_eq_iff)
  with d assms(1) show ?thesis unfolding queues_ok_def by (simp add: bc_simps)
qed

lemma find_buffer_on_buf:
  assumes "b_dev (f (buf b i)) = b_dev (buf b i)" and "b_blocknr (f (buf b i)) = b_blocknr (buf b i)"
  shows "find_buffer dev blk (on_buf i f b) = find_buffer dev blk b"
proof -
  have "holds (on_buf i f b) = holds b" using assms by (auto simp: holds_def bc_simps fun_eq_iff)
  then show ?thesis by (simp add: find_buffer_def bc_simps)
qed

lemma disk_block_on_buf [simp]: "disk_block (on_buf i f b) = disk_block b"
  by (simp add: disk_block_def bc_simps lba_cong [of "on_buf i f b" b] fun_eq_iff)

lemma valid_on_buf [simp]: "valid (on_buf i f b) = valid b"
  by (rule valid_cong) (simp_all add: bc_simps)

lemma buf_ok_cong: "disk_block b' = disk_block b \<Longrightarrow> valid b' = valid b \<Longrightarrow> buf_ok D b' = buf_ok D b"
  by (simp add: buf_ok_def fun_eq_iff)

text \<open>Counting users changes neither the invariant nor the view.\<close>

lemma bc_ok_count:
  "bc_ok D b \<Longrightarrow> bc_ok D (on_buf i (\<lambda>bh. bh\<lparr>b_count := c bh\<rparr>) b)"
  "same_view D b (on_buf i (\<lambda>bh. bh\<lparr>b_count := c bh\<rparr>) b)"
proof -
  let ?b = "on_buf i (\<lambda>bh. bh\<lparr>b_count := c bh\<rparr>) b"
  show "bc_ok D b \<Longrightarrow> bc_ok D ?b"
    using queues_on_buf [of b "\<lambda>bh. bh\<lparr>b_count := c bh\<rparr>" i]
    by (auto simp: bc_ok_def bc_simps buf_ok_cong [of ?b b]) (simp_all add: buf_ok_def)
  show "same_view D b ?b"
    by (auto simp: same_view_def bc_simps view_def find_buffer_on_buf split: option.splits)
qed

subsection \<open>Writing back\<close>

definition written_back :: "bcache \<Rightarrow> nat \<Rightarrow> bcache \<Rightarrow> bool" where
  "written_back b i b' \<longleftrightarrow> hash_queue b' = hash_queue b \<and> free_list b' = free_list b \<and>
     buf b' = (buf b)(i := (buf b i)\<lparr>b_uptodate := 1, b_dirt := 0\<rparr>)"

lemma queues_cong:
  assumes "queues_ok b" and "hash_queue b' = hash_queue b" and "free_list b' = free_list b"
    and "nr_buffers b' = nr_buffers b" and "\<And>j. b_dev (buf b' j) = b_dev (buf b j)"
    and "\<And>j. b_blocknr (buf b' j) = b_blocknr (buf b j)"
  shows "queues_ok b'" "find_buffer dev blk b' = find_buffer dev blk b"
proof -
  have "bhash b' = bhash b" using assms(5,6) by (simp add: bhash_def fun_eq_iff)
  with assms show "queues_ok b'" unfolding queues_ok_def by simp
  have "holds b' = holds b" using assms(5,6) by (simp add: holds_def fun_eq_iff)
  then show "find_buffer dev blk b' = find_buffer dev blk b" using assms(2) by (simp add: find_buffer_def)
qed

lemma write_back:
  assumes ok: "bc_ok D b" and i: "i < nr_buffers b" "b_dirt (buf b i) \<noteq> 0"
  shows "\<exists>b'. ll_rw_block WRITE i b = Some b' \<and> bc_ok D b' \<and> same_view D b b' \<and> written_back b i b'"
proof -
  let ?blk = "unat (b_blocknr (buf b i))" let ?b = "rw_hd WRITE i b"
  have q: "queues_ok b" "D \<noteq> 0" and bo: "\<And>j. j < nr_buffers b \<Longrightarrow> buf_ok D b (buf b j)"
    using ok by (auto simp: bc_ok_def)
  have D: "b_dev (buf b i) = D" and v: "valid b D ?blk" and up: "b_uptodate (buf b i) \<noteq> 0"
    using bo [OF i(1)] i(2) by (auto simp: buf_ok_def)
  note rw = rw_hd_valid(2) [of b i, unfolded D, OF v]
  have frame: "nr_buffers ?b = nr_buffers b" "hash_queue ?b = hash_queue b" "free_list ?b = free_list b"
    "hd_part ?b = hd_part b" "bad_block ?b = bad_block b" by (simp_all add: rw bc_simps)
  have bufs: "buf ?b = (buf b)(i := (buf b i)\<lparr>b_uptodate := 1, b_dirt := 0\<rparr>)"
    by (auto simp: rw bc_simps fun_eq_iff)
  have disk: "disk_block ?b D blk p = (if blk = ?blk then b_data (buf b i) p else disk_block b D blk p)"
    if "p < 1024" for blk p
  proof -
    have "lba ?b = lba b" using frame(4) by (rule lba_cong)
    then show ?thesis using that
      by (auto simp: disk_block_def rw bc_simps) (auto simp: lba_def)
  qed
  have val: "valid ?b = valid b" using frame(4,5) by (rule valid_cong)
  note Q = queues_cong [OF q(1) frame(2,3,1)]
  have Q1: "queues_ok ?b" "find_buffer dev blk ?b = find_buffer dev blk b" for dev blk
    by (rule Q; simp add: bufs)+
  have uniq: "unat (b_blocknr (buf b j)) \<noteq> ?blk" if "j < nr_buffers b" "j \<noteq> i" "b_dev (buf b j) = D" for j
    using q that i(1) D unfolding queues_ok_def by (metis word_unat_eq_iff)
  have "buf_ok D ?b (buf ?b j)" if "j < nr_buffers b" for j
    using bo [OF that] uniq [OF that] D disk up by (auto simp: buf_ok_def bufs val)
  then have "bc_ok D ?b" using q(2) Q1(1) frame(1) by (simp add: bc_ok_def)
  moreover have "view ?b D blk p = view b D blk p" if "p < 1024" for blk p
  proof (cases "find_buffer D blk b")
    case None
    then have "blk \<noteq> ?blk" using find_buffer_None [OF q] i D by (auto simp: holds_def)
    then show ?thesis using None disk [OF that] by (simp add: view_def Q1)
  next
    case (Some j)
    then have j: "j < nr_buffers b" "holds b D blk j" using find_buffer_Some [OF q] by auto
    show ?thesis
    proof (cases "j = i")
      case True
      then show ?thesis using Some up by (simp add: view_def Q1 bufs)
    next
      case False
      then have "blk \<noteq> ?blk" using uniq [OF j(1)] j(2) by (auto simp: holds_def)
      then show ?thesis using Some False disk [OF that] by (simp add: view_def Q1 bufs)
    qed
  qed
  moreover have "MAJOR D = 3" using v by (simp add: valid_def)
  ultimately show ?thesis
    using D frame bufs by (intro exI [of _ ?b]) (simp add: ll_rw_block_def same_view_def written_back_def)
qed

text \<open>A sweep over some buffers: those that match are clean afterwards, nothing else is visible.\<close>

definition swept :: "(nat \<Rightarrow> bool) \<Rightarrow> bcache \<Rightarrow> bcache \<Rightarrow> bool" where
  "swept P b b' \<longleftrightarrow> hash_queue b' = hash_queue b \<and> free_list b' = free_list b \<and>
     (\<forall>j. buf b' j = (if P j \<and> b_dirt (buf b j) \<noteq> 0 then (buf b j)\<lparr>b_uptodate := 1, b_dirt := 0\<rparr> else buf b j))"

lemma sync_buffers_spec:
  assumes "bc_ok D b" and "set is \<subseteq> {..<nr_buffers b}"
    and "\<And>bh. P (bh\<lparr>b_uptodate := 1, b_dirt := 0\<rparr>) = P bh"
  shows "\<exists>b'. sync_buffers P is b = Some b' \<and> bc_ok D b' \<and> same_view D b b' \<and>
    swept (\<lambda>j. j \<in> set is \<and> P (buf b j)) b b'"
  using assms(1,2)
proof (induction "is" arbitrary: b)
  case Nil
  then show ?case by (simp add: swept_def)
next
  case (Cons i "is")
  show ?case
  proof (cases "P (buf b i) \<and> b_dirt (buf b i) \<noteq> 0")
    case True
    obtain b1 where b1: "ll_rw_block WRITE i b = Some b1" "bc_ok D b1" "same_view D b b1" "written_back b i b1"
      using write_back [of D b i] Cons.prems True by auto
    then have "set is \<subseteq> {..<nr_buffers b1}" using Cons.prems(2) by (simp add: same_view_def)
    from Cons.IH [OF b1(2) this] obtain b' where b': "sync_buffers P is b1 = Some b'" "bc_ok D b'"
      "same_view D b1 b'" "swept (\<lambda>j. j \<in> set is \<and> P (buf b1 j)) b1 b'" by blast
    have "swept (\<lambda>j. j \<in> set (i # is) \<and> P (buf b j)) b b'"
      using b1(4) b'(4) True assms(3) unfolding swept_def written_back_def by (auto split: if_splits)
    then show ?thesis using True b1 b' same_view_trans [OF b1(3) b'(3)] by auto
  next
    case False
    then obtain b' where "sync_buffers P is b = Some b'" "bc_ok D b'" "same_view D b b'"
      "swept (\<lambda>j. j \<in> set is \<and> P (buf b j)) b b'" using Cons.IH Cons.prems by auto
    moreover from this False have "swept (\<lambda>j. j \<in> set (i # is) \<and> P (buf b j)) b b'"
      by (auto simp: swept_def)
    ultimately show ?thesis using False by auto
  qed
qed

subsection \<open>Taking over a buffer\<close>

text \<open>Transfers do not look at the queues.\<close>

lemma rw_abs_hd_queues:
  "rw_abs_hd rw nr sec head cyl i (b\<lparr>hash_queue := q, free_list := f\<rparr>) =
    (rw_abs_hd rw nr sec head cyl i b)\<lparr>hash_queue := q, free_list := f\<rparr>"
  by (cases rw) (simp_all add: rw_abs_hd_def Let_def on_buf_def cong: if_cong)

lemma ll_rw_block_queues:
  "ll_rw_block rw i (b\<lparr>hash_queue := q, free_list := f\<rparr>) =
    map_option (\<lambda>b. b\<lparr>hash_queue := q, free_list := f\<rparr>) (ll_rw_block rw i b)"
  by (simp add: ll_rw_block_def rw_hd_def Let_def rw_abs_hd_queues)

lemma sync_buffers_queues:
  "sync_buffers P is (b\<lparr>hash_queue := q, free_list := f\<rparr>) =
    map_option (\<lambda>b. b\<lparr>hash_queue := q, free_list := f\<rparr>) (sync_buffers P is b)"
proof (induction "is" arbitrary: b)
  case Nil
  then show ?case by simp
next
  case (Cons i "is")
  then show ?case by (cases "ll_rw_block WRITE i b") (simp_all add: ll_rw_block_queues)
qed

definition dequeued :: "nat \<Rightarrow> bcache \<Rightarrow> bcache" where
  "dequeued i b = b\<lparr>hash_queue := (hash_queue b)(bhash b i := remove1 i (hash_queue b (bhash b i))),
     free_list := remove1 i (free_list b)\<rparr>"

definition reused :: "nat \<Rightarrow> u16 \<Rightarrow> nat \<Rightarrow> bcache \<Rightarrow> bcache" where
  "reused i dev blk b = on_buf i (\<lambda>bh. bh\<lparr>b_dev := dev, b_blocknr := of_nat blk, b_dirt := 0, b_uptodate := 0\<rparr>)
     (dequeued i b)"

lemma reused_frame [bc_simps]:
  "nr_buffers (reused i dev blk b) = nr_buffers b" "hd_part (reused i dev blk b) = hd_part b"
  "bad_block (reused i dev blk b) = bad_block b" "disk (reused i dev blk b) = disk b"
  "buf (reused i dev blk b) j = (if j = i then
     (buf b i)\<lparr>b_dev := dev, b_blocknr := of_nat blk, b_dirt := 0, b_uptodate := 0\<rparr> else buf b j)"
  by (simp_all add: reused_def dequeued_def bc_simps)

lemma insert_frame [bc_simps]:
  "nr_buffers (insert_into_queues i b) = nr_buffers b" "hd_part (insert_into_queues i b) = hd_part b"
  "bad_block (insert_into_queues i b) = bad_block b" "disk (insert_into_queues i b) = disk b"
  "buf (insert_into_queues i b) = buf b"
  by (simp_all add: insert_into_queues_def Let_def)

lemma unat_blk: "blk < 65536 \<Longrightarrow> unat (of_nat blk :: u16) = blk"
  by (rule unat_of_nat_small) simp

lemma set_dequeued:
  assumes "queues_ok b"
  shows "j \<in> set (hash_queue (dequeued i b) h) \<longleftrightarrow> j \<noteq> i \<and> j \<in> set (hash_queue b h)"
    "distinct (hash_queue (dequeued i b) h)"
    "set (free_list (dequeued i b)) = {..<nr_buffers b} - {i}" "distinct (free_list (dequeued i b))"
  using assms by (auto simp: dequeued_def queues_ok_def)

lemma reuse_buffer:
  assumes ok: "bc_ok D b" and i: "i < nr_buffers b" "b_dirt (buf b i) = 0"
    and new: "\<forall>j<nr_buffers b. \<not> holds b D blk j" and blk: "blk < 65536"
  shows "find_buffer D blk (reused i D blk b) = None"
    "bc_ok D (insert_into_queues i (reused i D blk b))"
    "same_view D b (insert_into_queues i (reused i D blk b))"
    "holds (insert_into_queues i (reused i D blk b)) D blk i"
proof -
  let ?r = "reused i D blk b" let ?b = "insert_into_queues i ?r"
  have q: "queues_ok b" "D \<noteq> 0" and bo: "\<And>j. j < nr_buffers b \<Longrightarrow> buf_ok D b (buf b j)"
    using ok by (auto simp: bc_ok_def)
  note dq = set_dequeued [OF q(1), where i = i]
  have hq: "hash_queue ?r = hash_queue (dequeued i b)" "free_list ?r = free_list (dequeued i b)"
    by (simp_all add: reused_def bc_simps)
  have in_q: "j < nr_buffers b" if "j \<in> set (hash_queue b h)" for j h
    using q(1) that by (auto simp: queues_ok_def)
  show "find_buffer D blk ?r = None"
    unfolding find_buffer_def find_None_iff hq using new in_q by (auto simp: dq(1) holds_def bc_simps)
  have bh: "bhash ?r j = (if j = i then hashfn D blk else bhash b j)" for j
    using blk by (simp add: bhash_def bc_simps unat_blk)
  have hb: "hash_queue ?b h = (if h = hashfn D blk then i # hash_queue (dequeued i b) h else hash_queue (dequeued i b) h)"
    "free_list ?b = free_list (dequeued i b) @ [i]" for h
    using bh [of i] q(2) by (auto simp: insert_into_queues_def Let_def hq bc_simps bhash_def)
  have bh': "bhash ?b j = (if j = i then hashfn D blk else bhash b j)" for j
    using bh by (simp add: bhash_def bc_simps)
  show hold: "holds ?b D blk i" using blk by (simp add: holds_def bc_simps unat_blk)
  have other: "b_blocknr (buf b j) \<noteq> of_nat blk" if "j < nr_buffers b" "b_dev (buf b j) = D" for j
    using new that blk by (auto simp: holds_def unat_blk)
  have Q: "queues_ok ?b"
    unfolding queues_ok_def
  proof (intro conjI allI impI)
    show "distinct (free_list ?b)" "set (free_list ?b) = {..<nr_buffers ?b}" using dq(3,4) i(1) by (auto simp: hb bc_simps)
    show "distinct (hash_queue ?b h)" for h using dq(1,2) by (auto simp: hb)
    show "(j \<in> set (hash_queue ?b h)) = (j < nr_buffers ?b \<and> b_dev (buf ?b j) \<noteq> 0 \<and> bhash ?b j = h)" for h j
      using q dq(1) [of j h] i(1) by (auto simp: hb bh' bc_simps queues_ok_def)
    show "j = k" if "j < nr_buffers ?b" "k < nr_buffers ?b" "b_dev (buf ?b j) \<noteq> 0"
      "b_dev (buf ?b j) = b_dev (buf ?b k)" "b_blocknr (buf ?b j) = b_blocknr (buf ?b k)" for j k
    proof (cases "j = i \<or> k = i")
      case True
      then show ?thesis using that other by (auto simp: bc_simps split: if_splits)
    next
      case False
      then show ?thesis using that q(1) by (simp add: bc_simps queues_ok_def)
    qed
  qed
  have db: "disk_block ?b = disk_block b" "valid ?b = valid b"
  proof -
    have "lba ?b = lba b" by (rule lba_cong) (simp add: bc_simps)
    then show "disk_block ?b = disk_block b" by (simp add: disk_block_def bc_simps fun_eq_iff)
    show "valid ?b = valid b" by (rule valid_cong) (simp_all add: bc_simps)
  qed
  have "buf_ok D ?b (buf ?b j)" if "j < nr_buffers b" for j
    using bo [OF that] by (simp add: buf_ok_cong [OF db] bc_simps) (simp add: buf_ok_def)
  then show "bc_ok D ?b" using Q q(2) by (simp add: bc_ok_def bc_simps)
  have "view ?b D n p = view b D n p" if n: "n < 65536" "p < 1024" for n p
  proof (cases "n = blk")
    case True
    then show ?thesis
      using view_cached [OF Q q(2) _ hold] view_uncached [OF q new] i(1) by (simp add: bc_simps db)
  next
    case False
    note nb = False
    show ?thesis
    proof (cases "find_buffer D n b")
      case None
      then have "\<forall>j<nr_buffers b. \<not> holds b D n j" using find_buffer_None [OF q] by simp
      then have "\<forall>j<nr_buffers ?b. \<not> holds ?b D n j" using nb blk by (auto simp: holds_def bc_simps unat_blk)
      then show ?thesis using None view_uncached [OF Q q(2)] db by (simp add: view_def)
    next
      case (Some j)
      then have j: "j < nr_buffers b" "holds b D n j" using find_buffer_Some [OF q] by auto
      show ?thesis
      proof (cases "j = i")
        case True
        have "\<not> holds ?b D n k" if "k < nr_buffers ?b" for k
        proof
          assume k: "holds ?b D n k"
          then have "k \<noteq> i" using nb blk by (auto simp: holds_def bc_simps unat_blk)
          then have "holds b D n k" using k by (simp add: holds_def bc_simps)
          then have "find_buffer D n b = Some k" using find_buffer_Some [OF q] that by (simp add: bc_simps)
          then show False using Some True \<open>k \<noteq> i\<close> by simp
        qed
        then have "view ?b D n = disk_block b D n" using view_uncached [OF Q q(2)] db by simp
        moreover have "b_uptodate (buf b i) \<noteq> 0 \<Longrightarrow> b_data (buf b i) p = disk_block b D n p"
          using bo [OF i(1)] i(2) j True n(2) by (auto simp: buf_ok_def holds_def)
        ultimately show ?thesis using Some True by (simp add: view_def)
      next
        case False
        then have "holds ?b D n j" using j by (simp add: holds_def bc_simps)
        then show ?thesis using view_cached [OF Q q(2)] view_cached [OF q j] j False db by (simp add: bc_simps)
      qed
    qed
  qed
  then show "same_view D b ?b" by (simp add: same_view_def bc_simps valid_def)
qed

text \<open>Some buffer nobody uses is left, or the block is in the cache already.\<close>

definition room :: "bcache \<Rightarrow> u16 \<Rightarrow> nat \<Rightarrow> bool" where
  "room b D blk \<longleftrightarrow> (\<exists>i<nr_buffers b. holds b D blk i \<or> b_count (buf b i) = 0)"

text \<open>A buffer somebody holds keeps its block and, once read, its contents.\<close>

definition pinned :: "bcache \<Rightarrow> bcache \<Rightarrow> bool" where
  "pinned b b' \<longleftrightarrow> (\<forall>j. b_count (buf b j) \<noteq> 0 \<longrightarrow>
     b_dev (buf b' j) = b_dev (buf b j) \<and> b_blocknr (buf b' j) = b_blocknr (buf b j) \<and>
     (b_uptodate (buf b j) \<noteq> 0 \<longrightarrow> b_data (buf b' j) = b_data (buf b j) \<and> b_uptodate (buf b' j) \<noteq> 0))"

lemma getblk_spec:
  assumes ok: "bc_ok D b" and blk: "blk < 65536"
  shows "getblk D blk b = Some (i, b') \<Longrightarrow>
      bc_ok D b' \<and> same_view D b b' \<and> i < nr_buffers b' \<and> holds b' D blk i \<and>
      (\<forall>j. b_count (buf b' j) = b_count (buf b j) + (if j = i then 1 else 0)) \<and> pinned b b'"
    "room b D blk \<Longrightarrow> getblk D blk b \<noteq> None"
proof -
  have q: "queues_ok b" "D \<noteq> 0" using ok by (auto simp: bc_ok_def)
  have "(\<forall>i b'. getblk D blk b = Some (i, b') \<longrightarrow>
      bc_ok D b' \<and> same_view D b b' \<and> i < nr_buffers b' \<and> holds b' D blk i \<and>
      (\<forall>j. b_count (buf b' j) = b_count (buf b j) + (if j = i then 1 else 0)) \<and> pinned b b') \<and>
    (room b D blk \<longrightarrow> getblk D blk b \<noteq> None)"
  proof (cases "find_buffer D blk b")
    case (Some j)
    then have j: "j < nr_buffers b" "holds b D blk j" using find_buffer_Some [OF q] by auto
    let ?b = "on_buf j (\<lambda>bh. bh\<lparr>b_count := b_count bh + 1\<rparr>) b"
    have "getblk D blk b = Some (j, ?b)" using Some by (simp add: getblk_def get_hash_table_def)
    moreover have "bc_ok D ?b" "same_view D b ?b" using bc_ok_count ok by auto
    moreover have "holds ?b D blk j" "j < nr_buffers ?b" using j by (simp_all add: holds_def bc_simps)
    moreover have "pinned b ?b" by (simp add: pinned_def bc_simps)
    ultimately show ?thesis by (simp add: bc_simps)
  next
    case None
    then have new: "\<forall>j<nr_buffers b. \<not> holds b D blk j" using find_buffer_None [OF q] by simp
    have get: "get_hash_table D blk b = (None, b)" using None by (simp add: get_hash_table_def)
    show ?thesis
    proof (cases "List.find (\<lambda>i. b_count (buf b i) = 0) (free_list b)")
      case None
      then have "b_count (buf b i) \<noteq> 0" if "i < nr_buffers b" for i
        using q(1) that by (auto simp: find_None_iff queues_ok_def)
      then have "\<not> room b D blk" using new by (auto simp: room_def)
      then show ?thesis using None get by (simp add: getblk_def)
    next
      case (Some t)
      then have t: "t \<in> set (free_list b)" by (auto simp: find_Some_iff)
      then have tn: "t < nr_buffers b" using q(1) by (auto simp: queues_ok_def)
      let ?b1 = "on_buf t (\<lambda>bh. bh\<lparr>b_count := b_count bh + 1\<rparr>) b"
      have ok1: "bc_ok D ?b1" "same_view D b ?b1" using bc_ok_count ok by auto
      have rm: "remove_from_queues t ?b1 = Some (dequeued t ?b1)"
        using t by (simp add: remove_from_queues_def Let_def dequeued_def bc_simps)
      let ?dev = "b_dev (buf b t)"
      let ?P = "\<lambda>bh. b_dev bh = ?dev"
      obtain c where c: "(if b_dirt (buf b t) \<noteq> 0 then sync_buffers ?P [0..<nr_buffers b] ?b1 else Some ?b1) = Some c"
        and okc: "bc_ok D c" "same_view D ?b1 c" "hash_queue c = hash_queue ?b1" "free_list c = free_list ?b1"
        and bc: "b_dirt (buf c t) = 0" "\<And>j. b_dev (buf c j) = b_dev (buf b j)" "\<And>j. b_blocknr (buf c j) = b_blocknr (buf b j)"
          "\<And>j. b_count (buf c j) = b_count (buf ?b1 j)" and pc: "pinned ?b1 c"
      proof (cases "b_dirt (buf b t) \<noteq> 0")
        case True
        have "set [0..<nr_buffers b] \<subseteq> {..<nr_buffers ?b1}" by (auto simp: bc_simps)
        from sync_buffers_spec [OF ok1(1) this, of ?P] obtain c where
          "sync_buffers ?P [0..<nr_buffers b] ?b1 = Some c" "bc_ok D c" "same_view D ?b1 c"
          "swept (\<lambda>j. j \<in> set [0..<nr_buffers b] \<and> ?P (buf ?b1 j)) ?b1 c" by auto
        then show ?thesis using True tn by (intro that [of c]) (auto simp: swept_def bc_simps pinned_def)
      next
        case False
        then show ?thesis using ok1 by (intro that [of ?b1]) (auto simp: bc_simps pinned_def)
      qed
      have dq: "dequeued t ?b1 = ?b1\<lparr>hash_queue := hash_queue (dequeued t ?b1), free_list := free_list (dequeued t ?b1)\<rparr>"
        by (simp add: dequeued_def)
      have nb: "nr_buffers (dequeued t ?b1) = nr_buffers b" "buf (dequeued t ?b1) = buf ?b1"
        by (simp_all add: dequeued_def bc_simps)
      have dqc: "c\<lparr>hash_queue := hash_queue (dequeued t ?b1), free_list := free_list (dequeued t ?b1)\<rparr> = dequeued t c"
        using okc(3,4) bc by (simp add: dequeued_def bhash_def bc_simps)
      have sync: "(if b_dirt (buf (dequeued t ?b1) t) \<noteq> 0 then sync_dev (b_dev (buf (dequeued t ?b1) t)) (dequeued t ?b1)
          else Some (dequeued t ?b1)) = Some (dequeued t c)"
      proof (cases "b_dirt (buf b t) \<noteq> 0")
        case True
        then have "sync_buffers ?P [0..<nr_buffers b] (dequeued t ?b1) = Some (dequeued t c)"
          using c by (subst dq) (simp add: sync_buffers_queues dqc)
        then show ?thesis using True nb by (simp add: sync_dev_def bc_simps)
      next
        case False
        then show ?thesis using c nb bc(1) by (simp add: bc_simps)
      qed
      have tc: "t < nr_buffers c" using tn okc(2) by (simp add: same_view_def bc_simps)
      have newc: "\<forall>j<nr_buffers c. \<not> holds c D blk j"
        using new okc(2) bc by (simp add: holds_def same_view_def bc_simps)
      note R = reuse_buffer [OF okc(1) tc bc(1) newc blk]
      let ?b' = "insert_into_queues t (reused t D blk c)"
      have "getblk D blk b = Some (t, ?b')"
        using get Some rm sync R(1) by (simp add: getblk_def) (simp add: reused_def)
      moreover have "same_view D b ?b'" using same_view_trans [OF same_view_trans [OF ok1(2) okc(2)] R(3)] .
      moreover have "b_count (buf b t) = 0" using Some by (auto simp: find_Some_iff)
      then have "pinned b ?b'" using pc by (auto simp: pinned_def bc_simps)
      ultimately show ?thesis using R tc bc(4) by (simp add: bc_simps)
    qed
  qed
  then show "getblk D blk b = Some (i, b') \<Longrightarrow>
      bc_ok D b' \<and> same_view D b b' \<and> i < nr_buffers b' \<and> holds b' D blk i \<and>
      (\<forall>j. b_count (buf b' j) = b_count (buf b j) + (if j = i then 1 else 0)) \<and> pinned b b'"
    "room b D blk \<Longrightarrow> getblk D blk b \<noteq> None" by blast+
qed

lemma bread_spec:
  assumes ok: "bc_ok D b" and v: "valid b D blk"
  shows "bread D blk b = Some (r, b') \<Longrightarrow> bc_ok D b' \<and> same_view D b b' \<and>
      (\<exists>i<nr_buffers b. r = Some i \<and> holds b' D blk i \<and> b_uptodate (buf b' i) \<noteq> 0 \<and>
        (\<forall>p<1024. b_data (buf b' i) p = view b D blk p) \<and>
        (\<forall>j. b_count (buf b' j) = b_count (buf b j) + (if j = i then 1 else 0)) \<and> pinned b b')"
    "room b D blk \<Longrightarrow> bread D blk b \<noteq> None"
proof -
  have blk: "blk < 65536" and maj: "MAJOR D = 3" using v by (auto simp: valid_def)
  have main: "\<exists>b'. (if b_uptodate (buf b1 i) \<noteq> 0 then Some (Some i, b1)
        else do { b \<leftarrow> ll_rw_block READ i b1;
                  if b_uptodate (buf b i) \<noteq> 0 then Some (Some i, b)
                  else do { b \<leftarrow> brelse (Some i) b; Some (None, b) } }) = Some (Some i, b') \<and>
      bc_ok D b' \<and> same_view D b b' \<and> i < nr_buffers b \<and> holds b' D blk i \<and> b_uptodate (buf b' i) \<noteq> 0 \<and>
      (\<forall>p<1024. b_data (buf b' i) p = view b D blk p) \<and> (\<forall>j. b_count (buf b' j) = b_count (buf b1 j)) \<and> pinned b b'"
    if g: "bc_ok D b1" "same_view D b b1" "i < nr_buffers b1" "holds b1 D blk i" "pinned b b1" for b1 i
  proof -
    have q: "queues_ok b1" "D \<noteq> 0" and bo: "\<And>j. j < nr_buffers b1 \<Longrightarrow> buf_ok D b1 (buf b1 j)"
      using g(1) by (auto simp: bc_ok_def)
    have nb: "nr_buffers b1 = nr_buffers b" using g(2) by (simp add: same_view_def)
    have vw: "view b1 D blk p = view b D blk p" if "p < 1024" for p
      using g(2) v that by (simp add: same_view_def)
    have vc: "view b1 D blk = (if b_uptodate (buf b1 i) \<noteq> 0 then b_data (buf b1 i) else disk_block b1 D blk)"
      using view_cached [OF q g(3,4)] .
    show ?thesis
    proof (cases "b_uptodate (buf b1 i) \<noteq> 0")
      case True
      then show ?thesis using g nb vw vc by auto
    next
      case False
      have dev: "b_dev (buf b1 i) = D" "unat (b_blocknr (buf b1 i)) = blk" using g(4) by (auto simp: holds_def)
      have v1: "valid b1 D blk" using v g(2) valid_cong [of b1 b] by (simp add: same_view_def)
      let ?f = "\<lambda>bh. bh\<lparr>b_data := (\<lambda>p. if p < 1024 then disk_block b1 D blk p else b_data bh p),
        b_uptodate := 1, b_dirt := 0\<rparr>"
      let ?b2 = "on_buf i ?f b1"
      have rd: "rw_hd READ i b1 = ?b2" using rw_hd_valid(1) [of b1 i, unfolded dev, OF v1] .
      have keep: "b_dev (?f (buf b1 i)) = b_dev (buf b1 i)" "b_blocknr (?f (buf b1 i)) = b_blocknr (buf b1 i)" by simp_all
      have fb: "find_buffer dev n ?b2 = find_buffer dev n b1" for dev n
        using keep by (rule find_buffer_on_buf [where f = ?f])
      have Q2: "queues_ok ?b2" using q(1) keep by (rule queues_on_buf [where f = ?f])
      have "buf_ok D ?b2 (buf ?b2 j)" if "j < nr_buffers b1" for j
        using bo [OF that] dev by (simp add: buf_ok_cong [of ?b2 b1] bc_simps) (auto simp: buf_ok_def)
      then have ok2: "bc_ok D ?b2" using Q2 q(2) by (simp add: bc_ok_def bc_simps)
      have hold2: "holds ?b2 D blk i" using g(4) by (simp add: holds_def bc_simps)
      have "view ?b2 D n p = view b1 D n p" if "p < 1024" for n p
      proof (cases "find_buffer D n b1")
        case None
        then show ?thesis by (simp add: view_def fb)
      next
        case (Some j)
        then have "holds b1 D n j" using find_buffer_Some [OF q] by simp
        then have "j = i \<Longrightarrow> n = blk" using g(4) by (auto simp: holds_def)
        then show ?thesis using Some False that
          by (auto simp: view_def fb bc_simps)
      qed
      then have "same_view D b1 ?b2" by (simp add: same_view_def bc_simps)
      then have "same_view D b ?b2" using same_view_trans [OF g(2)] by blast
      moreover have "ll_rw_block READ i b1 = Some ?b2" using dev maj rd by (simp add: ll_rw_block_def)
      moreover have "\<forall>p<1024. b_data (buf ?b2 i) p = view b D blk p"
        using vw vc False by (simp add: bc_simps)
      moreover have "b_uptodate (buf ?b2 i) \<noteq> 0" "\<forall>j. b_count (buf ?b2 j) = b_count (buf b1 j)" by (simp_all add: bc_simps)
      moreover have "pinned b ?b2" using g(5) False by (auto simp: pinned_def bc_simps)
      ultimately show ?thesis using False ok2 hold2 g(3) nb by (intro exI [of _ ?b2]) simp
    qed
  qed
  show "bread D blk b = Some (r, b') \<Longrightarrow> bc_ok D b' \<and> same_view D b b' \<and>
      (\<exists>i<nr_buffers b. r = Some i \<and> holds b' D blk i \<and> b_uptodate (buf b' i) \<noteq> 0 \<and>
        (\<forall>p<1024. b_data (buf b' i) p = view b D blk p) \<and>
        (\<forall>j. b_count (buf b' j) = b_count (buf b j) + (if j = i then 1 else 0)) \<and> pinned b b')"
  proof -
    assume br: "bread D blk b = Some (r, b')"
    then obtain i b1 where g: "getblk D blk b = Some (i, b1)" by (auto simp: bread_def bind_Some_iff)
    from getblk_spec(1) [OF ok blk g] main [of b1 i] show ?thesis using br g by (auto simp: bread_def)
  qed
  show "room b D blk \<Longrightarrow> bread D blk b \<noteq> None"
  proof -
    assume "room b D blk"
    then obtain i b1 where g: "getblk D blk b = Some (i, b1)" using getblk_spec(2) [OF ok blk] by auto
    from getblk_spec(1) [OF ok blk g] main [of b1 i] show ?thesis using g by (auto simp: bread_def)
  qed
qed

lemma brelse_spec:
  assumes "bc_ok D b" and "b_count (buf b i) \<noteq> 0"
  shows "\<exists>b'. brelse (Some i) b = Some b' \<and> bc_ok D b' \<and> same_view D b b' \<and>
    (\<forall>j. b_count (buf b' j) = (if j = i then b_count (buf b j) - 1 else b_count (buf b j)))"
  using bc_ok_count [of D b i "\<lambda>bh. b_count bh - 1"] assms by (auto simp: brelse_def bc_simps)

text \<open>Changing the data of a buffer and marking it dirty changes the view of its block, and of no other.\<close>

lemma overwrite_spec:
  fixes f :: "cbuf \<Rightarrow> cbuf" and u :: "byte \<Rightarrow> byte"
  assumes ok: "bc_ok D b" and i: "i < nr_buffers b" "holds b D blk i" "u (b_uptodate (buf b i)) \<noteq> 0"
    and v: "valid b D blk"
  defines "b' \<equiv> on_buf i (\<lambda>bh. bh\<lparr>b_data := f (b_data bh), b_uptodate := u (b_uptodate bh), b_dirt := 1\<rparr>) b"
  shows "bc_ok D b'" "view b' D n = (if n = blk then f (b_data (buf b i)) else view b D n)"
    "b_count (buf b' j) = b_count (buf b j)" "nr_buffers b' = nr_buffers b"
    "hd_part b' = hd_part b" "bad_block b' = bad_block b"
proof -
  let ?g = "\<lambda>bh. bh\<lparr>b_data := f (b_data bh), b_uptodate := u (b_uptodate bh), b_dirt := 1\<rparr>"
  have eq: "b' = on_buf i ?g b" by (simp add: b'_def)
  have q: "queues_ok b" "D \<noteq> 0" and bo: "\<And>j. j < nr_buffers b \<Longrightarrow> buf_ok D b (buf b j)"
    using ok by (auto simp: bc_ok_def)
  have keep: "b_dev (?g (buf b i)) = b_dev (buf b i)" "b_blocknr (?g (buf b i)) = b_blocknr (buf b i)" by simp_all
  have Q: "queues_ok b'" unfolding eq using q(1) keep by (rule queues_on_buf [where f = ?g])
  have fb: "find_buffer dev n b' = find_buffer dev n b" for dev n
    unfolding eq using keep by (rule find_buffer_on_buf [where f = ?g])
  have "buf_ok D b' (buf b' j)" if "j < nr_buffers b" for j
    using bo [OF that] i v by (simp add: buf_ok_cong [of b' b] eq bc_simps) (auto simp: buf_ok_def holds_def)
  then show "bc_ok D b'" using Q q(2) by (simp add: eq bc_ok_def bc_simps)
  show "view b' D n = (if n = blk then f (b_data (buf b i)) else view b D n)"
  proof (cases "find_buffer D n b")
    case None
    then have "n \<noteq> blk" using find_buffer_None [OF q] i by auto
    moreover have "disk_block b' = disk_block b" by (simp add: eq)
    ultimately show ?thesis using None by (simp add: view_def fb)
  next
    case (Some j)
    then have j: "j < nr_buffers b" "holds b D n j" using find_buffer_Some [OF q] by auto
    have "j = i \<longleftrightarrow> n = blk"
      using j i find_buffer_Some [OF q, of n j] find_buffer_Some [OF q, of n i] Some by (auto simp: holds_def)
    moreover have "disk_block b' = disk_block b" "buf b' j = (if j = i then ?g (buf b i) else buf b j)"
      by (simp_all add: eq bc_simps)
    ultimately show ?thesis using Some i(3) by (auto simp: view_def fb)
  qed
  show "b_count (buf b' j) = b_count (buf b j)" "nr_buffers b' = nr_buffers b"
    "hd_part b' = hd_part b" "bad_block b' = bad_block b"
    by (simp_all add: eq bc_simps)
qed

lemma store_spec:
  assumes ok: "bc_ok D b" and i: "i < nr_buffers b" "holds b D blk i" "b_uptodate (buf b i) \<noteq> 0"
    and v: "valid b D blk"
  shows "bc_ok D (mark_dirty i (store i f b))"
    "view (mark_dirty i (store i f b)) D n =
      (if n = blk then f (view b D blk) else view b D n)"
    "b_count (buf (mark_dirty i (store i f b)) j) = b_count (buf b j)"
    "nr_buffers (mark_dirty i (store i f b)) = nr_buffers b"
    "hd_part (mark_dirty i (store i f b)) = hd_part b" "bad_block (mark_dirty i (store i f b)) = bad_block b"
proof -
  have eq: "mark_dirty i (store i f b) =
      on_buf i (\<lambda>bh. bh\<lparr>b_data := f (b_data bh), b_uptodate := b_uptodate bh, b_dirt := 1\<rparr>) b"
    by (simp add: mark_dirty_def store_def on_buf_def)
  have "queues_ok b" "D \<noteq> 0" using ok by (auto simp: bc_ok_def)
  from view_cached [OF this i(1,2)] i(3) have vi: "view b D blk = b_data (buf b i)" by simp
  note O = overwrite_spec [where u = "\<lambda>u. u" and f = f, OF ok i v]
  show "bc_ok D (mark_dirty i (store i f b))"
    "view (mark_dirty i (store i f b)) D n = (if n = blk then f (view b D blk) else view b D n)"
    "b_count (buf (mark_dirty i (store i f b)) j) = b_count (buf b j)"
    "nr_buffers (mark_dirty i (store i f b)) = nr_buffers b"
    "hd_part (mark_dirty i (store i f b)) = hd_part b" "bad_block (mark_dirty i (store i f b)) = bad_block b"
    unfolding eq vi by (rule O)+
qed

section \<open>The interface\<close>

text \<open>
  What the file system relies on: a store of blocks with byte contents, in which a read gives the
  contents, a write changes one byte, and writing everything back changes nothing.
\<close>

datatype bop = Get nat | Put nat nat byte | Flush

locale block_store =
  fixes inv :: "'s \<Rightarrow> bool" and usable :: "nat \<Rightarrow> bool" and content :: "'s \<Rightarrow> nat \<Rightarrow> nat \<Rightarrow> byte"
    and get :: "nat \<Rightarrow> 's \<Rightarrow> (cbuf \<times> 's) option" and put :: "nat \<Rightarrow> nat \<Rightarrow> byte \<Rightarrow> 's \<Rightarrow> 's option"
    and flush :: "'s \<Rightarrow> 's option"
  assumes get: "inv s \<Longrightarrow> usable n \<Longrightarrow> \<exists>d s'. get n s = Some (d, s') \<and> inv s' \<and>
      (\<forall>p<1024. d p = content s n p) \<and> (\<forall>m p. usable m \<longrightarrow> p < 1024 \<longrightarrow> content s' m p = content s m p)"
    and put: "inv s \<Longrightarrow> usable n \<Longrightarrow> q < 1024 \<Longrightarrow> \<exists>s'. put n q v s = Some s' \<and> inv s' \<and>
      (\<forall>m p. usable m \<longrightarrow> p < 1024 \<longrightarrow> content s' m p = (if m = n \<and> p = q then v else content s m p))"
    and flush: "inv s \<Longrightarrow> \<exists>s'. flush s = Some s' \<and> inv s' \<and>
      (\<forall>m p. usable m \<longrightarrow> p < 1024 \<longrightarrow> content s' m p = content s m p)"
begin

primrec run :: "bop list \<Rightarrow> 's \<Rightarrow> (cbuf list \<times> 's) option" where
  "run [] s = Some ([], s)"
| "run (x # xs) s = (case x of
     Get n \<Rightarrow> do { (d, s) \<leftarrow> get n s; (ds, s) \<leftarrow> run xs s; Some (d # ds, s) }
   | Put n p v \<Rightarrow> do { s \<leftarrow> put n p v s; run xs s }
   | Flush \<Rightarrow> do { s \<leftarrow> flush s; run xs s })"

text \<open>The same sequence on a plain table of bytes.\<close>

primrec run_spec :: "bop list \<Rightarrow> (nat \<Rightarrow> nat \<Rightarrow> byte) \<Rightarrow> (nat \<Rightarrow> byte) list \<times> (nat \<Rightarrow> nat \<Rightarrow> byte)" where
  "run_spec [] t = ([], t)"
| "run_spec (x # xs) t = (case x of
     Get n \<Rightarrow> (case run_spec xs t of (ds, t') \<Rightarrow> (t n # ds, t'))
   | Put n p v \<Rightarrow> run_spec xs (t(n := (t n)(p := v)))
   | Flush \<Rightarrow> run_spec xs t)"

definition fits :: "bop \<Rightarrow> bool" where
  "fits x = (case x of Get n \<Rightarrow> usable n | Put n p v \<Rightarrow> usable n \<and> p < 1024 | Flush \<Rightarrow> True)"

definition agrees :: "(nat \<Rightarrow> nat \<Rightarrow> byte) \<Rightarrow> (nat \<Rightarrow> nat \<Rightarrow> byte) \<Rightarrow> bool" where
  "agrees t u \<longleftrightarrow> (\<forall>m p. usable m \<longrightarrow> p < 1024 \<longrightarrow> t m p = u m p)"

lemma run_refines:
  assumes "inv s" and "\<forall>x\<in>set xs. fits x" and "agrees (content s) t"
  shows "\<exists>ds s'. run xs s = Some (ds, s') \<and> inv s' \<and> agrees (content s') (snd (run_spec xs t)) \<and>
    list_all2 (\<lambda>d e. \<forall>p<1024. d p = e p) ds (fst (run_spec xs t))"
  using assms
proof (induction xs arbitrary: s t)
  case Nil
  then show ?case by simp
next
  case (Cons x xs)
  show ?case
  proof (cases x)
    case (Get n)
    obtain d s1 where g: "get n s = Some (d, s1)" "inv s1" "\<forall>p<1024. d p = content s n p"
      "\<forall>m p. usable m \<longrightarrow> p < 1024 \<longrightarrow> content s1 m p = content s m p"
      using get [of s n] Cons.prems Get by (auto simp: fits_def)
    then have "agrees (content s1) t" using Cons.prems(3) by (simp add: agrees_def)
    from Cons.IH [OF g(2) _ this] Cons.prems(2) obtain ds s' where "run xs s1 = Some (ds, s')" "inv s'"
      "agrees (content s') (snd (run_spec xs t))" "list_all2 (\<lambda>d e. \<forall>p<1024. d p = e p) ds (fst (run_spec xs t))"
      by auto
    moreover have "\<forall>p<1024. d p = t n p" using g(3) Cons.prems(2,3) Get by (simp add: agrees_def fits_def)
    ultimately show ?thesis using g(1) Get by (auto split: prod.split)
  next
    case (Put n p v)
    obtain s1 where g: "put n p v s = Some s1" "inv s1"
      "\<forall>m q. usable m \<longrightarrow> q < 1024 \<longrightarrow> content s1 m q = (if m = n \<and> q = p then v else content s m q)"
      using put [of s n p v] Cons.prems Put by (auto simp: fits_def)
    then have "agrees (content s1) (t(n := (t n)(p := v)))" using Cons.prems(3) by (simp add: agrees_def)
    moreover have "\<forall>x\<in>set xs. fits x" using Cons.prems(2) by simp
    ultimately obtain ds s' where "run xs s1 = Some (ds, s')" "inv s'"
      "agrees (content s') (snd (run_spec xs (t(n := (t n)(p := v)))))"
      "list_all2 (\<lambda>d e. \<forall>p<1024. d p = e p) ds (fst (run_spec xs (t(n := (t n)(p := v)))))"
      using Cons.IH [OF g(2)] by blast
    then show ?thesis using g(1) Put by simp
  next
    case Flush
    obtain s1 where g: "flush s = Some s1" "inv s1"
      "\<forall>m p. usable m \<longrightarrow> p < 1024 \<longrightarrow> content s1 m p = content s m p"
      using flush [OF Cons.prems(1)] by auto
    then have "agrees (content s1) t" using Cons.prems(3) by (simp add: agrees_def)
    from Cons.IH [OF g(2) _ this] Cons.prems(2) show ?thesis using g(1) Flush by auto
  qed
qed

end

text \<open>
  The cache provides this interface. One operation is one system-level use of a block: read it,
  touch it, release it. \<open>quiet\<close>: between operations no buffer is held.
\<close>

definition cache_get :: "u16 \<Rightarrow> nat \<Rightarrow> bcache \<Rightarrow> (cbuf \<times> bcache) option" where
  "cache_get D n b =
     do { (bh, b) \<leftarrow> bread D n b;
          case bh of None \<Rightarrow> None
          | Some i \<Rightarrow> do { b' \<leftarrow> brelse (Some i) b; Some (b_data (buf b i), b') } }"

definition cache_put :: "u16 \<Rightarrow> nat \<Rightarrow> nat \<Rightarrow> byte \<Rightarrow> bcache \<Rightarrow> bcache option" where
  "cache_put D n p v b =
     do { (bh, b) \<leftarrow> bread D n b;
          case bh of None \<Rightarrow> None
          | Some i \<Rightarrow> brelse (Some i) (mark_dirty i (store i (\<lambda>d. d(p := v)) b)) }"

definition quiet :: "bcache \<Rightarrow> bool" where
  "quiet b \<longleftrightarrow> 0 < nr_buffers b \<and> (\<forall>i. b_count (buf b i) = 0)"

definition cache_inv :: "u16 \<Rightarrow> bcache \<Rightarrow> bcache \<Rightarrow> bool" where
  "cache_inv D b0 b \<longleftrightarrow> bc_ok D b \<and> quiet b \<and> hd_part b = hd_part b0 \<and> bad_block b = bad_block b0"

lemma cache_inv_valid: "cache_inv D b0 b \<Longrightarrow> valid b = valid b0"
  by (rule valid_cong) (simp_all add: cache_inv_def)

lemma cache_bread:
  assumes "cache_inv D b0 b" and "valid b0 D n"
  obtains i b1 where "bread D n b = Some (Some i, b1)" "bc_ok D b1" "same_view D b b1" "i < nr_buffers b1"
    "holds b1 D n i" "b_uptodate (buf b1 i) \<noteq> 0" "\<forall>p<1024. b_data (buf b1 i) p = view b D n p"
    "\<forall>j. b_count (buf b1 j) = (if j = i then 1 else 0)"
proof -
  have v: "valid b D n" and ok: "bc_ok D b" and q: "quiet b"
    using assms cache_inv_valid [OF assms(1)] by (auto simp: cache_inv_def)
  then have "room b D n" by (auto simp: room_def quiet_def)
  then obtain r b1 where br: "bread D n b = Some (r, b1)" using bread_spec(2) [OF ok v] by auto
  from bread_spec(1) [OF ok v br] q that br show ?thesis by (auto simp: quiet_def same_view_def)
qed

lemma view_valid: "cache_inv D b0 b \<Longrightarrow> same_view D b b' \<Longrightarrow> valid b0 D m \<Longrightarrow> p < 1024 \<Longrightarrow> view b' D m p = view b D m p"
  using cache_inv_valid by (auto simp: same_view_def)

interpretation cache: block_store "cache_inv D b0" "valid b0 D" "\<lambda>b n p. view b D n p"
  "cache_get D" "cache_put D" sync_all for D b0
proof
  fix s n
  assume inv: "cache_inv D b0 s" and n: "valid b0 D n"
  obtain i b1 where r: "bread D n s = Some (Some i, b1)" "bc_ok D b1" "same_view D s b1" "i < nr_buffers b1"
    "holds b1 D n i" "b_uptodate (buf b1 i) \<noteq> 0" "\<forall>p<1024. b_data (buf b1 i) p = view s D n p"
    "\<forall>j. b_count (buf b1 j) = (if j = i then 1 else 0)" using cache_bread [OF inv n] by metis
  obtain b2 where b2: "brelse (Some i) b1 = Some b2" "bc_ok D b2" "same_view D b1 b2"
    "\<forall>j. b_count (buf b2 j) = (if j = i then b_count (buf b1 j) - 1 else b_count (buf b1 j))"
    using brelse_spec [OF r(2), of i] r(8) by auto
  have sv: "same_view D s b2" using same_view_trans r(3) b2(3) by blast
  have "cache_inv D b0 b2" using inv sv b2(2,4) r(8) by (simp add: cache_inv_def quiet_def same_view_def)
  then show "\<exists>d s'. cache_get D n s = Some (d, s') \<and> cache_inv D b0 s' \<and> (\<forall>p<1024. d p = view s D n p) \<and>
      (\<forall>m p. valid b0 D m \<longrightarrow> p < 1024 \<longrightarrow> view s' D m p = view s D m p)"
    using r(1,7) b2(1) view_valid [OF inv sv] by (simp add: cache_get_def)
next
  fix s n q v
  assume inv: "cache_inv D b0 s" and n: "valid b0 D n" and q: "q < (1024 :: nat)"
  obtain i b1 where r: "bread D n s = Some (Some i, b1)" "bc_ok D b1" "same_view D s b1" "i < nr_buffers b1"
    "holds b1 D n i" "b_uptodate (buf b1 i) \<noteq> 0" "\<forall>p<1024. b_data (buf b1 i) p = view s D n p"
    "\<forall>j. b_count (buf b1 j) = (if j = i then 1 else 0)" using cache_bread [OF inv n] by metis
  have "valid b1 D n" using n r(3) valid_cong [of b1 b0] inv by (simp add: cache_inv_def same_view_def)
  note S = store_spec [OF r(2,4-6) this, of "\<lambda>d. d(q := v)"]
  let ?b2 = "mark_dirty i (store i (\<lambda>d. d(q := v)) b1)"
  obtain b3 where b3: "brelse (Some i) ?b2 = Some b3" "bc_ok D b3" "same_view D ?b2 b3"
    "\<forall>j. b_count (buf b3 j) = (if j = i then b_count (buf ?b2 j) - 1 else b_count (buf ?b2 j))"
    using brelse_spec [OF S(1), of i] S(3) r(8) by auto
  have "cache_inv D b0 b3"
    using inv b3 r(3,8) S by (simp add: cache_inv_def quiet_def same_view_def)
  moreover have "view b3 D m p = (if m = n \<and> p = q then v else view s D m p)" if "valid b0 D m" "p < 1024" for m p
  proof -
    have "valid ?b2 D m" using that(1) inv S r(3) valid_cong [of ?b2 b0] by (simp add: cache_inv_def same_view_def)
    then have "view b3 D m p = view ?b2 D m p" using b3(3) that(2) by (simp add: same_view_def)
    moreover have "view b1 D m p = view s D m p" using view_valid [OF inv r(3) that] .
    ultimately show ?thesis using S(2) by (cases "m = n") auto
  qed
  ultimately show "\<exists>s'. cache_put D n q v s = Some s' \<and> cache_inv D b0 s' \<and>
      (\<forall>m p. valid b0 D m \<longrightarrow> p < 1024 \<longrightarrow> view s' D m p = (if m = n \<and> p = q then v else view s D m p))"
    using r(1) b3(1) by (simp add: cache_put_def)
next
  fix s
  assume inv: "cache_inv D b0 s"
  have "set [0..<nr_buffers s] \<subseteq> {..<nr_buffers s}" by auto
  from sync_buffers_spec [OF _ this, of D "\<lambda>_. True"] inv
  obtain b' where b': "sync_all s = Some b'" "bc_ok D b'" "same_view D s b'"
    "swept (\<lambda>j. j \<in> set [0..<nr_buffers s] \<and> True) s b'"
    by (auto simp: sync_all_def cache_inv_def)
  have "cache_inv D b0 b'" using inv b' by (auto simp: cache_inv_def quiet_def same_view_def swept_def)
  then show "\<exists>s'. sync_all s = Some s' \<and> cache_inv D b0 s' \<and>
      (\<forall>m p. valid b0 D m \<longrightarrow> p < 1024 \<longrightarrow> view s' D m p = view s D m p)"
    using b' view_valid [OF inv b'(3)] by auto
qed

section \<open>Properties\<close>

text \<open>
  C1: The cache is transparent: any sequence of reading blocks, storing bytes into them and
  writing everything back, each through \<^verbatim>\<open>bread\<close> and \<^verbatim>\<open>brelse\<close>, comes to an end and gives what the
  same sequence gives on a plain table of blocks, whatever buffers are evicted on the way.
\<close>

theorem cache_transparent:
  assumes "bc_ok D b" and "quiet b" and "\<forall>x\<in>set ops. cache.fits b D x"
  shows "\<exists>ds b'. cache.run D ops b = Some (ds, b') \<and> bc_ok D b' \<and> quiet b' \<and>
    list_all2 (\<lambda>d e. \<forall>p<1024. d p = e p) ds (fst (cache.run_spec ops (view b D))) \<and>
    (\<forall>n p. valid b D n \<longrightarrow> p < 1024 \<longrightarrow> view b' D n p = snd (cache.run_spec ops (view b D)) n p)"
proof -
  have "cache_inv D b b" using assms(1,2) by (simp add: cache_inv_def)
  moreover have "cache.agrees b D (\<lambda>n p. view b D n p) (view b D)" by (simp add: cache.agrees_def)
  ultimately show ?thesis
    using cache.run_refines [OF _ assms(3)] by (fastforce simp: cache_inv_def cache.agrees_def)
qed

definition small_cache :: bcache where
  "small_cache = \<lparr>nr_buffers = 1,
     buf = (\<lambda>_. \<lparr>b_data = (\<lambda>_. 0), b_dev = 0, b_blocknr = 0, b_uptodate = 0, b_dirt = 0, b_count = 0\<rparr>),
     hash_queue = (\<lambda>_. []), free_list = [0], hd_part = (\<lambda>_. \<lparr>start_sect = 1, nr_sects = 100\<rparr>),
     disk = (\<lambda>_ _ _. 7), bad_block = (\<lambda>_ _. False)\<rparr>"

lemma small_cache_ok: "bc_ok ROOT_DEV small_cache" "quiet small_cache"
  by (auto simp: bc_ok_def queues_ok_def buf_ok_def quiet_def small_cache_def)

lemma small_cache_valid: "valid small_cache ROOT_DEV n \<longleftrightarrow> n < 50"
  by (auto simp: valid_def small_cache_def MAJOR_def MINOR_def)

lemma small_cache_view: "view small_cache ROOT_DEV n p = 7"
  by (simp add: view_def find_buffer_def) (simp add: small_cache_def disk_block_def)

theorem cache_transparent_witness:
  "\<exists>d1 d2 b'. cache.run ROOT_DEV [Put 3 5 65, Get 4, Flush, Get 3] small_cache = Some ([d1, d2], b') \<and>
    d1 5 = 7 \<and> d2 5 = 65 \<and> d2 6 = 7"
proof -
  let ?ops = "[Put 3 5 65, Get 4, Flush, Get 3]"
  have "\<forall>x\<in>set ?ops. cache.fits small_cache ROOT_DEV x"
    by (simp add: cache.fits_def small_cache_valid)
  from cache_transparent [OF small_cache_ok this] obtain ds b' where
    r: "cache.run ROOT_DEV ?ops small_cache = Some (ds, b')"
      "list_all2 (\<lambda>d e. \<forall>p<1024. d p = e p) ds (fst (cache.run_spec ?ops (view small_cache ROOT_DEV)))" by blast
  show ?thesis using r small_cache_view by (auto simp: list_all2_Cons2)
qed

text \<open>
  C9: After \<^verbatim>\<open>sys_sync\<close>'s sweep every block of the device holds on the disk itself what the
  cache showed before: no modified buffer is left behind.
\<close>

theorem sync_reaches_disk:
  assumes "bc_ok D b"
  shows "\<exists>b'. sync_all b = Some b' \<and> (\<forall>i<nr_buffers b. b_dirt (buf b' i) = 0) \<and>
    (\<forall>n p. valid b D n \<longrightarrow> p < 1024 \<longrightarrow> disk_block b' D n p = view b D n p)"
proof -
  have "set [0..<nr_buffers b] \<subseteq> {..<nr_buffers b}" by auto
  from sync_buffers_spec [OF assms this, of "\<lambda>_. True"]
  obtain b' where b': "sync_all b = Some b'" "bc_ok D b'" "same_view D b b'"
    "swept (\<lambda>j. j \<in> set [0..<nr_buffers b] \<and> True) b b'"
    by (auto simp: sync_all_def)
  have clean: "b_dirt (buf b' i) = 0" if "i < nr_buffers b" for i
    using b'(4) that by (simp add: swept_def)
  have q: "queues_ok b'" "D \<noteq> 0" and bo: "\<And>j. j < nr_buffers b' \<Longrightarrow> buf_ok D b' (buf b' j)"
    using b'(2) by (auto simp: bc_ok_def)
  have nb: "nr_buffers b' = nr_buffers b" using b'(3) by (simp add: same_view_def)
  have "view b' D n p = disk_block b' D n p" if "p < 1024" for n p
  proof (cases "find_buffer D n b'")
    case None
    then show ?thesis by (simp add: view_def)
  next
    case (Some j)
    then have "j < nr_buffers b'" "holds b' D n j" using find_buffer_Some [OF q] by auto
    then show ?thesis using Some bo [of j] clean [of j] nb that by (auto simp: view_def buf_ok_def holds_def)
  qed
  then show ?thesis using b'(1,3) clean by (auto simp: same_view_def)
qed

theorem sync_reaches_disk_witness:
  "\<exists>b'. sync_all small_cache = Some b' \<and> disk_block b' ROOT_DEV 3 600 = 7"
  using sync_reaches_disk [OF small_cache_ok(1)] small_cache_valid small_cache_view by fastforce

end
