(* ===== verification/Hd.thy ===== *)
theory Hd
  imports Buffer "HOL-Library.Multiset"
begin

text \<open>
  The hard disk driver, \<^verbatim>\<open>kernel/hd.c\<close>, and \<^verbatim>\<open>hd_interrupt\<close> of \<^verbatim>\<open>system_call.s\<close>: the queue of requests, the
  commands to the controller and the handlers of its interrupts. (Theory Buffer has \<^verbatim>\<open>rw_hd\<close> and a transfer as one step;
  theory Super has \<^verbatim>\<open>sys_setup\<close>.)

  The controller is not part of the program: \<open>ports\<close> are the port instructions on a state \<open>'h\<close> of the hardware,
  arguments of the model; what the lemmas use of them is in the section on the controller. What \<^verbatim>\<open>printk\<close> prints is left out.
\<close>

section \<open>State\<close>

record 'h ports =
  p_in :: "u16 \<Rightarrow> 'h \<Rightarrow> byte \<times> 'h"
  p_out :: "byte \<Rightarrow> u16 \<Rightarrow> 'h \<Rightarrow> 'h"
  p_insw :: "'h \<Rightarrow> cbuf \<times> 'h"
  p_outsw :: "cbuf \<Rightarrow> 'h \<Rightarrow> 'h"

record hd_request =
  rq_hd :: int
  rq_nsector :: int
  rq_sector :: int
  rq_head :: int
  rq_cyl :: int
  rq_cmd :: byte
  rq_errors :: int
  rq_bh :: nat
  rq_next :: "nat option"

text \<open>What \<^verbatim>\<open>do_hd\<close> points to, and the lists of sleeping processes that are woken.\<close>

datatype handler = Do_request | Read_intr | Write_intr

datatype hd_wait = Buffer_wait nat | Request_wait

record 'h hdrv =
  request :: "nat \<Rightarrow> hd_request"
  this_request :: "nat option"
  sorting :: bool
  do_hd :: "handler option"
  b_lock :: "nat \<Rightarrow> bool"
  bufs :: "nat \<Rightarrow> buffer_head"
  parts :: "nat \<Rightarrow> hd_struct"
  wakes :: "hd_wait list"
  ctl :: 'h

abbreviation NR_REQUEST :: nat where "NR_REQUEST \<equiv> 32"
abbreviation MAX_ERRORS :: int where "MAX_ERRORS \<equiv> 5"
abbreviation WIN_READ :: byte where "WIN_READ \<equiv> 0x20"
abbreviation WIN_WRITE :: byte where "WIN_WRITE \<equiv> 0x30"
abbreviation WIN_SPECIFY :: byte where "WIN_SPECIFY \<equiv> 0x91"
abbreviation HD_DATA :: u16 where "HD_DATA \<equiv> 0x1f0"
abbreviation HD_ERROR :: u16 where "HD_ERROR \<equiv> 0x1f1"
abbreviation HD_STATUS :: u16 where "HD_STATUS \<equiv> 0x1f7"
abbreviation HD_CMD :: u16 where "HD_CMD \<equiv> 0x3f6"

definition on_request :: "nat \<Rightarrow> (hd_request \<Rightarrow> hd_request) \<Rightarrow> 'h hdrv \<Rightarrow> 'h hdrv" where
  "on_request i f s = s\<lparr>request := (request s)(i := f (request s i))\<rparr>"

definition on_bh :: "nat \<Rightarrow> (buffer_head \<Rightarrow> buffer_head) \<Rightarrow> 'h hdrv \<Rightarrow> 'h hdrv" where
  "on_bh i f s = s\<lparr>bufs := (bufs s)(i := f (bufs s i))\<rparr>"

definition wake :: "hd_wait \<Rightarrow> 'h hdrv \<Rightarrow> 'h hdrv" where
  "wake w s = s\<lparr>wakes := wakes s @ [w]\<rparr>"

section \<open>The ports\<close>

definition inb :: "'h ports \<Rightarrow> u16 \<Rightarrow> 'h hdrv \<Rightarrow> byte \<times> 'h hdrv" where
  "inb P port s = (let (v, h) = p_in P port (ctl s) in (v, s\<lparr>ctl := h\<rparr>))"

definition outb :: "'h ports \<Rightarrow> byte \<Rightarrow> u16 \<Rightarrow> 'h hdrv \<Rightarrow> 'h hdrv" where
  "outb P v port s = s\<lparr>ctl := p_out P v port (ctl s)\<rparr>"

text \<open>256 words between the data port and offset \<open>p\<close> of a buffer.\<close>

definition port_read :: "'h ports \<Rightarrow> nat \<Rightarrow> nat \<Rightarrow> 'h hdrv \<Rightarrow> 'h hdrv" where
  "port_read P bh p s =
     (let (d, h) = p_insw P (ctl s) in
      on_bh bh (\<lambda>b. b\<lparr>b_data := (\<lambda>x. if p \<le> x \<and> x < p + 512 then d (x - p) else b_data b x)\<rparr>) (s\<lparr>ctl := h\<rparr>))"

definition port_write :: "'h ports \<Rightarrow> nat \<Rightarrow> nat \<Rightarrow> 'h hdrv \<Rightarrow> 'h hdrv" where
  "port_write P bh p s = s\<lparr>ctl := p_outsw P (\<lambda>x. b_data (bufs s bh) (p + x)) (ctl s)\<rparr>"

section \<open>Locks\<close>

definition lock_buffer :: "nat \<Rightarrow> 'h hdrv \<Rightarrow> 'h hdrv" where
  "lock_buffer bh s = s\<lparr>b_lock := (b_lock s)(bh := True)\<rparr>"

definition unlock_buffer :: "nat \<Rightarrow> 'h hdrv \<Rightarrow> 'h hdrv" where
  "unlock_buffer bh s = wake (Buffer_wait bh) (s\<lparr>b_lock := (b_lock s)(bh := False)\<rparr>)"

section \<open>The controller\<close>

text \<open>The number of retries that were left, 0 when the controller did not get ready.\<close>

primrec ready_loop :: "'h ports \<Rightarrow> nat \<Rightarrow> 'h hdrv \<Rightarrow> nat \<times> 'h hdrv" where
  "ready_loop P 0 s = (0, s)"
| "ready_loop P (Suc n) s =
     (let (v, s) = inb P HD_STATUS s in if v AND 0xc0 = 0x40 then (Suc n, s) else ready_loop P n s)"

definition controller_ready :: "'h ports \<Rightarrow> 'h hdrv \<Rightarrow> nat \<times> 'h hdrv" where
  "controller_ready P s = ready_loop P 999 s"

definition win_result :: "'h ports \<Rightarrow> 'h hdrv \<Rightarrow> bool \<times> 'h hdrv" where
  "win_result P s =
     (let (i, s) = inb P HD_STATUS s in
      if i AND 0xf1 = 0x50 then (False, s)
      else (True, if bit i 0 then snd (inb P HD_ERROR s) else s))"

definition hd_out :: "'h ports \<Rightarrow> int \<Rightarrow> int \<Rightarrow> int \<Rightarrow> int \<Rightarrow> int \<Rightarrow> byte \<Rightarrow> handler \<Rightarrow> 'h hdrv \<Rightarrow> 'h hdrv option" where
  "hd_out P drive nsect sect head cyl cmd intr s =
     (if drive < 0 \<or> 1 < drive \<or> head < 0 \<or> 15 < head then panic ''Trying to write bad sector''
      else let (r, s) = controller_ready P s in
        if r = 0 then panic ''HD controller not ready''
        else let s = s\<lparr>do_hd := Some intr\<rparr>;
                 s = outb P 0 HD_CMD s;
                 s = outb P (- 1) 0x1f1 s;
                 s = outb P (of_int nsect) 0x1f2 s;
                 s = outb P (of_int sect) 0x1f3 s;
                 s = outb P (of_int cyl) 0x1f4 s;
                 s = outb P (of_int (cyl div 256)) 0x1f5 s;
                 s = outb P (0xB0 OR push_bit 4 (of_int drive) OR of_int head) 0x1f6 s
             in Some (outb P cmd 0x1f7 s))"

primrec busy_loop :: "'h ports \<Rightarrow> nat \<Rightarrow> 'h hdrv \<Rightarrow> 'h hdrv" where
  "busy_loop P 0 s = s"
| "busy_loop P (Suc n) s = (let (v, s) = inb P HD_STATUS s in if v AND 0xc0 = 0x40 then s else busy_loop P n s)"

definition drive_busy :: "'h ports \<Rightarrow> 'h hdrv \<Rightarrow> bool \<times> 'h hdrv" where
  "drive_busy P s = (let (i, s) = inb P HD_STATUS (busy_loop P 100000 s) in (i AND 0xd0 \<noteq> 0x50, s))"

primrec reset_loop :: "'h ports \<Rightarrow> nat \<Rightarrow> 'h hdrv \<Rightarrow> 'h hdrv" where
  "reset_loop P 0 s = s"
| "reset_loop P (Suc n) s = (let (busy, s) = drive_busy P s in if busy then reset_loop P n s else s)"

definition reset_controller :: "'h ports \<Rightarrow> 'h hdrv \<Rightarrow> 'h hdrv" where
  "reset_controller P s =
     (let s = outb P 0 HD_CMD (outb P 4 HD_CMD s);
          s = snd (drive_busy P (reset_loop P 10000 s))
      in snd (inb P HD_STATUS s))"

definition reset_hd :: "'h ports \<Rightarrow> int \<Rightarrow> 'h hdrv \<Rightarrow> 'h hdrv option" where
  "reset_hd P nr s = hd_out P nr 20 20 3 1024 WIN_SPECIFY Do_request (reset_controller P s)"

definition unexpected_hd_interrupt :: "'h hdrv \<Rightarrow> 'h hdrv option" where
  "unexpected_hd_interrupt s = panic ''Unexpected HD interrupt''"

section \<open>Requests\<close>

text \<open>\<^verbatim>\<open>IN_ORDER\<close> as it is written: a conjunction, not a comparison from left to right.\<close>

definition IN_ORDER :: "hd_request \<Rightarrow> hd_request \<Rightarrow> bool" where
  "IN_ORDER s1 s2 \<longleftrightarrow>
     (rq_hd s1 < rq_hd s2 \<or> rq_hd s1 = rq_hd s2) \<and>
     ((rq_cyl s1 < rq_cyl s2 \<or> rq_cyl s1 = rq_cyl s2) \<and>
      ((rq_head s1 < rq_head s2 \<or> rq_head s1 = rq_head s2) \<and> rq_sector s1 < rq_sector s2))"

text \<open>The status is read until it asks for data.\<close>

primrec drq_loop :: "'h ports \<Rightarrow> nat \<Rightarrow> 'h hdrv \<Rightarrow> bool \<times> 'h hdrv" where
  "drq_loop P 0 s = (False, s)"
| "drq_loop P (Suc n) s = (let (v, s) = inb P HD_STATUS s in if bit v 3 then (True, s) else drq_loop P n s)"

definition do_request :: "'h ports \<Rightarrow> 'h hdrv \<Rightarrow> 'h hdrv option" where
  "do_request P s =
     (if sorting s then Some s
      else case this_request s of
        None \<Rightarrow> Some (s\<lparr>do_hd := None\<rparr>)
      | Some i \<Rightarrow>
          let r = request s i; out = hd_out P (rq_hd r) (rq_nsector r) (rq_sector r) (rq_head r) (rq_cyl r) (rq_cmd r) in
          if rq_cmd r = WIN_WRITE then do {
            s \<leftarrow> out Write_intr s;
            (case drq_loop P 3000 s of (drq, s) \<Rightarrow>
              if drq then Some (port_write P (rq_bh r) (if odd (rq_nsector r) then 512 else 0) s) else reset_hd P (rq_hd r) s) }
          else if rq_cmd r = WIN_READ then out Read_intr s
          else panic ''unknown hd-command'')"

text \<open>A request is taken off the queue.\<close>

definition next_request :: "nat \<Rightarrow> 'h hdrv \<Rightarrow> 'h hdrv" where
  "next_request i s =
     (let s = on_request i (\<lambda>r. r\<lparr>rq_hd := - 1\<rparr>) s in s\<lparr>this_request := rq_next (request s i)\<rparr>)"

definition bad_rw_intr :: "'h ports \<Rightarrow> 'h hdrv \<Rightarrow> 'h hdrv option" where
  "bad_rw_intr P s =
     do { r \<leftarrow> this_request s;
          let i = rq_hd (request s r);
          let tries = rq_errors (request s r);
          let s = on_request r (\<lambda>q. q\<lparr>rq_errors := tries + 1\<rparr>) s;
          reset_hd P i
            (if MAX_ERRORS \<le> tries
             then next_request r (wake Request_wait (unlock_buffer (rq_bh (request s r))
                    (on_bh (rq_bh (request s r)) (\<lambda>b. b\<lparr>b_uptodate := 0\<rparr>) s)))
             else s) }"

text \<open>The request is done: both handlers end like this.\<close>

definition end_request :: "'h ports \<Rightarrow> nat \<Rightarrow> 'h hdrv \<Rightarrow> 'h hdrv option" where
  "end_request P r s =
     (let bh = rq_bh (request s r);
          s = on_bh bh (\<lambda>b. b\<lparr>b_uptodate := 1, b_dirt := 0\<rparr>) s
      in do_request P (next_request r (unlock_buffer bh (wake Request_wait s))))"

text \<open>
  \<^verbatim>\<open>read_intr\<close> goes on after the first of the two sectors. Interrupts are enabled in it: \<open>during\<close> is what happens between the
  transfer of the first sector and the rest, which works on the request that is then at the head of the queue.
\<close>

definition read_intr :: "'h ports \<Rightarrow> ('h hdrv \<Rightarrow> 'h hdrv option) \<Rightarrow> 'h hdrv \<Rightarrow> 'h hdrv option" where
  "read_intr P during s =
     (let (bad, s) = win_result P s in
      if bad then bad_rw_intr P s
      else do {
        r \<leftarrow> this_request s;
        let bh = rq_bh (request s r);
        if rq_nsector (request s r) = 2
        then do {
          s \<leftarrow> during (port_read P bh 0 (on_request r (\<lambda>q. q\<lparr>rq_nsector := 1\<rparr>) s));
          r \<leftarrow> this_request s;
          end_request P r (on_request r (\<lambda>q. q\<lparr>rq_errors := 0\<rparr>) s) }
        else Some (port_read P bh 512 s) })"

definition write_intr :: "'h ports \<Rightarrow> 'h hdrv \<Rightarrow> 'h hdrv option" where
  "write_intr P s =
     (let (bad, s) = win_result P s in
      if bad then bad_rw_intr P s
      else do {
        r \<leftarrow> this_request s;
        let s = on_request r (\<lambda>q. q\<lparr>rq_nsector := rq_nsector q - 1\<rparr>) s;
        if rq_nsector (request s r) \<noteq> 0 then Some (port_write P (rq_bh (request s r)) 512 s)
        else end_request P r s })"

text \<open>Both interrupt controllers are told first that the interrupt has been taken.\<close>

definition eoi :: "'h ports \<Rightarrow> 'h hdrv \<Rightarrow> 'h hdrv" where
  "eoi P s = outb P 0x20 0xA0 (outb P 0x20 0x20 s)"

definition hd_interrupt :: "'h ports \<Rightarrow> ('h hdrv \<Rightarrow> 'h hdrv option) \<Rightarrow> 'h hdrv \<Rightarrow> 'h hdrv option" where
  "hd_interrupt P during s =
     (let s = eoi P s in
      case do_hd s of
        None \<Rightarrow> unexpected_hd_interrupt s
      | Some Do_request \<Rightarrow> do_request P s
      | Some Read_intr \<Rightarrow> read_intr P during s
      | Some Write_intr \<Rightarrow> write_intr P s)"

text \<open>The place in the list behind which a request goes, from the second entry on.\<close>

partial_function (option) find_place :: "(nat \<Rightarrow> hd_request) \<Rightarrow> nat \<Rightarrow> nat \<Rightarrow> nat option" where
  "find_place rq req tmp =
     (case rq_next (rq tmp) of
        None \<Rightarrow> Some tmp
      | Some n \<Rightarrow>
          if (IN_ORDER (rq tmp) (rq req) \<or> \<not> IN_ORDER (rq tmp) (rq n)) \<and> IN_ORDER (rq req) (rq n) then Some tmp
          else find_place rq req n)"

definition add_request :: "'h ports \<Rightarrow> nat \<Rightarrow> 'h hdrv \<Rightarrow> 'h hdrv option" where
  "add_request P req s =
     (if rq_nsector (request s req) \<noteq> 2 then panic ''nsector!=2 not implemented''
      else do {
        let s = s\<lparr>sorting := True\<rparr>;
        s \<leftarrow> (case this_request s of
          None \<Rightarrow> Some (s\<lparr>this_request := Some req\<rparr>)
        | Some t \<Rightarrow>
            (case rq_next (request s t) of
               None \<Rightarrow> Some (on_request t (\<lambda>r. r\<lparr>rq_next := Some req\<rparr>) s)
             | Some t2 \<Rightarrow> do {
                 tmp \<leftarrow> find_place (request s) req t2;
                 let s = on_request req (\<lambda>r. r\<lparr>rq_next := rq_next (request s tmp)\<rparr>) s;
                 Some (on_request tmp (\<lambda>r. r\<lparr>rq_next := Some req\<rparr>) s) }));
        let s = s\<lparr>sorting := False\<rparr>;
        if do_hd s = None then do_request P s else Some s })"

text \<open>Up to the point where the caller waits for the buffer; with no free request it sleeps before.\<close>

definition rw_abs_hd :: "'h ports \<Rightarrow> rw \<Rightarrow> nat \<Rightarrow> nat \<Rightarrow> nat \<Rightarrow> nat \<Rightarrow> nat \<Rightarrow> 'h hdrv \<Rightarrow> 'h hdrv option" where
  "rw_abs_hd P rw nr sec head cyl bh s =
     (let s = lock_buffer bh s in
      case List.find (\<lambda>i. rq_hd (request s i) < 0) [0..<NR_REQUEST] of
        None \<Rightarrow> sleeps ''wait_for_request''
      | Some req \<Rightarrow>
          add_request P req (on_request req (\<lambda>_. \<lparr>rq_hd = int nr, rq_nsector = 2, rq_sector = int sec, rq_head = int head,
            rq_cyl = int cyl, rq_cmd = (case rw of READ \<Rightarrow> WIN_READ | WRITE \<Rightarrow> WIN_WRITE), rq_errors = 0, rq_bh = bh, rq_next = None\<rparr>) s))"

text \<open>\<^verbatim>\<open>hd_info\<close> has the one drive with 4 heads, 20 sectors and 1024 cylinders; the interrupts 2 and 14 are unmasked.\<close>

definition hd_init :: "'h ports \<Rightarrow> 'h hdrv \<Rightarrow> 'h hdrv" where
  "hd_init P s =
     (let s = s\<lparr>request := (\<lambda>i. if i < NR_REQUEST then (request s i)\<lparr>rq_hd := - 1, rq_next := None\<rparr> else request s i),
                parts := (parts s)(0 := \<lparr>start_sect = 0, nr_sects = 4 * 20 * 1024\<rparr>)\<rparr>;
          (v, s) = inb P 0x21 s;
          s = outb P (v AND 0xfb) 0x21 s;
          (w, s) = inb P 0xA1 s
      in outb P (w AND 0xbf) 0xA1 s)"

section \<open>The queue of requests\<close>

text \<open>The requests that hang on \<open>t\<close>, in their order.\<close>

fun chain :: "(nat \<Rightarrow> hd_request) \<Rightarrow> nat option \<Rightarrow> nat list \<Rightarrow> bool" where
  "chain rq t [] \<longleftrightarrow> t = None"
| "chain rq t (i # l) \<longleftrightarrow> t = Some i \<and> chain rq (rq_next (rq i)) l"

text \<open>What the queue is meant to become: the first two entries stay, the new one goes to its place behind them.\<close>

definition goes_here :: "hd_request \<Rightarrow> hd_request \<Rightarrow> hd_request \<Rightarrow> bool" where
  "goes_here a r b \<longleftrightarrow> (IN_ORDER a r \<or> \<not> IN_ORDER a b) \<and> IN_ORDER r b"

fun behind :: "(nat \<Rightarrow> hd_request) \<Rightarrow> nat \<Rightarrow> nat list \<Rightarrow> nat list" where
  "behind rq r (a # b # l) = (if goes_here (rq a) (rq r) (rq b) then a # r # b # l else a # behind rq r (b # l))"
| "behind rq r l = l @ [r]"

fun elevator :: "(nat \<Rightarrow> hd_request) \<Rightarrow> nat \<Rightarrow> nat list \<Rightarrow> nat list" where
  "elevator rq r (a # b # l) = a # behind rq r (b # l)"
| "elevator rq r l = l @ [r]"

lemma mset_behind: "mset (behind rq r l) = add_mset r (mset l)"
  by (induction rq r l rule: behind.induct) auto

lemma mset_elevator: "mset (elevator rq r l) = add_mset r (mset l)"
  by (cases "(rq, r, l)" rule: elevator.cases) (auto simp: mset_behind)

lemma behind_first: "l \<noteq> [] \<Longrightarrow> take 1 (behind rq r l) = take 1 l"
  by (cases "(rq, r, l)" rule: behind.cases) auto

lemma elevator_first_two: "take 2 (elevator rq r l) = (if length l < 2 then l @ [r] else take 2 l)"
proof (cases "(rq, r, l)" rule: elevator.cases)
  case (1 rq r a b l)
  then show ?thesis using behind_first [of "b # l" rq r] by (simp add: numeral_2_eq_2)
qed auto

lemma chain_cong: "(\<And>i. i \<in> set l \<Longrightarrow> rq_next (rq' i) = rq_next (rq i)) \<Longrightarrow> chain rq t l \<Longrightarrow> chain rq' t l"
  by (induction l arbitrary: t) auto

lemma same_link: "r\<lparr>rq_next := rq_next r\<rparr> = r"
  by simp

text \<open>One link is changed: \<open>r\<close> goes between \<open>a\<close> and what follows it.\<close>

abbreviation link_in :: "(nat \<Rightarrow> hd_request) \<Rightarrow> nat \<Rightarrow> nat \<Rightarrow> nat \<Rightarrow> hd_request" where
  "link_in rq a r \<equiv> (rq(r := (rq r)\<lparr>rq_next := rq_next (rq a)\<rparr>))(a := (rq a)\<lparr>rq_next := Some r\<rparr>)"

lemma find_place_behind:
  assumes "chain rq (Some a) (a # l)" and "distinct (a # l)" and "r \<notin> set (a # l)"
  shows "\<exists>p. find_place rq r a = Some p \<and> p \<in> set (a # l) \<and> chain (link_in rq p r) (Some a) (behind rq r (a # l))"
  using assms
proof (induction l arbitrary: a)
  case Nil
  then show ?case by (subst find_place.simps) auto
next
  case (Cons b l)
  show ?case
  proof (cases "goes_here (rq a) (rq r) (rq b)")
    case True
    have "chain (link_in rq a r) (rq_next (rq b)) l"
      using Cons.prems by (intro chain_cong [of l "link_in rq a r" rq]) auto
    then show ?thesis using True Cons.prems by (subst find_place.simps) (auto simp: goes_here_def)
  next
    case False
    obtain p where p: "find_place rq r b = Some p" "p \<in> set (b # l)" "chain (link_in rq p r) (Some b) (behind rq r (b # l))"
    proof -
      have "chain rq (Some b) (b # l)" "distinct (b # l)" "r \<notin> set (b # l)" using Cons.prems by auto
      from Cons.IH [OF this] show thesis using that by blast
    qed
    then have "find_place rq r a = Some p"
      using False Cons.prems by (subst find_place.simps) (auto simp: goes_here_def)
    moreover have "p \<noteq> a" using p(2) Cons.prems(2) by auto
    then have "rq_next (link_in rq p r a) = Some b" using Cons.prems by auto
    then have "chain (link_in rq p r) (Some a) (behind rq r (a # b # l))"
      using p(3) False by (simp only: behind.simps chain.simps if_False simp_thms)
    ultimately show ?thesis using p(2) by (intro exI [of _ p]) (simp del: fun_upd_apply behind.simps chain.simps)
  qed
qed

lemma keep_this:
  "this_request s = Some a \<Longrightarrow> s\<lparr>request := R, this_request := Some a, sorting := False\<rparr> = s\<lparr>request := R, sorting := False\<rparr>"
  by (cases s) simp

definition hd_queue :: "'h hdrv \<Rightarrow> nat list \<Rightarrow> bool" where
  "hd_queue s l \<longleftrightarrow> chain (request s) (this_request s) l \<and> distinct l"

definition same_but_next :: "(nat \<Rightarrow> hd_request) \<Rightarrow> (nat \<Rightarrow> hd_request) \<Rightarrow> bool" where
  "same_but_next rq rq' \<longleftrightarrow> (\<forall>i. \<exists>n. rq' i = (rq i)\<lparr>rq_next := n\<rparr>)"

text \<open>
  A request is put into the queue where the elevator has it: \<^verbatim>\<open>add_request\<close> changes the links alone, the chain of
  requests from \<^verbatim>\<open>this_request\<close> is then the old one with the new request in the place that \<open>elevator\<close> gives,
  the first two entries, which an interrupt may touch, are where they were, and the controller is started when it was idle.
\<close>

theorem add_request_elevator:
  assumes "hd_queue s l" and "r \<notin> set l" and "rq_nsector (request s r) = 2" and "rq_next (request s r) = None"
  shows "\<exists>rq t. add_request P r s = (let s' = s\<lparr>request := rq, this_request := t, sorting := False\<rparr> in
      if do_hd s = None then do_request P s' else Some s') \<and>
    hd_queue (s\<lparr>request := rq, this_request := t\<rparr>) (elevator (request s) r l) \<and> same_but_next (request s) rq \<and>
    mset (elevator (request s) r l) = add_mset r (mset l) \<and> take 2 (elevator (request s) r l) = (if length l < 2 then l @ [r] else take 2 l)"
proof -
  have d: "distinct (elevator (request s) r l)"
    using assms(1,2) mset_elevator [of "request s" r l] by (metis distinct.simps(2) hd_queue_def mset.simps(2) mset_eq_imp_distinct_iff)
  consider (longer) a b l' where "l = a # b # l'" | (none) "l = []" | (one) v where "l = [v]"
    by (metis list.exhaust)
  then show ?thesis
  proof cases
    case longer
    then have q: "this_request s = Some a" "rq_next (request s a) = Some b" "chain (request s) (Some b) (b # l')"
      using assms(1) by (auto simp: hd_queue_def)
    obtain p where p: "find_place (request s) r b = Some p" "p \<in> set (b # l')"
        "chain (link_in (request s) p r) (Some b) (behind (request s) r (b # l'))"
      using find_place_behind [OF q(3), of r] assms(1,2) longer by (auto simp: hd_queue_def)
    have pr: "p \<noteq> r" "p \<noteq> a" "a \<noteq> r" using p(2) assms(1,2) longer by (auto simp: hd_queue_def)
    let ?rq = "link_in (request s) p r"
    have "rq_next (?rq a) = Some b" using pr q(2) by simp
    then have "chain ?rq (Some a) (elevator (request s) r l)"
      using p(3) longer by (simp del: fun_upd_apply behind.simps)
    moreover have "same_but_next (request s) ?rq"
    proof -
      have "\<exists>n. ?rq i = (request s i)\<lparr>rq_next := n\<rparr>" for i
        by (cases "i = p"; cases "i = r") (use same_link in \<open>auto intro: exI [of _ "rq_next (request s i)"]\<close>)
      then show ?thesis unfolding same_but_next_def by blast
    qed
    moreover have "add_request P r s = (let s' = s\<lparr>request := ?rq, this_request := Some a, sorting := False\<rparr> in
        if do_hd s = None then do_request P s' else Some s')"
      using assms(3) q(1,2) p(1) pr(1) by (simp add: keep_this [OF q(1)] add_request_def on_request_def Let_def)
    ultimately show ?thesis using d mset_elevator elevator_first_two
      by (intro exI [of _ ?rq] exI [of _ "Some a"] conjI) (simp_all add: hd_queue_def del: fun_upd_apply)
  next
    case none
    note l = none
    have "add_request P r s = (let s' = s\<lparr>request := request s, this_request := Some r, sorting := False\<rparr> in
        if do_hd s = None then do_request P s' else Some s')"
      using assms l by (simp add: add_request_def hd_queue_def Let_def)
    moreover have "\<exists>n. request s i = (request s i)\<lparr>rq_next := n\<rparr>" for i by (rule exI [of _ "rq_next (request s i)"]) simp
    ultimately show ?thesis using l assms
      by (intro exI [of _ "request s"] exI [of _ "Some r"] conjI) (simp_all add: hd_queue_def same_but_next_def)
  next
    case one
    note l = one
    let ?rq = "(request s)(v := (request s v)\<lparr>rq_next := Some r\<rparr>)"
    have v: "this_request s = Some v" "rq_next (request s v) = None" "r \<noteq> v" using l assms(1,2) by (auto simp: hd_queue_def)
    then have "add_request P r s = (let s' = s\<lparr>request := ?rq, this_request := Some v, sorting := False\<rparr> in
        if do_hd s = None then do_request P s' else Some s')"
      using assms(3) by (simp add: keep_this [OF v(1)] add_request_def on_request_def Let_def)
    moreover have "\<exists>n. ?rq i = (request s i)\<lparr>rq_next := n\<rparr>" for i
      by (cases "i = v") (use same_link in \<open>auto intro: exI [of _ "rq_next (request s i)"]\<close>)
    ultimately show ?thesis using l v assms(4)
      by (intro exI [of _ ?rq] exI [of _ "Some v"] conjI) (simp_all add: hd_queue_def same_but_next_def)
  qed
qed

section \<open>The controller and the drive\<close>

text \<open>
  What the driver relies on, as the ATA documents describe it: the task file registers, the two-sector commands, the data port,
  and a status that is ready, with DRQ while data are to be moved. \<open>drives P D\<close> says that the ports, seen through \<open>D\<close>,
  lead to such a drive with no errors.
\<close>

record ata =
  a_regs :: "u16 \<Rightarrow> byte"
  a_job :: "(rw \<times> nat \<times> nat) option"
  a_disk :: "nat \<Rightarrow> cbuf"

definition ata_sector :: "ata \<Rightarrow> nat" where
  "ata_sector a = chs_sector (unat (a_regs a 0x1f3)) (unat (a_regs a 0x1f6 AND 15)) (unat (a_regs a 0x1f4) + 256 * unat (a_regs a 0x1f5))"

definition ata_out :: "byte \<Rightarrow> u16 \<Rightarrow> ata \<Rightarrow> ata" where
  "ata_out v port a =
     (if port = HD_STATUS
      then if v = WIN_READ then a\<lparr>a_job := Some (READ, ata_sector a, unat (a_regs a 0x1f2))\<rparr>
        else if v = WIN_WRITE then a\<lparr>a_job := Some (WRITE, ata_sector a, unat (a_regs a 0x1f2))\<rparr>
        else a
      else if HD_ERROR \<le> port \<and> port < HD_STATUS then a\<lparr>a_regs := (a_regs a)(port := v)\<rparr>
      else a)"

definition ata_status :: "ata \<Rightarrow> byte" where
  "ata_status a = (if a_job a = None then 0x50 else 0x58)"

definition next_sector :: "rw \<Rightarrow> nat \<Rightarrow> nat \<Rightarrow> (rw \<times> nat \<times> nat) option" where
  "next_sector rw l n = (if n = 1 then None else Some (rw, Suc l, n - 1))"

definition ata_outsw :: "cbuf \<Rightarrow> ata \<Rightarrow> ata" where
  "ata_outsw d a = (case a_job a of Some (WRITE, l, n) \<Rightarrow> a\<lparr>a_disk := (a_disk a)(l := d), a_job := next_sector WRITE l n\<rparr> | _ \<Rightarrow> a)"

definition ata_insw :: "ata \<Rightarrow> cbuf \<times> ata" where
  "ata_insw a = (case a_job a of Some (READ, l, n) \<Rightarrow> (a_disk a l, a\<lparr>a_job := next_sector READ l n\<rparr>) | _ \<Rightarrow> (\<lambda>_. 0, a))"

definition drives :: "'h ports \<Rightarrow> ('h \<Rightarrow> ata) \<Rightarrow> bool" where
  "drives P D \<longleftrightarrow>
     (\<forall>h. (\<forall>v port. D (p_out P v port h) = ata_out v port (D h)) \<and>
          (\<forall>port. D (snd (p_in P port h)) = D h) \<and> fst (p_in P HD_STATUS h) = ata_status (D h) \<and>
          (\<forall>d. D (p_outsw P d h) = ata_outsw d (D h)) \<and>
          fst (p_insw P h) = fst (ata_insw (D h)) \<and> D (snd (p_insw P h)) = snd (ata_insw (D h)))"

lemma inb_status:
  assumes "drives P D"
  obtains h where "inb P HD_STATUS s = (ata_status (D (ctl s)), s\<lparr>ctl := h\<rparr>)" "D h = D (ctl s)"
proof
  show "inb P HD_STATUS s = (ata_status (D (ctl s)), s\<lparr>ctl := snd (p_in P HD_STATUS (ctl s))\<rparr>)"
    using assms by (simp add: inb_def drives_def split_beta)
  show "D (snd (p_in P HD_STATUS (ctl s))) = D (ctl s)" using assms by (simp add: drives_def)
qed

lemma ready_now:
  assumes "drives P D"
  obtains h where "controller_ready P s = (999, s\<lparr>ctl := h\<rparr>)" "D h = D (ctl s)"
proof -
  obtain h where h: "inb P HD_STATUS s = (ata_status (D (ctl s)), s\<lparr>ctl := h\<rparr>)" "D h = D (ctl s)" by (rule inb_status [OF assms])
  have "ready_loop P (Suc n) s = (Suc n, s\<lparr>ctl := h\<rparr>)" for n using h by (simp add: ata_status_def)
  from this [of 998] show thesis using that [of h] h(2) by (simp add: controller_ready_def)
qed

lemma result_ok:
  assumes "drives P D"
  obtains h where "win_result P s = (False, s\<lparr>ctl := h\<rparr>)" "D h = D (ctl s)"
proof -
  obtain h where "inb P HD_STATUS s = (ata_status (D (ctl s)), s\<lparr>ctl := h\<rparr>)" "D h = D (ctl s)" by (rule inb_status [OF assms])
  then show thesis using that by (cases "a_job (D (ctl s)) = None") (simp_all add: win_result_def ata_status_def)
qed

lemma interrupt_taken:
  assumes "drives P D"
  obtains g h where "eoi P s = s\<lparr>ctl := g\<rparr>" "win_result P (s\<lparr>ctl := g\<rparr>) = (False, s\<lparr>ctl := h\<rparr>)" "D h = D (ctl s)"
proof -
  define g where "g = p_out P 0x20 0xA0 (p_out P 0x20 0x20 (ctl s))"
  have "D g = D (ctl s)" using assms by (simp add: g_def drives_def ata_out_def)
  moreover obtain h where "win_result P (s\<lparr>ctl := g\<rparr>) = (False, s\<lparr>ctl := g, ctl := h\<rparr>)" "D h = D (ctl (s\<lparr>ctl := g\<rparr>))"
    by (rule result_ok [OF assms])
  moreover have "eoi P s = s\<lparr>ctl := g\<rparr>" by (simp add: eoi_def outb_def g_def)
  ultimately show thesis using that [of g h] by simp
qed

lemma drq_now:
  assumes "drives P D" and "a_job (D (ctl s)) \<noteq> None"
  obtains h where "drq_loop P 3000 s = (True, s\<lparr>ctl := h\<rparr>)" "D h = D (ctl s)"
proof -
  obtain h where h: "inb P HD_STATUS s = (ata_status (D (ctl s)), s\<lparr>ctl := h\<rparr>)" "D h = D (ctl s)" by (rule inb_status [OF assms(1)])
  have "drq_loop P (Suc n) s = (True, s\<lparr>ctl := h\<rparr>)" for n using h assms(2) by (simp add: ata_status_def bit_numeral_rec)
  from this [of 2999] show thesis using that [of h] h(2) by simp
qed

definition win_cmd :: "rw \<Rightarrow> byte" where
  "win_cmd rw = (case rw of READ \<Rightarrow> WIN_READ | WRITE \<Rightarrow> WIN_WRITE)"

lemma drive_head: "h < 16 \<Longrightarrow> (0xB0 OR push_bit 4 (of_int 0) OR of_int (int h)) AND (15 :: byte) = of_nat h"
proof -
  assume h: "h < 16"
  have m: "(15 :: byte) = mask 4" by (simp add: mask_eq_exp_minus_1)
  have "(0xB0 OR of_nat h) AND (15 :: byte) = (0xB0 AND 15) OR (of_nat h AND 15)" by (rule bit.conj_disj_distrib2)
  also have "of_nat h AND (15 :: byte) = of_nat h"
    unfolding m take_bit_eq_mask [symmetric] using h by (simp add: take_bit_of_nat take_bit_nat_eq_self)
  finally show ?thesis by simp
qed

lemma cylinder: "c < 65536 \<Longrightarrow> unat (of_int (int c) :: byte) + 256 * unat (of_int (int c div 256) :: byte) = c"
proof -
  assume c: "c < 65536"
  have "of_int (int c div 256) = (of_nat (c div 256) :: byte)" by (metis of_int_of_nat_eq of_nat_numeral zdiv_int)
  then show ?thesis using c by (simp add: unat_of_nat)
qed

lemma hd_out_starts:
  assumes "drives P D" and "sec < 256" and "head < 16" and "cyl < 65536"
  obtains h where "hd_out P 0 2 (int sec) (int head) (int cyl) (win_cmd rw) f s = Some (s\<lparr>do_hd := Some f, ctl := h\<rparr>)"
    "a_job (D h) = Some (rw, chs_sector sec head cyl, 2)" "a_disk (D h) = a_disk (D (ctl s))"
proof -
  obtain h where h: "controller_ready P s = (999, s\<lparr>ctl := h\<rparr>)" "D h = D (ctl s)" by (rule ready_now [OF assms(1)])
  define g where "g = p_out P 0 HD_CMD h"
  define g1 where "g1 = p_out P (- 1) 0x1f1 g"
  define g2 where "g2 = p_out P (of_int 2) 0x1f2 g1"
  define g3 where "g3 = p_out P (of_int (int sec)) 0x1f3 g2"
  define g4 where "g4 = p_out P (of_int (int cyl)) 0x1f4 g3"
  define g5 where "g5 = p_out P (of_int (int cyl div 256)) 0x1f5 g4"
  define g6 where "g6 = p_out P (0xB0 OR push_bit 4 (of_int 0) OR of_int (int head)) 0x1f6 g5"
  note gs = g_def g1_def g2_def g3_def g4_def g5_def g6_def
  have D: "D (p_out P v port x) = ata_out v port (D x)" for v port x using assms(1) by (simp add: drives_def)
  have g6: "a_regs (D g6) 0x1f2 = 2" "a_regs (D g6) 0x1f3 = of_nat sec" "a_regs (D g6) 0x1f4 = of_int (int cyl)"
    "a_regs (D g6) 0x1f5 = of_int (int cyl div 256)" "a_regs (D g6) 0x1f6 AND 15 = of_nat head" "a_disk (D g6) = a_disk (D (ctl s))"
    unfolding gs D h(2) using drive_head [OF assms(3)] by (simp_all add: ata_out_def)
  have "ata_sector (D g6) = chs_sector sec head cyl"
    using assms g6 cylinder [OF assms(4)] by (simp add: ata_sector_def unat_of_nat)
  then have "a_job (D (p_out P (win_cmd rw) 0x1f7 g6)) = Some (rw, chs_sector sec head cyl, 2)"
    "a_disk (D (p_out P (win_cmd rw) 0x1f7 g6)) = a_disk (D (ctl s))"
    unfolding D using g6 by (cases rw; simp add: ata_out_def win_cmd_def)+
  moreover have "hd_out P 0 2 (int sec) (int head) (int cyl) (win_cmd rw) f s =
      Some (s\<lparr>do_hd := Some f, ctl := p_out P (win_cmd rw) 0x1f7 g6\<rparr>)"
    using assms(3) h(1) by (simp add: hd_out_def outb_def gs Let_def)
  ultimately show thesis using that by blast
qed

section \<open>A transfer on an idle drive\<close>

definition hd_idle :: "'h hdrv \<Rightarrow> bool" where
  "hd_idle s \<longleftrightarrow> this_request s = None \<and> do_hd s = None \<and> \<not> sorting s \<and> (\<exists>i<NR_REQUEST. rq_hd (request s i) < 0)"

definition hd_entry :: "rw \<Rightarrow> nat \<Rightarrow> nat \<Rightarrow> nat \<Rightarrow> nat \<Rightarrow> int \<Rightarrow> hd_request" where
  "hd_entry rw sec head cyl bh n = \<lparr>rq_hd = 0, rq_nsector = n, rq_sector = int sec, rq_head = int head,
     rq_cyl = int cyl, rq_cmd = win_cmd rw, rq_errors = 0, rq_bh = bh, rq_next = None\<rparr>"

text \<open>The one request \<open>r\<close> is at work for buffer \<open>i\<close>, with \<open>n\<close> of its sectors still to come.\<close>

definition at_work :: "rw \<Rightarrow> nat \<Rightarrow> nat \<Rightarrow> nat \<Rightarrow> nat \<Rightarrow> nat \<Rightarrow> int \<Rightarrow> 'h hdrv \<Rightarrow> bool" where
  "at_work rw sec head cyl i r n s \<longleftrightarrow> this_request s = Some r \<and> r < NR_REQUEST \<and> \<not> sorting s \<and>
     do_hd s = Some (case rw of READ \<Rightarrow> Read_intr | WRITE \<Rightarrow> Write_intr) \<and> request s r = hd_entry rw sec head cyl i n"

lemma free_slot:
  assumes "hd_idle s"
  obtains r where "List.find (\<lambda>i. rq_hd (request s i) < 0) [0..<NR_REQUEST] = Some r" "r < NR_REQUEST"
proof (cases "List.find (\<lambda>i. rq_hd (request s i) < 0) [0..<NR_REQUEST]")
  case None
  then show ?thesis using assms by (auto simp: hd_idle_def find_None_iff)
next
  case (Some r)
  show ?thesis by (rule that [OF Some]) (use Some in \<open>auto simp: find_Some_iff\<close>)
qed

lemma post_read:
  assumes "drives P D" and "hd_idle s" and "sec < 256" and "head < 16" and "cyl < 65536"
  obtains r s' where "rw_abs_hd P READ 0 sec head cyl i s = Some s'" "at_work READ sec head cyl i r 2 s'" "bufs s' = bufs s"
    "a_job (D (ctl s')) = Some (READ, chs_sector sec head cyl, 2)" "a_disk (D (ctl s')) = a_disk (D (ctl s))"
proof -
  obtain r where r: "List.find (\<lambda>i. rq_hd (request s i) < 0) [0..<NR_REQUEST] = Some r" "r < NR_REQUEST" by (rule free_slot [OF assms(2)])
  define s1 where "s1 = s\<lparr>b_lock := (b_lock s)(i := True), request := (request s)(r := hd_entry READ sec head cyl i 2),
    this_request := Some r, sorting := False\<rparr>"
  obtain h where h: "hd_out P 0 2 (int sec) (int head) (int cyl) (win_cmd READ) Read_intr s1 = Some (s1\<lparr>do_hd := Some Read_intr, ctl := h\<rparr>)"
    "a_job (D h) = Some (READ, chs_sector sec head cyl, 2)" "a_disk (D h) = a_disk (D (ctl s1))"
    by (rule hd_out_starts [OF assms(1,3,4,5)])
  have "rw_abs_hd P READ 0 sec head cyl i s = do_request P s1"
    using assms(2) r(1) by (simp add: rw_abs_hd_def lock_buffer_def add_request_def on_request_def hd_idle_def s1_def hd_entry_def
        win_cmd_def Let_def)
  also have "\<dots> = Some (s1\<lparr>do_hd := Some Read_intr, ctl := h\<rparr>)"
    using h(1) by (simp add: do_request_def s1_def hd_entry_def win_cmd_def)
  finally show thesis using r(2) h(2,3) by (intro that [of "s1\<lparr>do_hd := Some Read_intr, ctl := h\<rparr>" r]) (simp_all add: at_work_def s1_def)
qed

lemma post_write:
  assumes "drives P D" and "hd_idle s" and "sec < 256" and "head < 16" and "cyl < 65536"
  obtains r s' where "rw_abs_hd P WRITE 0 sec head cyl i s = Some s'" "at_work WRITE sec head cyl i r 2 s'" "bufs s' = bufs s"
    "a_job (D (ctl s')) = Some (WRITE, Suc (chs_sector sec head cyl), 1)"
    "a_disk (D (ctl s')) = (a_disk (D (ctl s)))(chs_sector sec head cyl := b_data (bufs s i))"
proof -
  obtain r where r: "List.find (\<lambda>i. rq_hd (request s i) < 0) [0..<NR_REQUEST] = Some r" "r < NR_REQUEST" by (rule free_slot [OF assms(2)])
  define s1 where "s1 = s\<lparr>b_lock := (b_lock s)(i := True), request := (request s)(r := hd_entry WRITE sec head cyl i 2),
    this_request := Some r, sorting := False\<rparr>"
  obtain h where h: "hd_out P 0 2 (int sec) (int head) (int cyl) (win_cmd WRITE) Write_intr s1 = Some (s1\<lparr>do_hd := Some Write_intr, ctl := h\<rparr>)"
    "a_job (D h) = Some (WRITE, chs_sector sec head cyl, 2)" "a_disk (D h) = a_disk (D (ctl s1))"
    by (rule hd_out_starts [OF assms(1,3,4,5)])
  define s2 where "s2 = s1\<lparr>do_hd := Some Write_intr, ctl := h\<rparr>"
  obtain g where g: "drq_loop P 3000 s2 = (True, s2\<lparr>ctl := g\<rparr>)" "D g = D (ctl s2)"
    using drq_now [OF assms(1), of s2] h(2) by (auto simp: s2_def)
  have "rw_abs_hd P WRITE 0 sec head cyl i s = do_request P s1"
    using assms(2) r(1) by (simp add: rw_abs_hd_def lock_buffer_def add_request_def on_request_def hd_idle_def s1_def hd_entry_def
        win_cmd_def Let_def)
  also have "\<dots> = Some (port_write P i 0 (s2\<lparr>ctl := g\<rparr>))"
    using h(1) g(1) by (simp add: do_request_def s1_def s2_def hd_entry_def win_cmd_def)
  finally have e: "rw_abs_hd P WRITE 0 sec head cyl i s = Some (port_write P i 0 (s2\<lparr>ctl := g\<rparr>))" .
  have "D (p_outsw P d g) = ata_outsw d (D h)" for d using assms(1) g(2) by (simp add: drives_def s2_def)
  then show thesis using r(2) h(2,3) e
    by (intro that [of "port_write P i 0 (s2\<lparr>ctl := g\<rparr>)" r]) (simp_all add: at_work_def s1_def s2_def port_write_def ata_outsw_def next_sector_def)
qed

lemma finish_request:
  assumes "this_request s = Some r" and "request s r = e" and "rq_next e = None" and "rq_bh e = i" and "r < NR_REQUEST" and "\<not> sorting s"
  shows "\<exists>s'. end_request P r s = Some s' \<and> ctl s' = ctl s \<and> hd_idle s' \<and> \<not> b_lock s' i \<and>
    bufs s' = (bufs s)(i := (bufs s i)\<lparr>b_uptodate := 1, b_dirt := 0\<rparr>) \<and> Buffer_wait i \<in> set (wakes s')"
  using assms by (auto simp: end_request_def on_bh_def wake_def unlock_buffer_def next_request_def on_request_def do_request_def hd_idle_def
      Let_def intro: exI [of _ r])

lemma second_sector_written:
  assumes "drives P D" and "at_work WRITE sec head cyl i r 2 s" and "a_job (D (ctl s)) = Some (WRITE, l, 1)"
  shows "\<exists>s'. hd_interrupt P d s = Some s' \<and> at_work WRITE sec head cyl i r 1 s' \<and> bufs s' = bufs s \<and>
    a_disk (D (ctl s')) = (a_disk (D (ctl s)))(l := (\<lambda>x. b_data (bufs s i) (512 + x)))"
proof -
  obtain g h where h: "eoi P s = s\<lparr>ctl := g\<rparr>" "win_result P (s\<lparr>ctl := g\<rparr>) = (False, s\<lparr>ctl := h\<rparr>)" "D h = D (ctl s)"
    by (rule interrupt_taken [OF assms(1)])
  have "D (p_outsw P x h) = ata_outsw x (D h)" for x using assms(1) by (simp add: drives_def)
  then show ?thesis using h assms(2,3)
    by (simp add: hd_interrupt_def write_intr_def at_work_def on_request_def hd_entry_def port_write_def ata_outsw_def next_sector_def)
qed

lemma write_finished:
  assumes "drives P D" and "at_work WRITE sec head cyl i r 1 s"
  shows "\<exists>s'. hd_interrupt P d s = Some s' \<and> D (ctl s') = D (ctl s) \<and> hd_idle s' \<and> \<not> b_lock s' i \<and>
    bufs s' = (bufs s)(i := (bufs s i)\<lparr>b_uptodate := 1, b_dirt := 0\<rparr>) \<and> Buffer_wait i \<in> set (wakes s')"
proof -
  obtain g h where h: "eoi P s = s\<lparr>ctl := g\<rparr>" "win_result P (s\<lparr>ctl := g\<rparr>) = (False, s\<lparr>ctl := h\<rparr>)" "D h = D (ctl s)"
    by (rule interrupt_taken [OF assms(1)])
  let ?s = "on_request r (\<lambda>q. q\<lparr>rq_nsector := 0\<rparr>) (s\<lparr>ctl := h\<rparr>)"
  obtain s' where s': "end_request P r ?s = Some s'" "ctl s' = h" "hd_idle s'" "\<not> b_lock s' i"
      "bufs s' = (bufs s)(i := (bufs s i)\<lparr>b_uptodate := 1, b_dirt := 0\<rparr>)" "Buffer_wait i \<in> set (wakes s')"
    using finish_request [of ?s r "hd_entry WRITE sec head cyl i 0" i P] assms(2) by (auto simp: at_work_def on_request_def hd_entry_def)
  moreover have "hd_interrupt P d s = end_request P r ?s"
    using h assms(2) by (simp add: hd_interrupt_def write_intr_def at_work_def on_request_def hd_entry_def)
  ultimately show ?thesis using h(3) by auto
qed

text \<open>
  C21: A block that is written reaches the drive: on an idle drive \<^verbatim>\<open>rw_abs_hd\<close> and the two interrupts of the two sectors
  change the drive as the one step \<open>rw_abs_hd\<close> of the buffer cache does, leave the buffer clean and unlocked, wake its
  waiters and leave the drive idle.
\<close>

theorem write_reaches_drive:
  assumes "drives P D" and "hd_idle s" and "sec < 256" and "head < 16" and "cyl < 65536"
    and "bufs s = buf b" and "a_disk (D (ctl s)) = disk b 0" and "\<not> bad_block b 0 (chs_sector sec head cyl)"
  shows "\<exists>s'. do { s \<leftarrow> rw_abs_hd P WRITE 0 sec head cyl i s; s \<leftarrow> hd_interrupt P d s; hd_interrupt P d s } = Some s' \<and>
    a_disk (D (ctl s')) = disk (Buffer.rw_abs_hd WRITE 0 sec head cyl i b) 0 \<and>
    bufs s' = buf (Buffer.rw_abs_hd WRITE 0 sec head cyl i b) \<and>
    \<not> b_lock s' i \<and> Buffer_wait i \<in> set (wakes s') \<and> hd_idle s'"
proof -
  obtain r s1 where s1: "rw_abs_hd P WRITE 0 sec head cyl i s = Some s1" "at_work WRITE sec head cyl i r 2 s1" "bufs s1 = bufs s"
      "a_job (D (ctl s1)) = Some (WRITE, Suc (chs_sector sec head cyl), 1)"
      "a_disk (D (ctl s1)) = (a_disk (D (ctl s)))(chs_sector sec head cyl := b_data (bufs s i))"
    by (rule post_write [OF assms(1-5)])
  obtain s2 where s2: "hd_interrupt P d s1 = Some s2" "at_work WRITE sec head cyl i r 1 s2" "bufs s2 = bufs s1"
      "a_disk (D (ctl s2)) = (a_disk (D (ctl s1)))(Suc (chs_sector sec head cyl) := (\<lambda>x. b_data (bufs s1 i) (512 + x)))"
    using second_sector_written [OF assms(1) s1(2,4)] by blast
  obtain s3 where "hd_interrupt P d s2 = Some s3" "D (ctl s3) = D (ctl s2)" "hd_idle s3" "\<not> b_lock s3 i"
      "bufs s3 = (bufs s2)(i := (bufs s2 i)\<lparr>b_uptodate := 1, b_dirt := 0\<rparr>)" "Buffer_wait i \<in> set (wakes s3)"
    using write_finished [OF assms(1) s2(2)] by blast
  then show ?thesis using s1 s2 assms(6-8) by (simp add: Buffer.rw_abs_hd_def on_buf_def Let_def)
qed

lemma read_second:
  assumes "drives P D" and "at_work READ sec head cyl i r 1 s" and "a_job (D (ctl s)) = Some (READ, l, 1)"
  shows "\<exists>s'. hd_interrupt P d s = Some s' \<and> at_work READ sec head cyl i r 1 s' \<and> D (ctl s') = (D (ctl s))\<lparr>a_job := None\<rparr> \<and>
    bufs s' = (bufs s)(i := (bufs s i)\<lparr>b_data := (\<lambda>x. if 512 \<le> x \<and> x < 1024 then a_disk (D (ctl s)) l (x - 512) else b_data (bufs s i) x)\<rparr>)"
proof -
  obtain g h where h: "eoi P s = s\<lparr>ctl := g\<rparr>" "win_result P (s\<lparr>ctl := g\<rparr>) = (False, s\<lparr>ctl := h\<rparr>)" "D h = D (ctl s)"
    by (rule interrupt_taken [OF assms(1)])
  have "fst (p_insw P h) = a_disk (D (ctl s)) l" "D (snd (p_insw P h)) = (D (ctl s))\<lparr>a_job := None\<rparr>"
    using assms(1,3) h(3) by (simp_all add: drives_def ata_insw_def next_sector_def)
  then show ?thesis using h assms(2,3)
    by (simp add: hd_interrupt_def read_intr_def at_work_def hd_entry_def port_read_def on_bh_def split_beta cong: if_cong)
qed

text \<open>The first interrupt of a read: what comes after the transfer of the first sector.\<close>

lemma read_first:
  assumes "drives P D" and "at_work READ sec head cyl i r 2 s" and "a_job (D (ctl s)) = Some (READ, l, 2)"
  shows "\<exists>s'. at_work READ sec head cyl i r 1 s' \<and> D (ctl s') = (D (ctl s))\<lparr>a_job := Some (READ, Suc l, 1)\<rparr> \<and>
    bufs s' = (bufs s)(i := (bufs s i)\<lparr>b_data := (\<lambda>x. if x < 512 then a_disk (D (ctl s)) l x else b_data (bufs s i) x)\<rparr>) \<and>
    (\<forall>d s''. d s' = Some s'' \<longrightarrow> at_work READ sec head cyl i r 1 s'' \<longrightarrow>
      (\<exists>t. hd_interrupt P d s = Some t \<and> ctl t = ctl s'' \<and> hd_idle t \<and> \<not> b_lock t i \<and>
        bufs t = (bufs s'')(i := (bufs s'' i)\<lparr>b_uptodate := 1, b_dirt := 0\<rparr>) \<and> Buffer_wait i \<in> set (wakes t)))"
proof -
  obtain g h where h: "eoi P s = s\<lparr>ctl := g\<rparr>" "win_result P (s\<lparr>ctl := g\<rparr>) = (False, s\<lparr>ctl := h\<rparr>)" "D h = D (ctl s)"
    by (rule interrupt_taken [OF assms(1)])
  define s' where "s' = port_read P i 0 (on_request r (\<lambda>q. q\<lparr>rq_nsector := 1\<rparr>) (s\<lparr>ctl := h\<rparr>))"
  have "fst (p_insw P h) = a_disk (D (ctl s)) l" "D (snd (p_insw P h)) = (D (ctl s))\<lparr>a_job := Some (READ, Suc l, 1)\<rparr>"
    using assms(1,3) h(3) by (simp_all add: drives_def ata_insw_def next_sector_def)
  then have "at_work READ sec head cyl i r 1 s'" "D (ctl s') = (D (ctl s))\<lparr>a_job := Some (READ, Suc l, 1)\<rparr>"
    "bufs s' = (bufs s)(i := (bufs s i)\<lparr>b_data := (\<lambda>x. if x < 512 then a_disk (D (ctl s)) l x else b_data (bufs s i) x)\<rparr>)"
    using assms(2) by (simp_all add: s'_def at_work_def hd_entry_def port_read_def on_bh_def on_request_def split_beta cong: if_cong)
  moreover have "\<exists>t. hd_interrupt P d s = Some t \<and> ctl t = ctl s'' \<and> hd_idle t \<and> \<not> b_lock t i \<and>
      bufs t = (bufs s'')(i := (bufs s'' i)\<lparr>b_uptodate := 1, b_dirt := 0\<rparr>) \<and> Buffer_wait i \<in> set (wakes t)"
    if d: "d s' = Some s''" "at_work READ sec head cyl i r 1 s''" for d s''
  proof -
    have e: "hd_interrupt P d s = end_request P r (on_request r (\<lambda>q. q\<lparr>rq_errors := 0\<rparr>) s'')"
      using h assms(2) d by (simp add: hd_interrupt_def read_intr_def at_work_def hd_entry_def s'_def)
    show ?thesis unfolding e
      using finish_request [of "on_request r (\<lambda>q. q\<lparr>rq_errors := 0\<rparr>) s''" r "hd_entry READ sec head cyl i 1" i P] d(2)
      by (simp add: at_work_def on_request_def hd_entry_def)
  qed
  ultimately show ?thesis by blast
qed

text \<open>
  A block that is read is whole only when the second interrupt comes within the handler of the first. On an idle
  drive, \<^verbatim>\<open>rw_abs_hd\<close> and an interrupt that the second one interrupts give the buffer that the one step \<open>rw_abs_hd\<close> of the
  buffer cache gives. When the second interrupt comes later, the buffer has been marked up to date and unlocked with its
  second half as it was, and that interrupt is a panic.
\<close>

theorem read_needs_nesting:
  assumes "drives P D" and "hd_idle s" and "sec < 256" and "head < 16" and "cyl < 65536"
    and "bufs s = buf b" and "a_disk (D (ctl s)) = disk b 0" and "\<not> bad_block b 0 (chs_sector sec head cyl)"
  shows "(\<exists>s'. do { s \<leftarrow> rw_abs_hd P READ 0 sec head cyl i s; hd_interrupt P (hd_interrupt P d) s } = Some s' \<and>
      bufs s' = buf (Buffer.rw_abs_hd READ 0 sec head cyl i b) \<and> \<not> b_lock s' i \<and> hd_idle s' \<and> a_job (D (ctl s')) = None) \<and>
    (\<exists>s'. do { s \<leftarrow> rw_abs_hd P READ 0 sec head cyl i s; hd_interrupt P Some s } = Some s' \<and>
      b_uptodate (bufs s' i) = 1 \<and> \<not> b_lock s' i \<and> b_data (bufs s' i) 512 = b_data (buf b i) 512 \<and> hd_interrupt P d s' = None)"
proof -
  let ?l = "chs_sector sec head cyl"
  obtain r s1 where s1: "rw_abs_hd P READ 0 sec head cyl i s = Some s1" "at_work READ sec head cyl i r 2 s1" "bufs s1 = bufs s"
      "a_job (D (ctl s1)) = Some (READ, ?l, 2)" "a_disk (D (ctl s1)) = a_disk (D (ctl s))"
    by (rule post_read [OF assms(1-5)])
  obtain s2 where s2: "at_work READ sec head cyl i r 1 s2" "D (ctl s2) = (D (ctl s1))\<lparr>a_job := Some (READ, Suc ?l, 1)\<rparr>"
      "bufs s2 = (bufs s1)(i := (bufs s1 i)\<lparr>b_data := (\<lambda>x. if x < 512 then a_disk (D (ctl s1)) ?l x else b_data (bufs s1 i) x)\<rparr>)"
      "\<And>d s''. d s2 = Some s'' \<Longrightarrow> at_work READ sec head cyl i r 1 s'' \<Longrightarrow>
        \<exists>t. hd_interrupt P d s1 = Some t \<and> ctl t = ctl s'' \<and> hd_idle t \<and> \<not> b_lock t i \<and>
          bufs t = (bufs s'')(i := (bufs s'' i)\<lparr>b_uptodate := 1, b_dirt := 0\<rparr>) \<and> Buffer_wait i \<in> set (wakes t)"
    using read_first [OF assms(1) s1(2,4)] by blast
  have "a_job (D (ctl s2)) = Some (READ, Suc ?l, 1)" using s2(2) by simp
  then obtain s3 where s3: "hd_interrupt P d s2 = Some s3" "at_work READ sec head cyl i r 1 s3" "D (ctl s3) = (D (ctl s2))\<lparr>a_job := None\<rparr>"
      "bufs s3 = (bufs s2)(i := (bufs s2 i)\<lparr>b_data := (\<lambda>x. if 512 \<le> x \<and> x < 1024 then a_disk (D (ctl s2)) (Suc ?l) (x - 512) else b_data (bufs s2 i) x)\<rparr>)"
    using read_second [OF assms(1) s2(1)] by blast
  obtain t where "hd_interrupt P (hd_interrupt P d) s1 = Some t" "ctl t = ctl s3" "hd_idle t" "\<not> b_lock t i"
      "bufs t = (bufs s3)(i := (bufs s3 i)\<lparr>b_uptodate := 1, b_dirt := 0\<rparr>)"
    using s2(4) [of "hd_interrupt P d", OF s3(1,2)] by blast
  moreover obtain u where "hd_interrupt P Some s1 = Some u" "ctl u = ctl s2" "hd_idle u" "\<not> b_lock u i"
      "bufs u = (bufs s2)(i := (bufs s2 i)\<lparr>b_uptodate := 1, b_dirt := 0\<rparr>)"
    using s2(4) [of Some, OF refl s2(1)] by blast
  ultimately show ?thesis using s1 s2(1-3) s3 assms(6-8)
    by (auto simp: Buffer.rw_abs_hd_def on_buf_def Let_def fun_eq_iff hd_interrupt_def eoi_def outb_def hd_idle_def unexpected_hd_interrupt_def)
qed

section \<open>Concrete runs\<close>

text \<open>The drive itself as the hardware, and the driver as \<^verbatim>\<open>hd_init\<close> leaves it.\<close>

definition ata_ports :: "ata ports" where
  "ata_ports = \<lparr>p_in = (\<lambda>port h. (if port = HD_STATUS then ata_status h else 0, h)), p_out = ata_out, p_insw = ata_insw, p_outsw = ata_outsw\<rparr>"

lemma ata_drives: "drives ata_ports id"
  by (simp add: drives_def ata_ports_def)

definition hd_start :: "bcache \<Rightarrow> ata hdrv" where
  "hd_start b = hd_init ata_ports
     \<lparr>request = (\<lambda>_. hd_entry READ 0 0 0 0 0), this_request = None, sorting = False, do_hd = None, b_lock = (\<lambda>_. False),
      bufs = buf b, parts = hd_part b, wakes = [], ctl = \<lparr>a_regs = (\<lambda>_. 0), a_job = None, a_disk = disk b 0\<rparr>\<rparr>"

lemma hd_start_ok: "hd_idle (hd_start b)" "bufs (hd_start b) = buf b" "a_disk (id (ctl (hd_start b))) = disk b 0"
  by (auto simp: hd_start_def hd_init_def hd_idle_def inb_def outb_def ata_ports_def ata_out_def Let_def intro: exI [of _ 0])

text \<open>A cache whose drive has a different value in each of its first sectors and whose buffers hold 7.\<close>

definition seven_cache :: bcache where
  "seven_cache = \<lparr>nr_buffers = 1, buf = (\<lambda>_. \<lparr>b_data = (\<lambda>_. 7), b_dev = 0, b_blocknr = 0, b_uptodate = 0, b_dirt = 1, b_count = 1\<rparr>),
     hash_queue = (\<lambda>_. []), free_list = [0], hd_part = (\<lambda>_. \<lparr>start_sect = 0, nr_sects = 100\<rparr>), disk = (\<lambda>_ l _. of_nat l),
     bad_block = (\<lambda>_ _. False)\<rparr>"

theorem add_request_elevator_witness:
  "\<exists>rq t. add_request ata_ports 0 ((hd_start seven_cache)\<lparr>request := (\<lambda>_. hd_entry READ 1 0 0 0 2)\<rparr>) =
      do_request ata_ports ((hd_start seven_cache)\<lparr>request := rq, this_request := t, sorting := False\<rparr>) \<and>
    hd_queue ((hd_start seven_cache)\<lparr>request := rq, this_request := t\<rparr>) [0]"
  using add_request_elevator [of "(hd_start seven_cache)\<lparr>request := (\<lambda>_. hd_entry READ 1 0 0 0 2)\<rparr>" "[]" 0 ata_ports]
    hd_start_ok(1) [of seven_cache] by (auto simp: hd_queue_def hd_idle_def hd_entry_def Let_def)

theorem write_reaches_drive_witness:
  "\<exists>s'. do { s \<leftarrow> rw_abs_hd ata_ports WRITE 0 3 0 0 0 (hd_start seven_cache); s \<leftarrow> hd_interrupt ata_ports Some s;
       hd_interrupt ata_ports Some s } = Some s' \<and> a_disk (ctl s') 2 0 = 7 \<and> a_disk (ctl s') 3 0 = 7 \<and> a_disk (ctl s') 4 0 = 4"
proof -
  have "\<not> bad_block seven_cache 0 (chs_sector 3 0 0)" by (simp add: seven_cache_def)
  from write_reaches_drive [OF ata_drives hd_start_ok(1) _ _ _ hd_start_ok(2,3) this, of 0 Some]
  show ?thesis by (auto simp: Buffer.rw_abs_hd_def seven_cache_def chs_sector_def on_buf_def)
qed

theorem read_needs_nesting_witness:
  "\<exists>s'. do { s \<leftarrow> rw_abs_hd ata_ports READ 0 3 0 0 0 (hd_start seven_cache); hd_interrupt ata_ports Some s } = Some s' \<and>
    b_uptodate (bufs s' 0) = 1 \<and> b_data (bufs s' 0) 512 = 7"
proof -
  have "\<not> bad_block seven_cache 0 (chs_sector 3 0 0)" by (simp add: seven_cache_def)
  from read_needs_nesting [OF ata_drives hd_start_ok(1) _ _ _ hd_start_ok(2,3) this, of 0 Some]
  show ?thesis by (auto simp: seven_cache_def)
qed

end
