(* ===== verification/TtyQueue.thy ===== *)
theory TtyQueue
  imports Prelude
begin

text \<open>
  The character queues of \<^verbatim>\<open>include/linux/tty.h\<close>, the terminal settings of \<^verbatim>\<open>termios.h\<close>, and the
  law every bounded ring of this kernel obeys: the terminal queues here and the pipes of theory
  Pipe are two instances of one interface.
\<close>

section \<open>The queues\<close>

abbreviation TTY_BUF_SIZE :: nat where "TTY_BUF_SIZE \<equiv> 1024"

record tty_queue =
  q_data :: u32
  q_head :: u32
  q_tail :: u32
  q_proc_list :: "nat option"
  q_buf :: cbuf

definition INC :: "u32 \<Rightarrow> u32" where
  "INC a = (a + 1) AND 1023"

definition DEC :: "u32 \<Rightarrow> u32" where
  "DEC a = (a - 1) AND 1023"

definition EMPTY :: "tty_queue \<Rightarrow> bool" where
  "EMPTY q \<longleftrightarrow> q_head q = q_tail q"

definition LEFT :: "tty_queue \<Rightarrow> u32" where
  "LEFT q = (q_tail q - q_head q - 1) AND 1023"

definition LAST :: "tty_queue \<Rightarrow> byte" where
  "LAST q = q_buf q (unat (1023 AND (q_head q - 1)))"

definition FULL :: "tty_queue \<Rightarrow> bool" where
  "FULL q \<longleftrightarrow> LEFT q = 0"

definition CHARS :: "tty_queue \<Rightarrow> u32" where
  "CHARS q = (q_head q - q_tail q) AND 1023"

definition GETCH :: "tty_queue \<Rightarrow> byte \<times> tty_queue" where
  "GETCH q = (q_buf q (unat (q_tail q)), q\<lparr>q_tail := INC (q_tail q)\<rparr>)"

definition PUTCH :: "byte \<Rightarrow> tty_queue \<Rightarrow> tty_queue" where
  "PUTCH c q = q\<lparr>q_buf := (q_buf q)(unat (q_head q) := c), q_head := INC (q_head q)\<rparr>"

definition drop_last :: "tty_queue \<Rightarrow> tty_queue" where
  "drop_last q = q\<lparr>q_head := DEC (q_head q)\<rparr>"

text \<open>\<^verbatim>\<open>flush\<close> of \<^verbatim>\<open>fs/tty_ioctl.c\<close>.\<close>

definition flush :: "tty_queue \<Rightarrow> tty_queue" where
  "flush q = q\<lparr>q_head := q_tail q\<rparr>"

section \<open>Terminals\<close>

record termios =
  c_iflag :: u32
  c_oflag :: u32
  c_cflag :: u32
  c_lflag :: u32
  c_line :: byte
  c_cc :: cbuf

text \<open>The \<^verbatim>\<open>write\<close> routine of a terminal is that of the console or that of the serial lines.\<close>

datatype tty_writer = Con_write | Rs_write

record tty_struct =
  termios :: termios
  pgrp :: int
  stopped :: int
  writer :: tty_writer
  read_q :: tty_queue
  write_q :: tty_queue
  secondary :: tty_queue
  settings :: u32

text \<open>\<^verbatim>\<open>INIT_C_CC\<close> and the three entries of \<^verbatim>\<open>tty_table\<close>.\<close>

definition INIT_C_CC :: "byte list" where
  "INIT_C_CC = [3, 28, 127, 21, 4, 0, 1, 0, 17, 19, 25, 0, 18, 15, 23, 22, 0]"

definition empty_queue :: "u32 \<Rightarrow> tty_queue" where
  "empty_queue d = \<lparr>q_data = d, q_head = 0, q_tail = 0, q_proc_list = None, q_buf = (\<lambda>_. 0)\<rparr>"

definition init_tty :: "nat \<Rightarrow> tty_struct" where
  "init_tty n =
     (let cc = (\<lambda>i. if i < length INIT_C_CC then INIT_C_CC ! i else 0) in
      if n = 0
      then \<lparr>termios = \<lparr>c_iflag = 0, c_oflag = 5, c_cflag = 0, c_lflag = 0xa0a, c_line = 0, c_cc = cc\<rparr>,
            pgrp = 0, stopped = 0, writer = Con_write, read_q = empty_queue 0, write_q = empty_queue 0,
            secondary = empty_queue 0, settings = 1\<rparr>
      else let port = (if n = 1 then 0x3f8 else 0x2f8) in
           \<lparr>termios = \<lparr>c_iflag = 0, c_oflag = 33, c_cflag = 59, c_lflag = 0, c_line = 0, c_cc = cc\<rparr>,
            pgrp = 0, stopped = 0, writer = Rs_write, read_q = empty_queue port, write_q = empty_queue port,
            secondary = empty_queue 0, settings = 0\<rparr>)"

section \<open>The law of a bounded ring\<close>

text \<open>
  A ring holds the list \<open>items\<close>, at most \<open>cap\<close> long: \<open>put\<close> appends while there is room, \<open>get\<close> takes
  from the front. Whatever a client puts in comes out once, in order.
\<close>

locale ring =
  fixes ok :: "'q \<Rightarrow> bool" and items :: "'q \<Rightarrow> 'a list" and cap :: nat
    and put :: "'a \<Rightarrow> 'q \<Rightarrow> 'q" and get :: "'q \<Rightarrow> 'a \<times> 'q"
  assumes put_items: "ok q \<Longrightarrow> length (items q) < cap \<Longrightarrow> items (put x q) = items q @ [x] \<and> ok (put x q)"
    and get_items: "ok q \<Longrightarrow> items q \<noteq> [] \<Longrightarrow>
      fst (get q) = hd (items q) \<and> items (snd (get q)) = tl (items q) \<and> ok (snd (get q))"
begin

primrec put_all :: "'a list \<Rightarrow> 'q \<Rightarrow> 'q" where
  "put_all [] q = q"
| "put_all (x # xs) q = put_all xs (put x q)"

primrec get_many :: "nat \<Rightarrow> 'q \<Rightarrow> 'a list \<times> 'q" where
  "get_many 0 q = ([], q)"
| "get_many (Suc n) q = (let (x, q) = get q; (xs, q) = get_many n q in (x # xs, q))"

lemma put_all_items:
  "ok q \<Longrightarrow> length (items q) + length xs \<le> cap \<Longrightarrow> items (put_all xs q) = items q @ xs \<and> ok (put_all xs q)"
proof (induction xs arbitrary: q)
  case (Cons x xs)
  then have "items (put x q) = items q @ [x]" "ok (put x q)" using put_items [of q x] by simp_all
  then show ?case using Cons.IH [of "put x q"] Cons.prems(2) by simp
qed simp

lemma get_many_items:
  "ok q \<Longrightarrow> n \<le> length (items q) \<Longrightarrow>
    fst (get_many n q) = take n (items q) \<and> items (snd (get_many n q)) = drop n (items q) \<and> ok (snd (get_many n q))"
proof (induction n arbitrary: q)
  case (Suc n)
  obtain x q1 where g: "get q = (x, q1)" by fastforce
  have ne: "items q \<noteq> []" using Suc.prems(2) by auto
  have q1: "x = hd (items q)" "items q1 = tl (items q)" "ok q1" using get_items [OF Suc.prems(1) ne] g by simp_all
  have "n \<le> length (items q1)" using Suc.prems(2) q1(2) by simp
  note IH = Suc.IH [OF q1(3) this]
  obtain xs q2 where r: "get_many n q1 = (xs, q2)" by fastforce
  show ?case using IH ne by (cases "items q") (auto simp: g r q1)
qed simp

text \<open>Everything put into an empty ring comes out in order.\<close>

lemma fifo:
  assumes "ok q" and "items q = []" and "length xs \<le> cap"
  shows "fst (get_many (length xs) (put_all xs q)) = xs"
  using put_all_items [of q xs] get_many_items [of "put_all xs q" "length xs"] assms by simp

end

section \<open>Terminal queues are rings\<close>

lemma and_1023: "unat (a AND 1023 :: u32) = unat a mod 1024"
proof -
  have "a AND 1023 = take_bit 10 a" by (simp add: take_bit_eq_mask mask_eq_exp_minus_1)
  then show ?thesis by (simp add: unsigned_take_bit_eq take_bit_eq_mod unat_mod)
qed

text \<open>The distance between two positions of the ring.\<close>

lemma unat_diff_1024:
  fixes a b :: u32
  assumes "unat a < 1024" and "unat b \<le> 1024"
  shows "unat (a - b) mod 1024 = (unat a + 1024 - unat b) mod 1024"
proof (cases "unat b \<le> unat a")
  case True
  then have "unat (a - b) = unat a - unat b" by (simp add: unat_sub word_le_nat_alt)
  moreover have "(unat a + 1024 - unat b) mod 1024 = (unat a - unat b + 1024) mod 1024" using True by simp
  ultimately show ?thesis by simp
next
  case False
  then have "unat (a - b) = unat a + 4294967296 - unat b"
    by (simp add: unat_sub_if_size word_le_nat_alt word_size)
  also have "\<dots> = unat a + 1024 - unat b + 4194303 * 1024" using assms by simp
  also have "\<dots> mod 1024 = (unat a + 1024 - unat b) mod 1024" by (rule mod_mult_self1)
  finally show ?thesis .
qed

definition queue_ok :: "tty_queue \<Rightarrow> bool" where
  "queue_ok q \<longleftrightarrow> unat (q_head q) < 1024 \<and> unat (q_tail q) < 1024"

definition chars_in :: "tty_queue \<Rightarrow> nat" where
  "chars_in q = (unat (q_head q) + 1024 - unat (q_tail q)) mod 1024"

definition queue_chars :: "tty_queue \<Rightarrow> byte list" where
  "queue_chars q = map (\<lambda>i. q_buf q ((unat (q_tail q) + i) mod 1024)) [0..<chars_in q]"

lemma unat_INC: "unat a < 1024 \<Longrightarrow> unat (INC a) = (unat a + 1) mod 1024"
  unfolding INC_def and_1023 by (simp add: unat_word_ariths)

lemma unat_DEC: "unat a < 1024 \<Longrightarrow> unat (DEC a) = (unat a + 1023) mod 1024"
proof -
  assume a: "unat a < 1024"
  show ?thesis
  proof (cases "a = 0")
    case True
    then show ?thesis by (simp add: DEC_def)
  next
    case False
    then have "unat (a - 1) = unat a - 1" by (simp add: unat_minus_one)
    moreover have "0 < unat a" using False by (simp add: unat_gt_0)
    ultimately show ?thesis using a unfolding DEC_def and_1023 by (simp add: mod_if)
  qed
qed

lemma CHARS_chars_in: "queue_ok q \<Longrightarrow> unat (CHARS q) = chars_in q"
  unfolding CHARS_def and_1023 chars_in_def queue_ok_def by (simp only: unat_diff_1024 less_imp_le)

lemma chars_in_less: "chars_in q < 1024"
  by (simp add: chars_in_def)

lemma LEFT_chars_in:
  assumes "queue_ok q"
  shows "unat (LEFT q) = 1023 - chars_in q"
proof -
  let ?h = "unat (q_head q)" and ?t = "unat (q_tail q)"
  have h: "?h < 1024" "?t < 1024" using assms by (simp_all add: queue_ok_def)
  have h1: "unat (q_head q + 1) = ?h + 1" using h by (simp add: unat_word_ariths)
  have "LEFT q = (q_tail q - (q_head q + 1)) AND 1023" by (simp add: LEFT_def algebra_simps)
  then have "unat (LEFT q) = unat (q_tail q - (q_head q + 1)) mod 1024" by (simp only: and_1023)
  also have "\<dots> = (?t + 1024 - (?h + 1)) mod 1024" using h h1 by (subst unat_diff_1024) simp_all
  also have "\<dots> = 1023 - chars_in q"
  proof (cases "?t \<le> ?h")
    case True
    then have "chars_in q = ?h - ?t" using h by (simp add: chars_in_def mod_if)
    moreover have "?t + 1024 - (?h + 1) < 1024" using True by linarith
    ultimately show ?thesis using True by simp
  next
    case False
    then have c: "chars_in q = ?h + 1024 - ?t" using h by (simp add: chars_in_def)
    have e: "?t + 1024 - (?h + 1) = (?t - (?h + 1)) + 1024" using False by linarith
    have "?t - (?h + 1) < 1024" using h by linarith
    then have "(?t + 1024 - (?h + 1)) mod 1024 = ?t - (?h + 1)" by (simp only: e mod_add_self2 mod_less)
    with c show ?thesis using False h by linarith
  qed
  finally show ?thesis .
qed

lemma FULL_chars_in: "queue_ok q \<Longrightarrow> FULL q \<longleftrightarrow> chars_in q = 1023"
  using LEFT_chars_in [of q] chars_in_less [of q] by (auto simp add: FULL_def unat_eq_0 [symmetric] simp del: unat_eq_0)

lemma EMPTY_chars_in: "queue_ok q \<Longrightarrow> EMPTY q \<longleftrightarrow> chars_in q = 0"
proof -
  assume q: "queue_ok q"
  have "EMPTY q \<longleftrightarrow> unat (q_head q) = unat (q_tail q)" by (simp add: EMPTY_def word_unat_eq_iff)
  then show ?thesis using q by (auto simp: chars_in_def queue_ok_def mod_if split: if_splits)
qed

lemma length_queue_chars [simp]: "length (queue_chars q) = chars_in q"
  by (simp add: queue_chars_def)

lemma queue_ok_ops [simp]:
  "queue_ok q \<Longrightarrow> queue_ok (PUTCH c q)" "queue_ok q \<Longrightarrow> queue_ok (snd (GETCH q))"
  "queue_ok q \<Longrightarrow> queue_ok (drop_last q)" "queue_ok q \<Longrightarrow> queue_ok (flush q)" "queue_ok (empty_queue d)"
  by (simp_all add: queue_ok_def PUTCH_def GETCH_def drop_last_def flush_def empty_queue_def unat_INC unat_DEC)

lemma queue_chars_PUTCH:
  assumes "queue_ok q" and "chars_in q < 1023"
  shows "queue_chars (PUTCH c q) = queue_chars q @ [c]"
proof -
  let ?h = "unat (q_head q)" and ?t = "unat (q_tail q)" and ?n = "chars_in q"
  have h: "?h < 1024" "?t < 1024" using assms(1) by (simp_all add: queue_ok_def)
  have pos: "(?t + ?n) mod 1024 = ?h" using h by (auto simp: chars_in_def mod_if)
  have "chars_in (PUTCH c q) = Suc ?n"
    using h assms(2) by (auto simp: chars_in_def PUTCH_def unat_INC mod_if split: if_splits)
  moreover have "(?t + i) mod 1024 \<noteq> ?h" if "i < ?n" for i
  proof
    assume "(?t + i) mod 1024 = ?h"
    then have "(?t + i) mod 1024 = (?t + ?n) mod 1024" using pos by simp
    moreover have "i < 1024" "?n < 1024" using that assms(2) by simp_all
    ultimately show False using that h by (auto simp: mod_if split: if_splits)
  qed
  ultimately show ?thesis
    by (auto simp: queue_chars_def PUTCH_def pos upt_Suc)
qed

lemma queue_chars_GETCH:
  assumes "queue_ok q" and "queue_chars q \<noteq> []"
  shows "fst (GETCH q) = hd (queue_chars q)" "queue_chars (snd (GETCH q)) = tl (queue_chars q)"
proof -
  let ?h = "unat (q_head q)" and ?t = "unat (q_tail q)" and ?n = "chars_in q"
  have h: "?h < 1024" "?t < 1024" using assms(1) by (simp_all add: queue_ok_def)
  obtain m where n: "?n = Suc m" using assms(2) by (cases ?n) (simp_all add: queue_chars_def)
  show "fst (GETCH q) = hd (queue_chars q)"
    using h n by (simp add: queue_chars_def GETCH_def upt_conv_Cons del: upt_Suc)
  have "chars_in (snd (GETCH q)) = m"
    using h n by (auto simp: chars_in_def GETCH_def unat_INC mod_if split: if_splits)
  moreover have "((?t + 1) mod 1024 + i) mod 1024 = (?t + Suc i) mod 1024" for i by (simp add: mod_simps)
  ultimately show "queue_chars (snd (GETCH q)) = tl (queue_chars q)"
    using h n by (simp add: queue_chars_def GETCH_def unat_INC upt_conv_Cons map_tl [symmetric] tl_upt
        map_Suc_upt [symmetric] del: upt_Suc)
qed

interpretation tq: ring queue_ok queue_chars 1023 PUTCH GETCH
  by standard (auto simp: queue_chars_PUTCH queue_chars_GETCH)

end
