(* ===== verification/Console.thy ===== *)
theory Console
  imports TtyQueue
begin

text \<open>
  The screen side of \<^verbatim>\<open>kernel/console.c\<close>: cursor movement, scrolling, erasing, the escape-sequence
  machine of \<^verbatim>\<open>con_write\<close>, and the clipboard tool drawn over the screen. (The loop of \<^verbatim>\<open>con_write\<close> over the queue is in
  theory Tty, the file explorer, which reads directories, in theory Explorer.)

  Video memory is a map from byte addresses to 16-bit cells at even addresses; a \<^verbatim>\<open>rep stosw\<close> or
  \<^verbatim>\<open>rep movsl\<close> is the cell-wise loop it stands for (one \<^verbatim>\<open>movsl\<close> moves two cells).
\<close>

section \<open>State\<close>

abbreviation SCREEN_START :: u32 where "SCREEN_START \<equiv> 0xb8000"
abbreviation SCREEN_END :: u32 where "SCREEN_END \<equiv> 0xc0000"
abbreviation LINES :: u32 where "LINES \<equiv> 25"
abbreviation COLUMNS :: u32 where "COLUMNS \<equiv> 80"
abbreviation NPAR :: nat where "NPAR \<equiv> 16"
abbreviation TOOL_WIDTH :: nat where "TOOL_WIDTH \<equiv> 22"
abbreviation TOOL_HEIGHT :: nat where "TOOL_HEIGHT \<equiv> 12"
abbreviation blank :: u16 where "blank \<equiv> 0x0720"

record console =
  vram :: "u32 \<Rightarrow> u16"
  crtc :: "nat \<Rightarrow> byte"
  origin :: u32
  scr_end :: u32
  pos :: u32
  cx :: u32
  cy :: u32
  top :: u32
  bottom :: u32
  cstate :: nat
  npar :: nat
  par :: "nat \<Rightarrow> u32"
  ques :: u32
  attr :: byte
  saved_x :: u32
  saved_y :: u32
  scrupt_state_flag :: int
  selected_row_index :: int
  cursor_row :: u16
  cursor_col :: u16
  clipboard :: "nat \<Rightarrow> cbuf"
  current_dir_path :: cbuf
  current_dir_len :: int
  ls_files :: "nat \<Rightarrow> nat \<Rightarrow> u16"
  children_inodes :: "nat \<Rightarrow> u16"
  is_dir :: "nat \<Rightarrow> byte"
  init_flag :: byte

section \<open>Video memory\<close>

primrec vfill :: "nat \<Rightarrow> u32 \<Rightarrow> u16 \<Rightarrow> (u32 \<Rightarrow> u16) \<Rightarrow> u32 \<Rightarrow> u16" where
  "vfill 0 a v m = m"
| "vfill (Suc n) a v m = vfill n (a + 2) v (m(a := v))"

primrec vfill_down :: "nat \<Rightarrow> u32 \<Rightarrow> u16 \<Rightarrow> (u32 \<Rightarrow> u16) \<Rightarrow> u32 \<Rightarrow> u16" where
  "vfill_down 0 a v m = m"
| "vfill_down (Suc n) a v m = vfill_down n (a - 2) v (m(a := v))"

primrec vcopy :: "nat \<Rightarrow> u32 \<Rightarrow> u32 \<Rightarrow> (u32 \<Rightarrow> u16) \<Rightarrow> u32 \<Rightarrow> u16" where
  "vcopy 0 src dst m = m"
| "vcopy (Suc n) src dst m = vcopy n (src + 2) (dst + 2) (m(dst := m src))"

primrec vcopy_down :: "nat \<Rightarrow> u32 \<Rightarrow> u32 \<Rightarrow> (u32 \<Rightarrow> u16) \<Rightarrow> u32 \<Rightarrow> u16" where
  "vcopy_down 0 src dst m = m"
| "vcopy_down (Suc n) src dst m = vcopy_down n (src - 2) (dst - 2) (m(dst := m src))"

definition poke :: "u32 \<Rightarrow> u16 \<Rightarrow> console \<Rightarrow> console" where
  "poke a v c = c\<lparr>vram := (vram c)(a := v)\<rparr>"

text \<open>The low or high byte of a character becomes a cell by sign extension, as in C.\<close>

definition cell :: "u16 \<Rightarrow> byte \<Rightarrow> u16" where
  "cell color ch = color OR scast ch"

section \<open>The tools drawn over the screen\<close>

text \<open>Where the tool window starts, and cell \<open>i\<close> from an address on.\<close>

definition tool_vmpos :: "console \<Rightarrow> u32" where
  "tool_vmpos c = origin c + 2 * (80 - 22)"

definition cells :: "u32 \<Rightarrow> nat \<Rightarrow> u32" where
  "cells a i = a + 2 * of_nat i"

text \<open>The first row: the title between hashes; \<open>path\<close> is \<^verbatim>\<open>" [ title ] "\<close>.\<close>

definition border_row :: "byte list \<Rightarrow> nat \<Rightarrow> byte" where
  "border_row path k =
     (let from = (22 - int (length path)) sdiv 2 in
      if from \<le> int k \<and> int k < from + int (length path) then path ! nat (int k - from) else 35)"

primrec draw_first :: "nat list \<Rightarrow> u16 \<Rightarrow> byte list \<Rightarrow> console \<Rightarrow> console" where
  "draw_first [] color path c = c"
| "draw_first (k # ks) color path c =
     draw_first ks color path (poke (cells (tool_vmpos c) k) (cell color (border_row path k)) c)"

definition draw_body_row :: "u16 \<Rightarrow> nat \<Rightarrow> console \<Rightarrow> console" where
  "draw_body_row color row c =
     (let i = cells (tool_vmpos c) (80 * row) in
      poke (cells i 21) (color OR 35) (c\<lparr>vram := vfill 20 (cells i 1) 0x20 ((vram c)(i := color OR 35))\<rparr>))"

primrec draw_body :: "nat list \<Rightarrow> u16 \<Rightarrow> console \<Rightarrow> console" where
  "draw_body [] color c = c"
| "draw_body (r # rs) color c = draw_body rs color (draw_body_row color r c)"

definition draw_last :: "u16 \<Rightarrow> console \<Rightarrow> console" where
  "draw_last color c = c\<lparr>vram := vfill 22 (cells (tool_vmpos c) (80 * TOOL_HEIGHT)) (color OR 35) (vram c)\<rparr>"

definition CLIPBOARD :: "byte list" where
  "CLIPBOARD = [67, 76, 73, 80, 66, 79, 65, 82, 68]"

text \<open>The title is copied into \<^verbatim>\<open>char path[25]\<close> between \<^verbatim>\<open>" [ "\<close> and \<^verbatim>\<open>" ] "\<close>.\<close>

definition render_border :: "byte list \<Rightarrow> console \<Rightarrow> console option" where
  "render_border title c =
     (let path = [32, 91, 32] @ title @ [32, 93, 32];
          color = (if title = CLIPBOARD then 0x0100 else 0x0300) in
      if 25 \<le> length path then overrun ''path''
      else Some (draw_last color (draw_body [1..<TOOL_HEIGHT] color (draw_first [0..<TOOL_WIDTH] color path c))))"

definition dir_path :: "console \<Rightarrow> byte list option" where
  "dir_path c = map_option (\<lambda>n. bytes_of 0 n (current_dir_path c)) (strlen_in 22 (current_dir_path c))"

definition render_path :: "console \<Rightarrow> console option" where
  "render_path c = do { t \<leftarrow> dir_path c; render_border t c }"

text \<open>\<^verbatim>\<open>short_len\<close>: -1 for the empty name, the number of cells in front of the zero otherwise.\<close>

definition short_len :: "(nat \<Rightarrow> u16) \<Rightarrow> int option" where
  "short_len str =
     (if (ucast (str 0) :: byte) = 0 then Some (- 1)
      else case List.find (\<lambda>i. (ucast (str i) :: byte) = 0) [0..<16] of
        None \<Rightarrow> overrun ''ls_files'' | Some n \<Rightarrow> Some (int n))"

definition entry_vmpos :: "console \<Rightarrow> nat \<Rightarrow> u32" where
  "entry_vmpos c index = origin c + 160 * (of_nat index + 2) - 44 + 2"

primrec draw_entry :: "nat list \<Rightarrow> (nat \<Rightarrow> u16) \<Rightarrow> int \<Rightarrow> u32 \<Rightarrow> console \<Rightarrow> console" where
  "draw_entry [] name len vm c = c"
| "draw_entry (i # is) name len vm c =
     (let from = (22 - len) sdiv 2 in
      draw_entry is name len vm
        (if from \<le> int i \<and> int i < (22 + len) sdiv 2 then poke (cells vm i) (name (nat (int i - from))) c else c))"

definition print_entry :: "(nat \<Rightarrow> u16) \<Rightarrow> nat \<Rightarrow> console \<Rightarrow> console option" where
  "print_entry name index c =
     do { len \<leftarrow> short_len name;
          Some (draw_entry [0..<20] name len (entry_vmpos c index) c) }"

primrec render_entries :: "nat list \<Rightarrow> console \<Rightarrow> console option" where
  "render_entries [] c = Some c"
| "render_entries (i # is) c = do { c \<leftarrow> print_entry (ls_files c i) i c; render_entries is c }"

definition render_ls :: "console \<Rightarrow> console option" where
  "render_ls c = render_entries [0..<10] c"

primrec draw_chars :: "byte list \<Rightarrow> u32 \<Rightarrow> console \<Rightarrow> console" where
  "draw_chars [] vm c = c"
| "draw_chars (ch # s) vm c = draw_chars s (vm + 2) (poke vm (cell 0x0700 ch) c)"

definition clip_line :: "console \<Rightarrow> nat \<Rightarrow> byte list option" where
  "clip_line c i = map_option (\<lambda>n. bytes_of 0 n (clipboard c i)) (strlen_in 20 (clipboard c i))"

primrec draw_clips :: "nat list \<Rightarrow> console \<Rightarrow> console option" where
  "draw_clips [] c = Some c"
| "draw_clips (i # is) c =
     do { s \<leftarrow> clip_line c i;
          draw_clips is (draw_chars s (origin c + 320 - 44 + 2 + 160 * of_nat i) c) }"

definition print_clipboard :: "console \<Rightarrow> console option" where
  "print_clipboard c = draw_clips [0..<10] c"

definition clear_cliboard :: "console \<Rightarrow> console" where
  "clear_cliboard c = c\<lparr>clipboard := (\<lambda>i. if i < 10 then (clipboard c i)(0 := 0) else clipboard c i)\<rparr>"

definition get_currsor_vm_pos :: "console \<Rightarrow> u32" where
  "get_currsor_vm_pos c = origin c + 160 * (scast (cursor_row c) + 2) - 44 + scast (cursor_col c) * 2 + 2"

text \<open>The cell with its colour replaced, the character sign-extended.\<close>

definition recolor :: "u16 \<Rightarrow> u32 \<Rightarrow> console \<Rightarrow> console" where
  "recolor color a c = poke a (cell color (ucast (vram c a))) c"

definition move_cursor_col :: "u16 \<Rightarrow> console \<Rightarrow> console" where
  "move_cursor_col d c =
     (let vm = get_currsor_vm_pos c;
          c = recolor 0 vm c;
          c = c\<lparr>cursor_col := cursor_col c + d\<rparr>;
          vm = vm + 2 * scast d
      in if 0 <s d then recolor 0x7000 vm c
         else if d <s 0 then poke vm (cell 0x7000 32) c else c)"

definition print_to_clb :: "byte \<Rightarrow> console \<Rightarrow> console option" where
  "print_to_clb ch c =
     (if selected_row_index c < 0 \<or> 10 \<le> selected_row_index c then overrun ''clipboard''
      else let r = nat (selected_row_index c) in
      if ch = 127 then
        do { s \<leftarrow> clip_line c r;
             if s = [] then Some c
             else print_clipboard (move_cursor_col (- 1)
               (c\<lparr>clipboard := (clipboard c)(r := (clipboard c r)(length s - 1 := 0))\<rparr>)) }
      else if 19 < sint (cursor_col c) + 1 then Some c
      else do { s \<leftarrow> clip_line c r;
                if 20 \<le> length s + 1 then overrun ''clipboard''
                else print_clipboard (move_cursor_col 1
                  (c\<lparr>clipboard := (clipboard c)(r := store_str (s @ [ch]) (clipboard c r))\<rparr>)) })"

definition put_arrows :: "u16 \<Rightarrow> u16 \<Rightarrow> console \<Rightarrow> console" where
  "put_arrows l r c =
     (let vm = origin c + 160 * (of_int (selected_row_index c) + 2) - 44 + 2 in poke (vm + 2 * 19) r (poke vm l c))"

text \<open>The cursor moves to the end of row \<open>r\<close> of the clipboard.\<close>

definition go_clip_row :: "int \<Rightarrow> console \<Rightarrow> console option" where
  "go_clip_row r c =
     (let c = (recolor 0 (get_currsor_vm_pos c) c)\<lparr>selected_row_index := r, cursor_row := of_int r\<rparr> in
      do { s \<leftarrow> (if r < 0 then overrun ''clipboard'' else clip_line c (nat r));
           let c = c\<lparr>cursor_col := of_nat (length s)\<rparr>;
           Some (recolor 0x7000 (get_currsor_vm_pos c) c) })"

definition arrow_down_handle :: "int \<Rightarrow> console \<Rightarrow> console option" where
  "arrow_down_handle f2_flag c =
     (if f2_flag = 1 then
        let c = put_arrows 0x20 0x20 c in
        if current_dir_len c = 0 then overrun ''division by zero''
        else Some (put_arrows 0x23e 0x23c
               (c\<lparr>selected_row_index := (selected_row_index c + 1) smod current_dir_len c\<rparr>))
      else if f2_flag = 2 then go_clip_row ((selected_row_index c + 1) smod 10) c
      else Some c)"

definition arrow_up_handle :: "int \<Rightarrow> console \<Rightarrow> console option" where
  "arrow_up_handle f2_flag c =
     (if f2_flag = 1 then
        let c = put_arrows 0x20 0x20 c; r = selected_row_index c - 1 in
        Some (put_arrows 0x23e 0x23c (c\<lparr>selected_row_index := (if r < 0 then current_dir_len c - 1 else r)\<rparr>))
      else if f2_flag = 2 then
        go_clip_row (if selected_row_index c - 1 < 0 then 9 else selected_row_index c - 1) c
      else Some c)"

section \<open>The screen\<close>

definition gotoxy :: "u32 \<Rightarrow> u32 \<Rightarrow> console \<Rightarrow> console" where
  "gotoxy new_x new_y c =
     (if COLUMNS \<le> new_x \<or> LINES \<le> new_y then c
      else c\<lparr>cx := new_x, cy := new_y, pos := origin c + push_bit 1 (new_y * COLUMNS + new_x)\<rparr>)"

text \<open>Two registers of the video controller get a 16-bit cell number.\<close>

definition set_crtc :: "nat \<Rightarrow> u32 \<Rightarrow> console \<Rightarrow> console" where
  "set_crtc r a c = c\<lparr>crtc := (crtc c)(r := ucast (drop_bit 9 (a - SCREEN_START)),
     Suc r := ucast (drop_bit 1 (a - SCREEN_START)))\<rparr>"

definition set_origin :: "console \<Rightarrow> console" where
  "set_origin c = set_crtc 12 (origin c) c"

definition set_cursor :: "console \<Rightarrow> console" where
  "set_cursor c = set_crtc 14 (pos c) c"

text \<open>The redrawing at the end of \<^verbatim>\<open>scrup\<close>.\<close>

definition redraw_tool :: "console \<Rightarrow> console option" where
  "redraw_tool c =
     (if scrupt_state_flag c = 1 then do { c \<leftarrow> render_path c; render_ls c }
      else if scrupt_state_flag c = 2 then do { c \<leftarrow> render_border CLIPBOARD c; print_clipboard c }
      else Some c)"

definition scroll_region :: "console \<Rightarrow> console" where
  "scroll_region c =
     (let n = 2 * unat (drop_bit 1 ((bottom c - top c - 1) * COLUMNS));
          dst = origin c + push_bit 1 COLUMNS * top c;
          src = origin c + push_bit 1 COLUMNS * (top c + 1)
      in c\<lparr>vram := vfill 80 (dst + 2 * of_nat n) blank (vcopy n src dst (vram c))\<rparr>)"

definition scroll_origin :: "console \<Rightarrow> console" where
  "scroll_origin c =
     (let c = c\<lparr>origin := origin c + 160, pos := pos c + 160, scr_end := scr_end c + 160\<rparr> in
      if SCREEN_END < scr_end c then
        let n = 2 * unat (drop_bit 1 ((LINES - 1) * COLUMNS)) in
        c\<lparr>vram := vfill 80 (SCREEN_START + 2 * of_nat n) blank (vcopy n (origin c) SCREEN_START (vram c)),
          scr_end := scr_end c - (origin c - SCREEN_START), pos := pos c - (origin c - SCREEN_START),
          origin := SCREEN_START\<rparr>
      else c\<lparr>vram := vfill 80 (scr_end c - 160) blank (vram c)\<rparr>)"

definition scrup :: "console \<Rightarrow> console option" where
  "scrup c = redraw_tool (if top c = 0 \<and> bottom c = LINES then set_origin (scroll_origin c) else scroll_region c)"

definition scrdown :: "console \<Rightarrow> console" where
  "scrdown c =
     (let n = 2 * unat (drop_bit 1 ((bottom c - top c - 1) * COLUMNS));
          dst = origin c + push_bit 1 COLUMNS * bottom c - 4;
          src = origin c + push_bit 1 COLUMNS * (bottom c - 1) - 4
      in c\<lparr>vram := vfill_down 80 (dst - 2 * of_nat n + 2) blank (vcopy_down n (src + 2) (dst + 2) (vram c))\<rparr>)"

definition lf :: "console \<Rightarrow> console option" where
  "lf c = (if cy c + 1 < bottom c then Some (c\<lparr>cy := cy c + 1, pos := pos c + 160\<rparr>) else scrup c)"

definition ri :: "console \<Rightarrow> console" where
  "ri c = (if top c < cy c then c\<lparr>cy := cy c - 1, pos := pos c - 160\<rparr> else scrdown c)"

definition cr :: "console \<Rightarrow> console" where
  "cr c = c\<lparr>pos := pos c - push_bit 1 (cx c), cx := 0\<rparr>"

definition del :: "console \<Rightarrow> console" where
  "del c = (if cx c \<noteq> 0 then poke (pos c - 2) blank (c\<lparr>pos := pos c - 2, cx := cx c - 1\<rparr>) else c)"

definition erase :: "u32 \<Rightarrow> u32 \<Rightarrow> console \<Rightarrow> console" where
  "erase count start c = c\<lparr>vram := vfill (unat count) start blank (vram c)\<rparr>"

definition csi_J :: "u32 \<Rightarrow> console \<Rightarrow> console" where
  "csi_J p c =
     (if p = 0 then erase (drop_bit 1 (scr_end c - pos c)) (pos c) c
      else if p = 1 then erase (drop_bit 1 (pos c - origin c)) (origin c) c
      else if p = 2 then erase (COLUMNS * LINES) (origin c) c else c)"

definition csi_K :: "u32 \<Rightarrow> console \<Rightarrow> console" where
  "csi_K p c =
     (if p = 0 then (if COLUMNS \<le> cx c then c else erase (COLUMNS - cx c) (pos c) c)
      else if p = 1 then erase (if cx c < COLUMNS then cx c else COLUMNS) (pos c - push_bit 1 (cx c)) c
      else if p = 2 then erase COLUMNS (pos c - push_bit 1 (cx c)) c else c)"

definition set_attr :: "u32 \<Rightarrow> byte \<Rightarrow> byte" where
  "set_attr p a = (if p = 0 then 7 else if p = 1 then 15 else if p = 4 then 15 else if p = 7 then 0x70
     else if p = 27 then 7 else a)"

definition csi_m :: "console \<Rightarrow> console" where
  "csi_m c = c\<lparr>attr := foldl (\<lambda>a i. set_attr (par c i) a) (attr c) [0..<Suc (npar c)]\<rparr>"

text \<open>The cells from the cursor on move one to the right; the last falls off the line.\<close>

primrec shift_right :: "nat \<Rightarrow> u32 \<Rightarrow> u16 \<Rightarrow> (u32 \<Rightarrow> u16) \<Rightarrow> u32 \<Rightarrow> u16" where
  "shift_right 0 p old m = m"
| "shift_right (Suc n) p old m = shift_right n (p + 2) (m p) (m(p := old))"

primrec shift_left :: "nat \<Rightarrow> u32 \<Rightarrow> (u32 \<Rightarrow> u16) \<Rightarrow> u32 \<Rightarrow> u16" where
  "shift_left 0 p m = m(p := blank)"
| "shift_left (Suc n) p m = shift_left n (p + 2) (m(p := m (p + 2)))"

definition insert_char :: "console \<Rightarrow> console" where
  "insert_char c = c\<lparr>vram := shift_right (80 - unat (cx c)) (pos c) blank (vram c)\<rparr>"

definition delete_char :: "console \<Rightarrow> console" where
  "delete_char c = (if COLUMNS \<le> cx c then c else c\<lparr>vram := shift_left (79 - unat (cx c)) (pos c) (vram c)\<rparr>)"

definition insert_line :: "console \<Rightarrow> console" where
  "insert_line c = (scrdown (c\<lparr>top := cy c, bottom := LINES\<rparr>))\<lparr>top := top c, bottom := bottom c\<rparr>"

definition delete_line :: "console \<Rightarrow> console option" where
  "delete_line c = map_option (\<lambda>d. d\<lparr>top := top c, bottom := bottom c\<rparr>) (scrup (c\<lparr>top := cy c, bottom := LINES\<rparr>))"

text \<open>The repeat count of a sequence: the \<^verbatim>\<open>int\<close> argument is compared unsigned.\<close>

definition repeats :: "u32 \<Rightarrow> u32 \<Rightarrow> nat" where
  "repeats limit nr = unat (if limit < nr then limit else if nr = 0 then 1 else nr)"

primrec repeat :: "nat \<Rightarrow> (console \<Rightarrow> console option) \<Rightarrow> console \<Rightarrow> console option" where
  "repeat 0 f c = Some c"
| "repeat (Suc n) f c = do { c \<leftarrow> f c; repeat n f c }"

definition csi_at :: "u32 \<Rightarrow> console \<Rightarrow> console option" where
  "csi_at nr c = repeat (repeats COLUMNS nr) (\<lambda>c. Some (insert_char c)) c"

definition csi_L :: "u32 \<Rightarrow> console \<Rightarrow> console option" where
  "csi_L nr c = repeat (repeats LINES nr) (\<lambda>c. Some (insert_line c)) c"

definition csi_P :: "u32 \<Rightarrow> console \<Rightarrow> console option" where
  "csi_P nr c = repeat (repeats COLUMNS nr) (\<lambda>c. Some (delete_char c)) c"

definition csi_M :: "u32 \<Rightarrow> console \<Rightarrow> console option" where
  "csi_M nr c = repeat (repeats LINES nr) delete_line c"

definition save_cur :: "console \<Rightarrow> console" where
  "save_cur c = c\<lparr>saved_x := cx c, saved_y := cy c\<rparr>"

definition restore_cur :: "console \<Rightarrow> console" where
  "restore_cur c = c\<lparr>cx := saved_x c, cy := saved_y c,
     pos := origin c + push_bit 1 (saved_y c * COLUMNS + saved_x c)\<rparr>"

section \<open>The escape-sequence machine\<close>

text \<open>State 0 of \<^verbatim>\<open>con_write\<close>; \<open>vis\<close> is the visibility flag and \<open>era\<close> the erase character of the terminal.\<close>

definition wrap_line :: "console \<Rightarrow> console option" where
  "wrap_line c = lf (c\<lparr>cx := cx c - 80, pos := pos c - 160\<rparr>)"

definition put_char :: "byte \<Rightarrow> console \<Rightarrow> console" where
  "put_char ch c = (poke (pos c) (push_bit 8 (ucast (attr c)) OR ucast ch) c)\<lparr>pos := pos c + 2, cx := cx c + 1\<rparr>"

definition tab :: "console \<Rightarrow> console option" where
  "tab c =
     (let n = 8 - (cx c AND 7); c = c\<lparr>cx := cx c + n, pos := pos c + push_bit 1 n\<rparr> in
      if COLUMNS < cx c then wrap_line c else Some c)"

definition con_plain :: "bool \<Rightarrow> byte \<Rightarrow> byte \<Rightarrow> console \<Rightarrow> console option" where
  "con_plain vis era ch c =
     (if 31 <s ch \<and> ch <s 127 \<and> vis then
        do { c \<leftarrow> (if COLUMNS \<le> cx c then wrap_line c else Some c); Some (put_char ch c) }
      else if ch = 27 then Some (c\<lparr>cstate := 1\<rparr>)
      else if ch = 10 \<or> ch = 11 \<or> ch = 12 then lf c
      else if ch = 13 then Some (cr c)
      else if sint ch = uint era then Some (del c)
      else if ch = 8 then Some (if cx c \<noteq> 0 then c\<lparr>cx := cx c - 1, pos := pos c - 2\<rparr> else c)
      else if ch = 9 then tab c
      else Some c)"

text \<open>State 1. The flag asks for the answer of \<^verbatim>\<open>respond\<close>. Note \<^verbatim>\<open>x=='7'\<close> and \<^verbatim>\<open>x=='8'\<close>: the column is compared.\<close>

definition con_escape :: "byte \<Rightarrow> console \<Rightarrow> (bool \<times> console) option" where
  "con_escape ch c =
     (let c = c\<lparr>cstate := 0\<rparr> in
      if ch = 91 then Some (False, c\<lparr>cstate := 2\<rparr>)
      else if ch = 69 then Some (False, gotoxy 0 (cy c + 1) c)
      else if ch = 77 then Some (False, ri c)
      else if ch = 68 then do { c \<leftarrow> lf c; Some (False, c) }
      else if ch = 90 then Some (True, c)
      else if cx c = 55 then Some (False, save_cur c)
      else if cx c = 56 then Some (False, restore_cur c)
      else Some (False, c))"

definition dec_par :: "nat \<Rightarrow> console \<Rightarrow> console" where
  "dec_par i c = (if par c i \<noteq> 0 then c\<lparr>par := (par c)(i := par c i - 1)\<rparr> else c)"

definition inc_par :: "nat \<Rightarrow> console \<Rightarrow> console" where
  "inc_par i c = (if par c i = 0 then c\<lparr>par := (par c)(i := par c i + 1)\<rparr> else c)"

text \<open>The sequence \<^verbatim>\<open>r\<close> sets the scroll region.\<close>

definition set_region :: "console \<Rightarrow> console" where
  "set_region c =
     (let c = dec_par 0 c; c = (if par c 1 = 0 then c\<lparr>par := (par c)(1 := LINES)\<rparr> else c) in
      if par c 0 < par c 1 \<and> par c 1 \<le> LINES then c\<lparr>top := par c 0, bottom := par c 1\<rparr> else c)"

definition con_final :: "byte \<Rightarrow> console \<Rightarrow> console option" where
  "con_final ch c =
     (let c = c\<lparr>cstate := 0\<rparr>; up = inc_par 0 c; down = dec_par 0 c in
      if ch = 71 \<or> ch = 96 then Some (gotoxy (par down 0) (cy down) down)
      else if ch = 65 then Some (gotoxy (cx up) (cy up - par up 0) up)
      else if ch = 66 \<or> ch = 101 then Some (gotoxy (cx up) (cy up + par up 0) up)
      else if ch = 67 \<or> ch = 97 then Some (gotoxy (cx up + par up 0) (cy up) up)
      else if ch = 68 then Some (gotoxy (cx up - par up 0) (cy up) up)
      else if ch = 69 then Some (gotoxy 0 (cy up + par up 0) up)
      else if ch = 70 then Some (gotoxy 0 (cy up - par up 0) up)
      else if ch = 100 then Some (gotoxy (cx down) (par down 0) down)
      else if ch = 72 \<or> ch = 102 then (let c = dec_par 1 down in Some (gotoxy (par c 1) (par c 0) c))
      else if ch = 74 then Some (csi_J (par c 0) c)
      else if ch = 75 then Some (csi_K (par c 0) c)
      else if ch = 76 then csi_L (par c 0) c
      else if ch = 77 then csi_M (par c 0) c
      else if ch = 80 then csi_P (par c 0) c
      else if ch = 64 then csi_at (par c 0) c
      else if ch = 109 then Some (csi_m c)
      else if ch = 114 then Some (set_region c)
      else if ch = 115 then Some (save_cur c)
      else if ch = 117 then Some (restore_cur c)
      else Some c)"

definition con_param :: "byte \<Rightarrow> console \<Rightarrow> console option" where
  "con_param ch c =
     (if ch = 59 \<and> npar c < NPAR - 1 then Some (c\<lparr>npar := npar c + 1\<rparr>)
      else if 48 \<le>s ch \<and> ch \<le>s 57
      then Some (c\<lparr>par := (par c)(npar c := 10 * par c (npar c) + scast ch - 48)\<rparr>)
      else con_final ch (c\<lparr>cstate := 4\<rparr>))"

definition con_bracket :: "byte \<Rightarrow> console \<Rightarrow> console option" where
  "con_bracket ch c =
     (let c = c\<lparr>par := (\<lambda>i. if i < NPAR then 0 else par c i), npar := 0, cstate := 3,
                ques := (if ch = 63 then 1 else 0)\<rparr> in
      if ch = 63 then Some c else con_param ch c)"

definition con_char :: "bool \<Rightarrow> byte \<Rightarrow> byte \<Rightarrow> console \<Rightarrow> (bool \<times> console) option" where
  "con_char vis era ch c =
     (if cstate c = 0 then map_option (Pair False) (con_plain vis era ch c)
      else if cstate c = 1 then con_escape ch c
      else if cstate c = 2 then map_option (Pair False) (con_bracket ch c)
      else if cstate c = 3 then map_option (Pair False) (con_param ch c)
      else if cstate c = 4 then map_option (Pair False) (con_final ch c)
      else Some (False, c))"

text \<open>\<^verbatim>\<open>con_init\<close>, with the cursor position the boot code left at 0x90000+510; the rest of it programs interrupts.\<close>

definition con_init :: "byte \<Rightarrow> byte \<Rightarrow> console \<Rightarrow> console" where
  "con_init bx by c = gotoxy (ucast bx) (ucast by)
     (clear_cliboard (c\<lparr>current_dir_path := store_str [47] (current_dir_path c)\<rparr>))"

text \<open>The initial values of the static variables.\<close>

definition console0 :: console where
  "console0 = \<lparr>vram = (\<lambda>_. 0), crtc = (\<lambda>_. 0), origin = SCREEN_START, scr_end = SCREEN_START + LINES * COLUMNS * 2,
     pos = 0, cx = 0, cy = 0, top = 0, bottom = LINES, cstate = 0, npar = 0, par = (\<lambda>_. 0), ques = 0, attr = 7,
     saved_x = 0, saved_y = 0, scrupt_state_flag = 0, selected_row_index = 0, cursor_row = 0, cursor_col = 0,
     clipboard = (\<lambda>_ _. 0), current_dir_path = (\<lambda>_. 0), current_dir_len = 0, ls_files = (\<lambda>_ _. 0),
     children_inodes = (\<lambda>_. 0), is_dir = (\<lambda>_. 0), init_flag = 0\<rparr>"

section \<open>Video memory, cell by cell\<close>

text \<open>Cell \<open>i\<close> counted from an address; the addresses of cells do not wrap round.\<close>

definition at :: "u32 \<Rightarrow> nat \<Rightarrow> u32" where
  "at a i = a + 2 * of_nat i"

lemma at_simps [simp]: "at a 0 = a" "at a i + 2 = at a (Suc i)" "at a (Suc i) - 2 = at a i"
  by (simp_all add: at_def algebra_simps)

lemma at_at: "at (at a i) j = at a (i + j)"
  by (simp add: at_def algebra_simps)

lemma at_inj: "i < 2147483648 \<Longrightarrow> j < 2147483648 \<Longrightarrow> at a i = at a j \<longleftrightarrow> i = j"
proof -
  assume ij: "i < 2147483648" "j < 2147483648"
  have "at a i = at a j \<longleftrightarrow> (of_nat (2 * i) :: u32) = of_nat (2 * j)" by (simp add: at_def)
  also have "\<dots> \<longleftrightarrow> 2 * i = 2 * j"
  proof
    assume "(of_nat (2 * i) :: u32) = of_nat (2 * j)"
    then have "unat (of_nat (2 * i) :: u32) = unat (of_nat (2 * j) :: u32)" by simp
    moreover have "unat (of_nat (2 * i) :: u32) = 2 * i" "unat (of_nat (2 * j) :: u32) = 2 * j"
      using ij by (intro unat_of_nat_small; simp)+
    ultimately show "2 * i = 2 * j" by simp
  qed simp
  finally show ?thesis by simp
qed

lemma vfill_at: "i < 2147483648 \<Longrightarrow> d + n \<le> 2147483648 \<Longrightarrow>
    vfill n (at a d) v m (at a i) = (if d \<le> i \<and> i < d + n then v else m (at a i))"
proof (induction n arbitrary: d m)
  case (Suc n)
  have "vfill (Suc n) (at a d) v m (at a i) = vfill n (at a (Suc d)) v (m(at a d := v)) (at a i)" by simp
  also have "\<dots> = (if Suc d \<le> i \<and> i < Suc d + n then v else (m(at a d := v)) (at a i))"
    using Suc.prems by (intro Suc.IH) simp_all
  also have "\<dots> = (if d \<le> i \<and> i < d + Suc n then v else m (at a i))"
    using Suc.prems at_inj [of i d a] by auto
  finally show ?case .
qed auto

lemma vfill_other: "(\<And>i. i < n \<Longrightarrow> p \<noteq> at a i) \<Longrightarrow> vfill n a v m p = m p"
proof (induction n arbitrary: a m)
  case (Suc n)
  have "p \<noteq> at (at a 1) i" if "i < n" for i
    using Suc.prems [of "Suc i"] that by (simp add: at_at)
  then have "vfill n (at a 1) v (m(a := v)) p = (m(a := v)) p" by (rule Suc.IH)
  then show ?case using Suc.prems [of 0] by (simp add: at_def)
qed simp

lemma vfill_Suc: "vfill (Suc n) a v m = (vfill n a v m)(at a n := v)"
proof (induction n arbitrary: a m)
  case (Suc n)
  have "vfill (Suc (Suc n)) a v m = vfill (Suc n) (at a 1) v (m(a := v))" by (simp add: at_def)
  also have "\<dots> = (vfill n (at a 1) v (m(a := v)))(at (at a 1) n := v)" by (rule Suc.IH)
  also have "vfill n (at a 1) v (m(a := v)) = vfill (Suc n) a v m" by (simp add: at_def)
  finally show ?case by (simp add: at_at)
qed simp

lemma vfill_fill: "vfill n a v (m(p := v)) = (vfill n a v m)(p := v)"
proof (induction n arbitrary: a m)
  case (Suc n)
  show ?case
  proof (cases "p = a")
    case True
    show ?thesis by (simp only: vfill.simps True [symmetric] fun_upd_upd Suc.IH)
  next
    case False
    then have "m(p := v, a := v) = m(a := v, p := v)" by (rule fun_upd_twist)
    then show ?thesis by (simp only: vfill.simps Suc.IH)
  qed
qed simp

lemma vfill_down_vfill: "vfill_down n (at a (d + n)) v m = vfill n (at a (Suc d)) v m"
proof (induction n arbitrary: m)
  case (Suc n)
  have "vfill_down (Suc n) (at a (d + Suc n)) v m = vfill n (at a (Suc d)) v (m(at a (d + Suc n) := v))"
    by (simp only: vfill_down.simps at_simps add_Suc_right Suc.IH)
  also have "\<dots> = vfill (Suc n) (at a (Suc d)) v m"
    by (simp only: vfill_Suc vfill_fill at_at add_Suc add_Suc_right)
  finally show ?case .
qed simp

text \<open>Copying towards lower addresses, forwards; towards higher ones, backwards.\<close>

lemma vcopy_at: "0 < k \<Longrightarrow> i < 2147483648 \<Longrightarrow> d + k + n \<le> 2147483648 \<Longrightarrow>
    vcopy n (at a (d + k)) (at a d) m (at a i) = (if d \<le> i \<and> i < d + n then m (at a (i + k)) else m (at a i))"
proof (induction n arbitrary: d m)
  case (Suc n)
  let ?m = "m(at a d := m (at a (d + k)))"
  have "vcopy (Suc n) (at a (d + k)) (at a d) m (at a i) = vcopy n (at a (Suc d + k)) (at a (Suc d)) ?m (at a i)" by simp
  also have "\<dots> = (if Suc d \<le> i \<and> i < Suc d + n then ?m (at a (i + k)) else ?m (at a i))"
    using Suc.prems by (intro Suc.IH) simp_all
  also have "\<dots> = (if d \<le> i \<and> i < d + Suc n then m (at a (i + k)) else m (at a i))"
  proof (cases "Suc d \<le> i \<and> i < Suc d + n")
    case True
    then have "at a (i + k) \<noteq> at a d" using Suc.prems by (subst at_inj) simp_all
    with True show ?thesis by simp
  next
    case False
    then show ?thesis using at_inj [of i d a] Suc.prems by (cases "i = d") auto
  qed
  finally show ?case .
qed auto

lemma vcopy_other: "(\<And>i. i < n \<Longrightarrow> p \<noteq> at dst i) \<Longrightarrow> vcopy n src dst m p = m p"
proof (induction n arbitrary: src dst m)
  case (Suc n)
  have "p \<noteq> at (at dst 1) i" if "i < n" for i
    using Suc.prems [of "Suc i"] that by (simp add: at_at)
  then have "vcopy n (src + 2) (at dst 1) (m(dst := m src)) p = (m(dst := m src)) p" by (rule Suc.IH)
  then show ?case using Suc.prems [of 0] by (simp add: at_def)
qed simp

lemma vcopy_down_at: "0 < k \<Longrightarrow> i < 2147483648 \<Longrightarrow> d + k + n < 2147483648 \<Longrightarrow>
    vcopy_down n (at a (d + n)) (at a (d + k + n)) m (at a i) =
      (if d + k < i \<and> i \<le> d + k + n then m (at a (i - k)) else m (at a i))"
proof (induction n arbitrary: m)
  case (Suc n)
  let ?m = "m(at a (d + k + Suc n) := m (at a (d + Suc n)))"
  have "vcopy_down (Suc n) (at a (d + Suc n)) (at a (d + k + Suc n)) m (at a i) =
      vcopy_down n (at a (d + n)) (at a (d + k + n)) ?m (at a i)" by simp
  also have "\<dots> = (if d + k < i \<and> i \<le> d + k + n then ?m (at a (i - k)) else ?m (at a i))"
    using Suc.prems by (intro Suc.IH) simp_all
  also have "\<dots> = (if d + k < i \<and> i \<le> d + k + Suc n then m (at a (i - k)) else m (at a i))"
  proof (cases "d + k < i \<and> i \<le> d + k + n")
    case True
    then have "at a (i - k) \<noteq> at a (d + k + Suc n)" using Suc.prems by (subst at_inj) linarith+
    with True show ?thesis by simp
  next
    case False
    then show ?thesis using at_inj [of i "d + k + Suc n" a] Suc.prems by (cases "i = d + k + Suc n") auto
  qed
  finally show ?case .
qed auto

lemma vcopy_down_other:
  "(\<And>i. i < n \<Longrightarrow> p \<noteq> at a (d + Suc i)) \<Longrightarrow> vcopy_down n src (at a (d + n)) m p = m p"
proof (induction n arbitrary: src m)
  case (Suc n)
  have "vcopy_down n (src - 2) (at a (d + n)) (m(at a (d + Suc n) := m src)) p = (m(at a (d + Suc n) := m src)) p"
    using Suc.prems by (intro Suc.IH) simp
  then show ?case using Suc.prems [of n] by simp
qed simp

section \<open>The invariant of the screen\<close>

text \<open>
  The window on video memory starts at a whole row and lies inside it, the cursor is on the screen
  (or just behind the end of its line) and \<^verbatim>\<open>pos\<close> is its address.
\<close>

definition win :: "console \<Rightarrow> nat \<Rightarrow> bool" where
  "win c r \<longleftrightarrow> r \<le> 179 \<and> origin c = at SCREEN_START (80 * r) \<and> scr_end c = at (origin c) 2000"

definition con_ok :: "console \<Rightarrow> bool" where
  "con_ok c \<longleftrightarrow> (\<exists>r. win c r) \<and> unat (cx c) \<le> 80 \<and> unat (cy c) < 25 \<and>
     pos c = at (origin c) (80 * unat (cy c) + unat (cx c)) \<and>
     unat (top c) < unat (bottom c) \<and> unat (bottom c) \<le> 25 \<and>
     unat (saved_x c) \<le> 80 \<and> unat (saved_y c) < 25 \<and> npar c < NPAR \<and> cstate c \<le> 3"

text \<open>Row \<open>r\<close>, column \<open>k\<close> of what the screen shows.\<close>

definition screen :: "console \<Rightarrow> nat \<Rightarrow> nat \<Rightarrow> u16" where
  "screen c r k = vram c (at (origin c) (80 * r + k))"

definition outside :: "u32 \<Rightarrow> bool" where
  "outside p \<longleftrightarrow> (\<forall>i<16384. p \<noteq> at SCREEN_START i)"

text \<open>
  What the tool windows show. They can be drawn when the open one has what it needs: the explorer a path that fits between the
  brackets of \<^verbatim>\<open>char path[25]\<close> in \<^verbatim>\<open>render_border\<close>, with the zero behind it, and ended names; the clipboard ended lines.
\<close>

definition tools :: "console \<Rightarrow> int \<times> cbuf \<times> (nat \<Rightarrow> nat \<Rightarrow> u16) \<times> (nat \<Rightarrow> cbuf)" where
  "tools c = (scrupt_state_flag c, current_dir_path c, ls_files c, clipboard c)"

definition tool_ok :: "console \<Rightarrow> bool" where
  "tool_ok c \<longleftrightarrow>
     (scrupt_state_flag c = 1 \<longrightarrow> (\<exists>t. dir_path c = Some t \<and> length t \<le> 18) \<and> (\<forall>i<10. short_len (ls_files c i) \<noteq> None)) \<and>
     (scrupt_state_flag c = 2 \<longrightarrow> (\<forall>i<10. clip_line c i \<noteq> None))"

lemma tool_ok_cong: "tools c' = tools c \<Longrightarrow> tool_ok c' = tool_ok c"
  by (simp add: tools_def tool_ok_def dir_path_def clip_line_def)

lemma tools_updates [simp]:
  "tools (c\<lparr>pos := a\<rparr>) = tools c" "tools (c\<lparr>cx := a\<rparr>) = tools c" "tools (c\<lparr>cy := a\<rparr>) = tools c"
  "tools (c\<lparr>cstate := n\<rparr>) = tools c" "tools (c\<lparr>npar := n\<rparr>) = tools c" "tools (c\<lparr>vram := m\<rparr>) = tools c"
  "tools (c\<lparr>par := p\<rparr>) = tools c" "tools (c\<lparr>attr := b\<rparr>) = tools c" "tools (c\<lparr>ques := a\<rparr>) = tools c"
  "tools (c\<lparr>crtc := d\<rparr>) = tools c" "tools (c\<lparr>saved_x := a\<rparr>) = tools c" "tools (c\<lparr>saved_y := a\<rparr>) = tools c"
  "tools (c\<lparr>top := a\<rparr>) = tools c" "tools (c\<lparr>bottom := a\<rparr>) = tools c" "tools (c\<lparr>origin := a\<rparr>) = tools c"
  "tools (c\<lparr>scr_end := a\<rparr>) = tools c"
  by (simp_all add: tools_def)

lemma tool_ok_updates [simp]:
  "tool_ok (c\<lparr>pos := a\<rparr>) = tool_ok c" "tool_ok (c\<lparr>cx := a\<rparr>) = tool_ok c" "tool_ok (c\<lparr>cy := a\<rparr>) = tool_ok c"
  "tool_ok (c\<lparr>cstate := n\<rparr>) = tool_ok c" "tool_ok (c\<lparr>npar := n\<rparr>) = tool_ok c" "tool_ok (c\<lparr>vram := m\<rparr>) = tool_ok c"
  "tool_ok (c\<lparr>par := p\<rparr>) = tool_ok c" "tool_ok (c\<lparr>attr := b\<rparr>) = tool_ok c" "tool_ok (c\<lparr>ques := a\<rparr>) = tool_ok c"
  "tool_ok (c\<lparr>crtc := d\<rparr>) = tool_ok c" "tool_ok (c\<lparr>top := a\<rparr>) = tool_ok c" "tool_ok (c\<lparr>bottom := a\<rparr>) = tool_ok c"
  by (rule tool_ok_cong, simp)+

text \<open>A step that stays inside video memory, keeps the invariant and leaves the tools as they are.\<close>

definition con_step :: "console \<Rightarrow> console \<Rightarrow> bool" where
  "con_step c c' \<longleftrightarrow> con_ok c' \<and> tools c' = tools c \<and> (\<forall>p. outside p \<longrightarrow> vram c' p = vram c p)"

lemma con_step_tools: "con_step c c' \<Longrightarrow> tool_ok c \<Longrightarrow> tool_ok c'"
  using tool_ok_cong [of c' c] by (simp add: con_step_def)

lemma con_step_trans: "con_step a b \<Longrightarrow> con_step b c \<Longrightarrow> con_step a c"
  by (simp add: con_step_def)

lemma con_step_refl: "con_ok c \<Longrightarrow> con_step c c"
  by (simp add: con_step_def)

lemma at_row [simp]: "at a i + 160 = at a (i + 80)" "at a (i + 80) - 160 = at a i"
  by (simp_all add: at_def algebra_simps)

lemma unat_at: "i < 1000000 \<Longrightarrow> unat (at SCREEN_START i) = 753664 + 2 * i"
proof -
  assume "i < 1000000"
  then have "unat (of_nat (753664 + 2 * i) :: u32) = 753664 + 2 * i" by (intro unat_of_nat_small) simp
  moreover have "(of_nat (753664 + 2 * i) :: u32) = at SCREEN_START i" by (simp add: at_def)
  ultimately show ?thesis by simp
qed

lemma outside_win: "win c r \<Longrightarrow> outside p \<Longrightarrow> i < 2000 \<Longrightarrow> p \<noteq> at (origin c) i"
  by (auto simp: win_def outside_def at_at)

lemma half: "n < 2147483648 \<Longrightarrow> unat (drop_bit 1 (2 * of_nat n :: u32)) = n"
proof -
  assume n: "n < 2147483648"
  have "unat (2 * of_nat n :: u32) = 2 * n"
    using n unat_of_nat_small [of "2 * n", where 'a = 32] by simp
  moreover have "unat (drop_bit 1 w) = unat w div 2" for w :: u32
    by (simp add: drop_bit_eq_div unat_div)
  ultimately show ?thesis by simp
qed

lemma at_diff: "i \<le> j \<Longrightarrow> at a j - at a i = 2 * of_nat (j - i)"
  by (simp add: at_def of_nat_diff algebra_simps)

lemma pos_at: "a + push_bit 1 (y * 80 + x) = at a (80 * unat y + unat x)"
  "a + (160 * y + x * 2) = at a (80 * unat y + unat x)" for a x y :: u32
  by (simp_all add: at_def push_bit_eq_mult algebra_simps)

lemma win_updates [simp]:
  "win (c\<lparr>pos := a\<rparr>) r = win c r" "win (c\<lparr>cx := a\<rparr>) r = win c r" "win (c\<lparr>cy := a\<rparr>) r = win c r"
  "win (c\<lparr>cstate := n\<rparr>) r = win c r" "win (c\<lparr>npar := n\<rparr>) r = win c r" "win (c\<lparr>vram := m\<rparr>) r = win c r"
  "win (c\<lparr>par := p\<rparr>) r = win c r" "win (c\<lparr>attr := b\<rparr>) r = win c r" "win (c\<lparr>ques := a\<rparr>) r = win c r"
  "win (c\<lparr>crtc := d\<rparr>) r = win c r" "win (c\<lparr>saved_x := a\<rparr>) r = win c r" "win (c\<lparr>saved_y := a\<rparr>) r = win c r"
  "win (c\<lparr>top := a\<rparr>) r = win c r" "win (c\<lparr>bottom := a\<rparr>) r = win c r"
  by (simp_all add: win_def)

lemma con_okD:
  assumes "con_ok c"
  obtains r where "win c r" "unat (cx c) \<le> 80" "unat (cy c) < 25"
    "pos c = at (origin c) (80 * unat (cy c) + unat (cx c))"
    "unat (top c) < unat (bottom c)" "unat (bottom c) \<le> 25"
    "unat (saved_x c) \<le> 80" "unat (saved_y c) < 25" "npar c < NPAR" "cstate c \<le> 3"
  using assms by (auto simp: con_ok_def)

text \<open>Writing cells of the window keeps everything but the picture.\<close>

lemma con_ok_vram [simp]: "con_ok (c\<lparr>vram := m\<rparr>) = con_ok c"
  by (simp add: con_ok_def)

lemma con_ok_par [simp]: "con_ok (c\<lparr>par := p\<rparr>) = con_ok c" "con_ok (c\<lparr>attr := a\<rparr>) = con_ok c"
  "con_ok (c\<lparr>ques := q\<rparr>) = con_ok c" "con_ok (c\<lparr>crtc := d\<rparr>) = con_ok c"
  by (simp_all add: con_ok_def)

lemma con_ok_state: "con_ok c \<Longrightarrow> s \<le> 3 \<Longrightarrow> con_ok (c\<lparr>cstate := s\<rparr>)"
  "con_ok c \<Longrightarrow> n < NPAR \<Longrightarrow> con_ok (c\<lparr>npar := n\<rparr>)"
  by (simp_all add: con_ok_def)

lemma con_step_vram:
  assumes "con_ok c" and "\<And>p. outside p \<Longrightarrow> m p = vram c p"
  shows "con_step c (c\<lparr>vram := m\<rparr>)"
  using assms by (simp add: con_step_def)

lemma con_step_erase:
  assumes "con_ok c" and "d + unat n \<le> 2000"
  shows "con_step c (erase n (at (origin c) d) c)"
proof -
  obtain r where r: "win c r" using assms(1) by (rule con_okD)
  have "vfill (unat n) (at (origin c) d) blank (vram c) p = vram c p" if "outside p" for p
    using outside_win [OF r that] assms(2) by (intro vfill_other) (simp add: at_at)
  with assms(1) show ?thesis unfolding erase_def by (rule con_step_vram)
qed

lemma unat_Suc_small: "unat a < 1000 \<Longrightarrow> unat (a + 1) = unat a + 1" for a :: u32
  by (simp add: unat_word_ariths)

lemma unat_pred: "0 < unat a \<Longrightarrow> unat (a - 1) = unat a - 1" for a :: u32
  by (simp add: unat_minus_one unat_gt_0)

lemma con_step_gotoxy: "con_ok c \<Longrightarrow> con_step c (gotoxy x y c)"
  by (auto simp: gotoxy_def con_step_def con_ok_def pos_at word_le_nat_alt simp del: push_bit_of_0)

lemma con_step_cr: "con_ok c \<Longrightarrow> con_step c (cr c)"
  by (auto simp: cr_def con_step_def con_ok_def at_def push_bit_eq_mult algebra_simps)

lemma con_step_save: "con_ok c \<Longrightarrow> con_step c (save_cur c)" "con_ok c \<Longrightarrow> con_step c (restore_cur c)"
  by (auto simp: save_cur_def restore_cur_def con_step_def con_ok_def pos_at)

lemma con_step_del: "con_ok c \<Longrightarrow> con_step c (del c)"
proof -
  assume ok: "con_ok c"
  then obtain r where r: "win c r" and b: "unat (cx c) \<le> 80" "unat (cy c) < 25"
    and p: "pos c = at (origin c) (80 * unat (cy c) + unat (cx c))" by (rule con_okD)
  show ?thesis
  proof (cases "cx c = 0")
    case True
    then show ?thesis using ok by (simp add: del_def con_step_refl)
  next
    case False
    then have x: "0 < unat (cx c)" by (simp add: unat_gt_0)
    then obtain n where n: "unat (cx c) = Suc n" by (cases "unat (cx c)") simp_all
    have q: "pos c - 2 = at (origin c) (80 * unat (cy c) + unat (cx c - 1))"
      using n x by (simp add: p unat_pred)
    have "con_ok (c\<lparr>pos := pos c - 2, cx := cx c - 1\<rparr>)"
      using ok b x q by (auto simp: con_ok_def unat_pred)
    moreover have "s \<noteq> pos c - 2" if "outside s" for s
      using outside_win [OF r that, of "80 * unat (cy c) + unat (cx c - 1)"] b n x unfolding q by (simp add: unat_pred)
    ultimately show ?thesis using False by (auto simp: del_def poke_def con_step_def)
  qed
qed

lemma con_step_csi_J: "con_ok c \<Longrightarrow> con_step c (csi_J p c)"
proof -
  assume ok: "con_ok c"
  then obtain r where r: "win c r" and b: "unat (cx c) \<le> 80" "unat (cy c) < 25"
    and p: "pos c = at (origin c) (80 * unat (cy c) + unat (cx c))" by (rule con_okD)
  let ?d = "80 * unat (cy c) + unat (cx c)"
  have d: "?d \<le> 2000" using b by linarith
  have "scr_end c - pos c = 2 * of_nat (2000 - ?d)" "pos c - origin c = 2 * of_nat ?d"
    using r d at_diff [of ?d 2000 "origin c"] at_diff [of 0 ?d "origin c"] by (simp_all add: win_def p)
  then have "unat (drop_bit 1 (scr_end c - pos c)) = 2000 - ?d" "unat (drop_bit 1 (pos c - origin c)) = ?d"
    using d by (simp_all only: half)
  then have "con_step c (erase (drop_bit 1 (scr_end c - pos c)) (pos c) c)"
    "con_step c (erase (drop_bit 1 (pos c - origin c)) (origin c) c)"
    "con_step c (erase (COLUMNS * LINES) (origin c) c)"
    using con_step_erase [OF ok, of ?d] con_step_erase [OF ok, of 0] d p by simp_all
  then show ?thesis using con_step_refl [OF ok] by (simp add: csi_J_def)
qed

lemma con_step_csi_K: "con_ok c \<Longrightarrow> con_step c (csi_K p c)"
proof -
  assume ok: "con_ok c"
  then obtain r where r: "win c r" and b: "unat (cx c) \<le> 80" "unat (cy c) < 25"
    and p: "pos c = at (origin c) (80 * unat (cy c) + unat (cx c))" by (rule con_okD)
  have st: "pos c - push_bit 1 (cx c) = at (origin c) (80 * unat (cy c))"
    by (simp add: p at_def push_bit_eq_mult algebra_simps)
  have "unat (COLUMNS - cx c) = 80 - unat (cx c)"
    using b(1) by (simp add: unat_sub word_le_nat_alt)
  then have "con_step c (erase (COLUMNS - cx c) (pos c) c)"
    using con_step_erase [OF ok, of "80 * unat (cy c) + unat (cx c)"] b p by simp
  moreover have "con_step c (erase n (pos c - push_bit 1 (cx c)) c)" if "unat n \<le> 80" for n
    using con_step_erase [OF ok, of "80 * unat (cy c)" n] b that unfolding st by simp
  ultimately show ?thesis using con_step_refl [OF ok] b(1) by (auto simp: csi_K_def word_less_nat_alt)
qed

lemma shift_right_other: "(\<And>i. i < n \<Longrightarrow> q \<noteq> at p i) \<Longrightarrow> shift_right n p old m q = m q"
proof (induction n arbitrary: p old m)
  case (Suc n)
  have "q \<noteq> at (p + 2) i" if "i < n" for i
    using Suc.prems [of "Suc i"] that by (simp add: at_def algebra_simps)
  then show ?case using Suc.IH [of "p + 2"] Suc.prems [of 0] by simp
qed simp

lemma shift_left_other: "(\<And>i. i \<le> n \<Longrightarrow> q \<noteq> at p i) \<Longrightarrow> shift_left n p m q = m q"
proof (induction n arbitrary: p m)
  case 0
  then show ?case using 0 [of 0] by simp
next
  case (Suc n)
  have "q \<noteq> at (p + 2) i" if "i \<le> n" for i
    using Suc.prems [of "Suc i"] that by (simp add: at_def algebra_simps)
  then show ?case using Suc.IH [of "p + 2"] Suc.prems [of 0] by simp
qed

lemma con_step_insert_char: "con_ok c \<Longrightarrow> con_step c (insert_char c)" "con_ok c \<Longrightarrow> con_step c (delete_char c)"
proof -
  assume ok: "con_ok c"
  then obtain r where r: "win c r" and b: "unat (cx c) \<le> 80" "unat (cy c) < 25"
    and p: "pos c = at (origin c) (80 * unat (cy c) + unat (cx c))" by (rule con_okD)
  have o: "q \<noteq> at (pos c) i" if "outside q" "i + unat (cx c) < 80" for q i
    using outside_win [OF r that(1)] that(2) b by (simp add: p at_at)
  show "con_step c (insert_char c)"
    unfolding insert_char_def using ok
  proof (rule con_step_vram)
    fix q assume "outside q"
    then show "shift_right (80 - unat (cx c)) (pos c) blank (vram c) q = vram c q"
      using o by (intro shift_right_other) simp
  qed
  show "con_step c (delete_char c)"
  proof (cases "COLUMNS \<le> cx c")
    case True
    then show ?thesis using ok by (simp add: delete_char_def con_step_refl)
  next
    case False
    then have x: "unat (cx c) < 80" by (simp add: word_le_nat_alt)
    have "con_step c (c\<lparr>vram := shift_left (79 - unat (cx c)) (pos c) (vram c)\<rparr>)"
      using ok
    proof (rule con_step_vram)
      fix q assume "outside q"
      then show "shift_left (79 - unat (cx c)) (pos c) (vram c) q = vram c q"
        using o x by (intro shift_left_other) simp
    qed
    then show ?thesis using False by (simp add: delete_char_def)
  qed
qed

section \<open>Scrolling\<close>

text \<open>The rows from \<open>t\<close> to \<open>b\<close> move one up, or one down, and a blank row comes in.\<close>

definition rows_up :: "nat \<Rightarrow> nat \<Rightarrow> (nat \<Rightarrow> nat \<Rightarrow> u16) \<Rightarrow> nat \<Rightarrow> nat \<Rightarrow> u16" where
  "rows_up t b s r k = (if t \<le> r \<and> r < b then if Suc r = b then blank else s (Suc r) k else s r k)"

definition rows_down :: "nat \<Rightarrow> nat \<Rightarrow> (nat \<Rightarrow> nat \<Rightarrow> u16) \<Rightarrow> nat \<Rightarrow> nat \<Rightarrow> u16" where
  "rows_down t b s r k = (if t \<le> r \<and> r < b then if r = t then blank else s (r - 1) k else s r k)"

lemma region_count:
  fixes t b :: u32
  assumes "unat t < unat b" and "unat b \<le> 25"
  shows "2 * unat (drop_bit 1 ((b - t - 1) * 80)) = 80 * (unat b - unat t - 1)"
proof -
  have "(of_nat (unat b - unat t - 1) :: u32) = b - t - 1"
    using assms(1) by (simp add: of_nat_diff)
  then have "(b - t - 1) * 80 = 2 * of_nat (40 * (unat b - unat t - 1))" by simp
  then have "unat (drop_bit 1 ((b - t - 1) * 80)) = 40 * (unat b - unat t - 1)"
    using assms(2) half [of "40 * (unat b - unat t - 1)"] by simp
  then show ?thesis by simp
qed

lemma row_cell: "80 * m \<le> 80 * r + k \<longleftrightarrow> m \<le> r" "80 * r + k < 80 * m \<longleftrightarrow> r < m" if "k < 80" for k m r :: nat
  using that by linarith+

lemma scroll_region_spec:
  assumes ok: "con_ok c" and k: "k < 80" and r: "r < 25"
  shows "screen (scroll_region c) r k = rows_up (unat (top c)) (unat (bottom c)) (screen c) r k"
    "con_step c (scroll_region c)"
proof -
  obtain w where w: "win c w" and t: "unat (top c) < unat (bottom c)" "unat (bottom c) \<le> 25"
    using ok by (rule con_okD)
  let ?T = "unat (top c)" and ?B = "unat (bottom c)" and ?o = "origin c"
  let ?n = "80 * (?B - ?T - 1)"
  have a: "?o + push_bit 1 COLUMNS * top c = at ?o (80 * ?T)"
    "?o + push_bit 1 COLUMNS * (top c + 1) = at ?o (80 * ?T + 80)"
    by (simp_all add: at_def push_bit_eq_mult algebra_simps)
  have f: "at ?o (80 * ?T) + 2 * of_nat ?n = at ?o (80 * ?T + ?n)" unfolding at_def by (simp add: algebra_simps)
  have eq: "scroll_region c = c\<lparr>vram := vfill 80 (at ?o (80 * ?T + ?n)) blank
      (vcopy ?n (at ?o (80 * ?T + 80)) (at ?o (80 * ?T)) (vram c))\<rparr>"
    unfolding scroll_region_def Let_def region_count [OF t] a f ..
  have nn: "80 * ?T + ?n + 80 = 80 * ?B" using t by simp
  show "screen (scroll_region c) r k = rows_up ?T ?B (screen c) r k"
  proof -
    let ?i = "80 * r + k"
    have "screen (scroll_region c) r k = (if 80 * ?T + ?n \<le> ?i \<and> ?i < 80 * ?T + ?n + 80 then blank
        else vcopy ?n (at ?o (80 * ?T + 80)) (at ?o (80 * ?T)) (vram c) (at ?o ?i))"
      unfolding eq screen_def using k r t by (simp add: vfill_at)
    also have "vcopy ?n (at ?o (80 * ?T + 80)) (at ?o (80 * ?T)) (vram c) (at ?o ?i) =
        (if 80 * ?T \<le> ?i \<and> ?i < 80 * ?T + ?n then vram c (at ?o (?i + 80)) else vram c (at ?o ?i))"
      using k r t by (intro vcopy_at) simp_all
    finally have s: "screen (scroll_region c) r k = (if 80 * ?T + ?n \<le> ?i \<and> ?i < 80 * ?T + ?n + 80 then blank
        else if 80 * ?T \<le> ?i \<and> ?i < 80 * ?T + ?n then vram c (at ?o (?i + 80)) else vram c (at ?o ?i))" .
    have e: "80 * ?T + ?n = 80 * (?B - 1)" "80 * (?B - 1) + 80 = 80 * ?B" using t by simp_all
    have i: "80 * r + k + 80 = 80 * Suc r + k" by simp
    show ?thesis
      unfolding s using t unfolding e i row_cell [OF k] screen_def rows_up_def by auto
  qed
  have "vram (scroll_region c) p = vram c p" if "outside p" for p
  proof -
    have "vfill 80 (at ?o (80 * ?T + ?n)) blank m p = m p" for m
      using outside_win [OF w that] nn t by (intro vfill_other) (simp add: at_at)
    moreover have "vcopy ?n src (at ?o (80 * ?T)) m p = m p" for src m
      using outside_win [OF w that] nn t by (intro vcopy_other) (simp add: at_at)
    ultimately show ?thesis by (simp add: eq)
  qed
  then show "con_step c (scroll_region c)" using ok by (simp add: con_step_def eq)
qed

lemma scrdown_spec:
  assumes ok: "con_ok c" and k: "k < 80" and r: "r < 25"
  shows "screen (scrdown c) r k = rows_down (unat (top c)) (unat (bottom c)) (screen c) r k"
    "con_step c (scrdown c)"
proof -
  obtain w where w: "win c w" and t: "unat (top c) < unat (bottom c)" "unat (bottom c) \<le> 25"
    using ok by (rule con_okD)
  let ?T = "unat (top c)" and ?B = "unat (bottom c)" and ?o = "origin c"
  let ?n = "80 * (?B - ?T - 1)"
  have nn: "80 * ?T + ?n + 80 = 80 * ?B" using t by simp
  text \<open>One cell in front of the window, so that the last cell to copy is \<open>d + n\<close> from there.\<close>
  define a where "a = ?o - 2"
  have oa: "at ?o i = at a (Suc i)" for i by (simp add: a_def at_def algebra_simps)
  have dst: "?o + push_bit 1 COLUMNS * bottom c - 4 + 2 = at a (80 * ?T + 80 + ?n)"
  proof -
    have "at a (80 * ?B) = ?o + push_bit 1 COLUMNS * bottom c - 4 + 2"
      by (simp add: a_def at_def push_bit_eq_mult algebra_simps)
    then show ?thesis using nn by (simp add: add.commute add.left_commute)
  qed
  have src: "?o + push_bit 1 COLUMNS * (bottom c - 1) - 4 + 2 = at a (80 * ?T + ?n)"
  proof -
    have "?o + push_bit 1 COLUMNS * (bottom c - 1) - 4 + 2 = ?o + push_bit 1 COLUMNS * bottom c - 4 + 2 - 160"
      by (simp add: push_bit_eq_mult algebra_simps)
    also have "\<dots> = at a (80 * ?T + ?n + 80) - 160" unfolding dst by (simp only: ac_simps)
    finally show ?thesis by simp
  qed
  have fil: "?o + push_bit 1 COLUMNS * bottom c - 4 - 2 * of_nat ?n + 2 = at a (80 * ?T + 80)"
  proof -
    have "?o + push_bit 1 COLUMNS * bottom c - 4 - 2 * of_nat ?n + 2 = at a (80 * ?T + 80 + ?n) - 2 * of_nat ?n"
      unfolding dst [symmetric] by (simp add: algebra_simps)
    then show ?thesis by (simp add: at_def algebra_simps)
  qed
  have eq: "scrdown c = c\<lparr>vram := vfill 80 (at a (Suc (80 * ?T))) blank
      (vcopy_down ?n (at a (80 * ?T + ?n)) (at a (80 * ?T + 80 + ?n)) (vram c))\<rparr>"
    unfolding scrdown_def Let_def region_count [OF t] dst src fil vfill_down_vfill ..
  show "screen (scrdown c) r k = rows_down ?T ?B (screen c) r k"
  proof -
    let ?i = "80 * r + k"
    have "screen (scrdown c) r k = (if Suc (80 * ?T) \<le> Suc ?i \<and> Suc ?i < Suc (80 * ?T) + 80 then blank
        else vcopy_down ?n (at a (80 * ?T + ?n)) (at a (80 * ?T + 80 + ?n)) (vram c) (at a (Suc ?i)))"
      unfolding eq screen_def using k r t oa by (simp add: vfill_at)
    also have "vcopy_down ?n (at a (80 * ?T + ?n)) (at a (80 * ?T + 80 + ?n)) (vram c) (at a (Suc ?i)) =
        (if 80 * ?T + 80 < Suc ?i \<and> Suc ?i \<le> 80 * ?T + 80 + ?n then vram c (at a (Suc ?i - 80)) else vram c (at a (Suc ?i)))"
      using k r t by (intro vcopy_down_at) simp_all
    also have "80 * ?T + 80 + ?n = 80 * ?B" using nn by simp
    also have "80 * ?T + 80 = 80 * (?T + 1)" by simp
    finally have s: "screen (scrdown c) r k = (if Suc (80 * ?T) \<le> Suc ?i \<and> Suc ?i < Suc (80 * ?T) + 80 then blank
        else if 80 * (?T + 1) < Suc ?i \<and> Suc ?i \<le> 80 * ?B then vram c (at a (Suc ?i - 80)) else vram c (at a (Suc ?i)))" .
    have "Suc ?i < Suc (80 * ?T) + 80 \<longleftrightarrow> ?i < 80 * (?T + 1)" by simp
    then have i1: "Suc (80 * ?T) \<le> Suc ?i \<and> Suc ?i < Suc (80 * ?T) + 80 \<longleftrightarrow> r = ?T"
      unfolding Suc_le_mono row_cell [OF k] by auto
    have i2: "80 * (?T + 1) < Suc ?i \<and> Suc ?i \<le> 80 * ?B \<longleftrightarrow> ?T < r \<and> r < ?B"
      unfolding less_Suc_eq_le Suc_le_eq row_cell [OF k] by auto
    have i3: "vram c (at a (Suc ?i - 80)) = screen c (r - 1) k" if "?T < r"
    proof -
      from that have "0 < r" by simp
      then obtain q where "r = Suc q" using gr0_implies_Suc by blast
      then show ?thesis by (simp add: screen_def oa)
    qed
    have "vram c (at a (Suc ?i)) = screen c r k" by (simp add: screen_def oa)
    then show ?thesis unfolding s i1 i2 using t i3 by (auto simp: rows_down_def)
  qed
  have "vram (scrdown c) p = vram c p" if "outside p" for p
  proof -
    have np: "p \<noteq> at a (Suc i)" if "i < 2000" for i
      using outside_win [OF w \<open>outside p\<close> that] by (simp add: oa)
    have "vfill 80 (at a (Suc (80 * ?T))) blank m p = m p" for m
      using np t by (intro vfill_other) (simp add: at_at)
    moreover have "p \<noteq> at a (80 * ?T + 80 + Suc i)" if "i < ?n" for i
      using np [of "80 * ?T + 80 + i"] nn t that by simp
    then have "vcopy_down ?n src (at a (80 * ?T + 80 + ?n)) m p = m p" for src m
      by (rule vcopy_down_other)
    ultimately show ?thesis by (simp add: eq)
  qed
  then show "con_step c (scrdown c)" using ok by (simp add: con_step_def eq)
qed

lemma scroll_origin_spec:
  assumes ok: "con_ok c" and k: "k < 80" and r: "r < 25"
  shows "screen (scroll_origin c) r k = rows_up 0 25 (screen c) r k"
    "con_step c (scroll_origin c)"
proof -
  obtain w where w: "win c w" and p: "pos c = at (origin c) (80 * unat (cy c) + unat (cx c))"
    using ok by (rule con_okD)
  let ?o = "origin c + 160" and ?S = "SCREEN_START"
  have o: "?o = at ?S (80 * Suc w)" "origin c = at ?S (80 * w)" and w179: "w \<le> 179"
    and e: "scr_end c + 160 = at ?o 2000" "pos c + 160 = at ?o (80 * unat (cy c) + unat (cx c))"
    using w p by (simp_all add: win_def at_def algebra_simps)
  have row: "screen c (Suc r) k = vram c (at ?o (80 * r + k))" for r
    by (simp add: screen_def at_def algebra_simps)
  have sum: "80 * r + k < 2000" and last: "1920 \<le> 80 * r + k \<longleftrightarrow> Suc r = 25" using k r by linarith+
  have end_unat: "unat (scr_end c + 160) = 753664 + 2 * (80 * Suc w + 2000)"
    unfolding e(1) o(1) at_at using w179 by (intro unat_at) simp
  have "(screen (scroll_origin c) r k = rows_up 0 25 (screen c) r k) \<and> con_step c (scroll_origin c)"
  proof (cases "SCREEN_END < scr_end c + 160")
    case True
    have n: "2 * unat (drop_bit 1 ((LINES - 1) * COLUMNS)) = 1920" by simp
    have z: "at ?S 0 = ?S" "?S + 2 * of_nat 1920 = at ?S 1920" by (simp_all add: at_def)
    let ?v = "vfill 80 (at ?S 1920) blank (vcopy 1920 ?o ?S (vram c))"
    have eq: "scroll_origin c = c\<lparr>origin := ?S, pos := at ?S (80 * unat (cy c) + unat (cx c)),
        scr_end := at ?S 2000, vram := ?v\<rparr>"
    proof -
      have "pos c + 160 - (?o - ?S) = at ?S (80 * unat (cy c) + unat (cx c))"
        "scr_end c + 160 - (?o - ?S) = at ?S 2000"
        unfolding e by (simp_all add: at_def algebra_simps)
      then show ?thesis using True unfolding scroll_origin_def Let_def n by (simp add: z(2) [simplified])
    qed
    have "screen (scroll_origin c) r k = (if 1920 \<le> 80 * r + k \<and> 80 * r + k < 1920 + 80 then blank
        else vcopy 1920 ?o ?S (vram c) (at ?S (80 * r + k)))"
      unfolding eq screen_def using sum by (simp add: vfill_at)
    also have "vcopy 1920 ?o ?S (vram c) (at ?S (80 * r + k)) =
        (if 0 \<le> 80 * r + k \<and> 80 * r + k < 0 + 1920 then vram c (at ?S (80 * r + k + 80 * Suc w)) else vram c (at ?S (80 * r + k)))"
    proof -
      have "vcopy 1920 (at ?S (0 + 80 * Suc w)) (at ?S 0) (vram c) (at ?S (80 * r + k)) =
          (if 0 \<le> 80 * r + k \<and> 80 * r + k < 0 + 1920 then vram c (at ?S (80 * r + k + 80 * Suc w))
           else vram c (at ?S (80 * r + k)))"
        using sum w179 by (intro vcopy_at) simp_all
      then show ?thesis unfolding o(1) z(1) add_0 .
    qed
    also have "at ?S (80 * r + k + 80 * Suc w) = at ?o (80 * r + k)" unfolding o(1) at_at by (simp only: ac_simps)
    finally have "screen (scroll_origin c) r k = rows_up 0 25 (screen c) r k"
      using r last sum row [of r] by (auto simp: rows_up_def)
    moreover have "?v s = vram c s" if "outside s" for s
    proof -
      have "vfill 80 (at ?S 1920) blank m s = m s" for m
        using that by (intro vfill_other) (simp add: at_at outside_def)
      moreover have "vcopy 1920 ?o ?S m s = m s" for m
        using that by (intro vcopy_other) (simp add: outside_def)
      ultimately show ?thesis by simp
    qed
    then have "con_step c (scroll_origin c)"
      using ok unfolding eq con_step_def by (auto simp: con_ok_def win_def intro: exI [of _ 0])
    ultimately show ?thesis ..
  next
    case False
    then have w178: "w \<le> 178" using end_unat by (simp add: word_less_nat_alt)
    have s: "scr_end c + 160 - 160 = at ?o 1920"
      by (simp add: e(1) at_def algebra_simps)
    let ?v = "vfill 80 (at ?o 1920) blank (vram c)"
    have eq: "scroll_origin c = c\<lparr>origin := ?o, pos := at ?o (80 * unat (cy c) + unat (cx c)),
        scr_end := at ?o 2000, vram := ?v\<rparr>"
    proof -
      have "at ?o 2000 - 160 = at ?o 1920" by (simp add: at_def)
      then show ?thesis using False unfolding scroll_origin_def Let_def by (simp add: e)
    qed
    have "screen (scroll_origin c) r k = (if 1920 \<le> 80 * r + k \<and> 80 * r + k < 1920 + 80 then blank
        else vram c (at ?o (80 * r + k)))"
      unfolding eq screen_def using sum by (simp add: vfill_at)
    then have scr: "screen (scroll_origin c) r k = rows_up 0 25 (screen c) r k"
      using r last sum row [of r] by (auto simp: rows_up_def)
    moreover have "?v q = vram c q" if "outside q" for q
    proof (rule vfill_other)
      fix i assume "i < (80::nat)"
      then have "80 * Suc w + 1920 + i < 16384" using w178 by simp
      with that have "q \<noteq> at ?S (80 * Suc w + 1920 + i)" unfolding outside_def by blast
      then show "q \<noteq> at (at ?o 1920) i" unfolding o(1) at_at .
    qed
    moreover have "win (c\<lparr>origin := ?o, pos := at ?o (80 * unat (cy c) + unat (cx c)),
        scr_end := at ?o 2000, vram := ?v\<rparr>) (Suc w)"
      using w178 o(1) by (simp add: win_def)
    then have "con_ok (scroll_origin c)"
      using ok exI [of "win (scroll_origin c)" "Suc w"] unfolding eq by (simp add: con_ok_def)
    ultimately have "con_step c (scroll_origin c)" unfolding con_step_def by (simp add: eq)
    with scr show ?thesis by blast
  qed
  then show "screen (scroll_origin c) r k = rows_up 0 25 (screen c) r k" "con_step c (scroll_origin c)" by auto
qed

text \<open>Drawing a tool window changes cells of the screen and nothing else.\<close>

definition draws :: "console \<Rightarrow> console \<Rightarrow> bool" where
  "draws c c' \<longleftrightarrow> (\<exists>m. c' = c\<lparr>vram := m\<rparr> \<and> (\<forall>p. outside p \<longrightarrow> m p = vram c p))"

lemma draws_refl: "draws c c"
  unfolding draws_def by (rule exI [of _ "vram c"]) simp

lemma draws_trans: "draws a b \<Longrightarrow> draws b c \<Longrightarrow> draws a c"
  by (auto simp: draws_def)

lemma draws_keeps:
  assumes "draws c c'"
  shows "win c' r = win c r" "origin c' = origin c" "tools c' = tools c" "con_ok c' = con_ok c"
  using assms by (auto simp: draws_def)

lemma draws_poke: "win c r \<Longrightarrow> i < 2000 \<Longrightarrow> draws c (poke (at (origin c) i) v c)"
  using outside_win [of c r _ i] by (auto simp: draws_def poke_def intro!: exI [of _ "(vram c)(at (origin c) i := v)"])

lemma draws_vfill:
  assumes "win c r" and "d + n \<le> 2000"
  shows "draws c (c\<lparr>vram := vfill n (at (origin c) d) v (vram c)\<rparr>)"
proof -
  have "vfill n (at (origin c) d) v (vram c) p = vram c p" if "outside p" for p
    using outside_win [OF assms(1) that] assms(2) by (intro vfill_other) (simp add: at_at)
  then show ?thesis unfolding draws_def by blast
qed

lemma tool_cells:
  "cells (tool_vmpos c) k = at (origin c) (58 + k)" "cells (entry_vmpos c j) i = at (origin c) (80 * j + 139 + i)"
  "origin c + 320 - 44 + 2 + 160 * of_nat j = at (origin c) (80 * j + 139)" "cells (at a d) i = at a (d + i)"
  by (simp_all add: cells_def tool_vmpos_def entry_vmpos_def at_def algebra_simps)

lemma draws_first:
  "win c r \<Longrightarrow> \<forall>k\<in>set ks. k < 22 \<Longrightarrow> draws c (draw_first ks color path c)"
proof (induction ks arbitrary: c)
  case (Cons k ks)
  have d: "draws c (poke (cells (tool_vmpos c) k) (cell color (border_row path k)) c)" (is "draws c ?c")
    unfolding tool_cells using Cons.prems by (intro draws_poke) simp_all
  moreover have "draws ?c (draw_first ks color path ?c)" using Cons.prems draws_keeps(1) [OF d] by (intro Cons.IH) simp_all
  ultimately show ?case using draws_trans by simp
qed (simp add: draws_refl)

lemma draws_body_row:
  assumes "win c r" and "row \<le> 11"
  shows "draws c (draw_body_row color row c)"
proof -
  let ?d = "58 + 80 * row"
  define c1 where "c1 = poke (at (origin c) ?d) (color OR 35) c"
  define c2 where "c2 = c1\<lparr>vram := vfill 20 (at (origin c1) (?d + 1)) 0x20 (vram c1)\<rparr>"
  have 1: "draws c c1" unfolding c1_def using assms by (intro draws_poke) simp_all
  have 2: "draws c1 c2" unfolding c2_def using assms draws_keeps(1) [OF 1] by (intro draws_vfill) simp_all
  have "draws c2 (poke (at (origin c2) (?d + 21)) (color OR 35) c2)"
    using assms draws_keeps(1) [OF 1] draws_keeps(1) [OF 2] by (intro draws_poke) simp_all
  moreover have "draw_body_row color row c = poke (at (origin c2) (?d + 21)) (color OR 35) c2"
    unfolding draw_body_row_def Let_def tool_cells by (simp add: c2_def c1_def poke_def)
  ultimately show ?thesis using draws_trans 1 2 by metis
qed

lemma draws_body: "win c r \<Longrightarrow> \<forall>k\<in>set ks. k \<le> 11 \<Longrightarrow> draws c (draw_body ks color c)"
proof (induction ks arbitrary: c)
  case (Cons k ks)
  have d: "draws c (draw_body_row color k c)" using Cons.prems by (intro draws_body_row) simp_all
  moreover have "draws (draw_body_row color k c) (draw_body ks color (draw_body_row color k c))"
    using Cons.prems draws_keeps(1) [OF d] by (intro Cons.IH) simp_all
  ultimately show ?case using draws_trans by simp
qed (simp add: draws_refl)

lemma border_drawn:
  assumes "win c r" and "length t \<le> 18"
  shows "\<exists>c'. render_border t c = Some c' \<and> draws c c'"
proof -
  let ?path = "[32, 91, 32] @ t @ [32, 93, 32]"
  define color :: u16 where "color = (if t = CLIPBOARD then 0x0100 else 0x0300)"
  define c1 where "c1 = draw_first [0..<TOOL_WIDTH] color ?path c"
  define c2 where "c2 = draw_body [1..<TOOL_HEIGHT] color c1"
  have 1: "draws c c1" unfolding c1_def by (rule draws_first [OF assms(1)]) simp
  have 2: "draws c1 c2" unfolding c2_def using assms(1) draws_keeps(1) [OF 1] by (intro draws_body) auto
  have "draws c2 (draw_last color c2)" unfolding draw_last_def tool_cells
    using assms(1) draws_keeps(1) [OF 1] draws_keeps(1) [OF 2] by (intro draws_vfill) simp_all
  moreover have "render_border t c = Some (draw_last color c2)"
    using assms(2) by (simp add: render_border_def c2_def c1_def color_def Let_def)
  ultimately show ?thesis using draws_trans 1 2 by metis
qed

lemma draws_entry: "win c r \<Longrightarrow> j < 10 \<Longrightarrow> \<forall>i\<in>set is. i < 20 \<Longrightarrow> vm = entry_vmpos c j \<Longrightarrow> draws c (draw_entry is name len vm c)"
proof (induction "is" arbitrary: c)
  case (Cons i "is")
  define v where "v = name (nat (int i - (22 - len) sdiv 2))"
  have d: "draws c (poke (cells vm i) v c)"
    unfolding Cons.prems(4) tool_cells using Cons.prems(1-3) by (intro draws_poke) simp_all
  have "draws (poke (cells vm i) v c) (draw_entry is name len vm (poke (cells vm i) v c))"
    using Cons.prems draws_keeps(1,2) [OF d] by (intro Cons.IH) (simp_all add: entry_vmpos_def)
  moreover have "draws c (draw_entry is name len vm c)" using Cons.prems by (intro Cons.IH) simp_all
  ultimately show ?case using draws_trans [OF d] by (simp add: Let_def v_def)
qed (simp add: draws_refl)

lemma entries_drawn:
  "win c r \<Longrightarrow> \<forall>i\<in>set is. i < 10 \<and> short_len (ls_files c i) \<noteq> None \<Longrightarrow> \<exists>c'. render_entries is c = Some c' \<and> draws c c'"
proof (induction "is" arbitrary: c)
  case (Cons i "is")
  then obtain len where l: "short_len (ls_files c i) = Some len" by auto
  let ?c = "draw_entry [0..<20] (ls_files c i) len (entry_vmpos c i) c"
  have d: "draws c ?c" using Cons.prems by (intro draws_entry [of c r i]) auto
  then have "ls_files ?c = ls_files c" by (auto simp: draws_def)
  then have "\<exists>c'. render_entries is ?c = Some c' \<and> draws ?c c'"
    using Cons.prems draws_keeps(1) [OF d] by (intro Cons.IH) simp_all
  then show ?case using draws_trans [OF d] by (auto simp: print_entry_def l)
qed (simp add: draws_refl)

lemma draws_chars: "win c r \<Longrightarrow> j + length s \<le> 2000 \<Longrightarrow> vm = at (origin c) j \<Longrightarrow> draws c (draw_chars s vm c)"
proof (induction s arbitrary: c j vm)
  case (Cons x s)
  have d: "draws c (poke vm (cell 0x0700 x) c)" unfolding Cons.prems(3) using Cons.prems(1,2) by (intro draws_poke) simp_all
  have "vm + 2 = at (origin c) (Suc j)" by (simp add: Cons.prems(3) at_def)
  then have "draws (poke vm (cell 0x0700 x) c) (draw_chars s (vm + 2) (poke vm (cell 0x0700 x) c))"
    using Cons.prems draws_keeps(1,2) [OF d] by (intro Cons.IH [of _ "Suc j"]) simp_all
  then show ?case using draws_trans [OF d] by simp
qed (simp add: draws_refl)

lemma clips_drawn:
  "win c r \<Longrightarrow> \<forall>i\<in>set is. i < 10 \<and> clip_line c i \<noteq> None \<Longrightarrow> \<exists>c'. draw_clips is c = Some c' \<and> draws c c'"
proof (induction "is" arbitrary: c)
  case (Cons i "is")
  then obtain s where s: "clip_line c i = Some s" by auto
  then have "length s < 20" by (auto simp: clip_line_def strlen_in_def find_Some_iff)
  let ?c = "draw_chars s (origin c + 320 - 44 + 2 + 160 * of_nat i) c"
  have d: "draws c ?c"
    unfolding tool_cells using Cons.prems \<open>length s < 20\<close> by (intro draws_chars [of c r "80 * i + 139"]) auto
  then have "clip_line ?c = clip_line c" by (auto simp: draws_def clip_line_def)
  then have "\<exists>c'. draw_clips is ?c = Some c' \<and> draws ?c c'"
    using Cons.prems draws_keeps(1) [OF d] by (intro Cons.IH) simp_all
  then show ?case using draws_trans [OF d] by (auto simp: s)
qed (simp add: draws_refl)

lemma redraw_drawn:
  assumes "con_ok c" and "tool_ok c"
  shows "\<exists>c'. redraw_tool c = Some c' \<and> draws c c'"
proof -
  obtain r where r: "win c r" using assms(1) by (rule con_okD)
  have "\<exists>c'. redraw_tool c = Some c' \<and> draws c c'" if f: "scrupt_state_flag c = 1"
  proof -
    obtain t where t: "dir_path c = Some t" "length t \<le> 18" using assms(2) f by (auto simp: tool_ok_def)
    obtain d where d: "render_border t c = Some d" "draws c d" using border_drawn [OF r t(2)] by blast
    then have "ls_files d = ls_files c" by (auto simp: draws_def)
    then obtain e where "render_ls d = Some e" "draws d e"
      using entries_drawn [of d r "[0..<10]"] assms(2) f r draws_keeps(1) [OF d(2)] by (auto simp: render_ls_def tool_ok_def)
    then show ?thesis using f t d draws_trans [OF d(2)] by (simp add: redraw_tool_def render_path_def)
  qed
  moreover have "\<exists>c'. redraw_tool c = Some c' \<and> draws c c'" if f: "scrupt_state_flag c = 2"
  proof -
    have "length CLIPBOARD \<le> 18" by (simp add: CLIPBOARD_def)
    then obtain d where d: "render_border CLIPBOARD c = Some d" "draws c d" using border_drawn [OF r] by blast
    then have "clip_line d = clip_line c" by (auto simp: draws_def clip_line_def)
    then obtain e where "print_clipboard d = Some e" "draws d e"
      using clips_drawn [of d r "[0..<10]"] assms(2) f r draws_keeps(1) [OF d(2)] by (auto simp: print_clipboard_def tool_ok_def)
    then show ?thesis using f d draws_trans [OF d(2)] by (simp add: redraw_tool_def)
  qed
  ultimately show ?thesis by (cases "scrupt_state_flag c = 1"; cases "scrupt_state_flag c = 2") (auto simp: redraw_tool_def draws_refl)
qed

lemma con_step_crtc: "con_ok c \<Longrightarrow> con_step c (set_crtc n a c)"
  by (simp add: set_crtc_def con_step_def)

text \<open>The step of \<^verbatim>\<open>scrup\<close> before the tool window is drawn again.\<close>

lemma scroll_step:
  assumes ok: "con_ok c"
  obtains d where "scrup c = redraw_tool d" "con_step c d"
    "\<And>r k. r < 25 \<Longrightarrow> k < 80 \<Longrightarrow> screen d r k = rows_up (unat (top c)) (unat (bottom c)) (screen c) r k"
    "cy d = cy c" "cx d = cx c"
proof (cases "top c = 0 \<and> bottom c = LINES")
  case True
  let ?c = "scroll_origin c"
  have st: "con_step c ?c" using scroll_origin_spec [OF ok, of 0 0] by simp
  have fr: "cy ?c = cy c" "cx ?c = cx c" by (simp_all add: scroll_origin_def Let_def)
  have "con_ok ?c" using st by (simp add: con_step_def)
  then have "con_step c (set_origin ?c)" unfolding set_origin_def by (intro con_step_trans [OF st] con_step_crtc)
  moreover have "scrup c = redraw_tool (set_origin ?c)" using True by (simp add: scrup_def)
  moreover have "screen (set_origin ?c) = screen ?c"
    by (simp add: set_origin_def set_crtc_def screen_def fun_eq_iff)
  ultimately show ?thesis using that [of "set_origin ?c"] scroll_origin_spec(1) [OF ok] True fr
    by (simp add: set_origin_def set_crtc_def)
next
  case False
  have "scrup c = redraw_tool (scroll_region c)" using False by (auto simp: scrup_def)
  moreover have "cy (scroll_region c) = cy c" "cx (scroll_region c) = cx c" by (simp_all add: scroll_region_def Let_def)
  moreover have "con_step c (scroll_region c)" using scroll_region_spec(2) [OF ok, of 0 0] by simp
  ultimately show ?thesis using scroll_region_spec(1) [OF ok] by (intro that [of "scroll_region c"]) simp_all
qed

lemma scrup_step:
  assumes ok: "con_ok c" and f: "tool_ok c"
  obtains c' where "scrup c = Some c'" "con_step c c'" "cx c' = cx c"
    "\<And>r k. scrupt_state_flag c = 0 \<Longrightarrow> r < 25 \<Longrightarrow> k < 80 \<Longrightarrow>
      screen c' r k = rows_up (unat (top c)) (unat (bottom c)) (screen c) r k"
proof -
  obtain d where d: "scrup c = redraw_tool d" "con_step c d"
    "\<And>r k. r < 25 \<Longrightarrow> k < 80 \<Longrightarrow> screen d r k = rows_up (unat (top c)) (unat (bottom c)) (screen c) r k" "cy d = cy c" "cx d = cx c"
    using scroll_step [OF ok] by metis
  have k: "con_ok d" "tool_ok d" "scrupt_state_flag d = scrupt_state_flag c"
    using d(2) con_step_tools [OF d(2) f] by (simp_all add: con_step_def tools_def)
  obtain c' where c': "redraw_tool d = Some c'" "draws d c'" using redraw_drawn [OF k(1,2)] by blast
  have "con_step d c'" using c'(2) k(1) by (auto simp: draws_def con_step_def)
  moreover have "cx c' = cx c" using c'(2) d(5) by (auto simp: draws_def)
  moreover have "c' = d" if "scrupt_state_flag c = 0" using that c'(1) k(3) by (simp add: redraw_tool_def)
  ultimately show ?thesis using that [of c'] d(1,3) c'(1) con_step_trans [OF d(2)] by metis
qed

lemma lf_step:
  assumes ok: "con_ok c" and f: "tool_ok c"
  obtains c' where "lf c = Some c'" "con_step c c'" "cx c' = cx c"
proof (cases "cy c + 1 < bottom c")
  case True
  obtain r where r: "win c r" "unat (cy c) < 25" and p: "pos c = at (origin c) (80 * unat (cy c) + unat (cx c))"
    and b: "unat (bottom c) \<le> 25" using ok by (rule con_okD)
  have y: "unat (cy c + 1) = unat (cy c) + 1" using r(2) by (intro unat_Suc_small) simp
  then have "unat (cy c) + 1 < 25" using True b by (simp add: word_less_nat_alt)
  moreover have "pos c + 160 = at (origin c) (80 * (unat (cy c) + 1) + unat (cx c))"
    by (simp add: p at_def algebra_simps)
  ultimately have "con_ok (c\<lparr>cy := cy c + 1, pos := pos c + 160\<rparr>)" using ok y by (simp add: con_ok_def)
  then show ?thesis using that True by (simp add: lf_def con_step_def)
next
  case False
  then show ?thesis using that scrup_step [OF assms] by (metis lf_def)
qed

lemma ri_step: "con_ok c \<Longrightarrow> con_step c (ri c)"
proof -
  assume ok: "con_ok c"
  show ?thesis
  proof (cases "top c < cy c")
    case True
    obtain r where r: "win c r" "unat (cy c) < 25" and p: "pos c = at (origin c) (80 * unat (cy c) + unat (cx c))"
      using ok by (rule con_okD)
    have "0 < unat (cy c)" using True by (simp add: word_less_nat_alt)
    then obtain n where n: "unat (cy c) = Suc n" by (cases "unat (cy c)") simp_all
    then have y: "unat (cy c - 1) = n" by (simp add: unat_pred)
    have "pos c = at (origin c) ((80 * n + unat (cx c)) + 80)" by (simp add: p n add.commute add.left_commute)
    then have "pos c - 160 = at (origin c) (80 * n + unat (cx c))" by simp
    then have "con_ok (c\<lparr>cy := cy c - 1, pos := pos c - 160\<rparr>)" using ok y n by (simp add: con_ok_def)
    then show ?thesis using True by (simp add: ri_def con_step_def)
  next
    case False
    then show ?thesis using scrdown_spec(2) [OF ok, of 0 0] by (simp add: ri_def)
  qed
qed

text \<open>Line insertion and deletion borrow the scroll region.\<close>

lemma con_ok_region:
  assumes "con_ok c" and "unat t < unat b" and "unat b \<le> 25"
  shows "con_ok (c\<lparr>top := t, bottom := b\<rparr>)"
  using assms by (simp add: con_ok_def)

lemma line_step:
  assumes ok: "con_ok c" and f: "tool_ok c"
  shows "con_step c (insert_line c)" "\<exists>c'. delete_line c = Some c' \<and> con_step c c'"
proof -
  let ?d = "c\<lparr>top := cy c, bottom := LINES\<rparr>"
  have y: "unat (cy c) < 25" and t: "unat (top c) < unat (bottom c)" "unat (bottom c) \<le> 25"
    using ok by (auto simp: con_ok_def)
  have d: "con_ok ?d" using con_ok_region [OF ok, of "cy c" LINES] y by simp
  have region: "con_step c (e\<lparr>top := top c, bottom := bottom c\<rparr>)" if "con_step ?d e" for e
    using that con_ok_region [OF _ t, of e] by (simp add: con_step_def)
  show "con_step c (insert_line c)"
    unfolding insert_line_def using scrdown_spec(2) [OF d, of 0 0] by (intro region) simp
  have "tool_ok ?d" using f by simp
  then obtain e where "scrup ?d = Some e" "con_step ?d e" using scrup_step [OF d] by metis
  then show "\<exists>c'. delete_line c = Some c' \<and> con_step c c'" using region by (simp add: delete_line_def)
qed

lemma repeat_step:
  assumes f: "\<And>c. con_ok c \<Longrightarrow> tool_ok c \<Longrightarrow> \<exists>c'. f c = Some c' \<and> con_step c c'"
    and "con_ok c" and "tool_ok c"
  shows "\<exists>c'. repeat n f c = Some c' \<and> con_step c c'"
  using assms(2,3)
proof (induction n arbitrary: c)
  case 0
  then show ?case by (simp add: con_step_refl)
next
  case (Suc n)
  obtain d where d: "f c = Some d" "con_step c d" using f [OF Suc.prems] by blast
  then have "con_ok d" "tool_ok d" using Suc.prems(2) con_step_tools [OF d(2)] by (simp_all add: con_step_def)
  from Suc.IH [OF this] obtain e where "repeat n f d = Some e" "con_step d e" by blast
  then show ?case using d con_step_trans [OF d(2)] by simp
qed

section \<open>The escape-sequence machine is safe\<close>

text \<open>\<open>safe f\<close>: from any state of the invariant, with a tool that can be drawn, the step is made.\<close>

definition safe :: "(console \<Rightarrow> console option) \<Rightarrow> bool" where
  "safe f \<longleftrightarrow> (\<forall>c. con_ok c \<longrightarrow> tool_ok c \<longrightarrow> (\<exists>c'. f c = Some c' \<and> con_step c c'))"

lemma safeD: "safe f \<Longrightarrow> con_ok c \<Longrightarrow> tool_ok c \<Longrightarrow> \<exists>c'. f c = Some c' \<and> con_step c c'"
  by (simp add: safe_def)

lemma safe_after: "con_step c d \<Longrightarrow> tool_ok c \<Longrightarrow> safe f \<Longrightarrow> \<exists>c'. f d = Some c' \<and> con_step c c'"
  using safeD [of f d] con_step_trans [of c d] con_step_tools [of c d] by (auto simp: con_step_def)

lemma safe_lf: "safe lf"
  using lf_step by (metis safe_def)

lemma safe_repeats: "safe (csi_at n)" "safe (csi_L n)" "safe (csi_P n)" "safe (csi_M n)"
  unfolding safe_def csi_at_def csi_L_def csi_P_def csi_M_def
  by (intro allI impI repeat_step; simp add: con_step_insert_char line_step)+

lemma wrap_step:
  assumes ok: "con_ok c" and f: "tool_ok c"
    and n: "unat n \<le> 8" and x: "80 \<le> unat (cx c) + unat n" "unat (cx c + n) = unat (cx c) + unat n"
  obtains c' where "wrap_line (c\<lparr>cx := cx c + n, pos := pos c + 2 * n\<rparr>) = Some c'" "con_step c c'"
    "unat (cx c') = unat (cx c) + unat n - 80"
proof -
  have b: "unat (cx c) \<le> 80" "unat (cy c) < 25" and p: "pos c = at (origin c) (80 * unat (cy c) + unat (cx c))"
    using ok by (auto simp: con_ok_def)
  have u: "unat (cx c + n - 80) = unat (cx c) + unat n - 80"
    using x by (simp add: unat_sub word_le_nat_alt)
  let ?A = "unat (cx c) + unat n - 80"
  have e: "(of_nat ?A :: u32) = cx c + n - 80" by (metis u of_nat_unat ucast_id)
  have "at (origin c) (80 * unat (cy c) + ?A) = at (origin c) (80 * unat (cy c)) + 2 * of_nat ?A"
    by (simp add: at_def algebra_simps)
  also have "\<dots> = at (origin c) (80 * unat (cy c)) + 2 * (cx c + n - 80)" by (simp only: e)
  also have "\<dots> = pos c + 2 * n - 160" by (simp add: p at_def algebra_simps)
  finally have "pos c + 2 * n - 160 = at (origin c) (80 * unat (cy c) + ?A)" ..
  then have "con_ok (c\<lparr>cx := cx c + n - 80, pos := pos c + 2 * n - 160\<rparr>)"
    using ok u n b by (simp add: con_ok_def)
  moreover have "tool_ok (c\<lparr>cx := cx c + n - 80, pos := pos c + 2 * n - 160\<rparr>)" using f by simp
  ultimately obtain c' where "lf (c\<lparr>cx := cx c + n - 80, pos := pos c + 2 * n - 160\<rparr>) = Some c'"
    "con_step (c\<lparr>cx := cx c + n - 80, pos := pos c + 2 * n - 160\<rparr>) c'" "cx c' = cx c + n - 80"
    by (rule lf_step) simp
  then show ?thesis using u by (intro that [of c']) (simp_all add: wrap_line_def con_step_def)
qed

lemma put_char_step:
  assumes ok: "con_ok c" and x: "unat (cx c) < 80"
  shows "con_step c (put_char ch c)"
proof -
  obtain r where r: "win c r" and b: "unat (cy c) < 25" and p: "pos c = at (origin c) (80 * unat (cy c) + unat (cx c))"
    using ok by (rule con_okD)
  have "unat (cx c + 1) = unat (cx c) + 1" using x by (intro unat_Suc_small) simp
  then have "con_ok (put_char ch c)" using ok x p by (simp add: con_ok_def put_char_def poke_def)
  moreover have "q \<noteq> pos c" if "outside q" for q
    using outside_win [OF r that, of "80 * unat (cy c) + unat (cx c)"] b x by (simp add: p)
  ultimately show ?thesis by (auto simp: con_step_def put_char_def poke_def)
qed

lemma and_7: "unat (a AND 7 :: u32) = unat a mod 8"
proof -
  have "a AND 7 = take_bit 3 a" by (simp add: take_bit_eq_mask mask_eq_exp_minus_1)
  then show ?thesis by (simp add: unsigned_take_bit_eq take_bit_eq_mod unat_mod)
qed

lemma tab_step: "safe tab"
  unfolding safe_def
proof (intro allI impI)
  fix c assume ok: "con_ok c" and f: "tool_ok c"
  have b: "unat (cx c) \<le> 80" and p: "pos c = at (origin c) (80 * unat (cy c) + unat (cx c))"
    using ok by (auto simp: con_ok_def)
  let ?n = "8 - (cx c AND 7)"
  have "cx c AND 7 \<le> 8" by (simp add: word_le_nat_alt and_7)
  then have n: "unat ?n = 8 - unat (cx c) mod 8" by (simp add: unat_sub and_7)
  have s: "unat (cx c + ?n) = unat (cx c) + unat ?n"
    using n b by (intro unat_add_lem [THEN iffD1]) simp
  show "\<exists>c'. tab c = Some c' \<and> con_step c c'"
  proof (cases "COLUMNS < cx c + ?n")
    case True
    then have "80 \<le> unat (cx c) + unat ?n" using s by (simp add: word_less_nat_alt)
    moreover have "unat ?n \<le> 8" using n by simp
    ultimately obtain c' where "wrap_line (c\<lparr>cx := cx c + ?n, pos := pos c + 2 * ?n\<rparr>) = Some c'" "con_step c c'"
      using wrap_step [OF ok f _ _ s] by blast
    then show ?thesis using True by (simp add: tab_def Let_def push_bit_eq_mult mult.commute)
  next
    case False
    then have "unat (cx c) + unat ?n \<le> 80" using s by (simp add: word_less_nat_alt)
    moreover have "pos c + 2 * ?n = at (origin c) (80 * unat (cy c) + (unat (cx c) + unat ?n))"
      by (simp add: p at_def algebra_simps)
    ultimately have "con_ok (c\<lparr>cx := cx c + ?n, pos := pos c + 2 * ?n\<rparr>)" using ok s by (simp add: con_ok_def)
    then show ?thesis using False by (simp add: tab_def Let_def push_bit_eq_mult mult.commute con_step_def)
  qed
qed

lemma con_plain_step: "safe (con_plain vis era ch)"
  unfolding safe_def
proof (intro allI impI)
  fix c assume ok: "con_ok c" and f: "tool_ok c"
  have b: "unat (cx c) \<le> 80" and p: "pos c = at (origin c) (80 * unat (cy c) + unat (cx c))"
    using ok by (auto simp: con_ok_def)
  have "\<exists>c'. do { c \<leftarrow> (if COLUMNS \<le> cx c then wrap_line c else Some c); Some (put_char ch c) } = Some c' \<and> con_step c c'"
  proof (cases "COLUMNS \<le> cx c")
    case True
    then have x: "unat (cx c) = 80" using b by (simp add: word_le_nat_alt)
    then obtain c1 where w: "wrap_line (c\<lparr>cx := cx c + 0, pos := pos c + 2 * 0\<rparr>) = Some c1" "con_step c c1"
        "unat (cx c1) = 0"
      using wrap_step [OF ok f, of 0] by auto
    have "con_step c1 (put_char ch c1)" using w(2,3) by (intro put_char_step) (simp_all add: con_step_def)
    then show ?thesis using w True con_step_trans [OF w(2)] by simp
  next
    case False
    then show ?thesis using put_char_step [OF ok] by (simp add: word_le_nat_alt)
  qed
  moreover have "con_step c (c\<lparr>cstate := 1\<rparr>)" using ok by (simp add: con_step_def con_ok_state)
  moreover have "\<exists>c'. lf c = Some c' \<and> con_step c c'" "\<exists>c'. tab c = Some c' \<and> con_step c c'"
    using safeD [OF safe_lf ok f] safeD [OF tab_step ok f] by blast+
  moreover have "con_step c (c\<lparr>cx := cx c - 1, pos := pos c - 2\<rparr>)" if x: "cx c \<noteq> 0"
  proof -
    have "0 < unat (cx c)" using x by (simp add: unat_gt_0)
    then obtain n where n: "unat (cx c) = Suc n" by (cases "unat (cx c)") simp_all
    then have "unat (cx c - 1) = n" by (simp add: unat_pred)
    then show ?thesis using ok n by (simp add: con_step_def con_ok_def)
  qed
  ultimately show "\<exists>c'. con_plain vis era ch c = Some c' \<and> con_step c c'"
    using con_step_cr [OF ok] con_step_del [OF ok] con_step_refl [OF ok] by (simp add: con_plain_def)
qed

text \<open>Changing only the parameters of a sequence.\<close>

lemma con_step_par: "con_ok c \<Longrightarrow> con_step c (dec_par i c)" "con_ok c \<Longrightarrow> con_step c (inc_par i c)"
  by (simp_all add: dec_par_def inc_par_def con_step_def)

lemma con_step_region: "con_ok c \<Longrightarrow> con_step c (set_region c)"
proof -
  assume ok: "con_ok c"
  define d where "d = (if par (dec_par 0 c) 1 = 0 then (dec_par 0 c)\<lparr>par := (par (dec_par 0 c))(1 := LINES)\<rparr>
    else dec_par 0 c)"
  have eq: "set_region c = (if par d 0 < par d 1 \<and> par d 1 \<le> LINES then d\<lparr>top := par d 0, bottom := par d 1\<rparr> else d)"
    unfolding set_region_def Let_def d_def ..
  have st: "con_step c d" using con_step_par(1) [OF ok, of 0] by (simp add: con_step_def d_def)
  show ?thesis
  proof (cases "par d 0 < par d 1 \<and> par d 1 \<le> LINES")
    case True
    have "con_ok d" using st by (simp add: con_step_def)
    then have "con_ok (d\<lparr>top := par d 0, bottom := par d 1\<rparr>)"
      using True by (intro con_ok_region) (simp_all add: word_less_nat_alt word_le_nat_alt)
    then have "con_step d (d\<lparr>top := par d 0, bottom := par d 1\<rparr>)" by (simp add: con_step_def)
    then show ?thesis using True con_step_trans [OF st] by (simp add: eq)
  next
    case False
    then have "set_region c = d" unfolding eq by (rule if_not_P)
    then show ?thesis using st by simp
  qed
qed

lemma pick_if: "(P \<Longrightarrow> \<exists>c'. a = Some c' \<and> Q c') \<Longrightarrow> (\<not> P \<Longrightarrow> \<exists>c'. b = Some c' \<and> Q c') \<Longrightarrow>
    \<exists>c'. (if P then a else b) = Some c' \<and> Q c'"
  by simp

lemma some_leaf: "Q d \<Longrightarrow> \<exists>c'. Some d = Some c' \<and> Q c'"
  by simp

lemma con_final_step: "con_ok (c\<lparr>cstate := 0\<rparr>) \<Longrightarrow> tool_ok c \<Longrightarrow>
    \<exists>c'. con_final ch c = Some c' \<and> con_step (c\<lparr>cstate := 0\<rparr>) c'"
proof -
  let ?c = "c\<lparr>cstate := 0\<rparr>"
  assume ok: "con_ok ?c" and f: "tool_ok c"
  have f': "tool_ok ?c" using f by simp
  note up = con_step_par(2) [OF ok, of 0] and down = con_step_par(1) [OF ok, of 0]
  have oku: "con_ok (inc_par 0 ?c)" and okd: "con_ok (dec_par 0 ?c)" using up down by (simp_all add: con_step_def)
  have gu: "con_step ?c (gotoxy x y (inc_par 0 ?c))" for x y
    using con_step_trans [OF up con_step_gotoxy [OF oku]] .
  have gd: "con_step ?c (gotoxy x y (dec_par 0 ?c))" for x y
    using con_step_trans [OF down con_step_gotoxy [OF okd]] .
  have okd2: "con_step ?c (dec_par 1 (dec_par 0 ?c))"
    using con_step_trans [OF down con_step_par(1) [OF okd]] .
  then have gd2: "con_step ?c (gotoxy x y (dec_par 1 (dec_par 0 ?c)))" for x y
    using con_step_trans [OF okd2 con_step_gotoxy] by (simp add: con_step_def)
  have m: "con_step ?c (csi_m ?c)" using ok by (simp add: csi_m_def con_step_def)
  note R = safeD [OF safe_repeats(1) ok f'] safeD [OF safe_repeats(2) ok f'] safeD [OF safe_repeats(3) ok f']
    safeD [OF safe_repeats(4) ok f']
  have J: "con_step ?c (csi_J (par ?c 0) ?c)" "con_step ?c (csi_K (par ?c 0) ?c)" "con_step ?c (set_region ?c)"
    "con_step ?c (save_cur ?c)" "con_step ?c (restore_cur ?c)" "con_step ?c ?c"
    using ok by (rule con_step_csi_J con_step_csi_K con_step_region con_step_save con_step_refl)+
  show ?thesis
    unfolding con_final_def Let_def by (intro pick_if some_leaf; (rule gu gd gd2 m J R)?)
qed

text \<open>The parameter states fall through to the final one.\<close>

lemma con_param_step:
  assumes ok: "con_ok c" and f: "tool_ok c"
  shows "\<exists>c'. con_param ch c = Some c' \<and> con_step c c'"
proof -
  have "con_ok (c\<lparr>cstate := 4, cstate := 0\<rparr>)" using con_ok_state(1) [OF ok, of 0] by simp
  then have "\<exists>c'. con_final ch (c\<lparr>cstate := 4\<rparr>) = Some c' \<and> con_step (c\<lparr>cstate := 0\<rparr>) c'"
    using con_final_step [of "c\<lparr>cstate := 4\<rparr>" ch] f by simp
  then have "\<exists>c'. con_final ch (c\<lparr>cstate := 4\<rparr>) = Some c' \<and> con_step c c'"
    by (simp add: con_step_def)
  moreover have "con_step c (c\<lparr>npar := npar c + 1\<rparr>)" if "npar c < NPAR - 1"
    using that con_ok_state(2) [OF ok, of "npar c + 1"] by (simp add: con_step_def)
  moreover have "con_step c (c\<lparr>par := p\<rparr>)" for p using ok by (simp add: con_step_def)
  ultimately show ?thesis unfolding con_param_def by (intro pick_if some_leaf) simp_all
qed

lemma con_bracket_step:
  assumes ok: "con_ok c" and f: "tool_ok c"
  shows "\<exists>c'. con_bracket ch c = Some c' \<and> con_step c c'"
proof -
  let ?d = "c\<lparr>par := (\<lambda>i. if i < NPAR then 0 else par c i), npar := 0, cstate := 3, ques := (if ch = 63 then 1 else 0)\<rparr>"
  have d: "con_ok ?d" "con_step c ?d" using ok by (simp_all add: con_step_def con_ok_def)
  have "\<exists>c'. con_param ch ?d = Some c' \<and> con_step ?d c'" using con_param_step [OF d(1)] f by simp
  then have "\<exists>c'. con_param ch ?d = Some c' \<and> con_step c c'" using con_step_trans [OF d(2)] by blast
  then show ?thesis unfolding con_bracket_def Let_def using d(2) by (intro pick_if some_leaf) simp_all
qed

lemma con_escape_step:
  assumes ok: "con_ok c" and f: "tool_ok c"
  shows "\<exists>b c'. con_escape ch c = Some (b, c') \<and> con_step c c'"
proof -
  let ?d = "c\<lparr>cstate := 0\<rparr>"
  have d: "con_ok ?d" "con_step c ?d" using ok con_ok_state(1) [OF ok, of 0] by (simp_all add: con_step_def)
  have fd: "tool_ok ?d" using f by simp
  have "con_step c (?d\<lparr>cstate := 2\<rparr>)" using con_ok_state(1) [OF ok, of 2] by (simp add: con_step_def)
  moreover have "con_step c (gotoxy 0 (cy ?d + 1) ?d)" "con_step c (ri ?d)" "con_step c (save_cur ?d)" "con_step c (restore_cur ?d)"
    by (rule con_step_trans [OF d(2)], rule con_step_gotoxy ri_step con_step_save, rule d(1))+
  moreover obtain e where "lf ?d = Some e" "con_step c e" using safe_after [OF d(2) f safe_lf] by blast
  ultimately show ?thesis using d(2) by (auto simp add: con_escape_def Let_def)
qed

text \<open>
  C17: The screen never leaves its memory. Whatever byte the terminal driver hands to the escape-sequence
  machine, in whatever state of a sequence, the machine takes its step, the cursor stays on the
  screen at the address \<^verbatim>\<open>pos\<close>, the scroll region stays inside it, the window inside video memory, no more than
  16 parameters are counted, and no cell outside 0xb8000 to 0xbffff is written. This holds with the tools closed and with one open,
  which every scrolling draws again, under the condition \<open>tool_ok\<close>: the lines of the clipboard and the names of the explorer are
  ended, and the path that the explorer shows has at most 18 characters. (A longer one overruns \<^verbatim>\<open>path[25]\<close> in \<^verbatim>\<open>render_border\<close>.)
  The tools are as they were, so that the condition holds for the next byte too.
\<close>

theorem con_char_safe:
  assumes "con_ok c" and "tool_ok c"
  shows "\<exists>b c'. con_char vis era ch c = Some (b, c') \<and> con_ok c' \<and> tool_ok c' \<and> scrupt_state_flag c' = scrupt_state_flag c \<and>
    (\<forall>p. outside p \<longrightarrow> vram c' p = vram c p)"
proof -
  have "con_ok (c\<lparr>cstate := 0\<rparr>)" using assms(1) by (rule con_ok_state) simp
  then have "cstate c = 4 \<Longrightarrow> False" using assms(1) by (simp add: con_ok_def)
  moreover have "\<exists>c'. con_plain vis era ch c = Some c' \<and> con_step c c'" using con_plain_step assms by (auto simp: safe_def)
  ultimately have "\<exists>b c'. con_char vis era ch c = Some (b, c') \<and> con_step c c'"
    using con_escape_step [OF assms, of ch] con_bracket_step [OF assms, of ch] con_param_step [OF assms, of ch]
      con_step_refl [OF assms(1)] by (auto simp: con_char_def)
  then obtain b c' where "con_char vis era ch c = Some (b, c')" "con_step c c'" by blast
  then show ?thesis using con_step_tools assms(2) by (auto simp: con_step_def tools_def)
qed

lemma console0_ok: "con_ok (con_init 0 24 console0)" "scrupt_state_flag (con_init 0 24 console0) = 0"
proof -
  have "origin console0 = at SCREEN_START (80 * 0)" "scr_end console0 = at SCREEN_START 2000"
    by (simp_all add: console0_def at_def)
  then have "win (con_init 0 24 console0) 0"
    by (simp add: win_def con_init_def gotoxy_def clear_cliboard_def)
  then show "con_ok (con_init 0 24 console0)"
    by (auto simp: con_ok_def con_init_def gotoxy_def clear_cliboard_def console0_def at_def)
  show "scrupt_state_flag (con_init 0 24 console0) = 0"
    by (simp add: con_init_def gotoxy_def clear_cliboard_def console0_def)
qed

text \<open>The screen after \<^verbatim>\<open>con_init\<close>, with the clipboard open on its last row.\<close>

definition clip_console :: console where
  "clip_console = (con_init 0 24 console0)\<lparr>scrupt_state_flag := 2\<rparr>"

lemma clip_console_ok: "con_ok clip_console" "tool_ok clip_console"
proof -
  show "con_ok clip_console" using console0_ok(1) by (simp add: clip_console_def con_ok_def win_def)
  have "strlen_in 20 (clipboard clip_console i) \<noteq> None" if "i < 10" for i
    using that by (auto simp: clip_console_def con_init_def gotoxy_def clear_cliboard_def console0_def strlen_in_def find_None_iff
        intro: exI [of _ 0])
  moreover have "scrupt_state_flag clip_console = 2" by (simp add: clip_console_def)
  ultimately show "tool_ok clip_console" by (simp add: tool_ok_def clip_line_def)
qed

theorem con_char_safe_witness:
  "\<exists>b c'. con_char True 127 10 clip_console = Some (b, c') \<and> con_ok c' \<and> tool_ok c' \<and> vram c' 0x1234 = 0"
proof -
  obtain b c' where c: "con_char True 127 10 clip_console = Some (b, c')" "con_ok c'" "tool_ok c'"
    "\<forall>p. outside p \<longrightarrow> vram c' p = vram clip_console p"
    using con_char_safe [OF clip_console_ok] by blast
  have "outside 0x1234"
  proof -
    have "(0x1234 :: u32) \<noteq> at SCREEN_START i" if "i < 16384" for i
    proof
      assume "0x1234 = at SCREEN_START i"
      then have "unat (0x1234 :: u32) = unat (at SCREEN_START i)" by simp
      moreover have "unat (at SCREEN_START i) = 753664 + 2 * i" using that by (intro unat_at) simp
      ultimately show False by simp
    qed
    then show ?thesis by (simp add: outside_def)
  qed
  moreover have "vram clip_console 0x1234 = 0"
    by (simp add: clip_console_def con_init_def gotoxy_def clear_cliboard_def console0_def)
  ultimately show ?thesis using c by auto
qed

text \<open>
  C18: Scrolling up does the same to the picture however it is done, when no tool window is open (one that is open is
  drawn over the result). Whether \<^verbatim>\<open>scrup\<close> moves the window
  one row on in video memory, copies the whole screen back to the start of video memory when the
  window has reached its end, or copies the rows of a scroll region, the screen afterwards shows
  every row of the region replaced by the one below it, a blank row last, and the rest unchanged.
\<close>

theorem scrup_scrolls:
  assumes "con_ok c" and "scrupt_state_flag c = 0"
  shows "\<exists>c'. scrup c = Some c' \<and> con_ok c' \<and>
    (\<forall>r<25. \<forall>k<80. screen c' r k = rows_up (unat (top c)) (unat (bottom c)) (screen c) r k)"
proof -
  have "tool_ok c" using assms(2) by (simp add: tool_ok_def)
  then obtain c' where "scrup c = Some c'" "con_step c c'"
    "\<And>r k. r < 25 \<Longrightarrow> k < 80 \<Longrightarrow> screen c' r k = rows_up (unat (top c)) (unat (bottom c)) (screen c) r k"
    using scrup_step [OF assms(1)] assms(2) by metis
  then show ?thesis by (auto simp: con_step_def)
qed

theorem scrup_scrolls_witness:
  "\<exists>c'. scrup ((con_init 0 24 console0)\<lparr>vram := (\<lambda>p. if p = at SCREEN_START 85 then 0x741 else 0)\<rparr>) = Some c' \<and>
    screen c' 0 5 = 0x741 \<and> screen c' 24 5 = blank"
proof -
  let ?c = "(con_init 0 24 console0)\<lparr>vram := (\<lambda>p. if p = at SCREEN_START 85 then 0x741 else 0)\<rparr>"
  have o: "origin ?c = SCREEN_START" "unat (top ?c) = 0" "unat (bottom ?c) = 25"
    by (simp_all add: con_init_def gotoxy_def clear_cliboard_def console0_def)
  have "con_ok ?c" "scrupt_state_flag ?c = 0" using console0_ok by simp_all
  from scrup_scrolls [OF this] obtain c' where c': "scrup ?c = Some c'"
    "\<And>r k. r < 25 \<Longrightarrow> k < 80 \<Longrightarrow> screen c' r k = rows_up 0 25 (screen ?c) r k" unfolding o by auto
  have "screen ?c 1 5 = 0x741" by (simp add: screen_def o(1) [simplified])
  then show ?thesis using c' by (intro exI [of _ c']) (simp add: rows_up_def)
qed

end
