(* ===== verification/Kernel.thy ===== *)
theory Kernel
  imports Sched Memory Buffer Console
begin

text \<open>
  The whole kernel state: the process side of theory Task extended by physical memory, the
  buffer cache, the tables of \<^verbatim>\<open>include/linux/fs.h\<close> (in-core inodes, super blocks, open files),
  the terminals and the console, the static \<^verbatim>\<open>cr_flag\<close> of \<^verbatim>\<open>tty_write\<close>, the pages of the task
  structures (the pointers of the array \<^verbatim>\<open>task\<close>) and the global descriptor table.

  The lock of an inode, like that of a buffer, is only held inside one transfer, which the model
  makes in one step; so no lock bit is kept.
\<close>

section \<open>Inodes\<close>

record m_inode =
  i_mode :: u16
  i_uid :: u16
  i_size :: u32
  i_mtime :: u32
  i_gid :: byte
  i_nlinks :: byte
  i_zone :: "nat \<Rightarrow> u16"
  i_atime :: u32
  i_ctime :: u32
  i_dev :: u16
  i_num :: u16
  i_count :: u16
  i_dirt :: byte
  i_pipe :: byte
  i_mount :: byte
  i_seek :: byte
  i_update :: byte
  i_wait :: "nat option"

definition zero_inode :: m_inode where
  "zero_inode = \<lparr>i_mode = 0, i_uid = 0, i_size = 0, i_mtime = 0, i_gid = 0, i_nlinks = 0,
     i_zone = (\<lambda>_. 0), i_atime = 0, i_ctime = 0, i_dev = 0, i_num = 0, i_count = 0,
     i_dirt = 0, i_pipe = 0, i_mount = 0, i_seek = 0, i_update = 0, i_wait = None\<rparr>"

text \<open>File types and permission bits of \<^verbatim>\<open>sys/stat.h\<close>.\<close>

abbreviation S_IFMT :: u16 where "S_IFMT \<equiv> 0xf000"
abbreviation S_IFREG :: u16 where "S_IFREG \<equiv> 0x8000"
abbreviation S_IFBLK :: u16 where "S_IFBLK \<equiv> 0x6000"
abbreviation S_IFDIR :: u16 where "S_IFDIR \<equiv> 0x4000"
abbreviation S_IFCHR :: u16 where "S_IFCHR \<equiv> 0x2000"
abbreviation S_IFIFO :: u16 where "S_IFIFO \<equiv> 0x1000"
abbreviation S_ISVTX :: u16 where "S_ISVTX \<equiv> 0x200"

definition S_ISREG :: "u16 \<Rightarrow> bool" where "S_ISREG m \<longleftrightarrow> m AND S_IFMT = S_IFREG"
definition S_ISDIR :: "u16 \<Rightarrow> bool" where "S_ISDIR m \<longleftrightarrow> m AND S_IFMT = S_IFDIR"
definition S_ISCHR :: "u16 \<Rightarrow> bool" where "S_ISCHR m \<longleftrightarrow> m AND S_IFMT = S_IFCHR"
definition S_ISBLK :: "u16 \<Rightarrow> bool" where "S_ISBLK m \<longleftrightarrow> m AND S_IFMT = S_IFBLK"
definition S_ISFIFO :: "u16 \<Rightarrow> bool" where "S_ISFIFO m \<longleftrightarrow> m AND S_IFMT = S_IFIFO"

section \<open>Super blocks and open files\<close>

record super_block =
  s_ninodes :: u16
  s_nzones :: u16
  s_imap_blocks :: u16
  s_zmap_blocks :: u16
  s_firstdatazone :: u16
  s_log_zone_size :: u16
  s_max_size :: u32
  s_magic :: u16
  s_imap :: "nat \<Rightarrow> nat option"
  s_zmap :: "nat \<Rightarrow> nat option"
  s_dev :: u16
  s_isup :: "nat option"
  s_imount :: "nat option"
  s_time :: u32
  s_rd_only :: byte
  s_dirt :: byte

record file_struct =
  f_mode :: u16
  f_flags :: u16
  f_count :: u16
  f_inode :: "nat option"
  f_pos :: u32

abbreviation NR_INODE :: nat where "NR_INODE \<equiv> 32"
abbreviation NR_FILE :: nat where "NR_FILE \<equiv> 64"
abbreviation NR_SUPER :: nat where "NR_SUPER \<equiv> 8"

section \<open>The state\<close>

record kernel = kproc +
  mm :: mm
  bc :: bcache
  inode_table :: "nat \<Rightarrow> m_inode"
  last_allocated_inode :: nat
  super_block_table :: "nat \<Rightarrow> super_block"
  file_table :: "nat \<Rightarrow> file_struct"
  tty_table :: "nat \<Rightarrow> tty_struct"
  con :: console
  cr_flag :: int
  task_page :: "nat \<Rightarrow> u32"
  gdt :: "nat \<Rightarrow> desc_struct"

definition inode_at :: "kernel \<Rightarrow> nat \<Rightarrow> m_inode" where
  "inode_at k i = inode_table k i"

definition on_inode :: "nat \<Rightarrow> (m_inode \<Rightarrow> m_inode) \<Rightarrow> kernel \<Rightarrow> kernel" where
  "on_inode i f k = k\<lparr>inode_table := (inode_table k)(i := f (inode_table k i))\<rparr>"

definition on_file :: "nat \<Rightarrow> (file_struct \<Rightarrow> file_struct) \<Rightarrow> kernel \<Rightarrow> kernel" where
  "on_file i f k = k\<lparr>file_table := (file_table k)(i := f (file_table k i))\<rparr>"

text \<open>The buffer-cache operations on the kernel state.\<close>

definition kbread :: "u16 \<Rightarrow> nat \<Rightarrow> kernel \<Rightarrow> (nat option \<times> kernel) option" where
  "kbread dev block k = map_option (\<lambda>(r, b). (r, k\<lparr>bc := b\<rparr>)) (bread dev block (bc k))"

definition kgetblk :: "u16 \<Rightarrow> nat \<Rightarrow> kernel \<Rightarrow> (nat \<times> kernel) option" where
  "kgetblk dev block k = map_option (\<lambda>(r, b). (r, k\<lparr>bc := b\<rparr>)) (getblk dev block (bc k))"

definition kbrelse :: "nat option \<Rightarrow> kernel \<Rightarrow> kernel option" where
  "kbrelse bh k = map_option (\<lambda>b. k\<lparr>bc := b\<rparr>) (brelse bh (bc k))"

definition bdata :: "kernel \<Rightarrow> nat \<Rightarrow> cbuf" where
  "bdata k i = b_data (buf (bc k) i)"

text \<open>Store into the data of a buffer and mark it dirty; store only; mark only.\<close>

definition kstore :: "nat \<Rightarrow> (cbuf \<Rightarrow> cbuf) \<Rightarrow> kernel \<Rightarrow> kernel" where
  "kstore i f k = k\<lparr>bc := store i f (bc k)\<rparr>"

definition kdirty :: "nat \<Rightarrow> kernel \<Rightarrow> kernel" where
  "kdirty i k = k\<lparr>bc := mark_dirty i (bc k)\<rparr>"

definition get_super :: "u16 \<Rightarrow> kernel \<Rightarrow> nat option" where
  "get_super dev k = List.find (\<lambda>s. s_dev (super_block_table k s) = dev) [0..<NR_SUPER]"

section \<open>Lemmas\<close>

named_theorems k_simps "reading the kernel state after an operation"

lemma on_inode_sel [k_simps]:
  "inode_at (on_inode i f k) j = (if j = i then f (inode_at k i) else inode_at k j)"
  "bc (on_inode i f k) = bc k" "file_table (on_inode i f k) = file_table k" "mm (on_inode i f k) = mm k"
  "super_block_table (on_inode i f k) = super_block_table k" "task (on_inode i f k) = task k"
  "current (on_inode i f k) = current k" "jiffies (on_inode i f k) = jiffies k"
  "startup_time (on_inode i f k) = startup_time k" "fsmem (on_inode i f k) = fsmem k"
  "last_allocated_inode (on_inode i f k) = last_allocated_inode k"
  by (simp_all add: on_inode_def inode_at_def)

lemma on_file_sel [k_simps]:
  "file_table (on_file i f k) j = (if j = i then f (file_table k i) else file_table k j)"
  "bc (on_file i f k) = bc k" "inode_at (on_file i f k) j = inode_at k j" "mm (on_file i f k) = mm k"
  "super_block_table (on_file i f k) = super_block_table k" "task (on_file i f k) = task k"
  "current (on_file i f k) = current k" "jiffies (on_file i f k) = jiffies k" "fsmem (on_file i f k) = fsmem k"
  by (simp_all add: on_file_def inode_at_def)

lemma get_super_on_inode [k_simps]: "get_super dev (on_inode i f k) = get_super dev k"
  by (simp add: get_super_def k_simps)

text \<open>A small kernel state, on which the properties are tried out: one process, empty tables.\<close>

definition zero_super :: super_block where
  "zero_super = \<lparr>s_ninodes = 0, s_nzones = 0, s_imap_blocks = 0, s_zmap_blocks = 0, s_firstdatazone = 0,
     s_log_zone_size = 0, s_max_size = 0, s_magic = 0, s_imap = (\<lambda>_. None), s_zmap = (\<lambda>_. None),
     s_dev = 0, s_isup = None, s_imount = None, s_time = 0, s_rd_only = 0, s_dirt = 0\<rparr>"

definition zero_file :: file_struct where
  "zero_file = \<lparr>f_mode = 0, f_flags = 0, f_count = 0, f_inode = None, f_pos = 0\<rparr>"

definition small_kernel :: "bcache \<Rightarrow> kernel" where
  "small_kernel b = \<lparr>task = [0 \<mapsto> some_task 0 0 15, 1 \<mapsto> some_task 7 TASK_RUNNING 9], current = 1,
     last_task_used_math = None, jiffies = 500, startup_time = 0, last_pid = 9,
     encryption_key = (\<lambda>_. 0), g_h_key = (\<lambda>_. 0), key_to_use = Global_key, hash_to_use = Global_key,
     enc_table = empty_table (\<lambda>_. 0), fsmem = (\<lambda>_. 0), mm = empty_mm, bc = b,
     inode_table = (\<lambda>_. zero_inode), last_allocated_inode = 0,
     super_block_table = (\<lambda>_. zero_super), file_table = (\<lambda>_. zero_file),
     tty_table = init_tty, con = console0, cr_flag = 0,
     task_page = (\<lambda>_. 0), gdt = (\<lambda>_. \<lparr>da = 0, db = 0\<rparr>)\<rparr>"

end
