(* ===== verification/Bitmap.thy ===== *)
theory Bitmap
  imports Kernel
begin

text \<open>
  The zone bitmap, \<^verbatim>\<open>fs/bitmap.c\<close>: \<^verbatim>\<open>new_block\<close> and \<^verbatim>\<open>free_block\<close> on the bitmap blocks the super
  block keeps in buffers. Mounting sets bit 0, which stands for no zone; bit \<open>n\<close> of bitmap \<open>i\<close> stands for zone
  \<open>n + 8192 * i + s_firstdatazone - 1\<close>. (The inode bitmap is in theory Inode, with the inodes.)
\<close>

section \<open>Bits in a block\<close>

definition map_bit :: "cbuf \<Rightarrow> nat \<Rightarrow> bool" where
  "map_bit d n = bit (d (n div 8)) (n mod 8)"

text \<open>\<^verbatim>\<open>btsl\<close> and \<^verbatim>\<open>btrl\<close>: the result is the old bit for \<^verbatim>\<open>set_bit\<close> and its negation for \<^verbatim>\<open>clear_bit\<close>.\<close>

definition put_bit :: "nat \<Rightarrow> bool \<Rightarrow> cbuf \<Rightarrow> cbuf" where
  "put_bit n v d = d(n div 8 := if v then Bit_Operations.set_bit (n mod 8) (d (n div 8))
     else unset_bit (n mod 8) (d (n div 8)))"

definition find_first_zero :: "cbuf \<Rightarrow> nat" where
  "find_first_zero d = (case List.find (\<lambda>n. \<not> map_bit d n) [0..<8192] of Some n \<Rightarrow> n | None \<Rightarrow> 8192)"

text \<open>The loop \<^verbatim>\<open>for (i=0 ; i<8 ; i++)\<close> over the map buffers: the first with a zero bit, and that bit.\<close>

fun find_map_from :: "(nat \<Rightarrow> nat option) \<Rightarrow> (nat \<Rightarrow> cbuf) \<Rightarrow> nat list \<Rightarrow> (nat \<times> nat \<times> nat) option" where
  "find_map_from maps data [] = None"
| "find_map_from maps data (i # is) =
     (case maps i of None \<Rightarrow> find_map_from maps data is
      | Some bh \<Rightarrow> if find_first_zero (data bh) < 8192 then Some (i, find_first_zero (data bh), bh)
                   else find_map_from maps data is)"

definition find_map :: "(nat \<Rightarrow> nat option) \<Rightarrow> (nat \<Rightarrow> cbuf) \<Rightarrow> (nat \<times> nat \<times> nat) option" where
  "find_map maps data = find_map_from maps data [0..<8]"

section \<open>Zones\<close>

text \<open>
  The first half of \<^verbatim>\<open>free_block\<close> throws away the cached copy of the block; it gives up, keeping the
  count it has just taken, when somebody uses that buffer.
\<close>

definition drop_buffer :: "u16 \<Rightarrow> nat \<Rightarrow> kernel \<Rightarrow> (bool \<times> kernel) option" where
  "drop_buffer dev block k =
     (let (bh, b) = get_hash_table dev block (bc k); k = k\<lparr>bc := b\<rparr> in
      case bh of None \<Rightarrow> Some (True, k)
      | Some i \<Rightarrow>
          if b_count (buf b i) \<noteq> 1 then Some (False, k)
          else do { k \<leftarrow> kbrelse (Some i) (k\<lparr>bc := on_buf i (\<lambda>h. h\<lparr>b_dirt := 0, b_uptodate := 0\<rparr>) b\<rparr>);
                    Some (True, k) })"

definition free_block :: "u16 \<Rightarrow> nat \<Rightarrow> kernel \<Rightarrow> kernel option" where
  "free_block dev block k =
     (case get_super dev k of None \<Rightarrow> panic ''trying to free block on nonexistent device''
      | Some s \<Rightarrow>
        let sb = super_block_table k s in
        if block < unat (s_firstdatazone sb) \<or> unat (s_nzones sb) \<le> block
        then panic ''trying to free block not in datazone''
        else do {
          (free, k) \<leftarrow> drop_buffer dev block k;
          if \<not> free then Some k
          else let nr = block + 1 - unat (s_firstdatazone sb) in
            case s_zmap sb (nr div 8192) of
              None \<Rightarrow> overrun ''NULL s_zmap''
            | Some z \<Rightarrow>
                if \<not> map_bit (bdata k z) (nr mod 8192) then panic ''free_block: bit already cleared''
                else Some (kdirty z (kstore z (put_bit (nr mod 8192) False) k)) })"

definition new_block :: "u16 \<Rightarrow> kernel \<Rightarrow> (nat \<times> kernel) option" where
  "new_block dev k =
     (case get_super dev k of None \<Rightarrow> panic ''trying to get new block from nonexistant device''
      | Some s \<Rightarrow>
        let sb = super_block_table k s in
        case find_map (s_zmap sb) (bdata k) of
          None \<Rightarrow> Some (0, k)
        | Some (i, j, z) \<Rightarrow>
            let k = kdirty z (kstore z (put_bit j True) k);
                j = j + i * 8192 + unat (s_firstdatazone sb) - 1
            in if unat (s_nzones sb) \<le> j then Some (0, k)
               else do {
                 (bh, k) \<leftarrow> kgetblk dev j k;
                 if b_count (buf (bc k) bh) \<noteq> 1 then panic ''new block: count is != 1''
                 else do {
                   k \<leftarrow> kbrelse (Some bh)
                     (k\<lparr>bc := on_buf bh (\<lambda>h. h\<lparr>b_data := (\<lambda>p. if p < 1024 then 0 else b_data h p),
                        b_uptodate := 1, b_dirt := 1\<rparr>) (bc k)\<rparr>);
                   Some (j, k) } })"

section \<open>Lemmas\<close>

lemma map_bit_put_bit: "map_bit (put_bit n v d) m = (if m = n then v else map_bit d m)"
proof (cases "m div 8 = n div 8")
  case True
  then have "m mod 8 = n mod 8 \<longleftrightarrow> m = n" by (metis div_mult_mod_eq)
  moreover have "n mod 8 < LENGTH(8)" by simp
  ultimately show ?thesis using True
    by (cases v) (auto simp: map_bit_def put_bit_def bit_set_bit_iff bit_unset_bit_iff)
next
  case False
  then show ?thesis by (auto simp: map_bit_def put_bit_def)
qed

lemma put_bit_outside: "n < 8192 \<Longrightarrow> 1024 \<le> p \<Longrightarrow> put_bit n v d p = d p"
  by (auto simp: put_bit_def)

lemma find_first_zero_less:
  assumes "find_first_zero d < 8192"
  shows "\<not> map_bit d (find_first_zero d)" "n < find_first_zero d \<Longrightarrow> map_bit d n"
proof -
  obtain m where m: "List.find (\<lambda>n. \<not> map_bit d n) [0..<8192] = Some m"
    using assms by (auto simp: find_first_zero_def split: option.splits)
  then have "m < length [0..<8192]" "\<not> map_bit d m" "\<forall>j<m. map_bit d j"
    by (auto simp: find_Some_iff)
  then show "\<not> map_bit d (find_first_zero d)" "n < find_first_zero d \<Longrightarrow> map_bit d n"
    using m by (auto simp: find_first_zero_def)
qed

lemma find_first_zero_full: "\<not> find_first_zero d < 8192 \<Longrightarrow> n < 8192 \<Longrightarrow> map_bit d n"
  by (auto simp: find_first_zero_def find_None_iff find_Some_iff split: option.splits)

lemma find_map_from_Some:
  "find_map_from maps data is = Some (i, j, z) \<Longrightarrow>
    \<exists>xs ys. is = xs @ i # ys \<and> maps i = Some z \<and> find_first_zero (data z) = j \<and> j < 8192 \<and>
      (\<forall>x\<in>set xs. \<forall>b. maps x = Some b \<longrightarrow> \<not> find_first_zero (data b) < 8192)"
proof (induction "is")
  case Nil
  then show ?case by simp
next
  case (Cons x xs)
  show ?case
  proof (cases "\<exists>b. maps x = Some b \<and> find_first_zero (data b) < 8192")
    case True
    then show ?thesis using Cons.prems by (intro exI [of _ "[]"] exI [of _ xs]) auto
  next
    case False
    then have "find_map_from maps data xs = Some (i, j, z)" using Cons.prems by (auto split: option.splits)
    from Cons.IH [OF this] obtain us vs where "xs = us @ i # vs" "maps i = Some z" "find_first_zero (data z) = j"
      "j < 8192" "\<forall>x\<in>set us. \<forall>b. maps x = Some b \<longrightarrow> \<not> find_first_zero (data b) < 8192" by auto
    then show ?thesis using False by (intro exI [of _ "x # us"] exI [of _ vs]) auto
  qed
qed

lemma find_map_from_None:
  "find_map_from maps data is = None \<Longrightarrow> i \<in> set is \<Longrightarrow> maps i = Some b \<Longrightarrow> \<not> find_first_zero (data b) < 8192"
  by (induction "is") (auto split: option.splits if_splits)

text \<open>Bit \<open>n\<close> of the maps taken together; a map that is not there counts as full.\<close>

definition maps_bit :: "(nat \<Rightarrow> nat option) \<Rightarrow> (nat \<Rightarrow> cbuf) \<Rightarrow> nat \<Rightarrow> bool" where
  "maps_bit maps data n = (case maps (n div 8192) of None \<Rightarrow> True | Some b \<Rightarrow> map_bit (data b) (n mod 8192))"

lemma find_map_Some:
  assumes "find_map maps data = Some (i, j, z)"
  shows "i < 8" "j < 8192" "maps i = Some z" "\<not> map_bit (data z) j" "\<not> maps_bit maps data (j + i * 8192)"
    "n < j + i * 8192 \<Longrightarrow> maps_bit maps data n"
proof -
  obtain xs ys where x: "[0..<8] = xs @ i # ys" "maps i = Some z" "find_first_zero (data z) = j" "j < 8192"
    "\<forall>x\<in>set xs. \<forall>b. maps x = Some b \<longrightarrow> \<not> find_first_zero (data b) < 8192"
    using find_map_from_Some [of maps data "[0..<8]"] assms by (auto simp: find_map_def)
  have len: "length xs < 8" using arg_cong [OF x(1), of length] by simp
  have "[0..<8] ! length xs = i" unfolding x(1) by simp
  then have i: "length xs = i" using len by simp
  have "set xs = {..<i}"
  proof -
    have "xs = take i [0..<8]" unfolding x(1) using i by simp
    also have "\<dots> = [0..<i]" using len i by simp
    finally show ?thesis by (simp add: atLeast0LessThan)
  qed
  show "i < 8" "j < 8192" "maps i = Some z" using len i x by auto
  show "\<not> map_bit (data z) j" using find_first_zero_less(1) [of "data z"] x by auto
  then show "\<not> maps_bit maps data (j + i * 8192)" using x by (simp add: maps_bit_def)
  assume n: "n < j + i * 8192"
  show "maps_bit maps data n"
  proof (cases "n div 8192 < i")
    case True
    then have "n div 8192 \<in> set xs" using \<open>set xs = {..<i}\<close> by simp
    then show ?thesis
      using x(5) find_first_zero_full [of _ "n mod 8192"] by (auto simp: maps_bit_def split: option.split)
  next
    case False
    then have "n div 8192 = i" using n x(4) by (simp add: div_nat_eqI)
    moreover from this have "n mod 8192 < j" using n div_mult_mod_eq [of n 8192] by linarith
    ultimately show ?thesis
      using x find_first_zero_less(2) [of "data z" "n mod 8192"] by (simp add: maps_bit_def)
  qed
qed

lemma find_map_None:
  assumes "find_map maps data = None" and "n < 65536"
  shows "maps_bit maps data n"
proof -
  have "n div 8192 \<in> set [0..<8]" using assms(2) by auto
  then show ?thesis
    using find_map_from_None [of maps data "[0..<8]" "n div 8192"] assms(1) find_first_zero_full [of _ "n mod 8192"]
    by (auto simp: maps_bit_def find_map_def split: option.split)
qed

section \<open>The zones of a mounted device\<close>

text \<open>
  \<open>zones_ok D s k\<close>: super block \<open>s\<close> is that of device \<open>D\<close>, the buffers of its zone bitmaps are held and
  read, lie in front of the data zones, bit 0 is set, and every data zone can be read and written.
\<close>

definition data_zone :: "super_block \<Rightarrow> nat \<Rightarrow> bool" where
  "data_zone sb n \<longleftrightarrow> unat (s_firstdatazone sb) \<le> n \<and> n < unat (s_nzones sb)"

definition held_map :: "u16 \<Rightarrow> super_block \<Rightarrow> bcache \<Rightarrow> nat \<Rightarrow> bool" where
  "held_map D sb b z \<longleftrightarrow> z < nr_buffers b \<and> b_dev (buf b z) = D \<and> b_uptodate (buf b z) \<noteq> 0 \<and>
     b_count (buf b z) \<noteq> 0 \<and> valid b D (unat (b_blocknr (buf b z))) \<and>
     unat (b_blocknr (buf b z)) < unat (s_firstdatazone sb)"

definition zones_ok :: "u16 \<Rightarrow> nat \<Rightarrow> kernel \<Rightarrow> bool" where
  "zones_ok D s k \<longleftrightarrow> get_super D k = Some s \<and> bc_ok D (bc k) \<and>
     0 < unat (s_firstdatazone (super_block_table k s)) \<and>
     (\<forall>i<8. \<forall>z. s_zmap (super_block_table k s) i = Some z \<longrightarrow> held_map D (super_block_table k s) (bc k) z) \<and>
     (\<forall>i<8. \<forall>j<8. \<forall>z. s_zmap (super_block_table k s) i = Some z \<longrightarrow>
        s_zmap (super_block_table k s) j = Some z \<longrightarrow> i = j) \<and>
     maps_bit (s_zmap (super_block_table k s)) (bdata k) 0 \<and>
     (\<forall>n. data_zone (super_block_table k s) n \<longrightarrow> valid (bc k) D n)"

definition zone_used :: "nat \<Rightarrow> kernel \<Rightarrow> nat \<Rightarrow> bool" where
  "zone_used s k n = maps_bit (s_zmap (super_block_table k s)) (bdata k)
     (n + 1 - unat (s_firstdatazone (super_block_table k s)))"

text \<open>No buffer of an unused zone is held, and some buffer is free.\<close>

definition zones_idle :: "u16 \<Rightarrow> nat \<Rightarrow> kernel \<Rightarrow> bool" where
  "zones_idle D s k \<longleftrightarrow> (\<exists>i<nr_buffers (bc k). b_count (buf (bc k) i) = 0) \<and>
     (\<forall>i<nr_buffers (bc k). \<forall>n. holds (bc k) D n i \<longrightarrow> data_zone (super_block_table k s) n \<longrightarrow>
        \<not> zone_used s k n \<longrightarrow> b_count (buf (bc k) i) = 0)"

lemma get_super_bc [k_simps]: "get_super dev (k\<lparr>bc := b\<rparr>) = get_super dev k"
  by (simp add: get_super_def)

lemma kstore_dirty: "kdirty z (kstore z f k) = k\<lparr>bc := mark_dirty z (store z f (bc k))\<rparr>"
  by (simp add: kdirty_def kstore_def)

lemma store_data:
  "b_data (buf (mark_dirty z (store z f b)) y) = (if y = z then f (b_data (buf b z)) else b_data (buf b y))"
  "b_dev (buf (mark_dirty z (store z f b)) y) = b_dev (buf b y)"
  "b_blocknr (buf (mark_dirty z (store z f b)) y) = b_blocknr (buf b y)"
  "b_uptodate (buf (mark_dirty z (store z f b)) y) = b_uptodate (buf b y)"
  by (simp_all add: mark_dirty_def store_def bc_simps)

lemma maps_bit_cong:
  assumes "m < 65536" and "\<And>y. \<exists>i<8. maps i = Some y \<Longrightarrow> data' y = data y"
  shows "maps_bit maps data' m = maps_bit maps data m"
proof (cases "maps (m div 8192)")
  case (Some y)
  have "m div 8192 < 8" using assms(1) by auto
  then have "data' y = data y" using Some by (intro assms(2)) blast
  then show ?thesis using Some by (simp add: maps_bit_def)
qed (simp add: maps_bit_def)

lemma maps_bit_update:
  assumes inj: "\<forall>i<8. \<forall>j<8. \<forall>z. maps i = Some z \<longrightarrow> maps j = Some z \<longrightarrow> i = j"
    and m: "maps (n div 8192) = Some z" and n: "n < 65536" and m': "m < 65536"
    and d: "\<And>y. y \<noteq> z \<Longrightarrow> (\<exists>i<8. maps i = Some y) \<Longrightarrow> data' y = data y"
    and dz: "data' z = put_bit (n mod 8192) v (data z)"
  shows "maps_bit maps data' m = (if m = n then v else maps_bit maps data m)"
proof (cases "maps (m div 8192)")
  case None
  then show ?thesis using m by (auto simp: maps_bit_def)
next
  case (Some y)
  have lt: "m div 8192 < 8" "n div 8192 < 8" using n m' by auto
  show ?thesis
  proof (cases "y = z")
    case True
    then have "m div 8192 = n div 8192" using inj lt m Some by blast
    then have "m = n \<longleftrightarrow> m mod 8192 = n mod 8192" by (metis div_mult_mod_eq)
    then show ?thesis using True Some by (simp add: maps_bit_def dz map_bit_put_bit)
  next
    case False
    then have "data' y = data y" using d Some lt(1) by blast
    moreover have "m \<noteq> n" using False Some m by auto
    ultimately show ?thesis using Some by (simp add: maps_bit_def)
  qed
qed

text \<open>What the bitmaps rely on survives any operation that keeps the held buffers.\<close>

lemma zones_ok_keep:
  assumes ok: "zones_ok D s k" and b': "bc_ok D b'" "nr_buffers b' = nr_buffers (bc k)"
    "hd_part b' = hd_part (bc k)" "bad_block b' = bad_block (bc k)"
    and keep: "\<And>z. held_map D (super_block_table k s) (bc k) z \<Longrightarrow>
      b_dev (buf b' z) = b_dev (buf (bc k) z) \<and> b_blocknr (buf b' z) = b_blocknr (buf (bc k) z) \<and>
      b_uptodate (buf b' z) \<noteq> 0 \<and> b_count (buf b' z) \<noteq> 0"
    and bit0: "maps_bit (s_zmap (super_block_table k s)) (bdata (k\<lparr>bc := b'\<rparr>)) 0"
  shows "zones_ok D s (k\<lparr>bc := b'\<rparr>)"
proof -
  have v: "valid b' = valid (bc k)" using b'(3,4) by (rule valid_cong)
  have "held_map D (super_block_table k s) b' z" if "held_map D (super_block_table k s) (bc k) z" for z
    using keep [OF that] that by (simp add: held_map_def v b'(2))
  then show ?thesis using ok b'(1) bit0 by (simp add: zones_ok_def k_simps v)
qed

definition block_contents :: "u16 \<Rightarrow> kernel \<Rightarrow> nat \<Rightarrow> cbuf" where
  "block_contents D k = view (bc k) D"

text \<open>Nobody gains or loses a buffer, and held buffers keep their block.\<close>

definition steady :: "bcache \<Rightarrow> bcache \<Rightarrow> bool" where
  "steady b b' \<longleftrightarrow> nr_buffers b' = nr_buffers b \<and> (\<forall>y. b_count (buf b' y) = b_count (buf b y) \<and>
     (b_count (buf b y) \<noteq> 0 \<longrightarrow> b_dev (buf b' y) = b_dev (buf b y) \<and> b_blocknr (buf b' y) = b_blocknr (buf b y)))"

lemma zones_idle_steady:
  assumes idle: "zones_idle D s k" and st: "steady (bc k) b'"
    and used: "\<And>n. data_zone (super_block_table k s) n \<Longrightarrow> zone_used s k n \<Longrightarrow>
      \<not> zone_used s (k\<lparr>bc := b'\<rparr>) n \<Longrightarrow> \<forall>i<nr_buffers (bc k). holds (bc k) D n i \<longrightarrow> b_count (buf (bc k) i) = 0"
  shows "zones_idle D s (k\<lparr>bc := b'\<rparr>)"
  unfolding zones_idle_def
proof (intro conjI allI impI)
  show "\<exists>i<nr_buffers (bc (k\<lparr>bc := b'\<rparr>)). b_count (buf (bc (k\<lparr>bc := b'\<rparr>)) i) = 0"
    using idle st by (simp add: zones_idle_def steady_def)
  fix i n
  assume a: "i < nr_buffers (bc (k\<lparr>bc := b'\<rparr>))" "holds (bc (k\<lparr>bc := b'\<rparr>)) D n i"
    "data_zone (super_block_table (k\<lparr>bc := b'\<rparr>) s) n" "\<not> zone_used s (k\<lparr>bc := b'\<rparr>) n"
  show "b_count (buf (bc (k\<lparr>bc := b'\<rparr>)) i) = 0"
  proof (rule ccontr)
    assume c: "b_count (buf (bc (k\<lparr>bc := b'\<rparr>)) i) \<noteq> 0"
    then have "holds (bc k) D n i" "i < nr_buffers (bc k)" "b_count (buf (bc k) i) \<noteq> 0"
      using a st by (auto simp: steady_def holds_def)
    then show False using idle used [of n] a(3,4) by (auto simp: zones_idle_def)
  qed
qed

lemma new_block_spec:
  assumes ok: "zones_ok D s k" and idle: "zones_idle D s k"
  defines "sb \<equiv> super_block_table k s"
  shows "\<exists>n b'. new_block D k = Some (n, k\<lparr>bc := b'\<rparr>) \<and> zones_ok D s (k\<lparr>bc := b'\<rparr>) \<and>
    steady (bc k) b' \<and>
    (if n = 0 then (\<forall>m. data_zone sb m \<longrightarrow> zone_used s k m \<and> zone_used s (k\<lparr>bc := b'\<rparr>) m)
     else data_zone sb n \<and> \<not> zone_used s k n \<and>
       (\<forall>m. data_zone sb m \<longrightarrow> zone_used s (k\<lparr>bc := b'\<rparr>) m = (m = n \<or> zone_used s k m)) \<and>
       (\<forall>m p. data_zone sb m \<longrightarrow> p < 1024 \<longrightarrow>
          view b' D m p = (if m = n then 0 else view (bc k) D m p)))"
proof -
  let ?F = "unat (s_firstdatazone sb)" and ?b0 = "bc k"
  have gs: "get_super D k = Some s" and bco: "bc_ok D ?b0" and F0: "0 < ?F"
    and held: "\<And>i z. i < 8 \<Longrightarrow> s_zmap sb i = Some z \<Longrightarrow> held_map D sb ?b0 z"
    and inj: "\<forall>i<8. \<forall>j<8. \<forall>z. s_zmap sb i = Some z \<longrightarrow> s_zmap sb j = Some z \<longrightarrow> i = j"
    and bit0: "maps_bit (s_zmap sb) (bdata k) 0" and val: "\<And>n. data_zone sb n \<Longrightarrow> valid ?b0 D n"
    using ok by (auto simp: zones_ok_def sb_def)
  have nz: "n + 1 - ?F < 65536" if "data_zone sb n" for n
  proof -
    have "unat (s_nzones sb) < 2 ^ LENGTH(16)" by (rule unsigned_less)
    then show ?thesis using that F0 unfolding data_zone_def by simp linarith
  qed
  show ?thesis
  proof (cases "find_map (s_zmap sb) (bdata k)")
    case None
    then have "new_block D k = Some (0, k\<lparr>bc := ?b0\<rparr>)" by (simp add: new_block_def gs sb_def Let_def)
    moreover have "zone_used s k m" if "data_zone sb m" for m
      using find_map_None [OF None] nz [OF that] by (simp add: zone_used_def sb_def)
    moreover have "steady ?b0 ?b0" by (simp add: steady_def)
    ultimately show ?thesis using ok by (intro exI [of _ 0] exI [of _ ?b0]) simp
  next
    case (Some r)
    then obtain i j z where r: "find_map (s_zmap sb) (bdata k) = Some (i, j, z)" by (cases r) auto
    note fm = find_map_Some [OF r]
    let ?nr = "j + i * 8192" let ?n = "?nr + ?F - 1"
    let ?b1 = "mark_dirty z (store z (put_bit j True) ?b0)" let ?k1 = "k\<lparr>bc := ?b1\<rparr>"
    have nr: "?nr div 8192 = i" "?nr mod 8192 = j" "?nr < 65536" using fm(1,2) by auto
    have nr0: "0 < ?nr" using bit0 fm(5) by (metis neq0_conv)
    have hz: "held_map D sb ?b0 z" using held fm(1,3) by blast
    let ?zb = "unat (b_blocknr (buf ?b0 z))"
    have "holds ?b0 D ?zb z" using hz by (simp add: holds_def held_map_def)
    then have S: "bc_ok D ?b1" "\<And>n. view ?b1 D n = (if n = ?zb then put_bit j True (view ?b0 D ?zb) else view ?b0 D n)"
      "\<And>y. b_count (buf ?b1 y) = b_count (buf ?b0 y)" "nr_buffers ?b1 = nr_buffers ?b0"
      "hd_part ?b1 = hd_part ?b0" "bad_block ?b1 = bad_block ?b0"
      using store_spec [of D ?b0 z ?zb "put_bit j True"] bco hz by (auto simp: held_map_def)
    have maps1: "maps_bit (s_zmap sb) (bdata ?k1) m = (m = ?nr \<or> maps_bit (s_zmap sb) (bdata k) m)" if "m < 65536" for m
      using maps_bit_update [OF inj _ nr(3) that, of z "bdata ?k1" "bdata k" True] fm(3) nr
      by (auto simp: bdata_def store_data)
    have ok1: "zones_ok D s ?k1"
      using S hz maps1 [of 0] bit0 by (intro zones_ok_keep [OF ok]) (auto simp: store_data held_map_def sb_def)
    have used1: "zone_used s ?k1 m = (m = ?n \<or> zone_used s k m)" if "data_zone sb m" for m
      using maps1 [OF nz [OF that]] that F0 by (auto simp: zone_used_def sb_def data_zone_def)
    have nb: "new_block D k = (if unat (s_nzones sb) \<le> ?n then Some (0, ?k1)
        else do { (bh, k) \<leftarrow> kgetblk D ?n ?k1;
                 if b_count (buf (bc k) bh) \<noteq> 1 then panic ''new block: count is != 1''
                 else do {
                   k \<leftarrow> kbrelse (Some bh)
                     (k\<lparr>bc := on_buf bh (\<lambda>h. h\<lparr>b_data := (\<lambda>p. if p < 1024 then 0 else b_data h p),
                        b_uptodate := 1, b_dirt := 1\<rparr>) (bc k)\<rparr>);
                   Some (?n, k) } })"
      unfolding new_block_def gs option.case Let_def r [unfolded sb_def] prod.case kstore_dirty sb_def ..
    show ?thesis
    proof (cases "unat (s_nzones sb) \<le> ?n")
      case True
      have "zone_used s k m" if "data_zone sb m" for m
        using fm(6) that True F0 by (auto simp: zone_used_def sb_def data_zone_def)
      moreover have "steady ?b0 ?b1" using S(3,4) by (simp add: steady_def store_data)
      ultimately show ?thesis using True nb ok1 used1 by (intro exI [of _ 0] exI [of _ ?b1]) simp
    next
      case False
      then have dz: "data_zone sb ?n" using nr0 unfolding data_zone_def by linarith
      have free: "\<not> zone_used s k ?n" using fm(5) F0 nr0 by (simp add: zone_used_def sb_def)
      have v0: "valid ?b0 D ?n" using val [OF dz] .
      then have v1: "valid ?b1 D ?n" using valid_cong [OF S(5,6)] by simp
      then have lt: "?n < 65536" by (simp add: valid_def)
      have "room ?b1 D ?n" using idle S(3,4) by (auto simp: room_def zones_idle_def)
      then obtain t b2 where g: "getblk D ?n ?b1 = Some (t, b2)" using getblk_spec(2) [OF S(1) lt] by auto
      note G = getblk_spec(1) [OF S(1) lt g]
      have t: "t < nr_buffers b2" "holds b2 D ?n t" and sv: "same_view D ?b1 b2" and ok2: "bc_ok D b2"
        and cnt: "\<And>y. b_count (buf b2 y) = b_count (buf ?b1 y) + (if y = t then 1 else 0)" and pin: "pinned ?b1 b2"
        using G by auto
      have t0: "b_count (buf ?b1 t) = 0"
      proof (rule ccontr)
        assume c: "b_count (buf ?b1 t) \<noteq> 0"
        then have "holds ?b1 D ?n t" using pin t(2) by (auto simp: pinned_def holds_def)
        then have "holds ?b0 D ?n t" by (simp add: holds_def store_data)
        moreover have "t < nr_buffers ?b0" using t(1) sv S(4) by (simp add: same_view_def)
        ultimately show False using idle dz free c S(3) by (auto simp: zones_idle_def sb_def)
      qed
      let ?h = "\<lambda>h. h\<lparr>b_data := (\<lambda>p. if p < 1024 then 0 else b_data h p), b_uptodate := 1, b_dirt := 1\<rparr>"
      let ?b3 = "on_buf t ?h b2"
      have v2: "valid b2 D ?n" using v1 sv valid_cong [of b2 ?b1] by (simp add: same_view_def)
      have O: "bc_ok D ?b3" "\<And>n. view ?b3 D n = (if n = ?n then (\<lambda>p. if p < 1024 then 0 else b_data (buf b2 t) p) else view b2 D n)"
        "\<And>y. b_count (buf ?b3 y) = b_count (buf b2 y)" "nr_buffers ?b3 = nr_buffers b2"
        "hd_part ?b3 = hd_part b2" "bad_block ?b3 = bad_block b2"
        using overwrite_spec [where u = "\<lambda>_. 1" and f = "\<lambda>d p. if p < 1024 then 0 else d p", OF ok2 t _ v2] by simp_all
      have c3: "b_count (buf ?b3 t) = 1" using O(3) cnt t0 by simp
      obtain b4 where b4: "brelse (Some t) ?b3 = Some b4" "bc_ok D b4" "same_view D ?b3 b4"
        and c4: "\<forall>y. b_count (buf b4 y) = (if y = t then b_count (buf ?b3 y) - 1 else b_count (buf ?b3 y))"
        using brelse_spec [OF O(1), of t] c3 by auto
      have b4_eq: "b4 = on_buf t (\<lambda>bh. bh\<lparr>b_count := b_count bh - 1\<rparr>) ?b3"
        using b4(1) c3 by (simp add: brelse_def)
      have "b_count (buf b2 t) = 1" using c3 O(3) by simp
      then have res: "new_block D k = Some (?n, k\<lparr>bc := b4\<rparr>)"
        using False nb g b4(1) by (simp add: kgetblk_def kbrelse_def)
      have zt: "y \<noteq> t" if "held_map D sb ?b0 y" for y
        using that t0 S(3) by (auto simp: held_map_def)
      have keep: "b_dev (buf b4 y) = b_dev (buf ?b0 y) \<and> b_blocknr (buf b4 y) = b_blocknr (buf ?b0 y) \<and>
          b_data (buf b4 y) = b_data (buf ?b1 y) \<and> b_uptodate (buf b4 y) \<noteq> 0 \<and> b_count (buf b4 y) \<noteq> 0"
        if y: "held_map D sb ?b0 y" for y
      proof -
        have "b_count (buf ?b1 y) \<noteq> 0" "b_uptodate (buf ?b1 y) \<noteq> 0"
          using y S(3) by (auto simp: held_map_def store_data)
        then have "b_dev (buf b2 y) = b_dev (buf ?b1 y)" "b_blocknr (buf b2 y) = b_blocknr (buf ?b1 y)"
          "b_data (buf b2 y) = b_data (buf ?b1 y)" "b_uptodate (buf b2 y) \<noteq> 0" "b_count (buf b2 y) \<noteq> 0"
          using pin cnt zt [OF y] by (auto simp: pinned_def)
        then show ?thesis using zt [OF y] by (simp add: b4_eq bc_simps store_data)
      qed
      let ?k4 = "k\<lparr>bc := b4\<rparr>"
      have "bdata ?k4 y = bdata ?k1 y" if "\<exists>i<8. s_zmap sb i = Some y" for y
        using keep held that by (auto simp: bdata_def)
      then have maps4: "maps_bit (s_zmap sb) (bdata ?k4) m = maps_bit (s_zmap sb) (bdata ?k1) m" if "m < 65536" for m
        using that by (intro maps_bit_cong) auto
      have ok4: "zones_ok D s ?k4"
        using b4(2,3) sv O(4-6) S(4-6) keep maps4 [of 0] maps1 [of 0] bit0
        by (intro zones_ok_keep [OF ok]) (auto simp: sb_def same_view_def)
      have used4: "zone_used s ?k4 m = (m = ?n \<or> zone_used s k m)" if "data_zone sb m" for m
        using maps4 [OF nz [OF that]] used1 [OF that] by (simp add: zone_used_def sb_def)
      have "view b4 D m p = (if m = ?n then 0 else view ?b0 D m p)" if m: "data_zone sb m" "p < 1024" for m p
      proof -
        have "valid ?b3 D m" "valid ?b1 D m"
          using val [OF m(1)] valid_cong [of ?b3 ?b0] valid_cong [of ?b1 ?b0] O(5,6) S(5,6) sv by (simp_all add: same_view_def)
        then have "view b4 D m p = view ?b3 D m p" "view b2 D m p = view ?b1 D m p"
          using b4(3) sv m(2) by (auto simp: same_view_def)
        moreover have "m \<noteq> ?zb" using hz m(1) by (auto simp: held_map_def data_zone_def)
        ultimately show ?thesis using O(2) S(2) m(2) by simp
      qed
      moreover have "steady ?b0 b4"
      proof -
        have cc: "b_count (buf b4 y) = b_count (buf ?b0 y)" for y
          using c4 O(3) cnt S(3) by simp
        have "b_dev (buf b4 y) = b_dev (buf ?b0 y) \<and> b_blocknr (buf b4 y) = b_blocknr (buf ?b0 y)"
          if "b_count (buf ?b0 y) \<noteq> 0" for y
        proof -
          have "y \<noteq> t" "b_count (buf ?b1 y) \<noteq> 0" using that t0 S(3) by auto
          then show ?thesis using pin by (auto simp: b4_eq bc_simps pinned_def store_data)
        qed
        moreover have "nr_buffers b4 = nr_buffers ?b0" using b4(3) O(4) sv S(4) by (simp add: same_view_def)
        ultimately show ?thesis using cc by (simp add: steady_def)
      qed
      moreover have n0: "?n \<noteq> 0" using dz F0 unfolding data_zone_def by linarith
      ultimately show ?thesis
        using res ok4 used4 dz free by (intro exI [of _ ?n] exI [of _ b4]) (simp only: n0 if_False, blast)
    qed
  qed
qed

lemma kernel_bc_same [simp]: "k\<lparr>bc := bc k\<rparr> = (k :: kernel)"
  by simp

lemma discard_ok:
  assumes ok: "bc_ok D b"
  shows "bc_ok D (on_buf i (\<lambda>h. h\<lparr>b_dirt := 0, b_uptodate := 0\<rparr>) b)"
proof -
  let ?g = "\<lambda>h. h\<lparr>b_dirt := 0, b_uptodate := 0\<rparr>" let ?b = "on_buf i ?g b"
  have q: "queues_ok b" and bo: "\<And>j. j < nr_buffers b \<Longrightarrow> buf_ok D b (buf b j)" and D: "D \<noteq> 0"
    using ok by (auto simp: bc_ok_def)
  have "queues_ok ?b" using q by (rule queues_on_buf [where f = ?g]) simp_all
  moreover have "buf_ok D ?b (buf ?b j)" if "j < nr_buffers b" for j
    using bo [OF that] by (simp add: buf_ok_cong [of ?b b] bc_simps) (auto simp: buf_ok_def)
  ultimately show ?thesis using D by (simp add: bc_ok_def bc_simps)
qed

lemma drop_buffer_ok:
  assumes bco: "bc_ok D (bc k)"
    and unheld: "\<forall>i<nr_buffers (bc k). holds (bc k) D n i \<longrightarrow> b_count (buf (bc k) i) = 0"
  shows "\<exists>b1. drop_buffer D n k = Some (True, k\<lparr>bc := b1\<rparr>) \<and> bc_ok D b1 \<and>
    nr_buffers b1 = nr_buffers (bc k) \<and> hd_part b1 = hd_part (bc k) \<and> bad_block b1 = bad_block (bc k) \<and>
    steady (bc k) b1 \<and> (\<forall>y. \<not> holds (bc k) D n y \<longrightarrow> buf b1 y = buf (bc k) y)"
proof (cases "find_buffer D n (bc k)")
  case None
  then show ?thesis using bco by (intro exI [of _ "bc k"]) (simp add: get_hash_table_def drop_buffer_def steady_def)
next
  case (Some i)
  let ?b0 = "bc k"
  have q: "queues_ok ?b0" "D \<noteq> 0" using bco by (auto simp: bc_ok_def)
  then have i: "i < nr_buffers ?b0" "holds ?b0 D n i" using find_buffer_Some [OF q] Some by auto
  then have c0: "b_count (buf ?b0 i) = 0" using unheld by simp
  let ?b1 = "on_buf i (\<lambda>bh. bh\<lparr>b_count := b_count bh + 1\<rparr>) ?b0"
  let ?b2 = "on_buf i (\<lambda>h. h\<lparr>b_dirt := 0, b_uptodate := 0\<rparr>) ?b1"
  have ok1: "bc_ok D ?b1" using bco by (rule bc_ok_count(1))
  then have ok2: "bc_ok D ?b2" by (rule discard_ok)
  have c: "b_count (buf ?b1 i) = 1" "b_count (buf ?b2 i) = 1" using c0 by (simp_all add: bc_simps)
  obtain b3 where b3: "brelse (Some i) ?b2 = Some b3" "bc_ok D b3" using brelse_spec [OF ok2, of i] c by auto
  have b3_eq: "b3 = on_buf i (\<lambda>bh. bh\<lparr>b_count := b_count bh - 1\<rparr>) ?b2"
    using b3(1) c by (simp add: brelse_def)
  have "drop_buffer D n k = Some (True, k\<lparr>bc := b3\<rparr>)"
    using Some c b3(1) by (simp add: drop_buffer_def get_hash_table_def kbrelse_def)
  moreover have "buf b3 y = buf ?b0 y" if "\<not> holds ?b0 D n y" for y
    using that i(2) by (cases "y = i") (simp_all add: b3_eq bc_simps)
  moreover have "nr_buffers b3 = nr_buffers ?b0" "hd_part b3 = hd_part ?b0" "bad_block b3 = bad_block ?b0"
    by (simp_all add: b3_eq bc_simps)
  moreover have "steady ?b0 b3" using c0 by (simp add: steady_def b3_eq bc_simps)
  ultimately show ?thesis using b3(2) by (intro exI [of _ b3]) simp
qed

lemma free_block_spec:
  assumes ok: "zones_ok D s k"
  defines "sb \<equiv> super_block_table k s"
  assumes n: "data_zone sb n" "zone_used s k n"
    and mp: "s_zmap sb ((n + 1 - unat (s_firstdatazone sb)) div 8192) = Some z"
    and unheld: "\<forall>i<nr_buffers (bc k). holds (bc k) D n i \<longrightarrow> b_count (buf (bc k) i) = 0"
  shows "\<exists>b'. free_block D n k = Some (k\<lparr>bc := b'\<rparr>) \<and> zones_ok D s (k\<lparr>bc := b'\<rparr>) \<and>
    steady (bc k) b' \<and> (\<forall>m. data_zone sb m \<longrightarrow> zone_used s (k\<lparr>bc := b'\<rparr>) m = (m \<noteq> n \<and> zone_used s k m))"
proof -
  let ?F = "unat (s_firstdatazone sb)" and ?b0 = "bc k" let ?nr = "n + 1 - ?F"
  have gs: "get_super D k = Some s" and bco: "bc_ok D ?b0" and F0: "0 < ?F"
    and held: "\<And>i z. i < 8 \<Longrightarrow> s_zmap sb i = Some z \<Longrightarrow> held_map D sb ?b0 z"
    and inj: "\<forall>i<8. \<forall>j<8. \<forall>z. s_zmap sb i = Some z \<longrightarrow> s_zmap sb j = Some z \<longrightarrow> i = j"
    and bit0: "maps_bit (s_zmap sb) (bdata k) 0"
    using ok by (auto simp: zones_ok_def sb_def)
  have q: "queues_ok ?b0" "D \<noteq> 0" using bco by (auto simp: bc_ok_def)
  have nz: "m + 1 - ?F < 65536" if "data_zone sb m" for m
  proof -
    have "unat (s_nzones sb) < 2 ^ LENGTH(16)" by (rule unsigned_less)
    then show ?thesis using that F0 unfolding data_zone_def by simp linarith
  qed
  have hz: "held_map D sb ?b0 z" using held [of "?nr div 8192" z] mp nz [OF n(1)] by simp
  obtain b1 where step: "drop_buffer D n k = Some (True, k\<lparr>bc := b1\<rparr>)"
      and b1: "bc_ok D b1" "nr_buffers b1 = nr_buffers ?b0" "hd_part b1 = hd_part ?b0" "bad_block b1 = bad_block ?b0"
      and st1: "steady ?b0 b1" and keep1: "\<And>y. \<not> holds ?b0 D n y \<Longrightarrow> buf b1 y = buf ?b0 y"
    using drop_buffer_ok [OF bco unheld] by metis
  have nh: "\<not> holds ?b0 D n y" if "held_map D sb ?b0 y" for y
    using that n(1) by (auto simp: held_map_def holds_def data_zone_def)
  have hz1: "held_map D sb b1 z"
    using hz keep1 [OF nh [OF hz]] b1(2) valid_cong [OF b1(3,4)] by (simp add: held_map_def)
  let ?zb = "unat (b_blocknr (buf b1 z))"
  have "holds b1 D ?zb z" using hz1 by (simp add: holds_def held_map_def)
  let ?b2 = "mark_dirty z (store z (put_bit (?nr mod 8192) False) b1)" let ?k2 = "k\<lparr>bc := ?b2\<rparr>"
  have S: "bc_ok D ?b2" "\<And>y. b_count (buf ?b2 y) = b_count (buf b1 y)" "nr_buffers ?b2 = nr_buffers b1"
    "hd_part ?b2 = hd_part b1" "bad_block ?b2 = bad_block b1"
    using store_spec [of D b1 z ?zb] b1(1) hz1 \<open>holds b1 D ?zb z\<close> by (auto simp: held_map_def)
  have data: "bdata ?k2 y = (if y = z then put_bit (?nr mod 8192) False (bdata k z) else bdata k y)"
    if "\<exists>i<8. s_zmap sb i = Some y" for y
    using that keep1 [OF nh] held hz by (auto simp: bdata_def store_data)
  have maps2: "maps_bit (s_zmap sb) (bdata ?k2) m = (m \<noteq> ?nr \<and> maps_bit (s_zmap sb) (bdata k) m)" if "m < 65536" for m
  proof -
    have "?nr div 8192 < 8" using nz [OF n(1)] by auto
    then have dz: "bdata ?k2 z = put_bit (?nr mod 8192) False (bdata k z)" using data [of z] mp by auto
    have "bdata ?k2 y = bdata k y" if "y \<noteq> z" "\<exists>i<8. s_zmap sb i = Some y" for y
      using data [OF that(2)] that(1) by simp
    then show ?thesis
      using maps_bit_update [where data = "bdata k" and data' = "bdata ?k2" and v = False,
        OF inj mp nz [OF n(1)] that _ dz] by simp
  qed
  have nr0: "?nr \<noteq> 0" using n(1) by (simp add: data_zone_def)
  have ok2: "zones_ok D s ?k2"
    using S b1 maps2 [of 0] nr0 bit0 keep1 [OF nh]
    by (intro zones_ok_keep [OF ok]) (auto simp: store_data sb_def held_map_def)
  have used: "zone_used s ?k2 m = (m \<noteq> n \<and> zone_used s k m)" if "data_zone sb m" for m
    using maps2 [OF nz [OF that]] that n(1) by (auto simp: zone_used_def sb_def data_zone_def)
  have "map_bit (bdata k z) (?nr mod 8192)"
    using n(2) mp by (simp add: zone_used_def maps_bit_def sb_def)
  moreover have "b_data (buf b1 z) = bdata k z" using keep1 [OF nh [OF hz]] by (simp add: bdata_def)
  ultimately have "free_block D n k = Some ?k2"
    using n(1) mp step unfolding free_block_def gs
    by (simp add: sb_def [symmetric] Let_def data_zone_def bdata_def kstore_dirty)
  moreover have "steady ?b0 ?b2" using st1 S by (simp add: steady_def store_data)
  ultimately show ?thesis using ok2 used by blast
qed

section \<open>The interface of an allocator\<close>

text \<open>
  Numbers are handed out and taken back; 0 means that none is left. A number that is \<open>busy\<close> must
  not be given back.
\<close>

locale allocator =
  fixes inv :: "'s \<Rightarrow> bool" and item :: "'s \<Rightarrow> nat \<Rightarrow> bool" and used :: "'s \<Rightarrow> nat \<Rightarrow> bool"
    and busy :: "'s \<Rightarrow> nat \<Rightarrow> bool"
    and alloc :: "'s \<Rightarrow> (nat \<times> 's) option" and release :: "nat \<Rightarrow> 's \<Rightarrow> 's option"
  assumes unused_idle: "inv s \<Longrightarrow> item s n \<Longrightarrow> \<not> used s n \<Longrightarrow> \<not> busy s n"
    and alloc: "inv s \<Longrightarrow> \<exists>n s'. alloc s = Some (n, s') \<and> inv s' \<and> item s' = item s \<and> busy s' = busy s \<and>
      (if n = 0 then \<forall>m. item s m \<longrightarrow> used s m \<and> used s' m
       else item s n \<and> \<not> used s n \<and> (\<forall>m. item s m \<longrightarrow> used s' m = (m = n \<or> used s m)))"
    and release: "inv s \<Longrightarrow> item s n \<Longrightarrow> used s n \<Longrightarrow> \<not> busy s n \<Longrightarrow>
      \<exists>s'. release n s = Some s' \<and> inv s' \<and> item s' = item s \<and> busy s' = busy s \<and>
        (\<forall>m. item s m \<longrightarrow> used s' m = (m \<noteq> n \<and> used s m))"
begin

primrec take_many :: "nat \<Rightarrow> 's \<Rightarrow> (nat list \<times> 's) option" where
  "take_many 0 s = Some ([], s)"
| "take_many (Suc c) s = do { (n, s) \<leftarrow> alloc s;
     if n = 0 then Some ([], s) else do { (ns, s) \<leftarrow> take_many c s; Some (n # ns, s) } }"

primrec give_back :: "nat list \<Rightarrow> 's \<Rightarrow> 's option" where
  "give_back [] s = Some s"
| "give_back (n # ns) s = do { s \<leftarrow> release n s; give_back ns s }"

lemma take_many_spec:
  "inv s \<Longrightarrow> \<exists>ns s'. take_many c s = Some (ns, s') \<and> inv s' \<and> item s' = item s \<and> busy s' = busy s \<and>
    distinct ns \<and> (\<forall>n\<in>set ns. item s n \<and> \<not> used s n) \<and>
    (\<forall>m. item s m \<longrightarrow> used s' m = (m \<in> set ns \<or> used s m)) \<and>
    (length ns < c \<longrightarrow> (\<forall>m. item s m \<longrightarrow> used s' m))"
proof (induction c arbitrary: s)
  case 0
  then show ?case by simp
next
  case (Suc c)
  obtain n s1 where a: "alloc s = Some (n, s1)" "inv s1" "item s1 = item s" "busy s1 = busy s"
    "if n = 0 then \<forall>m. item s m \<longrightarrow> used s m \<and> used s1 m
     else item s n \<and> \<not> used s n \<and> (\<forall>m. item s m \<longrightarrow> used s1 m = (m = n \<or> used s m))"
    using alloc [OF Suc.prems] by blast
  show ?case
  proof (cases "n = 0")
    case True
    then show ?thesis using a by (intro exI [of _ "[]"] exI [of _ s1]) simp
  next
    case False
    obtain ns s' where t: "take_many c s1 = Some (ns, s')" "inv s'" "item s' = item s1" "busy s' = busy s1"
      "distinct ns" "\<forall>n\<in>set ns. item s1 n \<and> \<not> used s1 n"
      "\<forall>m. item s1 m \<longrightarrow> used s' m = (m \<in> set ns \<or> used s1 m)"
      "length ns < c \<longrightarrow> (\<forall>m. item s1 m \<longrightarrow> used s' m)"
      using Suc.IH [OF a(2)] by blast
    have "n \<notin> set ns" "\<forall>m\<in>set ns. \<not> used s m" using a(3,5) t(6) False by auto
    then show ?thesis using a t False by (intro exI [of _ "n # ns"] exI [of _ s']) auto
  qed
qed

lemma give_back_spec:
  "inv s \<Longrightarrow> distinct ns \<Longrightarrow> \<forall>n\<in>set ns. item s n \<and> used s n \<and> \<not> busy s n \<Longrightarrow>
    \<exists>s'. give_back ns s = Some s' \<and> inv s' \<and> item s' = item s \<and>
      (\<forall>m. item s m \<longrightarrow> used s' m = (m \<notin> set ns \<and> used s m))"
proof (induction ns arbitrary: s)
  case Nil
  then show ?case by simp
next
  case (Cons n ns)
  obtain s1 where r: "release n s = Some s1" "inv s1" "item s1 = item s" "busy s1 = busy s"
    "\<forall>m. item s m \<longrightarrow> used s1 m = (m \<noteq> n \<and> used s m)"
    using release [of s n] Cons.prems by auto
  have "\<forall>m\<in>set ns. item s1 m \<and> used s1 m \<and> \<not> busy s1 m" using Cons.prems(2,3) r by auto
  then obtain s' where "give_back ns s1 = Some s'" "inv s'" "item s' = item s1"
    "\<forall>m. item s1 m \<longrightarrow> used s' m = (m \<notin> set ns \<and> used s1 m)"
    using Cons.IH [OF r(2)] Cons.prems(2) by auto
  then show ?case using r by (intro exI [of _ s']) auto
qed

lemma take_give:
  assumes "inv s"
  shows "\<exists>ns s1 s2. take_many c s = Some (ns, s1) \<and> give_back ns s1 = Some s2 \<and> distinct ns \<and>
    (\<forall>n\<in>set ns. item s n \<and> \<not> used s n) \<and> (\<forall>m. item s m \<longrightarrow> used s2 m = used s m) \<and>
    (length ns < c \<longrightarrow> (\<forall>m. item s m \<longrightarrow> used s1 m))"
proof -
  obtain ns s1 where t: "take_many c s = Some (ns, s1)" "inv s1" "item s1 = item s" "busy s1 = busy s"
    "distinct ns" "\<forall>n\<in>set ns. item s n \<and> \<not> used s n"
    "\<forall>m. item s m \<longrightarrow> used s1 m = (m \<in> set ns \<or> used s m)"
    "length ns < c \<longrightarrow> (\<forall>m. item s m \<longrightarrow> used s1 m)" using take_many_spec [OF assms] by blast
  then have "\<forall>n\<in>set ns. item s1 n \<and> used s1 n \<and> \<not> busy s1 n" using unused_idle [OF assms] by auto
  from give_back_spec [OF t(2,5) this] obtain s2 where "give_back ns s1 = Some s2"
    "\<forall>m. item s1 m \<longrightarrow> used s2 m = (m \<notin> set ns \<and> used s1 m)" by blast
  then show ?thesis using t by (intro exI [of _ ns] exI [of _ s1] exI [of _ s2]) auto
qed

end

definition zone_inv :: "u16 \<Rightarrow> nat \<Rightarrow> kernel \<Rightarrow> bool" where
  "zone_inv D s k \<longleftrightarrow> zones_ok D s k \<and> zones_idle D s k"

definition mapped_zone :: "nat \<Rightarrow> kernel \<Rightarrow> nat \<Rightarrow> bool" where
  "mapped_zone s k n \<longleftrightarrow> data_zone (super_block_table k s) n \<and>
     s_zmap (super_block_table k s) ((n + 1 - unat (s_firstdatazone (super_block_table k s))) div 8192) \<noteq> None"

definition held_zone :: "u16 \<Rightarrow> kernel \<Rightarrow> nat \<Rightarrow> bool" where
  "held_zone D k n \<longleftrightarrow> (\<exists>i<nr_buffers (bc k). holds (bc k) D n i \<and> b_count (buf (bc k) i) \<noteq> 0)"

lemma held_zone_steady: "steady (bc k) b' \<Longrightarrow> held_zone D (k\<lparr>bc := b'\<rparr>) = held_zone D k"
  by (rule ext) (auto simp: held_zone_def steady_def holds_def)

lemma mapped_zone_bc [simp]: "mapped_zone s (k\<lparr>bc := b'\<rparr>) = mapped_zone s k"
  by (simp add: mapped_zone_def fun_eq_iff)

interpretation zones: allocator "zone_inv D s" "mapped_zone s" "zone_used s" "held_zone D"
  "new_block D" "free_block D" for D s
proof
  fix k n
  assume "zone_inv D s k" "mapped_zone s k n" "\<not> zone_used s k n"
  then show "\<not> held_zone D k n" by (auto simp: zone_inv_def zones_idle_def mapped_zone_def held_zone_def)
next
  fix k
  assume inv: "zone_inv D s k"
  then obtain n b' where n: "new_block D k = Some (n, k\<lparr>bc := b'\<rparr>)" "zones_ok D s (k\<lparr>bc := b'\<rparr>)" "steady (bc k) b'"
    "if n = 0 then \<forall>m. data_zone (super_block_table k s) m \<longrightarrow> zone_used s k m \<and> zone_used s (k\<lparr>bc := b'\<rparr>) m
     else data_zone (super_block_table k s) n \<and> \<not> zone_used s k n \<and>
       (\<forall>m. data_zone (super_block_table k s) m \<longrightarrow> zone_used s (k\<lparr>bc := b'\<rparr>) m = (m = n \<or> zone_used s k m))"
    using new_block_spec [of D s k] unfolding zone_inv_def by (auto split: if_splits)
  have idle: "zones_idle D s (k\<lparr>bc := b'\<rparr>)"
    using inv n(3,4) by (intro zones_idle_steady) (auto simp: zone_inv_def split: if_splits)
  have "mapped_zone s k n" if "n \<noteq> 0"
    using n(4) that by (auto simp: mapped_zone_def zone_used_def maps_bit_def split: option.splits)
  then show "\<exists>n k'. new_block D k = Some (n, k') \<and> zone_inv D s k' \<and> mapped_zone s k' = mapped_zone s k \<and>
      held_zone D k' = held_zone D k \<and>
      (if n = 0 then \<forall>m. mapped_zone s k m \<longrightarrow> zone_used s k m \<and> zone_used s k' m
       else mapped_zone s k n \<and> \<not> zone_used s k n \<and>
         (\<forall>m. mapped_zone s k m \<longrightarrow> zone_used s k' m = (m = n \<or> zone_used s k m)))"
    using n idle held_zone_steady [OF n(3)] by (auto simp: zone_inv_def mapped_zone_def split: if_splits)
next
  fix k n
  assume a: "zone_inv D s k" "mapped_zone s k n" "zone_used s k n" "\<not> held_zone D k n"
  then obtain z where z: "s_zmap (super_block_table k s)
      ((n + 1 - unat (s_firstdatazone (super_block_table k s))) div 8192) = Some z"
    "data_zone (super_block_table k s) n" by (auto simp: mapped_zone_def)
  have un: "\<forall>i<nr_buffers (bc k). holds (bc k) D n i \<longrightarrow> b_count (buf (bc k) i) = 0"
    using a(4) by (auto simp: held_zone_def)
  obtain b' where b': "free_block D n k = Some (k\<lparr>bc := b'\<rparr>)" "zones_ok D s (k\<lparr>bc := b'\<rparr>)" "steady (bc k) b'"
    "\<forall>m. data_zone (super_block_table k s) m \<longrightarrow> zone_used s (k\<lparr>bc := b'\<rparr>) m = (m \<noteq> n \<and> zone_used s k m)"
    using free_block_spec [OF _ z(2) a(3) z(1) un] a(1) by (auto simp: zone_inv_def)
  have "zones_idle D s (k\<lparr>bc := b'\<rparr>)"
    using a(1) b'(3,4) un by (intro zones_idle_steady) (auto simp: zone_inv_def)
  then show "\<exists>k'. free_block D n k = Some k' \<and> zone_inv D s k' \<and> mapped_zone s k' = mapped_zone s k \<and>
      held_zone D k' = held_zone D k \<and>
      (\<forall>m. mapped_zone s k m \<longrightarrow> zone_used s k' m = (m \<noteq> n \<and> zone_used s k m))"
    using b' held_zone_steady [OF b'(3)] by (intro exI [of _ "k\<lparr>bc := b'\<rparr>"]) (auto simp: zone_inv_def mapped_zone_def)
qed

text \<open>Two buffers, the first holding a zone bitmap with bit 0 set; five data zones from 5 on.\<close>

definition map_cache :: bcache where
  "map_cache = small_cache\<lparr>nr_buffers := 2,
     buf := (\<lambda>i. if i = 0 then \<lparr>b_data = (\<lambda>p. if p = 0 then 1 else 0), b_dev = ROOT_DEV, b_blocknr = 3,
                    b_uptodate = 1, b_dirt = 1, b_count = 1\<rparr>
              else \<lparr>b_data = (\<lambda>_. 0), b_dev = 0, b_blocknr = 0, b_uptodate = 0, b_dirt = 0, b_count = 0\<rparr>),
     hash_queue := (\<lambda>h. if h = hashfn ROOT_DEV 3 then [0] else []), free_list := [0, 1]\<rparr>"

definition map_kernel :: kernel where
  "map_kernel = (small_kernel map_cache)\<lparr>super_block_table := (\<lambda>s. if s = 0
     then zero_super\<lparr>s_dev := ROOT_DEV, s_nzones := 10, s_firstdatazone := 5, s_zmap := [0 \<mapsto> 0]\<rparr> else zero_super)\<rparr>"

lemma map_kernel_simps [simp]:
  "bc map_kernel = map_cache" "super_block_table map_kernel 0 =
    zero_super\<lparr>s_dev := ROOT_DEV, s_nzones := 10, s_firstdatazone := 5, s_zmap := [0 \<mapsto> 0]\<rparr>"
  by (simp_all add: map_kernel_def small_kernel_def)

lemma map_cache_valid: "valid map_cache = valid small_cache"
  by (rule valid_cong) (simp_all add: map_cache_def)

lemma map_cache_ok: "bc_ok ROOT_DEV map_cache"
proof -
  have "queues_ok map_cache"
  proof -
    have fl: "free_list map_cache = [0, 1]" "nr_buffers map_cache = 2"
      "hash_queue map_cache h = (if h = hashfn ROOT_DEV 3 then [0] else [])"
      "b_dev (buf map_cache i) = (if i = 0 then ROOT_DEV else 0)" for h i
      by (simp_all add: map_cache_def)
    have bh: "bhash map_cache 0 = hashfn ROOT_DEV 3" by (simp add: bhash_def map_cache_def)
    show ?thesis
      unfolding queues_ok_def fl
    proof (intro conjI allI impI)
      show "(i \<in> set (if h = hashfn ROOT_DEV 3 then [0] else [])) =
          (i < 2 \<and> (if i = 0 then ROOT_DEV else 0) \<noteq> 0 \<and> bhash map_cache i = h)" for h i
        by (cases "i = 0") (auto simp: bh simp del: hashfn_def)
    qed (auto split: if_splits)
  qed
  moreover have "valid map_cache ROOT_DEV 3" by (simp add: map_cache_valid small_cache_valid)
  ultimately show ?thesis by (auto simp: bc_ok_def buf_ok_def map_cache_def)
qed

lemma map_kernel_ok: "zone_inv ROOT_DEV 0 map_kernel"
proof -
  have "get_super ROOT_DEV map_kernel = Some 0"
    by (simp add: get_super_def upt_conv_Cons)
  moreover have "valid map_cache ROOT_DEV n" if "n < 10" for n
    using that by (simp add: map_cache_valid small_cache_valid)
  moreover have "maps_bit [0 \<mapsto> 0] (bdata map_kernel) 0"
    by (simp add: maps_bit_def map_bit_def bdata_def map_cache_def)
  ultimately have "zones_ok ROOT_DEV 0 map_kernel"
    using map_cache_ok by (auto simp: zones_ok_def data_zone_def held_map_def zero_super_def)
      (simp_all add: map_cache_def)
  moreover have "zones_idle ROOT_DEV 0 map_kernel"
  proof -
    have c: "nr_buffers map_cache = 2" "b_count (buf map_cache i) = (if i = 0 then 1 else 0)"
      "b_blocknr (buf map_cache 0) = 3" for i by (simp_all add: map_cache_def)
    have F: "unat (s_firstdatazone (super_block_table map_kernel 0)) = 5" by (simp add: zero_super_def)
    show ?thesis
      unfolding zones_idle_def
    proof (intro conjI allI impI)
      show "\<exists>i<nr_buffers (bc map_kernel). b_count (buf (bc map_kernel) i) = 0"
        by (intro exI [of _ 1]) (simp add: c)
      show "b_count (buf (bc map_kernel) i) = 0"
        if "holds (bc map_kernel) ROOT_DEV n i" "data_zone (super_block_table map_kernel 0) n" for i n
        using that c F by (cases "i = 0") (auto simp: holds_def data_zone_def)
    qed
  qed
  ultimately show ?thesis by (simp add: zone_inv_def)
qed

lemma map_kernel_free: "\<not> zone_used 0 map_kernel 5"
  by (simp add: zone_used_def maps_bit_def map_bit_def bdata_def map_cache_def zero_super_def)

section \<open>Properties\<close>

text \<open>
  C6: \<^verbatim>\<open>new_block\<close> gives a zone of the data area that was free, marks it and no other zone used, and
  fills it with zeros; the contents of all other zones stay. It gives 0 only when every zone
  is in use.
\<close>

theorem new_block_allocates:
  assumes "zones_ok D s k" and "zones_idle D s k"
  shows "\<exists>n k'. new_block D k = Some (n, k') \<and>
    (if n = 0 then \<forall>m. data_zone (super_block_table k s) m \<longrightarrow> zone_used s k m
     else data_zone (super_block_table k s) n \<and> \<not> zone_used s k n \<and>
       (\<forall>m. data_zone (super_block_table k s) m \<longrightarrow> zone_used s k' m = (m = n \<or> zone_used s k m)) \<and>
       (\<forall>m p. data_zone (super_block_table k s) m \<longrightarrow> p < 1024 \<longrightarrow>
          block_contents D k' m p = (if m = n then 0 else block_contents D k m p)))"
  using new_block_spec [OF assms] by (auto simp: block_contents_def split: if_splits) metis

theorem new_block_allocates_witness:
  "\<exists>n k'. new_block ROOT_DEV map_kernel = Some (n, k') \<and> 5 \<le> n \<and> n < 10 \<and> zone_used 0 k' n \<and>
    block_contents ROOT_DEV k' n 700 = 0"
proof -
  have inv: "zones_ok ROOT_DEV 0 map_kernel" "zones_idle ROOT_DEV 0 map_kernel"
    using map_kernel_ok by (simp_all add: zone_inv_def)
  have "data_zone (super_block_table map_kernel 0) 5" by (simp add: data_zone_def zero_super_def)
  then show ?thesis
    using new_block_allocates [OF inv] map_kernel_free by (auto simp: data_zone_def zero_super_def split: if_splits)
qed

text \<open>
  C8: Taking any number of zones with \<^verbatim>\<open>new_block\<close> gives pairwise different ones, none of them in use
  before, and giving them back with \<^verbatim>\<open>free_block\<close> succeeds and restores the bitmap.
\<close>

theorem zones_take_give:
  assumes "zone_inv D s k"
  shows "\<exists>ns k1 k2. zones.take_many D c k = Some (ns, k1) \<and> zones.give_back D ns k1 = Some k2 \<and> distinct ns \<and>
    (\<forall>n\<in>set ns. mapped_zone s k n \<and> \<not> zone_used s k n) \<and>
    (\<forall>m. mapped_zone s k m \<longrightarrow> zone_used s k2 m = zone_used s k m) \<and>
    (length ns < c \<longrightarrow> (\<forall>m. mapped_zone s k m \<longrightarrow> zone_used s k1 m))"
  using assms by (rule zones.take_give)

theorem zones_take_give_witness:
  "\<exists>ns k1 k2. zones.take_many ROOT_DEV 3 map_kernel = Some (ns, k1) \<and> distinct ns \<and>
    zones.give_back ROOT_DEV ns k1 = Some k2 \<and> \<not> zone_used 0 k2 5"
proof -
  have "mapped_zone 0 map_kernel 5" by (simp add: mapped_zone_def data_zone_def zero_super_def)
  then show ?thesis using zones_take_give [OF map_kernel_ok, of 3] map_kernel_free by blast
qed

end
