(* ===== verification/Inode.thy ===== *)
theory Inode
  imports Bitmap
begin

text \<open>
  Inodes: the inode bitmap (\<^verbatim>\<open>new_inode\<close>, \<^verbatim>\<open>free_inode\<close> of \<^verbatim>\<open>fs/bitmap.c\<close>), the in-core inode table and
  the block map of a file (\<^verbatim>\<open>fs/inode.c\<close>), and \<^verbatim>\<open>fs/truncate.c\<close>.

  An inode is an index into \<^verbatim>\<open>inode_table\<close>. Its lock is only held inside one transfer, so
  \<^verbatim>\<open>wait_on_inode\<close> never waits and the second looks the code takes after it find what the first
  found. The queue \<^verbatim>\<open>i_wait\<close> is only used for pipes (theory Pipe).
\<close>

section \<open>Inodes on the disk\<close>

abbreviation INODES_PER_BLOCK :: nat where "INODES_PER_BLOCK \<equiv> 32"

text \<open>
  \<^verbatim>\<open>struct d_inode\<close> takes 32 bytes: mode 0, uid 2, size 4, time 8, gid 12, nlinks 13, zones 14 to 31.
  The in-core inode starts with the same fields.
\<close>

fun put_zones :: "nat \<Rightarrow> nat \<Rightarrow> (nat \<Rightarrow> u16) \<Rightarrow> cbuf \<Rightarrow> cbuf" where
  "put_zones p 0 z d = d"
| "put_zones p (Suc n) z d = put16 (p + 2 * n) (z n) (put_zones p n z d)"

definition put_dinode :: "nat \<Rightarrow> m_inode \<Rightarrow> cbuf \<Rightarrow> cbuf" where
  "put_dinode p i d = put_zones (p + 14) 9 (i_zone i) ((put32 (p + 8) (i_mtime i) (put32 (p + 4) (i_size i)
     (put16 (p + 2) (i_uid i) (put16 p (i_mode i) d))))(p + 12 := i_gid i, p + 13 := i_nlinks i))"

definition get_dinode :: "cbuf \<Rightarrow> nat \<Rightarrow> m_inode \<Rightarrow> m_inode" where
  "get_dinode d p i = i\<lparr>i_mode := get16 d p, i_uid := get16 d (p + 2), i_size := get32 d (p + 4),
     i_mtime := get32 d (p + 8), i_gid := d (p + 12), i_nlinks := d (p + 13),
     i_zone := (\<lambda>n. if n < 9 then get16 d (p + 14 + 2 * n) else i_zone i n)\<rparr>"

text \<open>The block of inode \<open>nr\<close> and its offset there; \<^verbatim>\<open>sizeof\<close> makes the division unsigned.\<close>

definition inode_index :: "u16 \<Rightarrow> nat" where
  "inode_index nr = unat ((ucast nr :: u32) - 1)"

definition inode_block :: "super_block \<Rightarrow> u16 \<Rightarrow> nat" where
  "inode_block sb nr = 2 + unat (s_imap_blocks sb) + unat (s_zmap_blocks sb) + inode_index nr div INODES_PER_BLOCK"

definition inode_offset :: "u16 \<Rightarrow> nat" where
  "inode_offset nr = 32 * (inode_index nr mod INODES_PER_BLOCK)"

definition read_inode :: "nat \<Rightarrow> kernel \<Rightarrow> kernel option" where
  "read_inode i k =
     (case get_super (i_dev (inode_at k i)) k of None \<Rightarrow> overrun ''NULL super block''
      | Some s \<Rightarrow> do {
          (bh, k) \<leftarrow> kbread (i_dev (inode_at k i)) (inode_block (super_block_table k s) (i_num (inode_at k i))) k;
          case bh of None \<Rightarrow> panic ''unable to read i-node block''
          | Some b \<Rightarrow> kbrelse (Some b)
              (on_inode i (get_dinode (bdata k b) (inode_offset (i_num (inode_at k i)))) k) })"

definition write_inode :: "nat \<Rightarrow> kernel \<Rightarrow> kernel option" where
  "write_inode i k =
     (case get_super (i_dev (inode_at k i)) k of None \<Rightarrow> overrun ''NULL super block''
      | Some s \<Rightarrow> do {
          (bh, k) \<leftarrow> kbread (i_dev (inode_at k i)) (inode_block (super_block_table k s) (i_num (inode_at k i))) k;
          case bh of None \<Rightarrow> panic ''unable to read i-node block''
          | Some b \<Rightarrow> kbrelse (Some b) (on_inode i (\<lambda>n. n\<lparr>i_dirt := 0\<rparr>)
              (kdirty b (kstore b (put_dinode (inode_offset (i_num (inode_at k i))) (inode_at k i)) k))) })"

primrec sync_inodes_from :: "nat list \<Rightarrow> kernel \<Rightarrow> kernel option" where
  "sync_inodes_from [] k = Some k"
| "sync_inodes_from (i # is) k =
     (if i_dirt (inode_at k i) \<noteq> 0 \<and> i_pipe (inode_at k i) = 0
      then do { k \<leftarrow> write_inode i k; sync_inodes_from is k } else sync_inodes_from is k)"

definition sync_inodes :: "kernel \<Rightarrow> kernel option" where
  "sync_inodes k = sync_inodes_from [0..<NR_INODE] k"

section \<open>The blocks of a file\<close>

text \<open>A slot of \<^verbatim>\<open>i_zone\<close>, filled with a new block when the caller creates and the slot is empty.\<close>

definition zone_slot :: "bool \<Rightarrow> nat \<Rightarrow> nat \<Rightarrow> kernel \<Rightarrow> kernel option" where
  "zone_slot create i n k =
     (if create \<and> i_zone (inode_at k i) n = 0
      then do { (b, k) \<leftarrow> new_block (i_dev (inode_at k i)) k;
                let k = on_inode i (\<lambda>x. x\<lparr>i_zone := (i_zone x)(n := of_nat b)\<rparr>) k;
                if (of_nat b :: u16) \<noteq> 0
                then Some (on_inode i (\<lambda>x. x\<lparr>i_ctime := CURRENT_TIME k, i_dirt := 1\<rparr>) k) else Some k }
      else Some k)"

text \<open>
  Entry \<open>n\<close> of the indirect block \<open>block\<close>, filled with a new block likewise; 0 when the indirect
  block cannot be read.
\<close>

definition ind_entry :: "bool \<Rightarrow> u16 \<Rightarrow> nat \<Rightarrow> nat \<Rightarrow> kernel \<Rightarrow> (nat \<times> kernel) option" where
  "ind_entry create dev block n k =
     do { (bh, k) \<leftarrow> kbread dev block k;
          case bh of None \<Rightarrow> Some (0, k)
          | Some b \<Rightarrow> do {
              (i, k) \<leftarrow> (let i = unat (get16 (bdata k b) (2 * n)) in
                 if create \<and> i = 0
                 then do { (i, k) \<leftarrow> new_block dev k;
                           if i \<noteq> 0 then Some (i, kdirty b (kstore b (put16 (2 * n) (of_nat i)) k))
                           else Some (i, k) }
                 else Some (i, k));
              k \<leftarrow> kbrelse (Some b) k;
              Some (i, k) } }"

definition bmap_at :: "nat \<Rightarrow> int \<Rightarrow> bool \<Rightarrow> kernel \<Rightarrow> (nat \<times> kernel) option" where
  "bmap_at i block create k =
     (if block < 0 then panic ''_bmap: block<0''
      else if 7 + 512 + 512 * 512 \<le> block then panic ''_bmap: block>big''
      else if block < 7 then
        do { k \<leftarrow> zone_slot create i (nat block) k;
             Some (unat (i_zone (inode_at k i) (nat block)), k) }
      else let block = nat block - 7 in
      if block < 512 then
        do { k \<leftarrow> zone_slot create i 7 k;
             if i_zone (inode_at k i) 7 = 0 then Some (0, k)
             else ind_entry create (i_dev (inode_at k i)) (unat (i_zone (inode_at k i) 7)) block k }
      else let block = block - 512 in
        do { k \<leftarrow> zone_slot create i 8 k;
             if i_zone (inode_at k i) 8 = 0 then Some (0, k)
             else do {
               (n, k) \<leftarrow> ind_entry create (i_dev (inode_at k i)) (unat (i_zone (inode_at k i) 8)) (block div 512) k;
               if n = 0 then Some (0, k)
               else ind_entry create (i_dev (inode_at k i)) n (block mod 512) k } })"

definition bmap :: "nat \<Rightarrow> int \<Rightarrow> kernel \<Rightarrow> (nat \<times> kernel) option" where
  "bmap i block k = bmap_at i block False k"

definition create_block :: "nat \<Rightarrow> int \<Rightarrow> kernel \<Rightarrow> (nat \<times> kernel) option" where
  "create_block i block k = bmap_at i block True k"

section \<open>Truncation\<close>

text \<open>The loop over the entries of an indirect block, \<open>free\<close> being \<^verbatim>\<open>free_block\<close> or \<^verbatim>\<open>free_ind\<close>.\<close>

primrec free_each :: "(nat \<Rightarrow> kernel \<Rightarrow> kernel option) \<Rightarrow> nat \<Rightarrow> nat list \<Rightarrow> kernel \<Rightarrow> kernel option" where
  "free_each free b [] k = Some k"
| "free_each free b (n # ns) k =
     (let p = unat (get16 (bdata k b) (2 * n)) in
      if p \<noteq> 0 then do { k \<leftarrow> free p k; free_each free b ns k } else free_each free b ns k)"

definition free_ind :: "u16 \<Rightarrow> nat \<Rightarrow> kernel \<Rightarrow> kernel option" where
  "free_ind dev block k =
     (if block = 0 then Some k
      else do {
        (bh, k) \<leftarrow> kbread dev block k;
        k \<leftarrow> (case bh of None \<Rightarrow> Some k
             | Some b \<Rightarrow> do { k \<leftarrow> free_each (free_block dev) b [0..<512] k; kbrelse (Some b) k });
        free_block dev block k })"

definition free_dind :: "u16 \<Rightarrow> nat \<Rightarrow> kernel \<Rightarrow> kernel option" where
  "free_dind dev block k =
     (if block = 0 then Some k
      else do {
        (bh, k) \<leftarrow> kbread dev block k;
        k \<leftarrow> (case bh of None \<Rightarrow> Some k
             | Some b \<Rightarrow> do { k \<leftarrow> free_each (free_ind dev) b [0..<512] k; kbrelse (Some b) k });
        free_block dev block k })"

primrec free_direct :: "nat \<Rightarrow> nat list \<Rightarrow> kernel \<Rightarrow> kernel option" where
  "free_direct i [] k = Some k"
| "free_direct i (n # ns) k =
     (if i_zone (inode_at k i) n \<noteq> 0
      then do { k \<leftarrow> free_block (i_dev (inode_at k i)) (unat (i_zone (inode_at k i) n)) k;
                free_direct i ns (on_inode i (\<lambda>x. x\<lparr>i_zone := (i_zone x)(n := 0)\<rparr>) k) }
      else free_direct i ns k)"

definition truncate :: "nat \<Rightarrow> kernel \<Rightarrow> kernel option" where
  "truncate i k =
     (if \<not> (S_ISREG (i_mode (inode_at k i)) \<or> S_ISDIR (i_mode (inode_at k i))) then Some k
      else do {
        k \<leftarrow> free_direct i [0..<7] k;
        k \<leftarrow> free_ind (i_dev (inode_at k i)) (unat (i_zone (inode_at k i) 7)) k;
        k \<leftarrow> free_dind (i_dev (inode_at k i)) (unat (i_zone (inode_at k i) 8)) k;
        Some (on_inode i (\<lambda>x. x\<lparr>i_zone := (i_zone x)(7 := 0, 8 := 0), i_size := 0, i_dirt := 1,
          i_mtime := CURRENT_TIME k, i_ctime := CURRENT_TIME k\<rparr>) k) })"

section \<open>The inode table\<close>

text \<open>\<^verbatim>\<open>memset(inode,0,sizeof(*inode))\<close>.\<close>

definition clear_inode :: "nat \<Rightarrow> kernel \<Rightarrow> kernel" where
  "clear_inode i k = on_inode i (\<lambda>_. zero_inode) k"

definition free_inode :: "nat option \<Rightarrow> kernel \<Rightarrow> kernel option" where
  "free_inode inode k =
     (case inode of None \<Rightarrow> Some k
      | Some i \<Rightarrow>
        let n = inode_at k i in
        if i_dev n = 0 then Some (clear_inode i k)
        else if 1 < i_count n then panic ''free_inode''
        else if i_nlinks n \<noteq> 0 then panic ''trying to free inode with links''
        else case get_super (i_dev n) k of
          None \<Rightarrow> panic ''trying to free inode on nonexistent device''
        | Some s \<Rightarrow>
            let sb = super_block_table k s in
            if i_num n < 1 \<or> s_ninodes sb < i_num n then panic ''trying to free inode 0 or nonexistant inode''
            else case s_imap sb (unat (i_num n) div 8192) of
              None \<Rightarrow> panic ''nonexistent imap in superblock''
            | Some b \<Rightarrow>
                if \<not> map_bit (bdata k b) (unat (i_num n) mod 8192) then panic ''free_inode: bit already cleared''
                else Some (clear_inode i (kdirty b (kstore b (put_bit (unat (i_num n) mod 8192) False) k))))"

text \<open>
  \<^verbatim>\<open>iput\<close>. The jump back to \<open>repeat\<close> after the inode has been written finds it clean.
\<close>

definition count_down :: "nat \<Rightarrow> kernel \<Rightarrow> kernel" where
  "count_down i k = on_inode i (\<lambda>n. n\<lparr>i_count := i_count n - 1\<rparr>) k"

definition put_wait :: "nat \<Rightarrow> nat option \<Rightarrow> kernel \<Rightarrow> kernel" where
  "put_wait i head k = on_inode i (\<lambda>n. n\<lparr>i_wait := head\<rparr>) k"

definition wake_readers :: "nat \<Rightarrow> kernel \<Rightarrow> kernel" where
  "wake_readers i k = (let (head, k) = wake_up (i_wait (inode_at k i)) k in put_wait i head k)"

definition iput :: "nat option \<Rightarrow> kernel \<Rightarrow> kernel option" where
  "iput inode k =
     (case inode of None \<Rightarrow> Some k
      | Some i \<Rightarrow>
        let n = inode_at k i in
        if i_count n = 0 then panic ''iput: trying to free free inode''
        else if i_pipe n \<noteq> 0 then
          let k = count_down i (wake_readers i k) in
          if i_count (inode_at k i) \<noteq> 0 then Some k
          else do { m \<leftarrow> free_page (i_size n) (mm k);
                    Some (on_inode i (\<lambda>n. n\<lparr>i_count := 0, i_dirt := 0, i_pipe := 0\<rparr>) (k\<lparr>mm := m\<rparr>)) }
        else if i_dev n = 0 \<or> 1 < i_count n then Some (count_down i k)
        else if i_nlinks n = 0 then do { k \<leftarrow> truncate i k; free_inode (Some i) k }
        else do { k \<leftarrow> (if i_dirt n \<noteq> 0 then write_inode i k else Some k);
                  Some (count_down i k) })"

text \<open>The search goes once round the table, from the last slot given out.\<close>

definition free_slot :: "kernel \<Rightarrow> nat option" where
  "free_slot k = List.find (\<lambda>i. i_count (inode_at k i) = 0)
     ([last_allocated_inode k..<NR_INODE] @ [0..<last_allocated_inode k])"

definition get_empty_inode :: "kernel \<Rightarrow> (nat \<times> kernel) option" where
  "get_empty_inode k =
     (case free_slot k of None \<Rightarrow> panic ''No free inodes in mem''
      | Some i \<Rightarrow> do {
          let k = k\<lparr>last_allocated_inode := i\<rparr>;
          k \<leftarrow> (if i_dirt (inode_at k i) \<noteq> 0 then write_inode i k else Some k);
          Some (i, on_inode i (\<lambda>n. n\<lparr>i_count := 1\<rparr>) (clear_inode i k)) })"

definition get_pipe_inode :: "kernel \<Rightarrow> (nat option \<times> kernel) option" where
  "get_pipe_inode k =
     do { (i, k) \<leftarrow> get_empty_inode k;
          let (page, m) = get_free_page (mm k);
          let k = on_inode i (\<lambda>n. n\<lparr>i_size := page\<rparr>) (k\<lparr>mm := m\<rparr>);
          if page = 0 then Some (None, on_inode i (\<lambda>n. n\<lparr>i_count := 0\<rparr>) k)
          else Some (Some i, on_inode i (\<lambda>n. n\<lparr>i_count := 2, i_pipe := 1,
             i_zone := (i_zone n)(0 := 0, 1 := 0, 2 := 0, 3 := 0)\<rparr>) k) }"

definition iget :: "u16 \<Rightarrow> u16 \<Rightarrow> kernel \<Rightarrow> (nat \<times> kernel) option" where
  "iget dev nr k =
     (if dev = 0 then panic ''iget with dev==0''
      else do {
        (empty, k) \<leftarrow> get_empty_inode k;
        case List.find (\<lambda>i. i_dev (inode_at k i) = dev \<and> i_num (inode_at k i) = nr) [0..<NR_INODE] of
          Some i \<Rightarrow> do {
            k \<leftarrow> iput (Some empty) (on_inode i (\<lambda>n. n\<lparr>i_count := i_count n + 1\<rparr>) k);
            Some (i, k) }
        | None \<Rightarrow> do {
            k \<leftarrow> read_inode empty (on_inode empty (\<lambda>n. n\<lparr>i_dev := dev, i_num := nr\<rparr>) k);
            Some (empty, k) } })"

definition new_inode :: "u16 \<Rightarrow> kernel \<Rightarrow> (nat option \<times> kernel) option" where
  "new_inode dev k =
     do { (inode, k) \<leftarrow> get_empty_inode k;
          case get_super dev k of None \<Rightarrow> panic ''new_inode with unknown device''
          | Some s \<Rightarrow>
            let none = do { k \<leftarrow> iput (Some inode) k; Some (None, k) } in
            case find_map (s_imap (super_block_table k s)) (bdata k) of
              None \<Rightarrow> none
            | Some (i, j, b) \<Rightarrow>
                if unat (s_ninodes (super_block_table k s)) < j + i * 8192 then none
                else if map_bit (bdata k b) j then panic ''new_inode: bit already set''
                else let k = kdirty b (kstore b (put_bit j True) k);
                         t = CURRENT_TIME k
                     in Some (Some inode, on_inode inode (\<lambda>n. n\<lparr>i_count := 1, i_nlinks := 1, i_dev := dev,
                          i_dirt := 1, i_num := of_nat (j + i * 8192), i_mtime := t, i_atime := t, i_ctime := t\<rparr>) k) }"

section \<open>The disk layout of an inode\<close>

lemma put16_same: "put16 p v d q = (if q = Suc p then ucast (drop_bit 8 v) else if q = p then ucast v else d q)"
  by (simp add: put16_def)

lemma put_zones_other: "q < p \<or> p + 2 * n \<le> q \<Longrightarrow> put_zones p n z d q = d q"
  by (induction n) (auto simp: put16_same)

lemma get16_put_zones: "m < n \<Longrightarrow> get16 (put_zones p n z d) (p + 2 * m) = z m"
proof (induction n)
  case (Suc n)
  show ?case
  proof (cases "m = n")
    case False
    then have "m < n" using Suc.prems by simp
    then show ?thesis using Suc.IH by (simp add: get16_put16_other)
  qed simp
qed simp

lemma get16_put_zones_other: "q + 1 < p \<Longrightarrow> get16 (put_zones p n z d) q = get16 d q"
  by (rule get16_cong) (simp_all add: put_zones_other)

lemma get32_cong:
  assumes "\<And>i. i < 4 \<Longrightarrow> a (p + i) = b (p + i)"
  shows "get32 a p = get32 b p"
proof -
  have "get16 a p = get16 b p" using assms [of 0] assms [of 1] by (intro get16_cong) simp_all
  moreover have "get16 a (p + 2) = get16 b (p + 2)"
    using assms [of 2] assms [of 3] by (intro get16_cong) (simp_all add: numeral_3_eq_3)
  ultimately show ?thesis by (simp add: get32_def)
qed

lemma put32_same: "put32 p v d q = (if q = p + 3 then ucast (drop_bit 8 (ucast (drop_bit 16 v) :: u16))
    else if q = p + 2 then ucast (ucast (drop_bit 16 v) :: u16)
    else if q = p + 1 then ucast (drop_bit 8 (ucast v :: u16)) else if q = p then ucast (ucast v :: u16) else d q)"
  by (auto simp: put32_def put16_same)

lemma get_put_dinode:
  "get_dinode (put_dinode p i d) p j = j\<lparr>i_mode := i_mode i, i_uid := i_uid i, i_size := i_size i,
     i_mtime := i_mtime i, i_gid := i_gid i, i_nlinks := i_nlinks i,
     i_zone := (\<lambda>n. if n < 9 then i_zone i n else i_zone j n)\<rparr>"
proof -
  let ?d = "put_dinode p i d"
  have "get16 ?d p = get16 (put16 p (i_mode i) d) p"
    by (rule get16_cong) (simp_all add: put_dinode_def put_zones_other put32_same put16_same)
  moreover have "get16 ?d (p + 2) = get16 (put16 (p + 2) (i_uid i) d) (p + 2)"
    by (rule get16_cong) (simp_all add: put_dinode_def put_zones_other put32_same put16_same)
  moreover have "get32 ?d (p + 4) = get32 (put32 (p + 4) (i_size i) d) (p + 4)"
    by (rule get32_cong) (auto simp add: put_dinode_def put_zones_other put32_same put16_same)
  moreover have "get32 ?d (p + 8) = get32 (put32 (p + 8) (i_mtime i) d) (p + 8)"
    by (rule get32_cong) (auto simp add: put_dinode_def put_zones_other put32_same put16_same)
  moreover have "?d (p + 12) = i_gid i" "?d (p + 13) = i_nlinks i"
    by (simp_all add: put_dinode_def put_zones_other)
  moreover have "get16 ?d (p + 14 + 2 * n) = i_zone i n" if "n < 9" for n
    using that unfolding put_dinode_def by (rule get16_put_zones)
  ultimately show ?thesis by (simp add: get_dinode_def fun_eq_iff)
qed

lemma put_dinode_other: "q < p \<or> p + 32 \<le> q \<Longrightarrow> put_dinode p i d q = d q"
  by (auto simp: put_dinode_def put_zones_other put32_same put16_same)

section \<open>Reading a block and letting go of it\<close>

text \<open>Some buffer is free and no count is about to wrap round.\<close>

definition calm :: "bcache \<Rightarrow> bool" where
  "calm b \<longleftrightarrow> (\<exists>i<nr_buffers b. b_count (buf b i) = 0) \<and> (\<forall>i. b_count (buf b i) \<noteq> 255)"

text \<open>A step that shows the same device and holds the same buffers.\<close>

definition settled :: "u16 \<Rightarrow> bcache \<Rightarrow> bcache \<Rightarrow> bool" where
  "settled D b b' \<longleftrightarrow> bc_ok D b' \<and> same_view D b b' \<and> (\<forall>j. b_count (buf b' j) = b_count (buf b j))"

lemma settled_refl: "bc_ok D b \<Longrightarrow> settled D b b"
  by (simp add: settled_def)

lemma settled_trans: "settled D b b' \<Longrightarrow> settled D b' b'' \<Longrightarrow> settled D b b''"
  by (auto simp: settled_def intro: same_view_trans)

lemma settled_calm: "settled D b b' \<Longrightarrow> calm b \<Longrightarrow> calm b'"
  by (simp add: settled_def calm_def same_view_def)

lemma settled_valid: "settled D b b' \<Longrightarrow> valid b' = valid b"
  by (rule valid_cong) (simp_all add: settled_def same_view_def)

lemma settled_view: "settled D b b' \<Longrightarrow> valid b D n \<Longrightarrow> p < 1024 \<Longrightarrow> view b' D n p = view b D n p"
  by (simp add: settled_def same_view_def)

text \<open>The state between \<^verbatim>\<open>bread\<close> and \<^verbatim>\<open>brelse\<close>: buffer \<open>i\<close> is held once more and shows block \<open>n\<close>.\<close>

definition reading :: "u16 \<Rightarrow> nat \<Rightarrow> nat \<Rightarrow> bcache \<Rightarrow> bcache \<Rightarrow> bool" where
  "reading D n i b b1 \<longleftrightarrow> bc_ok D b1 \<and> same_view D b b1 \<and> i < nr_buffers b1 \<and> holds b1 D n i \<and>
     b_uptodate (buf b1 i) \<noteq> 0 \<and> (\<forall>p<1024. b_data (buf b1 i) p = view b D n p) \<and>
     (\<forall>j. b_count (buf b1 j) = b_count (buf b j) + (if j = i then 1 else 0)) \<and> b_count (buf b1 i) \<noteq> 0 \<and> pinned b b1"

lemma kbread_spec:
  assumes "bc_ok D (bc k)" and "valid (bc k) D n" and "calm (bc k)"
  obtains i b1 where "kbread D n k = Some (Some i, k\<lparr>bc := b1\<rparr>)" "reading D n i (bc k) b1"
proof -
  have "room (bc k) D n" using assms(3) by (auto simp: room_def calm_def)
  then obtain r b1 where br: "bread D n (bc k) = Some (r, b1)" using bread_spec(2) [OF assms(1,2)] by auto
  from bread_spec(1) [OF assms(1,2) br] obtain i where i: "r = Some i" "i < nr_buffers (bc k)" "holds b1 D n i"
    "b_uptodate (buf b1 i) \<noteq> 0" "\<forall>p<1024. b_data (buf b1 i) p = view (bc k) D n p" "pinned (bc k) b1"
    "\<forall>j. b_count (buf b1 j) = b_count (buf (bc k) j) + (if j = i then 1 else 0)" "bc_ok D b1" "same_view D (bc k) b1"
    by blast
  have "b_count (buf (bc k) i) + 1 \<noteq> 0"
  proof
    assume "b_count (buf (bc k) i) + 1 = 0"
    then have "b_count (buf (bc k) i) = - 1" by (simp add: eq_neg_iff_add_eq_0)
    moreover have "(- 1 :: byte) = 255" by simp
    ultimately show False using assms(3) by (simp add: calm_def)
  qed
  then have "reading D n i (bc k) b1" using i by (simp add: reading_def same_view_def)
  moreover have "kbread D n k = Some (Some i, k\<lparr>bc := b1\<rparr>)" using br i(1) by (simp add: kbread_def)
  ultimately show ?thesis using that by blast
qed

lemma kbrelse_spec:
  assumes "bc_ok D (bc k)" and "b_count (buf (bc k) i) \<noteq> 0"
  obtains b' where "kbrelse (Some i) k = Some (k\<lparr>bc := b'\<rparr>)" "bc_ok D b'" "same_view D (bc k) b'"
    "\<forall>j. b_count (buf b' j) = (if j = i then b_count (buf (bc k) j) - 1 else b_count (buf (bc k) j))"
  using brelse_spec [OF assms] by (auto simp: kbrelse_def)

lemma reading_release:
  assumes "reading D n i b (bc k)"
  obtains b' where "kbrelse (Some i) k = Some (k\<lparr>bc := b'\<rparr>)" "settled D b b'"
proof -
  have r: "bc_ok D (bc k)" "same_view D b (bc k)" "b_count (buf (bc k) i) \<noteq> 0"
    "\<forall>j. b_count (buf (bc k) j) = b_count (buf b j) + (if j = i then 1 else 0)"
    using assms by (auto simp: reading_def)
  obtain b' where b': "kbrelse (Some i) k = Some (k\<lparr>bc := b'\<rparr>)" "bc_ok D b'" "same_view D (bc k) b'"
    "\<forall>j. b_count (buf b' j) = (if j = i then b_count (buf (bc k) j) - 1 else b_count (buf (bc k) j))"
    using kbrelse_spec [OF r(1,3)] by blast
  have "settled D b b'" using b'(2-4) r(2,4) by (auto simp: settled_def intro: same_view_trans)
  then show ?thesis using that b'(1) by blast
qed

lemma reading_data: "reading D n i b b1 \<Longrightarrow> p < 1024 \<Longrightarrow> b_data (buf b1 i) p = view b D n p"
  by (simp add: reading_def)

section \<open>Inodes survive on the disk\<close>

lemma inode_at_bc [k_simps]: "inode_at (k\<lparr>bc := b\<rparr>) i = inode_at k i"
  by (simp add: inode_at_def)

lemma on_inode_bc [k_simps]: "(on_inode i f k)\<lparr>bc := b\<rparr> = on_inode i f (k\<lparr>bc := b\<rparr>)"
  by (simp add: on_inode_def)

definition on_disk :: "u16 \<Rightarrow> kernel \<Rightarrow> u16 \<Rightarrow> m_inode \<Rightarrow> bool" where
  "on_disk D k nr n \<longleftrightarrow> (\<exists>s. get_super D k = Some s \<and>
     (\<forall>j. get_dinode (view (bc k) D (inode_block (super_block_table k s) nr)) (inode_offset nr) j =
        j\<lparr>i_mode := i_mode n, i_uid := i_uid n, i_size := i_size n, i_mtime := i_mtime n, i_gid := i_gid n,
          i_nlinks := i_nlinks n, i_zone := (\<lambda>m. if m < 9 then i_zone n m else i_zone j m)\<rparr>))"

text \<open>The inode \<open>nr\<close> of device \<open>D\<close> lies in a block that can be read and written.\<close>

definition inode_ok :: "u16 \<Rightarrow> kernel \<Rightarrow> u16 \<Rightarrow> bool" where
  "inode_ok D k nr \<longleftrightarrow> bc_ok D (bc k) \<and> calm (bc k) \<and>
     (\<exists>s. get_super D k = Some s \<and> valid (bc k) D (inode_block (super_block_table k s) nr))"

lemma get_dinode_cong:
  assumes "\<And>q. p \<le> q \<Longrightarrow> q < p + 32 \<Longrightarrow> d q = e q"
  shows "get_dinode d p j = get_dinode e p j"
proof -
  have w: "get16 d q = get16 e q" if "p \<le> q" "q + 1 < p + 32" for q
    using that assms [of q] assms [of "Suc q"] by (intro get16_cong) simp_all
  have l: "get32 d q = get32 e q" if "p \<le> q" "q + 3 < p + 32" for q
    using that w [of q] w [of "q + 2"] by (simp add: get32_def)
  show ?thesis
    by (simp add: get_dinode_def w l assms fun_eq_iff)
qed

lemma inode_offset_less: "inode_offset nr + 32 \<le> 1024"
  by (simp add: inode_offset_def)

lemma write_inode_spec:
  assumes ok: "inode_ok D k (i_num (inode_at k i))" and dev: "i_dev (inode_at k i) = D"
  shows "\<exists>b'. write_inode i k = Some (on_inode i (\<lambda>n. n\<lparr>i_dirt := 0\<rparr>) (k\<lparr>bc := b'\<rparr>)) \<and>
    on_disk D (k\<lparr>bc := b'\<rparr>) (i_num (inode_at k i)) (inode_at k i) \<and>
    inode_ok D (k\<lparr>bc := b'\<rparr>) (i_num (inode_at k i)) \<and>
    (\<forall>blk p. valid (bc k) D blk \<longrightarrow> p < 1024 \<longrightarrow>
      (\<forall>s. get_super D k = Some s \<longrightarrow> \<not> (blk = inode_block (super_block_table k s) (i_num (inode_at k i)) \<and>
        inode_offset (i_num (inode_at k i)) \<le> p \<and> p < inode_offset (i_num (inode_at k i)) + 32)) \<longrightarrow>
      view b' D blk p = view (bc k) D blk p)"
proof -
  let ?nr = "i_num (inode_at k i)"
  obtain s where s: "get_super D k = Some s" "valid (bc k) D (inode_block (super_block_table k s) ?nr)"
    and bo: "bc_ok D (bc k)" and cm: "calm (bc k)" using ok by (auto simp: inode_ok_def)
  let ?B = "inode_block (super_block_table k s) ?nr" and ?o = "inode_offset ?nr"
  let ?f = "put_dinode ?o (inode_at k i)"
  obtain h b1 where rd: "kbread D ?B k = Some (Some h, k\<lparr>bc := b1\<rparr>)" "reading D ?B h (bc k) b1"
    using kbread_spec [OF bo s(2) cm] by blast
  let ?b2 = "mark_dirty h (store h ?f b1)"
  have sv: "same_view D (bc k) b1" and v1: "valid b1 D ?B"
    using rd(2) s(2) by (auto simp: reading_def same_view_def) (metis valid_cong)
  note S = store_spec [of D b1 h ?B, OF _ _ _ _ v1]
  have st: "bc_ok D ?b2" "b_count (buf ?b2 h) \<noteq> 0" "nr_buffers ?b2 = nr_buffers b1"
    "hd_part ?b2 = hd_part b1" "bad_block ?b2 = bad_block b1" "\<And>j. b_count (buf ?b2 j) = b_count (buf b1 j)"
    "\<And>n. view ?b2 D n = (if n = ?B then ?f (view b1 D ?B) else view b1 D n)"
    using S rd(2) by (auto simp: reading_def)
  let ?k2 = "on_inode i (\<lambda>n. n\<lparr>i_dirt := 0\<rparr>) (k\<lparr>bc := ?b2\<rparr>)"
  have "bc ?k2 = ?b2" by (simp add: k_simps)
  then obtain b3 where rl: "kbrelse (Some h) ?k2 = Some (?k2\<lparr>bc := b3\<rparr>)" "bc_ok D b3" "same_view D ?b2 b3"
    "\<forall>j. b_count (buf b3 j) = (if j = h then b_count (buf ?b2 j) - 1 else b_count (buf ?b2 j))"
    using kbrelse_spec [of D ?k2 h] st(1,2) by metis
  have val: "valid b3 = valid (bc k)"
    using rl(3) sv st(4,5) by (intro valid_cong) (simp_all add: same_view_def)
  have cnt: "b_count (buf b3 j) = b_count (buf (bc k) j)" for j
    using rl(4) st(6) rd(2) by (simp add: reading_def)
  have vw: "view b3 D n p = (if n = ?B then ?f (view b1 D ?B) p else view (bc k) D n p)"
    if "valid (bc k) D n" "p < 1024" for n p
  proof -
    have "valid ?b2 D n" using that(1) sv st(4,5) by (metis valid_cong same_view_def)
    then have "view b3 D n p = view ?b2 D n p" using rl(3) that(2) by (simp add: same_view_def)
    then show ?thesis using st(7) sv that by (simp add: same_view_def)
  qed
  have "write_inode i k = Some (on_inode i (\<lambda>n. n\<lparr>i_dirt := 0\<rparr>) (k\<lparr>bc := b3\<rparr>))"
    using rl(1) by (simp add: write_inode_def dev s(1) rd(1) kstore_dirty k_simps)
  moreover have "on_disk D (k\<lparr>bc := b3\<rparr>) ?nr (inode_at k i)"
  proof -
    have "get_dinode (view b3 D ?B) ?o j = get_dinode (?f (view b1 D ?B)) ?o j" for j
      using vw [OF s(2)] inode_offset_less [of ?nr] by (intro get_dinode_cong) simp
    then show ?thesis using s(1) by (auto simp: on_disk_def k_simps get_put_dinode)
  qed
  moreover have "inode_ok D (k\<lparr>bc := b3\<rparr>) ?nr"
    using rl(2) s cm cnt rl(3) st(3) sv by (auto simp: inode_ok_def k_simps val calm_def same_view_def)
  moreover have "view b3 D blk p = view (bc k) D blk p"
    if "valid (bc k) D blk" "p < 1024" "\<not> (blk = ?B \<and> ?o \<le> p \<and> p < ?o + 32)" for blk p
  proof (cases "blk = ?B")
    case True
    then show ?thesis using vw [OF that(1,2)] that s(2) sv by (auto simp: put_dinode_other same_view_def)
  qed (use vw [OF that(1,2)] in simp)
  ultimately show ?thesis using s(1) by (intro exI [of _ b3]) auto
qed

lemma read_inode_spec:
  assumes "inode_ok D k (i_num (inode_at k j))" and "i_dev (inode_at k j) = D"
    and "on_disk D k (i_num (inode_at k j)) n"
  shows "\<exists>b'. read_inode j k = Some (on_inode j (\<lambda>m. m\<lparr>i_mode := i_mode n, i_uid := i_uid n, i_size := i_size n,
      i_mtime := i_mtime n, i_gid := i_gid n, i_nlinks := i_nlinks n,
      i_zone := (\<lambda>z. if z < 9 then i_zone n z else i_zone m z)\<rparr>) (k\<lparr>bc := b'\<rparr>)) \<and> settled D (bc k) b'"
proof -
  let ?nr = "i_num (inode_at k j)"
  obtain s where s: "get_super D k = Some s" "valid (bc k) D (inode_block (super_block_table k s) ?nr)"
    and bo: "bc_ok D (bc k)" and cm: "calm (bc k)" using assms(1) by (auto simp: inode_ok_def)
  let ?B = "inode_block (super_block_table k s) ?nr" and ?o = "inode_offset ?nr"
  obtain h b1 where rd: "kbread D ?B k = Some (Some h, k\<lparr>bc := b1\<rparr>)" "reading D ?B h (bc k) b1"
    using kbread_spec [OF bo s(2) cm] by blast
  have "get_dinode (b_data (buf b1 h)) ?o m = get_dinode (view (bc k) D ?B) ?o m" for m
    using reading_data [OF rd(2)] inode_offset_less [of ?nr] by (intro get_dinode_cong) simp
  then have g: "get_dinode (b_data (buf b1 h)) ?o = (\<lambda>m. m\<lparr>i_mode := i_mode n, i_uid := i_uid n, i_size := i_size n,
      i_mtime := i_mtime n, i_gid := i_gid n, i_nlinks := i_nlinks n,
      i_zone := (\<lambda>z. if z < 9 then i_zone n z else i_zone m z)\<rparr>)"
    using assms(3) s(1) by (auto simp: on_disk_def fun_eq_iff)
  let ?k2 = "on_inode j (get_dinode (b_data (buf b1 h)) ?o) (k\<lparr>bc := b1\<rparr>)"
  have "reading D ?B h (bc k) (bc ?k2)" using rd(2) by (simp add: k_simps)
  then obtain b2 where "kbrelse (Some h) ?k2 = Some (?k2\<lparr>bc := b2\<rparr>)" "settled D (bc k) b2"
    using reading_release by metis
  then show ?thesis
    by (intro exI [of _ b2]) (simp add: read_inode_def assms(2) s(1) rd(1) bdata_def g k_simps)
qed

definition disk_part :: "m_inode \<Rightarrow> u16 \<times> u16 \<times> u32 \<times> u32 \<times> byte \<times> byte \<times> u16 list" where
  "disk_part n = (i_mode n, i_uid n, i_size n, i_mtime n, i_gid n, i_nlinks n, map (i_zone n) [0..<9])"

text \<open>
  C15: What \<^verbatim>\<open>write_inode\<close> writes, \<^verbatim>\<open>read_inode\<close> reads: an inode written to its place in the inode table
  of the device and read into another slot of \<^verbatim>\<open>inode_table\<close> has the same mode, owner, size, time,
  link count and zones, and it is clean after the write.
\<close>

theorem inode_roundtrip:
  assumes "inode_ok D k (i_num (inode_at k i))" and "i_dev (inode_at k i) = D" and "i \<noteq> j"
    and "i_dev (inode_at k j) = D" and "i_num (inode_at k j) = i_num (inode_at k i)"
  shows "\<exists>k1 k2. write_inode i k = Some k1 \<and> i_dirt (inode_at k1 i) = 0 \<and> read_inode j k1 = Some k2 \<and>
    disk_part (inode_at k2 j) = disk_part (inode_at k i)"
proof -
  let ?nr = "i_num (inode_at k i)"
  obtain b where w: "write_inode i k = Some (on_inode i (\<lambda>n. n\<lparr>i_dirt := 0\<rparr>) (k\<lparr>bc := b\<rparr>))"
    "on_disk D (k\<lparr>bc := b\<rparr>) ?nr (inode_at k i)" "inode_ok D (k\<lparr>bc := b\<rparr>) ?nr"
    using write_inode_spec [OF assms(1,2)] by blast
  let ?k1 = "on_inode i (\<lambda>n. n\<lparr>i_dirt := 0\<rparr>) (k\<lparr>bc := b\<rparr>)"
  have "inode_ok D ?k1 ?nr" "on_disk D ?k1 ?nr (inode_at k i)"
    using w(2,3) by (simp_all add: inode_ok_def on_disk_def k_simps)
  moreover have "inode_at ?k1 j = inode_at k j" using assms(3) by (simp add: k_simps)
  ultimately obtain b' where "read_inode j ?k1 = Some (on_inode j (\<lambda>m. m\<lparr>i_mode := i_mode (inode_at k i),
      i_uid := i_uid (inode_at k i), i_size := i_size (inode_at k i), i_mtime := i_mtime (inode_at k i),
      i_gid := i_gid (inode_at k i), i_nlinks := i_nlinks (inode_at k i),
      i_zone := (\<lambda>z. if z < 9 then i_zone (inode_at k i) z else i_zone m z)\<rparr>) (?k1\<lparr>bc := b'\<rparr>))"
    using read_inode_spec [of D ?k1 j "inode_at k i"] assms(4,5) by auto
  then show ?thesis using w(1) by (simp add: k_simps disk_part_def)
qed

definition inode_kernel :: kernel where
  "inode_kernel = on_inode 0 (\<lambda>n. n\<lparr>i_dev := ROOT_DEV, i_num := 33, i_mode := 0x81a4, i_size := 1234, i_dirt := 1,
     i_count := 1, i_zone := (\<lambda>z. if z = 3 then 6 else 0)\<rparr>)
     (on_inode 1 (\<lambda>n. n\<lparr>i_dev := ROOT_DEV, i_num := 33\<rparr>) map_kernel)"

lemma map_kernel_super: "get_super ROOT_DEV map_kernel = Some 0"
  by (simp add: get_super_def upt_conv_Cons)

lemma map_cache_calm: "calm map_cache"
proof -
  have "b_count (buf map_cache i) = (if i = 0 then 1 else 0)" "nr_buffers map_cache = 2" for i
    by (simp_all add: map_cache_def)
  then show ?thesis by (auto simp: calm_def)
qed

theorem inode_roundtrip_witness:
  "\<exists>k1 k2. write_inode 0 inode_kernel = Some k1 \<and> read_inode 1 k1 = Some k2 \<and>
    i_size (inode_at k2 1) = 1234 \<and> i_mode (inode_at k2 1) = 0x81a4"
proof -
  have at0: "inode_at inode_kernel 0 = zero_inode\<lparr>i_dev := ROOT_DEV, i_num := 33, i_mode := 0x81a4, i_size := 1234,
      i_dirt := 1, i_count := 1, i_zone := (\<lambda>z. if z = 3 then 6 else 0)\<rparr>"
    and at1: "inode_at inode_kernel 1 = zero_inode\<lparr>i_dev := ROOT_DEV, i_num := 33\<rparr>"
    by (simp_all add: inode_kernel_def k_simps) (simp_all add: inode_at_def map_kernel_def small_kernel_def)
  have "inode_block (super_block_table map_kernel 0) 33 = 3"
    by (simp add: inode_block_def inode_index_def zero_super_def)
  then have "inode_ok ROOT_DEV inode_kernel (i_num (inode_at inode_kernel 0))"
    using map_cache_ok map_cache_calm
    by (simp add: inode_ok_def at0 inode_kernel_def k_simps map_kernel_super map_cache_valid small_cache_valid)
  then show ?thesis
    using inode_roundtrip [of ROOT_DEV inode_kernel 0 1] by (auto simp: at0 at1 disk_part_def simp del: One_nat_def)
qed

section \<open>The block map\<close>

text \<open>
  Where block \<open>n\<close> of a file lies, read off the inode and the device contents: the reference for
  \<^verbatim>\<open>bmap\<close>. 0 stands for a hole.
\<close>

definition zone_entry :: "u16 \<Rightarrow> kernel \<Rightarrow> nat \<Rightarrow> nat \<Rightarrow> nat" where
  "zone_entry D k z n = unat (get16 (view (bc k) D z) (2 * n))"

definition file_zone :: "u16 \<Rightarrow> kernel \<Rightarrow> nat \<Rightarrow> nat \<Rightarrow> nat" where
  "file_zone D k i n =
     (let z = \<lambda>m. unat (i_zone (inode_at k i) m) in
      if n < 7 then z n
      else if n < 519 then (if z 7 = 0 then 0 else zone_entry D k (z 7) (n - 7))
      else if z 8 = 0 \<or> zone_entry D k (z 8) ((n - 519) div 512) = 0 then 0
      else zone_entry D k (zone_entry D k (z 8) ((n - 519) div 512)) ((n - 519) mod 512))"

text \<open>The indirect blocks of the file can be read.\<close>

definition map_ok :: "u16 \<Rightarrow> kernel \<Rightarrow> nat \<Rightarrow> bool" where
  "map_ok D k i \<longleftrightarrow> i_dev (inode_at k i) = D \<and>
     (\<forall>m\<in>{7, 8}. i_zone (inode_at k i) m \<noteq> 0 \<longrightarrow> valid (bc k) D (unat (i_zone (inode_at k i) m))) \<and>
     (\<forall>n<512. i_zone (inode_at k i) 8 \<noteq> 0 \<longrightarrow> zone_entry D k (unat (i_zone (inode_at k i) 8)) n \<noteq> 0 \<longrightarrow>
        valid (bc k) D (zone_entry D k (unat (i_zone (inode_at k i) 8)) n))"

lemma ind_entry_reads:
  assumes "bc_ok D (bc k)" and "valid (bc k) D z" and "calm (bc k)" and "n < 512"
  obtains b' where "ind_entry False D z n k = Some (zone_entry D k z n, k\<lparr>bc := b'\<rparr>)" "settled D (bc k) b'"
proof -
  obtain h b1 where rd: "kbread D z k = Some (Some h, k\<lparr>bc := b1\<rparr>)" "reading D z h (bc k) b1"
    using kbread_spec [OF assms(1-3)] by blast
  have "get16 (b_data (buf b1 h)) (2 * n) = get16 (view (bc k) D z) (2 * n)"
    using reading_data [OF rd(2)] assms(4) by (intro get16_cong) simp_all
  moreover obtain b2 where "kbrelse (Some h) (k\<lparr>bc := b1\<rparr>) = Some (k\<lparr>bc := b2\<rparr>)" "settled D (bc k) b2"
    using reading_release [of D z h "bc k" "k\<lparr>bc := b1\<rparr>"] rd(2) by auto
  ultimately show ?thesis using rd(1) by (intro that [of b2]) (simp_all add: ind_entry_def zone_entry_def bdata_def)
qed

lemma zone_slot_False [simp]: "zone_slot False i n k = Some k"
  by (simp add: zone_slot_def)

lemma bmap_reads:
  assumes "bc_ok D (bc k)" and "calm (bc k)" and "map_ok D k i" and True: "0 \<le> n \<and> n < 7 + 512 + 512 * 512"
  shows "\<exists>b'. bmap i n k = Some (file_zone D k i (nat n), k\<lparr>bc := b'\<rparr>) \<and> settled D (bc k) b'"
proof -
  let ?m = "nat n" and ?z = "\<lambda>m. unat (i_zone (inode_at k i) m)"
  have dev: "i_dev (inode_at k i) = D" using assms(3) by (simp add: map_ok_def)
  have nz: "i_zone (inode_at k i) m = 0 \<longleftrightarrow> ?z m = 0" for m by (simp add: unat_eq_zero)
  have self: "settled D (bc k) (bc k)" "k\<lparr>bc := bc k\<rparr> = k" using assms(1) by (simp_all add: settled_refl)
  consider "n < 7" | "7 \<le> n" "n < 519" "?z 7 = 0" | "7 \<le> n" "n < 519" "?z 7 \<noteq> 0"
    | "519 \<le> n" "?z 8 = 0" | "519 \<le> n" "?z 8 \<noteq> 0" by linarith
  then show ?thesis
  proof cases
    case 1
    then have "?m < 7" using True by linarith
    then show ?thesis using 1 True self by (intro exI [of _ "bc k"]) (simp add: bmap_def bmap_at_def file_zone_def)
  next
    case 2
    then have "?m - 7 < 512" "\<not> ?m < 7" "?m < 519" by linarith+
    then show ?thesis using 2 True self nz
      by (intro exI [of _ "bc k"]) (simp add: bmap_def bmap_at_def file_zone_def)
  next
    case 3
    then have m: "?m - 7 < 512" "\<not> ?m < 7" "?m < 519" by linarith+
    have "valid (bc k) D (?z 7)" using assms(3) 3 nz by (simp add: map_ok_def)
    from ind_entry_reads [OF assms(1) this assms(2) m(1)]
    obtain b' where "ind_entry False D (?z 7) (?m - 7) k = Some (zone_entry D k (?z 7) (?m - 7), k\<lparr>bc := b'\<rparr>)"
      "settled D (bc k) b'" by blast
    then show ?thesis using 3 True m nz
      by (intro exI [of _ b']) (simp add: bmap_def bmap_at_def file_zone_def dev Let_def)
  next
    case 4
    then have "\<not> ?m - 7 < 512" "\<not> ?m < 7" "\<not> ?m < 519" by linarith+
    then show ?thesis using 4 True self nz
      by (intro exI [of _ "bc k"]) (simp add: bmap_def bmap_at_def file_zone_def)
  next
    case 5
    then have m: "\<not> ?m - 7 < 512" "\<not> ?m < 7" "\<not> ?m < 519" "?m - 7 - 512 = ?m - 519" "\<not> n < 7" using True by linarith+
    define a where "a = (?m - 519) div 512"
    define b where "b = (?m - 519) mod 512"
    have d: "a < 512" "b < 512" using True unfolding a_def b_def by linarith+
    have z8: "i_zone (inode_at k i) 8 \<noteq> 0" using 5 nz by simp
    have F: "file_zone D k i ?m = (if zone_entry D k (?z 8) a = 0 then 0 else zone_entry D k (zone_entry D k (?z 8) a) b)"
      using m(2,3) 5(2) by (simp only: file_zone_def Let_def a_def b_def if_False simp_thms)
    have B: "bmap i n k = do { (x, k) \<leftarrow> ind_entry False D (?z 8) a k;
        if x = 0 then Some (0, k) else ind_entry False (i_dev (inode_at k i)) x b k }"
      using True m(1,4,5) z8 unfolding bmap_def bmap_at_def Let_def a_def b_def
      by (simp only: dev zone_slot_False bind.bind_lunit linorder_not_less [symmetric] if_False simp_thms)
    have "valid (bc k) D (?z 8)" using assms(3) z8 by (simp add: map_ok_def)
    from ind_entry_reads [OF assms(1) this assms(2) d(1)]
    obtain b1 where e: "ind_entry False D (?z 8) a k = Some (zone_entry D k (?z 8) a, k\<lparr>bc := b1\<rparr>)"
      "settled D (bc k) b1" by blast
    show ?thesis
    proof (cases "zone_entry D k (?z 8) a = 0")
      case True
      then show ?thesis using e by (intro exI [of _ b1]) (simp add: F B)
    next
      case False
      let ?e = "zone_entry D k (?z 8) a"
      have v: "valid (bc k) D ?e" using assms(3) d(1) z8 False by (simp add: map_ok_def)
      have "bc_ok D b1" "valid b1 D ?e" "calm b1"
        using e(2) v settled_valid [OF e(2)] settled_calm [OF e(2) assms(2)] by (simp_all add: settled_def)
      then obtain b2 where f: "ind_entry False D ?e b (k\<lparr>bc := b1\<rparr>) =
          Some (zone_entry D (k\<lparr>bc := b1\<rparr>) ?e b, k\<lparr>bc := b2\<rparr>)" "settled D b1 b2"
        using ind_entry_reads [of D "k\<lparr>bc := b1\<rparr>" ?e b] d(2) by auto
      have "zone_entry D (k\<lparr>bc := b1\<rparr>) ?e b = zone_entry D k ?e b"
        unfolding zone_entry_def [of D "k\<lparr>bc := b1\<rparr>" ?e] zone_entry_def [of D k ?e] using settled_view [OF e(2) v] d(2)
        by (intro arg_cong [where f = unat] get16_cong) simp_all
      then show ?thesis using e f False settled_trans [OF e(2) f(2)]
        by (intro exI [of _ b2]) (simp add: F B k_simps dev)
    qed
  qed
qed

text \<open>
  C16: \<^verbatim>\<open>bmap\<close> computes the position of every block of a file of up to \<open>7 + 512 + 512 * 512\<close> blocks, through
  direct, indirect and doubly indirect zones, and changes nothing: the device shows the same
  contents and no buffer stays held. Any other block number is a panic.
\<close>

theorem bmap_finds:
  assumes "bc_ok D (bc k)" and "calm (bc k)" and "map_ok D k i"
  shows "if 0 \<le> n \<and> n < 7 + 512 + 512 * 512
    then \<exists>b'. bmap i n k = Some (file_zone D k i (nat n), k\<lparr>bc := b'\<rparr>) \<and> settled D (bc k) b'
    else bmap i n k = None"
proof (cases "0 \<le> n \<and> n < 7 + 512 + 512 * 512")
  case False
  then show ?thesis by (auto simp: bmap_def bmap_at_def)
next
  case True
  then show ?thesis using bmap_reads [OF assms] by simp
qed

theorem bmap_finds_witness:
  "(\<exists>b'. bmap 0 3 inode_kernel = Some (6, inode_kernel\<lparr>bc := b'\<rparr>)) \<and> bmap 0 (- 1) inode_kernel = None"
proof -
  have at0: "inode_at inode_kernel 0 = zero_inode\<lparr>i_dev := ROOT_DEV, i_num := 33, i_mode := 0x81a4, i_size := 1234,
      i_dirt := 1, i_count := 1, i_zone := (\<lambda>z. if z = 3 then 6 else 0)\<rparr>"
    by (simp add: inode_kernel_def k_simps) (simp add: inode_at_def map_kernel_def small_kernel_def)
  have b: "bc inode_kernel = map_cache" by (simp add: inode_kernel_def k_simps)
  have "bc_ok ROOT_DEV (bc inode_kernel)" "calm (bc inode_kernel)" "map_ok ROOT_DEV inode_kernel 0"
    using map_cache_ok map_cache_calm by (simp_all add: b map_ok_def at0)
  from bmap_finds [OF this, of 3] bmap_finds [OF this, of "- 1"] show ?thesis
    by (auto simp: file_zone_def at0)
qed

end
