(* ===== verification/Mktime.thy ===== *)
theory Mktime
  imports Kernel
begin

text \<open>
  The clock at start-up: \<^verbatim>\<open>kernel/mktime.c\<close> and \<^verbatim>\<open>time_init\<close> of \<^verbatim>\<open>init/main.c\<close>.

  \<^verbatim>\<open>kernel_mktime\<close> is compared with a calendar that is advanced second by second under the Gregorian
  rules (theorem \<open>kernel_mktime_counts\<close>). A read of the CMOS chip is a parameter of \<^verbatim>\<open>time_init\<close>.
\<close>

section \<open>Broken-down time\<close>

record tm =
  tm_sec :: int
  tm_min :: int
  tm_hour :: int
  tm_mday :: int
  tm_mon :: int
  tm_year :: int

abbreviation MINUTE :: int where "MINUTE \<equiv> 60"
abbreviation HOUR :: int where "HOUR \<equiv> 3600"
abbreviation DAY :: int where "DAY \<equiv> 86400"
abbreviation YEAR :: int where "YEAR \<equiv> 31536000"

text \<open>The seconds in front of each month of a leap year.\<close>

definition month :: "int list" where
  "month = map ((*) DAY) [0, 31, 60, 91, 121, 152, 182, 213, 244, 274, 305, 335]"

text \<open>The sum as the code adds it up, and its low 32 bits, read as the \<^verbatim>\<open>long\<close> the code returns.\<close>

definition mktime_sum :: "tm \<Rightarrow> int" where
  "mktime_sum t =
     (let year = tm_year t - 70;
          res = YEAR * year + DAY * ((year + 1) sdiv 4);
          res = res + month ! nat (tm_mon t);
          res = (if 1 < tm_mon t \<and> (year + 2) smod 4 \<noteq> 0 then res - DAY else res)
      in res + DAY * (tm_mday t - 1) + HOUR * tm_hour t + MINUTE * tm_min t + tm_sec t)"

definition kernel_mktime :: "tm \<Rightarrow> int option" where
  "kernel_mktime t =
     (if tm_mon t < 0 \<or> 12 \<le> tm_mon t then overrun ''month''
      else Some (sint (word_of_int (mktime_sum t) :: u32)))"

section \<open>Reading the clock\<close>

definition BCD_TO_BIN :: "int \<Rightarrow> int" where
  "BCD_TO_BIN v = (v AND 15) + drop_bit 4 v * 10"

text \<open>
  \<open>cmos n\<close> is the register file as the \<open>n\<close>-th round of the loop finds it, with the second reading
  of the seconds in the last component; \<open>fuel\<close> bounds the rounds.
\<close>

fun time_read :: "nat \<Rightarrow> nat \<Rightarrow> (nat \<Rightarrow> (nat \<Rightarrow> byte) \<times> byte) \<Rightarrow> tm option" where
  "time_read 0 n cmos = None"
| "time_read (Suc fuel) n cmos =
     (let (r, again) = cmos n in
      if r 0 \<noteq> again then time_read fuel (Suc n) cmos
      else Some \<lparr>tm_sec = uint (r 0), tm_min = uint (r 2), tm_hour = uint (r 4), tm_mday = uint (r 7),
             tm_mon = uint (r 8) - 1, tm_year = uint (r 9)\<rparr>)"

definition time_init :: "nat \<Rightarrow> (nat \<Rightarrow> (nat \<Rightarrow> byte) \<times> byte) \<Rightarrow> kernel \<Rightarrow> kernel option" where
  "time_init fuel cmos k =
     do { t \<leftarrow> time_read fuel 0 cmos;
          s \<leftarrow> kernel_mktime \<lparr>tm_sec = BCD_TO_BIN (tm_sec t), tm_min = BCD_TO_BIN (tm_min t),
            tm_hour = BCD_TO_BIN (tm_hour t), tm_mday = BCD_TO_BIN (tm_mday t),
            tm_mon = BCD_TO_BIN (tm_mon t), tm_year = BCD_TO_BIN (tm_year t)\<rparr>;
          Some (k\<lparr>startup_time := word_of_int s\<rparr>) }"

section \<open>The calendar\<close>

text \<open>The Gregorian leap years; years count from 1900, months from 0.\<close>

definition leap :: "int \<Rightarrow> bool" where
  "leap y \<longleftrightarrow> (let y = y + 1900 in y mod 4 = 0 \<and> (y mod 100 \<noteq> 0 \<or> y mod 400 = 0))"

definition month_days :: "int \<Rightarrow> int \<Rightarrow> int" where
  "month_days y m = (if m = 1 then (if leap y then 29 else 28) else if m \<in> {3, 5, 8, 10} then 30 else 31)"

definition tick :: "tm \<Rightarrow> tm" where
  "tick t =
     (if tm_sec t < 59 then t\<lparr>tm_sec := tm_sec t + 1\<rparr>
      else let t = t\<lparr>tm_sec := 0\<rparr> in
      if tm_min t < 59 then t\<lparr>tm_min := tm_min t + 1\<rparr>
      else let t = t\<lparr>tm_min := 0\<rparr> in
      if tm_hour t < 23 then t\<lparr>tm_hour := tm_hour t + 1\<rparr>
      else let t = t\<lparr>tm_hour := 0\<rparr> in
      if tm_mday t < month_days (tm_year t) (tm_mon t) then t\<lparr>tm_mday := tm_mday t + 1\<rparr>
      else let t = t\<lparr>tm_mday := 1\<rparr> in
      if tm_mon t < 11 then t\<lparr>tm_mon := tm_mon t + 1\<rparr>
      else t\<lparr>tm_mon := 0, tm_year := tm_year t + 1\<rparr>)"

definition epoch :: tm where
  "epoch = \<lparr>tm_sec = 0, tm_min = 0, tm_hour = 0, tm_mday = 1, tm_mon = 0, tm_year = 70\<rparr>"

definition valid :: "tm \<Rightarrow> bool" where
  "valid t \<longleftrightarrow> 0 \<le> tm_sec t \<and> tm_sec t < 60 \<and> 0 \<le> tm_min t \<and> tm_min t < 60 \<and> 0 \<le> tm_hour t \<and>
     tm_hour t < 24 \<and> 1 \<le> tm_mday t \<and> tm_mday t \<le> month_days (tm_year t) (tm_mon t) \<and>
     0 \<le> tm_mon t \<and> tm_mon t < 12 \<and> 70 \<le> tm_year t"

lemma leap_mod4: "70 \<le> y \<Longrightarrow> y < 200 \<Longrightarrow> leap y \<longleftrightarrow> y mod 4 = 0"
proof -
  assume y: "70 \<le> y" "y < 200"
  have "(y + 1900) mod 4 = y mod 4" by presburger
  moreover have "(y + 1900) mod 100 = (if y < 100 then y else y - 100)"
    using y mod_mult_self2 [of y 100 19] mod_pos_pos_trivial [of "y - 100" 100]
    by (auto simp: mod_pos_pos_trivial minus_mod_self2)
  ultimately show ?thesis using y by (auto simp: leap_def Let_def split: if_splits)
qed

text \<open>The months, one by one.\<close>

lemma month_cases:
  assumes "0 \<le> m" and "m < (12::int)"
  obtains "m = 0" | "m = 1" | "m = 2" | "m = 3" | "m = 4" | "m = 5" | "m = 6" | "m = 7" | "m = 8" | "m = 9"
    | "m = 10" | "m = 11"
proof -
  have "m = 0 \<or> m = 1 \<or> m = 2 \<or> m = 3 \<or> m = 4 \<or> m = 5 \<or> m = 6 \<or> m = 7 \<or> m = 8 \<or> m = 9 \<or> m = 10 \<or> m = 11"
    using assms by presburger
  then show thesis using that by blast
qed

lemma month_days_pos: "1 \<le> month_days y m"
  by (simp add: month_days_def)

lemma valid_tick: "valid t \<Longrightarrow> valid (tick t)"
  unfolding valid_def tick_def Let_def
  by (simp split: if_split add: month_days_pos)

text \<open>Over the years 1970 to 2099, the signed division and remainder are those of the calendar.\<close>

definition day_number :: "int \<Rightarrow> int \<Rightarrow> int \<Rightarrow> int" where
  "day_number y m d = 365 * (y - 70) + (y - 69) div 4 + month ! nat m div DAY
     - (if 1 < m \<and> y mod 4 \<noteq> 0 then 1 else 0) + d - 1"

lemma mktime_sum_days:
  assumes "valid t"
  shows "mktime_sum t = DAY * day_number (tm_year t) (tm_mon t) (tm_mday t)
    + HOUR * tm_hour t + MINUTE * tm_min t + tm_sec t"
proof -
  have m: "0 \<le> tm_mon t" "tm_mon t < 12" and y: "70 \<le> tm_year t"
    using assms by (simp_all add: valid_def)
  have q: "(tm_year t - 69) sdiv 4 = (tm_year t - 69) div 4"
    using y by (simp add: signed_divide_int_def)
  have r: "(tm_year t - 68) smod 4 = tm_year t mod 4"
    using y by (simp add: signed_modulo_int_def signed_divide_int_def) presburger
  show ?thesis
    using m by (cases rule: month_cases) (simp_all add: mktime_sum_def day_number_def q r month_def Let_def)
qed

lemma day_number_next:
  assumes "0 \<le> m" and "m < 12" and "70 \<le> y" and "y < 200"
  shows "day_number y m (month_days y m) + 1 = (if m < 11 then day_number y (m + 1) 1 else day_number (y + 1) 0 1)"
proof -
  have l: "leap y \<longleftrightarrow> y mod 4 = 0" using leap_mod4 assms by simp
  have d: "(y + 1 - 69) div 4 = (y - 69) div 4 + (if y mod 4 = 0 then 1 else 0)" by presburger
  have d': "(y - 68) div 4 = (y - 69) div 4 + (if y mod 4 = 0 then 1 else 0)" by presburger
  show ?thesis
    using assms(1,2)
    by (cases rule: month_cases) (simp_all add: day_number_def month_days_def month_def l d d')
qed

lemma mktime_sum_tick:
  assumes "valid t" and "tm_year t < 200"
  shows "mktime_sum (tick t) = mktime_sum t + 1"
proof -
  have n: "day_number (tm_year t) (tm_mon t) (month_days (tm_year t) (tm_mon t)) + 1
      = (if tm_mon t < 11 then day_number (tm_year t) (tm_mon t + 1) 1 else day_number (tm_year t + 1) 0 1)"
    using assms by (intro day_number_next) (auto simp: valid_def)
  have s: "day_number y m (d + 1) = day_number y m d + 1" for y m d
    by (simp add: day_number_def)
  have v: "valid (tick t)" using assms(1) by (rule valid_tick)
  have last: "tm_sec t = 59" if "\<not> tm_sec t < 59" using that assms(1) by (simp add: valid_def)
  have last': "tm_min t = 59" if "\<not> tm_min t < 59" using that assms(1) by (simp add: valid_def)
  have last'': "tm_hour t = 23" if "\<not> tm_hour t < 23" using that assms(1) by (simp add: valid_def)
  have last''': "tm_mday t = month_days (tm_year t) (tm_mon t)"
    if "\<not> tm_mday t < month_days (tm_year t) (tm_mon t)" using that assms(1) by (simp add: valid_def)
  show ?thesis
    unfolding mktime_sum_days [OF v] mktime_sum_days [OF assms(1)]
    using n last last' last'' last''' by (auto simp: tick_def Let_def s split: if_splits)
qed

lemma mktime_sum_year:
  assumes "valid t"
  shows "YEAR * (tm_year t - 70) \<le> mktime_sum t"
proof -
  have m: "0 \<le> tm_mon t" "tm_mon t < 12" using assms by (simp_all add: valid_def)
  have y: "0 \<le> (tm_year t - 69) div 4" using assms by (simp add: valid_def div_int_pos_iff)
  have "365 * (tm_year t - 70) \<le> day_number (tm_year t) (tm_mon t) (tm_mday t)"
    using m assms y by (cases rule: month_cases) (auto simp: day_number_def month_def valid_def)
  then show ?thesis
    using assms unfolding mktime_sum_days [OF assms] by (simp add: valid_def)
qed

lemma ticks_valid: "valid ((tick ^^ n) epoch)"
  by (induction n) (simp_all add: valid_tick, simp add: valid_def epoch_def month_days_def)

lemma mktime_sum_ticks: "n < 2 ^ 31 \<Longrightarrow> mktime_sum ((tick ^^ n) epoch) = int n"
proof (induction n)
  case 0
  show ?case by (simp add: mktime_sum_def epoch_def month_def signed_divide_int_def)
next
  case (Suc n)
  let ?t = "(tick ^^ n) epoch"
  have s: "mktime_sum ?t = int n" using Suc by simp
  then have "YEAR * (tm_year ?t - 70) \<le> int n" using mktime_sum_year [OF ticks_valid, of n] by simp
  moreover have "int n < 2 ^ 31" using Suc.prems by (simp add: nat_less_iff)
  ultimately have "tm_year ?t < 200" by simp
  then show ?case using mktime_sum_tick [OF ticks_valid] s by simp
qed

section \<open>Properties\<close>

text \<open>
  C20: \<^verbatim>\<open>kernel_mktime\<close> counts the seconds since 1970: for the time \<open>n\<close> seconds after the epoch, advanced
  on a calendar with the Gregorian leap years, it returns \<open>n\<close>, up to the last second a 32-bit \<^verbatim>\<open>long\<close>
  can count.
\<close>

theorem kernel_mktime_counts:
  assumes "n < 2 ^ 31"
  shows "kernel_mktime ((tick ^^ n) epoch) = Some (int n)"
proof -
  have "valid ((tick ^^ n) epoch)" by (rule ticks_valid)
  moreover have "sint (word_of_int (int n) :: u32) = int n"
    unfolding int_word_sint using assms by simp
  ultimately show ?thesis
    by (simp add: kernel_mktime_def valid_def mktime_sum_ticks [OF assms])
qed

theorem kernel_mktime_counts_witness:
  "kernel_mktime ((tick ^^ 59) epoch) = Some 59 \<and> kernel_mktime ((tick ^^ 2147483647) epoch) = Some 2147483647"
proof -
  have "kernel_mktime ((tick ^^ 59) epoch) = Some (int 59)"
    by (rule kernel_mktime_counts) simp
  moreover have "kernel_mktime ((tick ^^ 2147483647) epoch) = Some (int 2147483647)"
    by (rule kernel_mktime_counts) simp
  ultimately show ?thesis by (simp only: of_nat_numeral)
qed

end
