(* ===== verification/Vsprintf.thy ===== *)
theory Vsprintf
  imports Prelude
begin

text \<open>
  Formatted output: \<^verbatim>\<open>kernel/vsprintf.c\<close>.

  What the routines store through \<^verbatim>\<open>str\<close> is the list of bytes they return; the size of the buffer behind
  it is the caller's affair, as in the code. A format string and a string argument are the bytes in front
  of their terminating zero. Widths and precisions are integers; the code keeps them in an \<^verbatim>\<open>int\<close>.
\<close>

section \<open>Numbers\<close>

abbreviation ZEROPAD :: u32 where "ZEROPAD \<equiv> 1"
abbreviation SIGN :: u32 where "SIGN \<equiv> 2"
abbreviation PLUS :: u32 where "PLUS \<equiv> 4"
abbreviation SPACE :: u32 where "SPACE \<equiv> 8"
abbreviation LEFT_JUST :: u32 where "LEFT_JUST \<equiv> 16"
abbreviation SPECIAL :: u32 where "SPECIAL \<equiv> 32"
abbreviation SMALL :: u32 where "SMALL \<equiv> 64"

definition has :: "u32 \<Rightarrow> u32 \<Rightarrow> bool" where
  "has type f \<longleftrightarrow> type AND f \<noteq> 0"

definition is_digit :: "byte \<Rightarrow> bool" where
  "is_digit c \<longleftrightarrow> 48 \<le>s c \<and> c \<le>s 57"

text \<open>The number and what follows it; an \<^verbatim>\<open>int\<close> wraps round.\<close>

fun skip_atoi :: "u32 \<Rightarrow> byte list \<Rightarrow> int \<times> byte list" where
  "skip_atoi i [] = (sint i, [])"
| "skip_atoi i (c # s) = (if is_digit c then skip_atoi (i * 10 + scast c - 48) s else (sint i, c # s))"

text \<open>\<^verbatim>\<open>digits[d]\<close>, in capital or small letters.\<close>

definition digit_char :: "bool \<Rightarrow> nat \<Rightarrow> byte" where
  "digit_char small d = of_nat (if d < 10 then 48 + d else if small then 87 + d else 55 + d)"

text \<open>The digits the division loop leaves in \<^verbatim>\<open>tmp\<close>, the lowest first.\<close>

fun tmp_digits :: "bool \<Rightarrow> nat \<Rightarrow> nat \<Rightarrow> byte list" where
  "tmp_digits small base n =
     (if n = 0 \<or> base < 2 then [] else digit_char small (n mod base) # tmp_digits small base (n div base))"

declare tmp_digits.simps [simp del]

text \<open>\<^verbatim>\<open>while(size-->0) *str++ = c\<close>: the bytes stored and the size left.\<close>

definition pad :: "byte \<Rightarrow> int \<Rightarrow> byte list \<times> int" where
  "pad c n = (replicate (nat n) c, if 0 < n then - 1 else n - 1)"

definition sign_of :: "u32 \<Rightarrow> u32 \<Rightarrow> byte list" where
  "sign_of num type = (if has type SIGN \<and> num <s 0 then [45]
     else if has type PLUS then [43] else if has type SPACE then [32] else [])"

definition magnitude :: "u32 \<Rightarrow> u32 \<Rightarrow> nat" where
  "magnitude num type = unat (if has type SIGN \<and> num <s 0 then - num else num)"

definition special_of :: "nat \<Rightarrow> u32 \<Rightarrow> byte list" where
  "special_of base type = (if \<not> has type SPECIAL then [] else if base = 8 then [48]
     else if base = 16 then [48, if has type SMALL then 120 else 88] else [])"

definition left_flags :: "u32 \<Rightarrow> u32" where
  "left_flags type = (if has type LEFT_JUST then type AND NOT ZEROPAD else type)"

text \<open>\<open>None\<close> is the null pointer returned for a base that has no digits.\<close>

definition number :: "u32 \<Rightarrow> nat \<Rightarrow> int \<Rightarrow> int \<Rightarrow> u32 \<Rightarrow> byte list option" where
  "number num base width precision type =
     (let type = left_flags type in
      if base < 2 \<or> 36 < base then None
      else let c = (if has type ZEROPAD then 48 else 32);
               sign = sign_of num type;
               special = special_of base type;
               room = width - int (length sign) - int (length special);
               m = magnitude num type;
               tmp = (if m = 0 then [48] else tmp_digits (has type SMALL) base m);
               precision = max (int (length tmp)) precision;
               room = room - precision;
               (front, room) = (if has type (ZEROPAD + LEFT_JUST) then ([], room) else pad 32 room);
               (fill, room) = (if has type LEFT_JUST then ([], room) else pad c room);
               zeros = replicate (nat (precision - int (length tmp))) 48;
               (back, room) = pad 32 room
           in Some (front @ sign @ special @ fill @ zeros @ rev tmp @ back))"

section \<open>Formats\<close>

text \<open>
  The variable arguments: a 32-bit word or a string. A directive without its argument, or with one of
  the other kind, reads something the caller did not pass.
\<close>

datatype va = Word u32 | Str "byte list"

fun next_word :: "va list \<Rightarrow> (u32 \<times> va list) option" where
  "next_word (Word w # vs) = Some (w, vs)"
| "next_word vs = overrun ''va_arg''"

fun next_str :: "va list \<Rightarrow> (byte list \<times> va list) option" where
  "next_str (Str s # vs) = Some (s, vs)"
| "next_str vs = overrun ''va_arg''"

fun read_flags :: "u32 \<Rightarrow> byte list \<Rightarrow> u32 \<times> byte list" where
  "read_flags flags [] = (flags, [])"
| "read_flags flags (c # f) =
     (if c = 45 then read_flags (flags OR LEFT_JUST) f
      else if c = 43 then read_flags (flags OR PLUS) f
      else if c = 32 then read_flags (flags OR SPACE) f
      else if c = 35 then read_flags (flags OR SPECIAL) f
      else if c = 48 then read_flags (flags OR ZEROPAD) f
      else (flags, c # f))"

text \<open>The field width. A \<^verbatim>\<open>*\<close> takes it from the arguments, but the format still points to the \<^verbatim>\<open>*\<close>.\<close>

definition read_width :: "u32 \<Rightarrow> byte list \<Rightarrow> va list \<Rightarrow> (int \<times> u32 \<times> byte list \<times> va list) option" where
  "read_width flags f vs =
     (case f of [] \<Rightarrow> Some (- 1, flags, f, vs)
      | c # _ \<Rightarrow>
        if is_digit c then (case skip_atoi 0 f of (w, f) \<Rightarrow> Some (w, flags, f, vs))
        else if c = 42 then
          do { (w, vs) \<leftarrow> next_word vs;
               if w <s 0 then Some (sint (- w), flags OR LEFT_JUST, f, vs) else Some (sint w, flags, f, vs) }
        else Some (- 1, flags, f, vs))"

definition read_precision :: "byte list \<Rightarrow> va list \<Rightarrow> (int \<times> byte list \<times> va list) option" where
  "read_precision f vs =
     (case f of [] \<Rightarrow> Some (- 1, f, vs)
      | c # g \<Rightarrow>
        if c \<noteq> 46 then Some (- 1, f, vs)
        else do {
          (p, g, vs) \<leftarrow>
            (case g of [] \<Rightarrow> Some (- 1, g, vs)
             | d # _ \<Rightarrow>
               if is_digit d then (case skip_atoi 0 g of (p, g) \<Rightarrow> Some (p, g, vs))
               else if d = 42 then do { (p, vs) \<leftarrow> next_word vs; Some (sint p, g, vs) }
               else Some (- 1, g, vs));
          Some (max 0 p, g, vs) })"

definition skip_qualifier :: "byte list \<Rightarrow> byte list" where
  "skip_qualifier f = (case f of [] \<Rightarrow> f | c # g \<Rightarrow> if c = 104 \<or> c = 108 \<or> c = 76 then g else f)"

text \<open>
  One directive, from the flags on: its bytes, what \<^verbatim>\<open>%n\<close> stores (an address and the number of bytes out
  so far), the rest of the format and the rest of the arguments. \<open>out\<close> counts the bytes in front of it.
\<close>

definition conv_char :: "u32 \<Rightarrow> int \<Rightarrow> u32 \<Rightarrow> byte list" where
  "conv_char flags width w =
     (if has flags LEFT_JUST then ucast w # replicate (nat (width - 1)) 32
      else replicate (nat (width - 1)) 32 @ [ucast w])"

definition conv_str :: "u32 \<Rightarrow> int \<Rightarrow> int \<Rightarrow> byte list \<Rightarrow> byte list" where
  "conv_str flags width precision s =
     (let len = (if precision < 0 then int (length s) else min (int (length s)) precision);
          s = take (nat len) s; spaces = replicate (nat (width - len)) 32
      in if has flags LEFT_JUST then s @ spaces else spaces @ s)"

definition conv_num :: "nat \<Rightarrow> u32 \<Rightarrow> int \<Rightarrow> int \<Rightarrow> va list \<Rightarrow> (byte list \<times> va list) option" where
  "conv_num base flags width precision vs =
     do { (w, vs) \<leftarrow> next_word vs; s \<leftarrow> number w base width precision flags; Some (s, vs) }"

definition conversion :: "nat \<Rightarrow> byte \<Rightarrow> u32 \<Rightarrow> int \<Rightarrow> int \<Rightarrow> va list \<Rightarrow>
    (byte list \<times> (u32 \<times> nat) list \<times> va list) option" where
  "conversion out c flags width precision vs =
     (let none = map_option (\<lambda>(s, vs). (s, [], vs)) in
      if c = 99 then do { (w, vs) \<leftarrow> next_word vs; Some (conv_char flags width w, [], vs) }
      else if c = 115 then do { (s, vs) \<leftarrow> next_str vs; Some (conv_str flags width precision s, [], vs) }
      else if c = 111 then none (conv_num 8 flags width precision vs)
      else if c = 112 then
        (if width = - 1 then none (conv_num 16 (flags OR ZEROPAD) 8 precision vs)
         else none (conv_num 16 flags width precision vs))
      else if c = 120 then none (conv_num 16 (flags OR SMALL) width precision vs)
      else if c = 88 then none (conv_num 16 flags width precision vs)
      else if c = 100 \<or> c = 105 then none (conv_num 10 (flags OR SIGN) width precision vs)
      else if c = 117 then none (conv_num 10 flags width precision vs)
      else if c = 110 then do { (p, vs) \<leftarrow> next_word vs; Some ([], [(p, out)], vs) }
      else if c = 37 then Some ([37], [], vs)
      else Some ([37, c], [], vs))"

definition directive :: "nat \<Rightarrow> byte list \<Rightarrow> va list \<Rightarrow>
    (byte list \<times> (u32 \<times> nat) list \<times> byte list \<times> va list) option" where
  "directive out f vs =
     do { let (flags, f) = read_flags 0 f;
          (width, flags, f, vs) \<leftarrow> read_width flags f vs;
          (precision, f, vs) \<leftarrow> read_precision f vs;
          case skip_qualifier f of
            [] \<Rightarrow> Some ([37], [], [], vs)
          | c # f \<Rightarrow> do { (s, n, vs) \<leftarrow> conversion out c flags width precision vs; Some (s, n, f, vs) } }"

lemma skip_atoi_length: "skip_atoi i s = (n, t) \<Longrightarrow> length t \<le> length s"
  by (induction i s rule: skip_atoi.induct) (auto split: if_splits)

lemma read_flags_length: "read_flags flags f = (flags', g) \<Longrightarrow> length g \<le> length f"
  by (induction flags f rule: read_flags.induct) (auto split: if_splits)

lemma read_width_length: "read_width flags f vs = Some (w, flags', g, vs') \<Longrightarrow> length g \<le> length f"
  by (auto simp: read_width_def bind_Some_iff split: list.splits if_splits prod.splits
      dest: skip_atoi_length)

lemma read_precision_length: "read_precision f vs = Some (p, g, vs') \<Longrightarrow> length g \<le> length f"
  by (auto simp: read_precision_def bind_Some_iff split: list.splits if_splits prod.splits
      dest: skip_atoi_length)

lemma skip_qualifier_length: "length (skip_qualifier f) \<le> length f"
  by (auto simp: skip_qualifier_def split: list.splits)

lemma directive_length:
  assumes "directive out f vs = Some (s, n, g, vs')"
  shows "length g \<le> length f"
proof -
  obtain flags f1 where 1: "read_flags 0 f = (flags, f1)" by fastforce
  obtain width flags' f2 vs2 where 2: "read_width flags f1 vs = Some (width, flags', f2, vs2)"
    using assms 1 by (auto simp: directive_def bind_Some_iff)
  obtain precision f3 vs3 where 3: "read_precision f2 vs2 = Some (precision, f3, vs3)"
    using assms 1 2 by (auto simp: directive_def bind_Some_iff)
  have "length g \<le> length (skip_qualifier f3)"
    using assms 1 2 3 by (auto simp: directive_def bind_Some_iff split: list.splits)
  with read_flags_length [OF 1] read_width_length [OF 2] read_precision_length [OF 3] skip_qualifier_length [of f3]
  show ?thesis by linarith
qed

function format :: "nat \<Rightarrow> byte list \<Rightarrow> va list \<Rightarrow> (byte list \<times> (u32 \<times> nat) list) option" where
  "format out [] vs = Some ([], [])"
| "format out (c # f) vs =
     (if c \<noteq> 37 then map_option (\<lambda>(s, ns). (c # s, ns)) (format (Suc out) f vs)
      else case directive out f vs of None \<Rightarrow> None
      | Some (s, n, f, vs) \<Rightarrow> map_option (\<lambda>(t, ns). (s @ t, n @ ns)) (format (out + length s) f vs))"
  by pat_completeness auto
termination
  by (relation "measure (\<lambda>(out, f, vs). length f)") (auto dest: directive_length)

text \<open>The bytes stored in front of the final zero; their number is the result.\<close>

definition vsprintf :: "byte list \<Rightarrow> va list \<Rightarrow> (byte list \<times> (u32 \<times> nat) list) option" where
  "vsprintf fmt args = format 0 fmt args"

section \<open>Reading a number back\<close>

definition digit_value :: "byte \<Rightarrow> nat" where
  "digit_value c = (let n = unat c in if n < 58 then n - 48 else if n < 91 then n - 55 else n - 87)"

definition value_of :: "nat \<Rightarrow> byte list \<Rightarrow> nat" where
  "value_of base s = foldl (\<lambda>n c. n * base + digit_value c) 0 s"

lemma digit_value_char: "d < 36 \<Longrightarrow> digit_value (digit_char small d) = d"
  by (auto simp: digit_value_def digit_char_def unat_of_nat_small Let_def)

lemma value_of_rev_Cons: "value_of base (rev (c # t)) = value_of base (rev t) * base + digit_value c"
  by (simp add: value_of_def)

lemma value_of_tmp_digits:
  assumes "2 \<le> base" and "base \<le> 36"
  shows "value_of base (rev (tmp_digits small base n)) = n"
proof (induction n rule: less_induct)
  case (less n)
  show ?case
  proof (cases "n = 0")
    case True
    then show ?thesis by (simp add: tmp_digits.simps value_of_def)
  next
    case False
    then have e: "tmp_digits small base n
        = digit_char small (n mod base) # tmp_digits small base (n div base)"
      using assms by (simp add: tmp_digits.simps [of small base n])
    have "n div base < n" "n mod base < 36" using False assms by (simp_all add: less_le_trans [OF mod_less_divisor])
    then show ?thesis
      unfolding e value_of_rev_Cons using less.IH by (simp add: digit_value_char)
  qed
qed

lemma last_tmp_digits:
  assumes "2 \<le> base" and "base \<le> 36" and "n \<noteq> 0"
  shows "tmp_digits small base n \<noteq> [] \<and> digit_value (last (tmp_digits small base n)) \<noteq> 0"
  using \<open>n \<noteq> 0\<close>
proof (induction n rule: less_induct)
  case (less n)
  have e: "tmp_digits small base n
      = digit_char small (n mod base) # tmp_digits small base (n div base)"
    using assms less.prems by (simp add: tmp_digits.simps [of small base n])
  show ?case
  proof (cases "n div base = 0")
    case True
    then have "n < base" using assms by (simp add: div_eq_0_iff)
    then show ?thesis using True e less.prems assms by (simp add: tmp_digits.simps digit_value_char)
  next
    case False
    then have "n div base < n" using assms less.prems by simp
    then show ?thesis using less.IH False e by simp
  qed
qed

section \<open>Properties\<close>

lemma format_plain: "37 \<notin> set fmt \<Longrightarrow> format out fmt args = Some (fmt, [])"
  by (induction fmt arbitrary: out) auto

lemma has_bit: "k < 32 \<Longrightarrow> has type (push_bit k 1) \<longleftrightarrow> bit type k"
  by (simp add: has_def bit_iff_and_push_bit_not_eq_0)

lemma has_bits:
  "has type ZEROPAD \<longleftrightarrow> bit type 0" "has type SIGN \<longleftrightarrow> bit type 1" "has type PLUS \<longleftrightarrow> bit type 2"
  "has type SPACE \<longleftrightarrow> bit type 3" "has type LEFT_JUST \<longleftrightarrow> bit type 4" "has type SPECIAL \<longleftrightarrow> bit type 5"
  "has type SMALL \<longleftrightarrow> bit type 6"
  using has_bit [of 0 type] has_bit [of 1 type] has_bit [of 2 type] has_bit [of 3 type] has_bit [of 4 type]
    has_bit [of 5 type] has_bit [of 6 type] by (simp_all add: push_bit_eq_mult)

lemma has_17: "has type (ZEROPAD + LEFT_JUST) \<longleftrightarrow> has type ZEROPAD \<or> has type LEFT_JUST"
proof -
  have "type AND 17 = (type AND 1) OR (type AND 16)"
    unfolding bit.conj_disj_distrib [symmetric] by simp
  then show ?thesis by (auto simp: has_def or_eq_0_iff)
qed

lemma left_flags_other: "k \<noteq> 0 \<Longrightarrow> bit (left_flags type) k \<longleftrightarrow> bit type k"
  by (auto simp: left_flags_def bit_and_iff bit_not_iff dest: bit_imp_le_length)

lemma left_flags_0: "bit (left_flags type) 0 \<longleftrightarrow> bit type 0 \<and> \<not> bit type 4"
  by (simp add: left_flags_def has_bits bit_and_iff bit_not_iff)

text \<open>
  \<^verbatim>\<open>number\<close> lays a number out in its field: blanks, the sign, the prefix of the base, zeros, the digits,
  blanks. The digits, read in the base, give the magnitude of the number back, without a leading zero
  but for 0 itself; the field is as long as asked for, and longer when precision or digits need it; blanks
  follow the digits only in a left-justified field and precede the sign only in a field that is neither
  left-justified nor filled up with zeros.
\<close>

theorem number_roundtrip:
  assumes "2 \<le> base" and "base \<le> 36"
  shows "\<exists>front zeros ds back.
    number num base width precision type
      = Some (replicate front 32 @ sign_of num type @ special_of base type @ replicate zeros 48 @ ds @ replicate back 32)
    \<and> value_of base ds = magnitude num type
    \<and> ds \<noteq> [] \<and> (digit_value (hd ds) = 0 \<longleftrightarrow> magnitude num type = 0)
    \<and> front + length (sign_of num type) + length (special_of base type) + zeros + length ds + back
        = nat (max width (int (length (sign_of num type) + length (special_of base type))
            + max (int (length ds)) precision))
    \<and> (has type LEFT_JUST \<longrightarrow> front = 0) \<and> (\<not> has type LEFT_JUST \<longrightarrow> back = 0)
    \<and> (has type ZEROPAD \<and> \<not> has type LEFT_JUST \<longrightarrow> front = 0)"
proof -
  let ?t = "left_flags type"
  have flags: "sign_of num ?t = sign_of num type" "special_of base ?t = special_of base type"
    "magnitude num ?t = magnitude num type" "has ?t LEFT_JUST = has type LEFT_JUST"
    "has ?t ZEROPAD \<longleftrightarrow> has type ZEROPAD \<and> \<not> has type LEFT_JUST"
    by (simp_all add: sign_of_def special_of_def magnitude_def has_bits left_flags_other left_flags_0)
  let ?m = "magnitude num type"
  define ds where "ds = rev (if ?m = 0 then [48] else tmp_digits (has ?t SMALL) base ?m)"
  have ds: "value_of base ds = ?m" "ds \<noteq> []" "digit_value (hd ds) = 0 \<longleftrightarrow> ?m = 0"
    using assms value_of_tmp_digits [OF assms] last_tmp_digits [OF assms, of ?m]
    by (auto simp: ds_def hd_rev value_of_def digit_value_def)
  have len: "length (if ?m = 0 then [48] else tmp_digits (has ?t SMALL) base ?m) = length ds"
    and rev: "rev (if ?m = 0 then [48] else tmp_digits (has ?t SMALL) base ?m) = ds"
    by (simp_all add: ds_def)
  let ?prec = "max (int (length ds)) precision"
  let ?head = "length (sign_of num type) + length (special_of base type)"
  let ?room = "width - int (length (sign_of num type)) - int (length (special_of base type)) - ?prec"
  define room where "room = ?room"
  let ?zeros = "nat (?prec - int (length ds))"
  have out: "number num base width precision type = Some (
      (if has type ZEROPAD \<or> has type LEFT_JUST then [] else replicate (nat room) 32)
      @ sign_of num type @ special_of base type
      @ (if has type ZEROPAD \<and> \<not> has type LEFT_JUST then replicate (nat room) 48 else [])
      @ replicate ?zeros 48 @ ds @ (if has type LEFT_JUST then replicate (nat room) 32 else []))"
    using assms unfolding number_def Let_def flags len rev has_17 pad_def room_def [symmetric]
    by (auto simp: flags)
  show ?thesis
    by (rule exI [of _ "if has type ZEROPAD \<or> has type LEFT_JUST then 0 else nat room"],
        rule exI [of _ "(if has type ZEROPAD \<and> \<not> has type LEFT_JUST then nat room else 0) + ?zeros"],
        rule exI [of _ ds], rule exI [of _ "if has type LEFT_JUST then nat room else 0"])
       (use ds in \<open>auto simp: out replicate_add room_def max_def split: if_splits\<close>)
qed

theorem number_roundtrip_witness:
  "number (- 255) 16 8 (- 1) SIGN = Some [32, 32, 32, 32, 32, 45, 70, 70]
   \<and> (\<exists>front zeros ds back. number (- 255) 16 8 (- 1) SIGN
      = Some (replicate front 32 @ sign_of (- 255) SIGN @ special_of 16 SIGN @ replicate zeros 48 @ ds @ replicate back 32)
     \<and> value_of 16 ds = 255)"
proof (rule conjI)
  show "number (- 255) 16 8 (- 1) SIGN = Some [32, 32, 32, 32, 32, 45, 70, 70]"
    by code_simp
  have "magnitude (- 255) SIGN = 255" by code_simp
  then show "\<exists>front zeros ds back. number (- 255) 16 8 (- 1) SIGN
      = Some (replicate front 32 @ sign_of (- 255) SIGN @ special_of 16 SIGN @ replicate zeros 48 @ ds @ replicate back 32)
     \<and> value_of 16 ds = 255"
    using number_roundtrip [of 16 "- 255" 8 "- 1" SIGN] by fastforce
qed

text \<open>
  A star for the field width takes the width from the arguments but stays in the format, where it
  counts as an unknown directive: whatever the arguments, \<^verbatim>\<open>"%*d"\<close> is printed as it stands.
\<close>

theorem vsprintf_star: "vsprintf [37, 42, 100] [Word w, Word n] = Some ([37, 42, 100], [])"
  by (simp add: vsprintf_def directive_def read_width_def read_precision_def skip_qualifier_def conversion_def
      is_digit_def word_sle_eq format_plain)

end
