(* ===== verification/Strings.thy ===== *)
theory Strings
  imports Prelude
begin

text \<open>
  The string routines of \<^verbatim>\<open>include/string.h\<close>, all inline assembler. Memory is a map from 32-bit
  addresses to bytes, and a routine runs over registers that wrap round; the string instructions are

  \<^item> \<open>scasb\<close>: \<^verbatim>\<open>repne scasb\<close>, a search for the byte in \<^verbatim>\<open>al\<close>,
  \<^item> \<open>cmpsb\<close>: \<^verbatim>\<open>repe cmpsb\<close>, a comparison up to the first difference,
  \<^item> \<open>movsb\<close>, \<open>movsb_down\<close> and \<open>stosb\<close>: \<^verbatim>\<open>rep movsb\<close> forwards and backwards, \<^verbatim>\<open>rep stosb\<close>.

  A loop that runs up to a zero byte need not end; its value is then \<open>None\<close>.
\<close>

type_synonym memory = "u32 \<Rightarrow> byte"

section \<open>The string instructions\<close>

lemma unat_dec: "n \<noteq> (0 :: u32) \<Longrightarrow> unat (n - 1) = unat n - 1"
  by (metis unat_minus_one)

lemma unat_dec_less: "n \<noteq> (0 :: u32) \<Longrightarrow> unat (n - 1) < unat n"
  by (simp add: unat_dec unat_gt_0)

lemma count_js: "\<not> n - 1 <s 0 \<Longrightarrow> n \<noteq> (0 :: u32)"
  by auto

text \<open>\<open>scasb c p n m\<close>: the address behind the byte looked at last, the count left, and the zero flag.\<close>

function scasb :: "byte \<Rightarrow> u32 \<Rightarrow> u32 \<Rightarrow> memory \<Rightarrow> u32 \<times> u32 \<times> bool" where
  "scasb c p n m =
     (if n = 0 then (p, 0, False)
      else if m p = c then (p + 1, n - 1, True)
      else scasb c (p + 1) (n - 1) m)"
  by pat_completeness auto
termination
  by (relation "measure (\<lambda>(c, p, n, m). unat n)") (simp_all add: unat_dec_less)

text \<open>\<open>cmpsb p q n m\<close>: the address behind the last byte at \<open>p\<close>, and the two bytes compared last, if any.\<close>

function cmpsb :: "u32 \<Rightarrow> u32 \<Rightarrow> u32 \<Rightarrow> memory \<Rightarrow> u32 \<times> (byte \<times> byte) option" where
  "cmpsb p q n m =
     (if n = 0 then (p, None)
      else if m p = m q \<and> n \<noteq> 1 then cmpsb (p + 1) (q + 1) (n - 1) m
      else (p + 1, Some (m p, m q)))"
  by pat_completeness auto
termination
  by (relation "measure (\<lambda>(p, q, n, m). unat n)") (simp_all add: unat_dec_less)

function movsb :: "u32 \<Rightarrow> u32 \<Rightarrow> u32 \<Rightarrow> memory \<Rightarrow> memory" where
  "movsb src dest n m =
     (if n = 0 then m else movsb (src + 1) (dest + 1) (n - 1) (m(dest := m src)))"
  by pat_completeness auto
termination
  by (relation "measure (\<lambda>(s, d, n, m). unat n)") (simp_all add: unat_dec_less)

function movsb_down :: "u32 \<Rightarrow> u32 \<Rightarrow> u32 \<Rightarrow> memory \<Rightarrow> memory" where
  "movsb_down src dest n m =
     (if n = 0 then m else movsb_down (src - 1) (dest - 1) (n - 1) (m(dest := m src)))"
  by pat_completeness auto
termination
  by (relation "measure (\<lambda>(s, d, n, m). unat n)") (simp_all add: unat_dec_less)

function stosb :: "byte \<Rightarrow> u32 \<Rightarrow> u32 \<Rightarrow> memory \<Rightarrow> memory" where
  "stosb c dest n m = (if n = 0 then m else stosb c (dest + 1) (n - 1) (m(dest := c)))"
  by pat_completeness auto
termination
  by (relation "measure (\<lambda>(c, d, n, m). unat n)") (simp_all add: unat_dec_less)

declare scasb.simps [simp del] cmpsb.simps [simp del] movsb.simps [simp del] movsb_down.simps [simp del]
  stosb.simps [simp del]

section \<open>The routines\<close>

definition memcpy :: "u32 \<Rightarrow> u32 \<Rightarrow> u32 \<Rightarrow> memory \<Rightarrow> memory" where
  "memcpy dest src n m = movsb src dest n m"

definition memmove :: "u32 \<Rightarrow> u32 \<Rightarrow> u32 \<Rightarrow> memory \<Rightarrow> memory" where
  "memmove dest src n m =
     (if dest < src then memcpy dest src n m else movsb_down (n - 1 + src) (n - 1 + dest) n m)"

definition memset :: "u32 \<Rightarrow> u32 \<Rightarrow> u32 \<Rightarrow> memory \<Rightarrow> memory" where
  "memset s c count m = stosb (ucast c) s count m"

text \<open>
  \<^verbatim>\<open>jl\<close> compares signed, the bytes of \<open>ct\<close> against those of \<open>cs\<close>. With a count of 0 nothing sets the
  flags: \<open>zf\<close> and \<open>lt\<close> are what the code in front left in them.
\<close>

definition memcmp :: "bool \<Rightarrow> bool \<Rightarrow> u32 \<Rightarrow> u32 \<Rightarrow> u32 \<Rightarrow> memory \<Rightarrow> u32" where
  "memcmp zf lt cs ct count m =
     (let (zf, lt) = (case cmpsb ct cs count m of (_, None) \<Rightarrow> (zf, lt) | (_, Some (a, b)) \<Rightarrow> (a = b, a <s b))
      in if zf then 0 else if lt then 1 else - 1)"

definition memchr :: "u32 \<Rightarrow> byte \<Rightarrow> u32 \<Rightarrow> memory \<Rightarrow> u32" where
  "memchr cs c count m =
     (if count = 0 then 0 else case scasb c cs count m of (p, _, found) \<Rightarrow> (if found then p else 1) - 1)"

text \<open>The count comes out of \<^verbatim>\<open>ecx\<close>, which started at 0xffffffff, by \<^verbatim>\<open>notl\<close> and \<^verbatim>\<open>decl\<close>.\<close>

definition strlen :: "u32 \<Rightarrow> memory \<Rightarrow> u32" where
  "strlen s m = (case scasb 0 s 0xffffffff m of (_, n, _) \<Rightarrow> NOT n - 1)"

partial_function (option) strcpy_loop :: "u32 \<Rightarrow> u32 \<Rightarrow> memory \<Rightarrow> memory option" where
  "strcpy_loop src dest m =
     (if m src \<noteq> 0 then strcpy_loop (src + 1) (dest + 1) (m(dest := m src)) else Some (m(dest := 0)))"

definition strcpy :: "u32 \<Rightarrow> u32 \<Rightarrow> memory \<Rightarrow> memory option" where
  "strcpy dest src m = strcpy_loop src dest m"

text \<open>\<^verbatim>\<open>decl\<close> and \<^verbatim>\<open>js\<close>: a count that is not positive ends the loop; the rest is filled up with zeros.\<close>

function strncpy_loop :: "u32 \<Rightarrow> u32 \<Rightarrow> u32 \<Rightarrow> memory \<Rightarrow> memory" where
  "strncpy_loop src dest count m =
     (if count - 1 <s 0 then m
      else if m src \<noteq> 0 then strncpy_loop (src + 1) (dest + 1) (count - 1) (m(dest := m src))
      else stosb 0 (dest + 1) (count - 1) (m(dest := 0)))"
  by pat_completeness auto
termination
  by (relation "measure (\<lambda>(_, _, n, _). unat n)") (simp_all add: unat_dec_less count_js)

definition strncpy :: "u32 \<Rightarrow> u32 \<Rightarrow> u32 \<Rightarrow> memory \<Rightarrow> memory" where
  "strncpy dest src count m = strncpy_loop src dest count m"

text \<open>The address of the terminating zero, as \<^verbatim>\<open>repne scasb\<close> and \<^verbatim>\<open>decl\<close> find it.\<close>

definition str_end :: "u32 \<Rightarrow> memory \<Rightarrow> u32" where
  "str_end s m = (case scasb 0 s 0xffffffff m of (p, _) \<Rightarrow> p - 1)"

definition strcat :: "u32 \<Rightarrow> u32 \<Rightarrow> memory \<Rightarrow> memory option" where
  "strcat dest src m = strcpy_loop src (str_end dest m) m"

text \<open>The zero behind the copied bytes is stored in any case, a second one behind that of the string.\<close>

function strncat_loop :: "u32 \<Rightarrow> u32 \<Rightarrow> u32 \<Rightarrow> memory \<Rightarrow> memory" where
  "strncat_loop src dest count m =
     (if count - 1 <s 0 then m(dest := 0)
      else if m src \<noteq> 0 then strncat_loop (src + 1) (dest + 1) (count - 1) (m(dest := m src))
      else m(dest := 0, dest + 1 := 0))"
  by pat_completeness auto
termination
  by (relation "measure (\<lambda>(_, _, n, _). unat n)") (simp_all add: unat_dec_less count_js)

definition strncat :: "u32 \<Rightarrow> u32 \<Rightarrow> u32 \<Rightarrow> memory \<Rightarrow> memory" where
  "strncat dest src count m = strncat_loop src (str_end dest m) count m"

text \<open>\<^verbatim>\<open>sbbl\<close> and \<^verbatim>\<open>orb $1\<close> turn the carry of the last comparison into -1 or 1.\<close>

partial_function (option) strcmp :: "u32 \<Rightarrow> u32 \<Rightarrow> memory \<Rightarrow> u32 option" where
  "strcmp cs ct m =
     (if m cs \<noteq> m ct then Some (if m cs < m ct then - 1 else 1)
      else if m cs \<noteq> 0 then strcmp (cs + 1) (ct + 1) m else Some 0)"

function strncmp :: "u32 \<Rightarrow> u32 \<Rightarrow> u32 \<Rightarrow> memory \<Rightarrow> u32" where
  "strncmp cs ct count m =
     (if count - 1 <s 0 then 0
      else if m cs \<noteq> m ct then (if m cs < m ct then - 1 else 1)
      else if m cs \<noteq> 0 then strncmp (cs + 1) (ct + 1) (count - 1) m else 0)"
  by pat_completeness auto
termination
  by (relation "measure (\<lambda>(_, _, n, _). unat n)") (simp_all add: unat_dec_less count_js)

partial_function (option) strchr :: "u32 \<Rightarrow> byte \<Rightarrow> memory \<Rightarrow> u32 option" where
  "strchr s c m = (if m s = c then Some s else if m s \<noteq> 0 then strchr (s + 1) c m else Some 0)"

partial_function (option) strrchr_loop :: "u32 \<Rightarrow> u32 \<Rightarrow> byte \<Rightarrow> memory \<Rightarrow> u32 option" where
  "strrchr_loop res s c m =
     (let res = (if m s = c then s else res) in if m s \<noteq> 0 then strrchr_loop res (s + 1) c m else Some res)"

definition strrchr :: "u32 \<Rightarrow> byte \<Rightarrow> memory \<Rightarrow> u32 option" where
  "strrchr s c m = strrchr_loop 0 s c m"

text \<open>Is the byte one of the \<open>n\<close> bytes at \<open>ct\<close>?\<close>

definition member :: "byte \<Rightarrow> u32 \<Rightarrow> u32 \<Rightarrow> memory \<Rightarrow> bool" where
  "member c ct n m = (case scasb c ct n m of (_, _, found) \<Rightarrow> found)"

text \<open>The address of the first byte at \<open>p\<close> that is zero or not accepted.\<close>

partial_function (option) span :: "(byte \<Rightarrow> bool) \<Rightarrow> u32 \<Rightarrow> memory \<Rightarrow> u32 option" where
  "span accept p m = (if m p = 0 then Some p else if accept (m p) then span accept (p + 1) m else Some p)"

definition strspn :: "u32 \<Rightarrow> u32 \<Rightarrow> memory \<Rightarrow> u32 option" where
  "strspn cs ct m = map_option (\<lambda>p. p - cs) (span (\<lambda>c. member c ct (strlen ct m) m) cs m)"

definition strcspn :: "u32 \<Rightarrow> u32 \<Rightarrow> memory \<Rightarrow> u32 option" where
  "strcspn cs ct m = map_option (\<lambda>p. p - cs) (span (\<lambda>c. \<not> member c ct (strlen ct m) m) cs m)"

definition strpbrk :: "u32 \<Rightarrow> u32 \<Rightarrow> memory \<Rightarrow> u32 option" where
  "strpbrk cs ct m =
     map_option (\<lambda>p. if m p = 0 then 0 else p) (span (\<lambda>c. \<not> member c ct (strlen ct m) m) cs m)"

text \<open>
  \<^verbatim>\<open>strstr\<close> tries one position after the other; the byte in front of \<^verbatim>\<open>esi\<close> after a comparison that failed
  is the byte that differed, and a zero there ends the search.
\<close>

partial_function (option) strstr_loop :: "u32 \<Rightarrow> u32 \<Rightarrow> u32 \<Rightarrow> memory \<Rightarrow> u32 option" where
  "strstr_loop cs ct n m =
     (case cmpsb cs ct n m of
        (_, None) \<Rightarrow> Some cs
      | (p, Some (a, b)) \<Rightarrow>
          if a = b then Some cs else if m (p - 1) \<noteq> 0 then strstr_loop (cs + 1) ct n m else Some 0)"

definition strstr :: "u32 \<Rightarrow> u32 \<Rightarrow> memory \<Rightarrow> u32 option" where
  "strstr cs ct m = strstr_loop cs ct (strlen ct m) m"

text \<open>\<^verbatim>\<open>strtok\<close>: the token found (0 when there is none), the new value of \<^verbatim>\<open>___strtok\<close> and the memory.\<close>

definition strtok :: "u32 \<Rightarrow> u32 \<Rightarrow> u32 \<Rightarrow> memory \<Rightarrow> (u32 \<times> u32 \<times> memory) option" where
  "strtok old s ct m =
     (if s = 0 \<and> old = 0 then Some (0, 0, m)
      else let s = (if s = 0 then old else s); n = strlen ct m in
      if n = 0 then Some (0, 0, m)
      else do {
        first \<leftarrow> span (\<lambda>c. member c ct n m) s m;
        if m first = 0 then Some (0, 0, m)
        else do {
          last \<leftarrow> span (\<lambda>c. \<not> member c ct n m) first m;
          if m last = 0 then Some (first, 0, m) else Some (first, last + 1, m(last := 0)) } })"

section \<open>Strings in memory\<close>

primrec cstr :: "memory \<Rightarrow> u32 \<Rightarrow> byte list \<Rightarrow> bool" where
  "cstr m p [] \<longleftrightarrow> m p = 0"
| "cstr m p (c # s) \<longleftrightarrow> m p = c \<and> c \<noteq> 0 \<and> cstr m (p + 1) s"

lemma scasb_cstr:
  "cstr m p s \<Longrightarrow> length s < unat n \<Longrightarrow>
    scasb 0 p n m = (p + of_nat (length s) + 1, n - of_nat (length s) - 1, True)"
proof (induction s arbitrary: p n)
  case Nil
  then show ?case by (subst scasb.simps) auto
next
  case (Cons c s)
  have n: "n \<noteq> 0" using Cons.prems by auto
  then have "length s < unat (n - 1)" using Cons.prems by (simp add: unat_dec)
  then show ?case
    using Cons.IH [of "p + 1" "n - 1"] Cons.prems n
    by (subst scasb.simps) (simp add: algebra_simps)
qed

lemma strlen_cstr:
  assumes "cstr m p s" and "length s < 2 ^ 32 - 1"
  shows "strlen p m = of_nat (length s)"
proof -
  have "length s < unat (0xffffffff :: u32)" using assms by simp
  then have "strlen p m = NOT (0xffffffff - of_nat (length s) - 1) - 1"
    using scasb_cstr [OF assms(1)] by (simp add: strlen_def)
  then show ?thesis by (simp add: not_eq_complement)
qed

text \<open>The comparison of two strings is that of the dictionary, the bytes unsigned.\<close>

lemma strcmp_cstr:
  "cstr m p s \<Longrightarrow> cstr m q t \<Longrightarrow>
    strcmp p q m = Some (if s = t then 0 else if ord_class.lexordp s t then - 1 else 1)"
proof (induction s arbitrary: p q t)
  case Nil
  show ?case
  proof (cases t)
    case Nil
    then show ?thesis using \<open>cstr m p []\<close> \<open>cstr m q t\<close> by (subst strcmp.simps) simp
  next
    case (Cons d u)
    then have "m p = 0" "m q \<noteq> 0" "m p < m q"
      using \<open>cstr m p []\<close> \<open>cstr m q t\<close> by (auto simp: word_greater_zero_iff)
    then show ?thesis using Cons by (subst strcmp.simps) simp
  qed
next
  case (Cons c s)
  show ?case
  proof (cases t)
    case Nil
    then show ?thesis using Cons.prems by (subst strcmp.simps) auto
  next
    case (Cons d u)
    then show ?thesis
      using Cons.IH [of "p + 1" "q + 1" u] Cons.prems by (subst strcmp.simps) auto
  qed
qed

section \<open>Moving memory\<close>

definition moved :: "nat \<Rightarrow> nat \<Rightarrow> nat \<Rightarrow> memory \<Rightarrow> memory" where
  "moved s d k m = (\<lambda>a. if d \<le> unat a \<and> unat a < d + k then m (of_nat (s + (unat a - d))) else m a)"

lemma of_nat_neq: "x < 2 ^ 32 \<Longrightarrow> y < 2 ^ 32 \<Longrightarrow> x \<noteq> y \<Longrightarrow> (of_nat x :: u32) \<noteq> of_nat y"
  using unat_of_nat_small [of x, where 'a = 32] unat_of_nat_small [of y, where 'a = 32] by auto

lemma movsb_moved:
  "s + k \<le> 2 ^ 32 \<Longrightarrow> d < s \<Longrightarrow> movsb (of_nat s) (of_nat d) (of_nat k) m = moved s d k m"
proof (induction k arbitrary: s d m)
  case 0
  then show ?case by (subst movsb.simps) (auto simp: moved_def fun_eq_iff)
next
  case (Suc k)
  let ?m = "m(of_nat d := m (of_nat s))"
  have "movsb (of_nat s) (of_nat d) (of_nat (Suc k)) m = movsb (of_nat (Suc s)) (of_nat (Suc d)) (of_nat k) ?m"
    using of_nat_neq [of "Suc k" 0] Suc.prems
    by (subst movsb.simps) (simp add: add.commute)
  also have "\<dots> = moved (Suc s) (Suc d) k ?m"
    using Suc.prems by (intro Suc.IH) simp_all
  also have "\<dots> = moved s d (Suc k) m"
  proof (rule ext)
    fix a
    have d: "unat (of_nat d :: u32) = d" using Suc.prems by (intro unat_of_nat_small) simp
    show "moved (Suc s) (Suc d) k ?m a = moved s d (Suc k) m a"
    proof (cases "Suc d \<le> unat a \<and> unat a < Suc d + k")
      case True
      then have "Suc s + (unat a - Suc d) = s + (unat a - d)" by arith
      moreover have "(of_nat (s + (unat a - d)) :: u32) \<noteq> of_nat d"
        using True Suc.prems by (intro of_nat_neq) auto
      ultimately show ?thesis using True by (simp add: moved_def)
    next
      case False
      then show ?thesis using d by (cases "a = of_nat d") (auto simp: moved_def word_unat_eq_iff)
    qed
  qed
  finally show ?case .
qed

lemma movsb_down_moved:
  "d + k \<le> 2 ^ 32 \<Longrightarrow> k < 2 ^ 32 \<Longrightarrow> s \<le> d \<Longrightarrow>
    movsb_down (of_nat (s + k) - 1) (of_nat (d + k) - 1) (of_nat k) m = moved s d k m"
proof (induction k arbitrary: m)
  case 0
  then show ?case by (subst movsb_down.simps) (auto simp: moved_def fun_eq_iff)
next
  case (Suc k)
  let ?m = "m(of_nat (d + k) := m (of_nat (s + k)))"
  have "movsb_down (of_nat (s + Suc k) - 1) (of_nat (d + Suc k) - 1) (of_nat (Suc k)) m
      = movsb_down (of_nat (s + k) - 1) (of_nat (d + k) - 1) (of_nat k) ?m"
    using of_nat_neq [of "Suc k" 0] Suc.prems by (subst movsb_down.simps) simp
  also have "\<dots> = moved s d k ?m"
    using Suc.prems by (intro Suc.IH) simp_all
  also have "\<dots> = moved s d (Suc k) m"
  proof (rule ext)
    fix a
    have d: "unat (of_nat (d + k) :: u32) = d + k" using Suc.prems by (intro unat_of_nat_small) simp
    show "moved s d k ?m a = moved s d (Suc k) m a"
    proof (cases "d \<le> unat a \<and> unat a < d + k")
      case True
      then have "(of_nat (s + (unat a - d)) :: u32) \<noteq> of_nat (d + k)"
        using Suc.prems by (intro of_nat_neq) auto
      then show ?thesis using True by (simp add: moved_def)
    next
      case False
      then show ?thesis using d by (cases "a = of_nat (d + k)") (auto simp: moved_def word_unat_eq_iff)
    qed
  qed
  finally show ?case .
qed

section \<open>Searching a string\<close>

text \<open>The first place where \<open>t\<close> occurs in \<open>s\<close>.\<close>

definition occurs_at :: "byte list \<Rightarrow> byte list \<Rightarrow> nat \<Rightarrow> bool" where
  "occurs_at t s i \<longleftrightarrow> take (length t) (drop i s) = t"

definition first_occurrence :: "byte list \<Rightarrow> byte list \<Rightarrow> nat option" where
  "first_occurrence t s = List.find (occurs_at t s) [0..<Suc (length s)]"

lemma first_occurrence_Nil: "first_occurrence t [] = (if t = [] then Some 0 else None)"
  by (simp add: first_occurrence_def occurs_at_def)

lemma find_map_Suc: "List.find P (map Suc xs) = map_option Suc (List.find (\<lambda>i. P (Suc i)) xs)"
  by (induction xs) auto

lemma occurs_at_Suc: "occurs_at t (c # s) (Suc i) = occurs_at t s i"
  by (simp add: occurs_at_def)

lemma first_occurrence_Cons:
  "first_occurrence t (c # s) = (if take (length t) (c # s) = t then Some 0
     else map_option Suc (first_occurrence t s))"
proof -
  have "[0..<Suc (length (c # s))] = 0 # map Suc [0..<Suc (length s)]"
    by (simp add: upt_conv_Cons map_Suc_upt del: upt_Suc)
  then show ?thesis
    by (simp add: first_occurrence_def find_map_Suc occurs_at_Suc del: upt_Suc)
       (simp add: occurs_at_def)
qed

lemma first_occurrence_short: "length s < length t \<Longrightarrow> first_occurrence t s = None"
  by (auto simp: first_occurrence_def find_None_iff occurs_at_def dest: arg_cong [where f = length])

text \<open>What one comparison finds: a match, the end of the string, or a difference in front of it.\<close>

lemma cmpsb_cstr:
  assumes "cstr m p s" and "cstr m q t" and "t \<noteq> []" and "length t < 2 ^ 32"
  shows "\<exists>p' a b. cmpsb p q (of_nat (length t)) m = (p', Some (a, b)) \<and> a = m (p' - 1) \<and>
    (a = b \<longleftrightarrow> take (length t) s = t) \<and> (a = 0 \<longrightarrow> length s < length t) \<and> (s = [] \<longrightarrow> a = 0)"
  using assms
proof (induction t arbitrary: p q s)
  case (Cons d t)
  let ?n = "of_nat (length (d # t)) :: u32"
  have n: "?n \<noteq> 0" using of_nat_neq [of "length (d # t)" 0] Cons.prems by simp
  have n1: "?n = 1 \<longleftrightarrow> t = []"
    using of_nat_neq [of "length (d # t)" 1] Cons.prems by (cases t) auto
  have d: "m q = d" "d \<noteq> 0" "cstr m (q + 1) t" using Cons.prems by simp_all
  show ?case
  proof (cases s)
    case Nil
    then have "m p = 0" using Cons.prems by simp
    then show ?thesis using Nil n d by (subst cmpsb.simps) auto
  next
    case (Cons c s')
    then have c: "m p = c" "c \<noteq> 0" "cstr m (p + 1) s'" using \<open>cstr m p s\<close> by simp_all
    show ?thesis
    proof (cases "c = d \<and> t \<noteq> []")
      case True
      then have "cmpsb p q ?n m = cmpsb (p + 1) (q + 1) (of_nat (length t)) m"
        using n n1 c d by (subst cmpsb.simps) simp
      then show ?thesis
        using Cons.IH [OF c(3) d(3)] True Cons Cons.prems by auto
    next
      case False
      then have "cmpsb p q ?n m = (p + 1, Some (c, d))"
        using n n1 c d by (subst cmpsb.simps) auto
      then show ?thesis using False Cons c by auto
    qed
  qed
qed simp

lemma strstr_loop_cstr:
  assumes "cstr m q t" and "t \<noteq> []" and "length t < 2 ^ 32"
  shows "cstr m p s \<Longrightarrow> strstr_loop p q (of_nat (length t)) m
    = Some (case first_occurrence t s of None \<Rightarrow> 0 | Some i \<Rightarrow> p + of_nat i)"
proof (induction s arbitrary: p)
  case Nil
  from cmpsb_cstr [OF Nil assms] obtain p' b where
    "cmpsb p q (of_nat (length t)) m = (p', Some (0, b))" "m (p' - 1) = 0" "b \<noteq> 0"
    using assms(2) by auto
  then show ?case using assms(2) by (subst strstr_loop.simps) (simp add: first_occurrence_Nil)
next
  case (Cons c s)
  from cmpsb_cstr [OF Cons.prems assms] obtain p' a b where
    r: "cmpsb p q (of_nat (length t)) m = (p', Some (a, b))" "m (p' - 1) = a"
    "a = b \<longleftrightarrow> take (length t) (c # s) = t" "a = 0 \<longrightarrow> length (c # s) < length t"
    by metis
  show ?case
  proof (cases "a = b \<or> a = 0")
    case True
    then show ?thesis
      using r by (subst strstr_loop.simps) (auto simp: first_occurrence_Cons first_occurrence_short)
  next
    case False
    then have "strstr_loop p q (of_nat (length t)) m = strstr_loop (p + 1) q (of_nat (length t)) m"
      using r by (subst strstr_loop.simps) simp
    then show ?thesis
      using Cons False r(3) by (simp add: first_occurrence_Cons split: option.split)
  qed
qed

section \<open>Properties\<close>

text \<open>
  \<^verbatim>\<open>memmove\<close> moves the \<open>n\<close> bytes at \<open>src\<close> to \<open>dest\<close> as if through a copy, however the two
  areas overlap, and changes nothing else.
\<close>

theorem memmove_moves:
  assumes "unat src + unat n \<le> 2 ^ 32" and "unat dest + unat n \<le> 2 ^ 32"
  shows "memmove dest src n m = (\<lambda>a. if dest \<le> a \<and> unat (a - dest) < unat n then m (src + (a - dest)) else m a)"
proof -
  have "memmove dest src n m = moved (unat src) (unat dest) (unat n) m"
  proof (cases "dest < src")
    case True
    then show ?thesis
      using movsb_moved [of "unat src" "unat n" "unat dest" m] assms
      by (simp add: memmove_def memcpy_def word_less_nat_alt)
  next
    case False
    have "unat n < 2 ^ 32" by (rule order_less_le_trans [OF unsigned_less]) simp
    then show ?thesis
      using movsb_down_moved [of "unat dest" "unat n" "unat src" m] assms False
      by (simp add: memmove_def word_less_nat_alt algebra_simps)
  qed
  also have "\<dots> = (\<lambda>a. if dest \<le> a \<and> unat (a - dest) < unat n then m (src + (a - dest)) else m a)"
  proof (rule ext)
    fix a
    show "moved (unat src) (unat dest) (unat n) m a
      = (if dest \<le> a \<and> unat (a - dest) < unat n then m (src + (a - dest)) else m a)"
      by (auto simp: moved_def word_le_nat_alt unat_sub of_nat_diff add_diff_eq)
  qed
  finally show ?thesis .
qed

theorem memmove_moves_witness:
  "memmove 0x102 0x100 4 (\<lambda>a. ucast a)
     = (\<lambda>a. if 0x102 \<le> a \<and> unat (a - 0x102) < 4 then ucast (0x100 + (a - 0x102)) else ucast a)
   \<and> memmove 0x102 0x100 4 (\<lambda>a. ucast a) 0x105 = 3"
  using memmove_moves [where src = "0x100" and n = "4" and dest = "0x102" and m = "\<lambda>a. ucast a"] by simp

text \<open>
  \<^verbatim>\<open>strcmp\<close> orders two strings as a dictionary of unsigned bytes does: 0 for equal strings, -1 when the
  first comes in front, 1 otherwise.
\<close>

theorem strcmp_orders:
  assumes "cstr m p s" and "cstr m q t"
  shows "strcmp p q m = Some (if s = t then 0 else if ord_class.lexordp s t then - 1 else 1)"
  using assms by (rule strcmp_cstr)

theorem strcmp_orders_witness:
  "strcmp 0 1 ((\<lambda>_. 0)(0 := 97, 1 := 200)) = Some (- 1)"
  using strcmp_orders [of "(\<lambda>_. 0)(0 := 97, 1 := 200)" 0 "[97, 200]" 1 "[200]"] by simp

text \<open>
  \<^verbatim>\<open>strstr\<close> gives the address of the first place where the second string occurs in the first, also
  when the second is empty, and 0 when there is none.
\<close>

theorem strstr_finds:
  assumes "cstr m p s" and "cstr m q t" and "length t < 2 ^ 32 - 1"
  shows "strstr p q m = Some (case first_occurrence t s of None \<Rightarrow> 0 | Some i \<Rightarrow> p + of_nat i)"
proof (cases "t = []")
  case True
  have "first_occurrence [] s = Some 0" by (cases s) (simp_all add: first_occurrence_Nil first_occurrence_Cons)
  moreover have "strlen q m = 0" using strlen_cstr [OF assms(2)] True by simp
  ultimately show ?thesis
    using True by (simp add: strstr_def strstr_loop.simps cmpsb.simps)
next
  case False
  then show ?thesis
    using strstr_loop_cstr [OF assms(2) False _ assms(1)] strlen_cstr [OF assms(2,3)] assms(3)
    by (simp add: strstr_def)
qed

theorem strstr_finds_witness:
  "strstr 0 6 ((\<lambda>_. 0)(0 := 97, 1 := 97, 2 := 98, 6 := 97, 7 := 98)) = Some 1"
proof -
  have "first_occurrence [97, 98] [97, 97, 98] = Some 1" by code_simp
  then show ?thesis
    using strstr_finds [of "(\<lambda>_. 0)(0 := 97, 1 := 97, 2 := 98, 6 := 97, 7 := 98)" 0 "[97, 97, 98]" 6 "[97, 98]"]
    by simp
qed

end
