(* ===== verification/Namei.thy ===== *)
theory Namei
  imports Inode
begin

text \<open>
  Path names: \<^verbatim>\<open>fs/namei.c\<close>.

  A path is the list of bytes in front of its terminating zero; \<open>user_string\<close> reads it from the segment of
  the caller. A directory entry is an offset into the data of a buffer: two bytes with the inode number,
  fourteen with the name. A routine that hands an inode to its caller returns its index in
  \<^verbatim>\<open>inode_table\<close>, \<open>None\<close> being the null pointer.
\<close>

section \<open>Constants\<close>

abbreviation NAME_LEN :: nat where "NAME_LEN \<equiv> 14"
abbreviation DIR_ENTRY :: nat where "DIR_ENTRY \<equiv> 16"
abbreviation DIR_ENTRIES_PER_BLOCK :: nat where "DIR_ENTRIES_PER_BLOCK \<equiv> 64"
abbreviation MAY_EXEC :: u16 where "MAY_EXEC \<equiv> 1"
abbreviation MAY_WRITE :: u16 where "MAY_WRITE \<equiv> 2"
abbreviation MAY_READ :: u16 where "MAY_READ \<equiv> 4"
abbreviation O_ACCMODE :: u32 where "O_ACCMODE \<equiv> 3"
abbreviation O_WRONLY :: u32 where "O_WRONLY \<equiv> 1"
abbreviation O_CREAT :: u32 where "O_CREAT \<equiv> 0x40"
abbreviation O_EXCL :: u32 where "O_EXCL \<equiv> 0x80"
abbreviation O_TRUNC :: u32 where "O_TRUNC \<equiv> 0x200"
abbreviation O_APPEND :: u32 where "O_APPEND \<equiv> 0x400"
abbreviation O_NONBLOCK :: u32 where "O_NONBLOCK \<equiv> 0x800"
abbreviation I_DIRECTORY :: u16 where "I_DIRECTORY \<equiv> 0x4000"
abbreviation I_REGULAR :: u16 where "I_REGULAR \<equiv> 0x8000"

text \<open>The character of \<^verbatim>\<open>"\004\002\006\377"\<close>, sign-extended.\<close>

definition ACC_MODE :: "u32 \<Rightarrow> u16" where
  "ACC_MODE x = (let n = x AND O_ACCMODE in if n = 0 then 4 else if n = 1 then 2 else if n = 2 then 6 else - 1)"

partial_function (option) user_string :: "cbuf \<Rightarrow> nat \<Rightarrow> byte list option" where
  "user_string m a = (if m a = 0 then Some [] else do { s \<leftarrow> user_string m (Suc a); Some (m a # s) })"

section \<open>Permissions\<close>

definition superuser :: "'a kproc_scheme \<Rightarrow> bool" where
  "superuser k \<longleftrightarrow> t_uid (cur k) = 0 \<or> t_euid (cur k) = 0"

definition permission :: "nat \<Rightarrow> u16 \<Rightarrow> kernel \<Rightarrow> u16" where
  "permission inode want k =
     (let n = inode_at k inode; t = cur k; mode = i_mode n in
      if i_dev n \<noteq> 0 \<and> i_nlinks n = 0 then 0
      else let mode =
        (if superuser k then 0x1ff
         else if t_uid t = i_uid n \<or> t_euid t = i_uid n then drop_bit 6 mode
         else if t_gid t = ucast (i_gid n) \<or> t_egid t = ucast (i_gid n) then drop_bit 3 mode
         else mode)
      in mode AND want AND 7)"

section \<open>Directory nent\<close>

text \<open>\<^verbatim>\<open>match\<close> on the entry at offset \<open>p\<close> of a block; \<^verbatim>\<open>find_entry\<close> never passes an empty name.\<close>

definition match :: "byte list \<Rightarrow> cbuf \<Rightarrow> nat \<Rightarrow> bool" where
  "match name d p \<longleftrightarrow>
     get16 d p \<noteq> 0 \<and> length name \<le> NAME_LEN \<and> (length name < NAME_LEN \<longrightarrow> d (p + 2 + length name) = 0) \<and>
     list_all (\<lambda>i. name ! i = d (p + 2 + i)) [0..<length name]"

text \<open>
  Entry \<open>i\<close> of a directory lies at offset \<open>p\<close> of buffer \<open>bh\<close>, or at the start of the next block once \<open>p\<close>
  has left the buffer. Without a buffer (the block before was a hole or unreadable) the test for the end
  of the block reads through the null pointer, finds the page directory of the kernel there and holds.
\<close>

definition entry_buffer :: "nat \<Rightarrow> nat \<Rightarrow> nat option \<Rightarrow> nat \<Rightarrow> kernel \<Rightarrow> (nat option \<times> nat \<times> kernel) option" where
  "entry_buffer dir i bh p k =
     (if bh \<noteq> None \<and> p < BLOCK_SIZE then Some (bh, p, k)
      else do {
        k \<leftarrow> kbrelse bh k;
        (block, k) \<leftarrow> bmap dir (int (i div DIR_ENTRIES_PER_BLOCK)) k;
        if block = 0 then Some (None, 0, k)
        else do { (bh, k) \<leftarrow> kbread (i_dev (inode_at k dir)) block k; Some (bh, 0, k) } })"

function find_loop :: "nat \<Rightarrow> byte list \<Rightarrow> nat \<Rightarrow> nat \<Rightarrow> nat option \<Rightarrow> nat \<Rightarrow> kernel \<Rightarrow>
    ((nat \<times> nat) option \<times> kernel) option" where
  "find_loop dir name nent i bh p k =
     (if nent \<le> i then do { k \<leftarrow> kbrelse bh k; Some (None, k) }
      else do {
        (bh, p, k) \<leftarrow> entry_buffer dir i bh p k;
        case bh of None \<Rightarrow> find_loop dir name nent (i + DIR_ENTRIES_PER_BLOCK) None p k
        | Some b \<Rightarrow>
            if match name (bdata k b) p then Some (Some (b, p), k)
            else find_loop dir name nent (Suc i) (Some b) (p + DIR_ENTRY) k })"
  by pat_completeness auto
termination
  by (relation "measure (\<lambda>(dir, name, nent, i, bh, p, k). nent - i)") auto

definition find_entry :: "nat \<Rightarrow> byte list \<Rightarrow> kernel \<Rightarrow> ((nat \<times> nat) option \<times> kernel) option" where
  "find_entry dir name k =
     (let name = take NAME_LEN name; nent = unat (i_size (inode_at k dir) div 16) in
      if name = [] then Some (None, k)
      else if i_zone (inode_at k dir) 0 = 0 then Some (None, k)
      else do {
        (bh, k) \<leftarrow> kbread (i_dev (inode_at k dir)) (unat (i_zone (inode_at k dir) 0)) k;
        case bh of None \<Rightarrow> Some (None, k) | Some b \<Rightarrow> find_loop dir name nent 0 (Some b) 0 k })"

text \<open>The name of an entry, filled up with zeros.\<close>

definition put_name :: "nat \<Rightarrow> byte list \<Rightarrow> cbuf \<Rightarrow> cbuf" where
  "put_name p name d = (\<lambda>q. if p + 2 \<le> q \<and> q < p + 16
     then (if q - (p + 2) < length name then name ! (q - (p + 2)) else 0) else d q)"

text \<open>The same for \<^verbatim>\<open>add_entry\<close>, which creates the blocks it lacks; the flag tells that there is no block left.\<close>

definition add_buffer :: "nat \<Rightarrow> nat \<Rightarrow> nat option \<Rightarrow> nat \<Rightarrow> kernel \<Rightarrow> (bool \<times> nat option \<times> nat \<times> kernel) option" where
  "add_buffer dir i bh p k =
     (if bh \<noteq> None \<and> p < BLOCK_SIZE then Some (False, bh, p, k)
      else do {
        k \<leftarrow> kbrelse bh k;
        (block, k) \<leftarrow> create_block dir (int (i div DIR_ENTRIES_PER_BLOCK)) k;
        if block = 0 then Some (True, None, 0, k)
        else do { (bh, k) \<leftarrow> kbread (i_dev (inode_at k dir)) block k; Some (False, bh, 0, k) } })"

text \<open>The directory grows by the entry \<open>i\<close> at its end.\<close>

definition grow_dir :: "nat \<Rightarrow> nat \<Rightarrow> nat \<Rightarrow> nat \<Rightarrow> kernel \<Rightarrow> kernel" where
  "grow_dir dir i b p k =
     (if i_size (inode_at k dir) \<le> of_nat (i * DIR_ENTRY)
      then on_inode dir (\<lambda>n. n\<lparr>i_size := of_nat ((i + 1) * DIR_ENTRY), i_dirt := 1, i_ctime := CURRENT_TIME k\<rparr>)
             (kstore b (put16 p 0) k)
      else k)"

text \<open>\<^verbatim>\<open>create_block\<close> panics in front of block \<open>7 + 512 + 512 * 512\<close>, which bounds the loop.\<close>

function add_loop :: "nat \<Rightarrow> byte list \<Rightarrow> nat \<Rightarrow> nat option \<Rightarrow> nat \<Rightarrow> kernel \<Rightarrow>
    ((nat \<times> nat) option \<times> kernel) option" where
  "add_loop dir name i bh p k =
     (if DIR_ENTRIES_PER_BLOCK * (7 + 512 + 512 * 512) \<le> i then panic ''_bmap: block>big''
      else do {
        (full, bh, p, k) \<leftarrow> add_buffer dir i bh p k;
        if full then Some (None, k)
        else case bh of None \<Rightarrow> add_loop dir name (i + DIR_ENTRIES_PER_BLOCK) None p k
        | Some b \<Rightarrow>
            let k = grow_dir dir i b p k
            in if get16 (bdata k b) p = 0
               then Some (Some (b, p),
                      kdirty b (kstore b (put_name p name) (on_inode dir (\<lambda>n. n\<lparr>i_mtime := CURRENT_TIME k\<rparr>) k)))
               else add_loop dir name (Suc i) (Some b) (p + DIR_ENTRY) k })"
  by pat_completeness auto
termination
  by (relation "measure (\<lambda>(dir, name, i, bh, p, k). DIR_ENTRIES_PER_BLOCK * (7 + 512 + 512 * 512) - i)") auto

declare find_loop.simps [simp del] add_loop.simps [simp del]

definition add_entry :: "nat \<Rightarrow> byte list \<Rightarrow> kernel \<Rightarrow> ((nat \<times> nat) option \<times> kernel) option" where
  "add_entry dir name k =
     (let name = take NAME_LEN name in
      if name = [] then Some (None, k)
      else if i_zone (inode_at k dir) 0 = 0 then Some (None, k)
      else do {
        (bh, k) \<leftarrow> kbread (i_dev (inode_at k dir)) (unat (i_zone (inode_at k dir) 0)) k;
        case bh of None \<Rightarrow> Some (None, k) | Some b \<Rightarrow> add_loop dir name 0 (Some b) 0 k })"

text \<open>What the callers do with a new entry: \<^verbatim>\<open>de->inode = nr; bh->b_dirt = 1; brelse(bh)\<close>.\<close>

definition set_entry :: "nat \<Rightarrow> nat \<Rightarrow> u16 \<Rightarrow> kernel \<Rightarrow> kernel option" where
  "set_entry b p nr k = kbrelse (Some b) (kdirty b (kstore b (put16 p nr) k))"

section \<open>Walking a path\<close>

text \<open>Give up: let go of the inodes in the order of the code and return.\<close>

primrec leave :: "'a \<Rightarrow> nat list \<Rightarrow> kernel \<Rightarrow> ('a \<times> kernel) option" where
  "leave r [] k = Some (r, k)"
| "leave r (i # is) k = do { k \<leftarrow> iput (Some i) k; leave r is k }"

function walk :: "nat \<Rightarrow> byte list \<Rightarrow> kernel \<Rightarrow> (nat option \<times> kernel) option" where
  "walk inode path k =
     (if \<not> S_ISDIR (i_mode (inode_at k inode)) \<or> permission inode MAY_EXEC k = 0 then leave None [inode] k
      else let name = takeWhile (\<lambda>c. c \<noteq> 47) path; rest = drop (length name) path in
        if rest = [] then Some (Some inode, k)
        else do {
          (entry, k) \<leftarrow> find_entry inode name k;
          case entry of None \<Rightarrow> leave None [inode] k
          | Some (b, p) \<Rightarrow> do {
              let inr = get16 (bdata k b) p; let idev = i_dev (inode_at k inode);
              k \<leftarrow> kbrelse (Some b) k;
              k \<leftarrow> iput (Some inode) k;
              (inode, k) \<leftarrow> iget idev inr k;
              walk inode (tl rest) k } })"
  by pat_completeness auto
termination
proof (relation "measure (\<lambda>(inode, path, k). length path)")
  fix path name rest :: "byte list" and inode inode' :: nat and k k' :: kernel
  assume "name = takeWhile (\<lambda>c. c \<noteq> 47) path" "rest = drop (length name) path" "rest \<noteq> []"
  then have "length (tl rest) < length path" by (cases rest) (auto simp: less_diff_conv)
  then show "((inode', tl rest, k'), (inode, path, k)) \<in> measure (\<lambda>(inode, path, k). length path)" by simp
qed simp

declare walk.simps [simp del]

definition get_dir :: "byte list \<Rightarrow> kernel \<Rightarrow> (nat option \<times> kernel) option" where
  "get_dir pathname k =
     (case (t_root (cur k), t_pwd (cur k)) of
        (Some root, Some pwd) \<Rightarrow>
          if i_count (inode_at k root) = 0 then panic ''No root inode''
          else if i_count (inode_at k pwd) = 0 then panic ''No cwd inode''
          else if pathname = [] then Some (None, k)
          else let (inode, path) = (if hd pathname = 47 then (root, tl pathname) else (pwd, pathname))
               in walk inode path (on_inode inode (\<lambda>n. n\<lparr>i_count := i_count n + 1\<rparr>) k)
      | (None, _) \<Rightarrow> panic ''No root inode''
      | (Some root, None) \<Rightarrow> panic ''No cwd inode'')"

text \<open>The part of the path behind its last slash.\<close>

fun basename :: "byte list \<Rightarrow> byte list \<Rightarrow> byte list" where
  "basename base [] = base"
| "basename base (c # path) = (if c = 47 then basename path path else basename base path)"

definition dir_namei :: "byte list \<Rightarrow> kernel \<Rightarrow> (nat option \<times> byte list \<times> kernel) option" where
  "dir_namei pathname k =
     do { (dir, k) \<leftarrow> get_dir pathname k;
          case dir of None \<Rightarrow> Some (None, [], k) | Some d \<Rightarrow> Some (Some d, basename pathname pathname, k) }"

definition namei :: "byte list \<Rightarrow> kernel \<Rightarrow> (nat option \<times> kernel) option" where
  "namei pathname k =
     do { (dir, base, k) \<leftarrow> dir_namei pathname k;
          case dir of None \<Rightarrow> Some (None, k)
          | Some dir \<Rightarrow>
              if base = [] then Some (Some dir, k)
              else do {
                (entry, k) \<leftarrow> find_entry dir base k;
                case entry of None \<Rightarrow> leave None [dir] k
                | Some (b, p) \<Rightarrow> do {
                    let inr = get16 (bdata k b) p; let dev = i_dev (inode_at k dir);
                    k \<leftarrow> kbrelse (Some b) k;
                    k \<leftarrow> iput (Some dir) k;
                    (inode, k) \<leftarrow> iget dev inr k;
                    Some (Some inode, on_inode inode (\<lambda>n. n\<lparr>i_atime := CURRENT_TIME k, i_dirt := 1\<rparr>) k) } } }"

section \<open>Opening\<close>

text \<open>The result code, the inode stored through \<^verbatim>\<open>res_inode\<close>, and the state.\<close>

definition open_namei :: "byte list \<Rightarrow> u32 \<Rightarrow> u32 \<Rightarrow> kernel \<Rightarrow> ((int \<times> nat option) \<times> kernel) option" where
  "open_namei pathname flag mode k =
     (let flag = (if flag AND O_TRUNC \<noteq> 0 \<and> flag AND O_ACCMODE = 0 then flag OR O_WRONLY else flag);
          mode = (ucast mode AND 0x1ff AND NOT (t_umask (cur k))) OR I_REGULAR in
      do { (dir, base, k) \<leftarrow> dir_namei pathname k;
           case dir of None \<Rightarrow> Some ((- ENOENT, None), k)
           | Some dir \<Rightarrow>
             if base = [] then
               if flag AND (O_ACCMODE OR O_CREAT OR O_TRUNC) = 0 then Some ((0, Some dir), k)
               else leave (- EISDIR, None) [dir] k
             else do {
               (entry, k) \<leftarrow> find_entry dir base k;
               case entry of
                 None \<Rightarrow>
                   if flag AND O_CREAT = 0 then leave (- ENOENT, None) [dir] k
                   else if permission dir MAY_WRITE k = 0 then leave (- EACCES, None) [dir] k
                   else do {
                     (inode, k) \<leftarrow> new_inode (i_dev (inode_at k dir)) k;
                     case inode of None \<Rightarrow> leave (- ENOSPC, None) [dir] k
                     | Some inode \<Rightarrow> do {
                         (entry, k) \<leftarrow> add_entry dir base (on_inode inode (\<lambda>n. n\<lparr>i_mode := mode, i_dirt := 1\<rparr>) k);
                         case entry of
                           None \<Rightarrow> leave (- ENOSPC, None) [inode, dir]
                             (on_inode inode (\<lambda>n. n\<lparr>i_nlinks := i_nlinks n - 1\<rparr>) k)
                         | Some (b, p) \<Rightarrow> do {
                             k \<leftarrow> set_entry b p (i_num (inode_at k inode)) k;
                             leave (0, Some inode) [dir] k } } }
               | Some (b, p) \<Rightarrow> do {
                   let inr = get16 (bdata k b) p; let dev = i_dev (inode_at k dir);
                   k \<leftarrow> kbrelse (Some b) k;
                   k \<leftarrow> iput (Some dir) k;
                   if flag AND O_EXCL \<noteq> 0 then Some ((- EEXIST, None), k)
                   else do {
                     (inode, k) \<leftarrow> iget dev inr k;
                     if S_ISDIR (i_mode (inode_at k inode)) \<and> flag AND O_ACCMODE \<noteq> 0
                       \<or> permission inode (ACC_MODE flag) k \<noteq> ACC_MODE flag
                     then leave (- EPERM, None) [inode] k
                     else do {
                       let k = on_inode inode (\<lambda>n. n\<lparr>i_atime := CURRENT_TIME k\<rparr>) k;
                       k \<leftarrow> (if flag AND O_TRUNC \<noteq> 0 then truncate inode k else Some k);
                       Some ((0, Some inode), k) } } } } })"

section \<open>Directories and links\<close>

text \<open>The names \<^verbatim>\<open>"."\<close> and \<^verbatim>\<open>".."\<close> with their zeros, as \<^verbatim>\<open>strcpy\<close> stores them.\<close>

definition dot_entries :: "u16 \<Rightarrow> u16 \<Rightarrow> cbuf \<Rightarrow> cbuf" where
  "dot_entries self parent d =
     (put16 16 parent ((put16 0 self d)(2 := 46, 3 := 0)))(18 := 46, 19 := 46, 20 := 0)"

definition sys_mkdir :: "byte list \<Rightarrow> u32 \<Rightarrow> kernel \<Rightarrow> (int \<times> kernel) option" where
  "sys_mkdir pathname mode k =
     (if \<not> superuser k then Some (- EPERM, k)
      else do {
        (dir, base, k) \<leftarrow> dir_namei pathname k;
        case dir of None \<Rightarrow> Some (- ENOENT, k)
        | Some dir \<Rightarrow>
          if base = [] then leave (- ENOENT) [dir] k
          else if permission dir MAY_WRITE k = 0 then leave (- EPERM) [dir] k
          else do {
            (entry, k) \<leftarrow> find_entry dir base k;
            case entry of Some (b, p) \<Rightarrow> do { k \<leftarrow> kbrelse (Some b) k; leave (- EEXIST) [dir] k }
            | None \<Rightarrow> do {
                (inode, k) \<leftarrow> new_inode (i_dev (inode_at k dir)) k;
                case inode of None \<Rightarrow> leave (- ENOSPC) [dir] k
                | Some inode \<Rightarrow> do {
                    let k = on_inode inode (\<lambda>n. n\<lparr>i_size := 32, i_dirt := 1, i_mtime := CURRENT_TIME k,
                              i_atime := CURRENT_TIME k\<rparr>) k;
                    (block, k) \<leftarrow> new_block (i_dev (inode_at k inode)) k;
                    let k = on_inode inode (\<lambda>n. n\<lparr>i_zone := (i_zone n)(0 := of_nat block)\<rparr>) k;
                    if (of_nat block :: u16) = 0 then do {
                      k \<leftarrow> iput (Some dir) k;
                      leave (- ENOSPC) [inode] (on_inode inode (\<lambda>n. n\<lparr>i_nlinks := i_nlinks n - 1\<rparr>) k) }
                    else do {
                      let k = on_inode inode (\<lambda>n. n\<lparr>i_dirt := 1\<rparr>) k;
                      (dir_block, k) \<leftarrow> kbread (i_dev (inode_at k inode)) (unat (i_zone (inode_at k inode) 0)) k;
                      case dir_block of
                        None \<Rightarrow> do {
                          k \<leftarrow> iput (Some dir) k;
                          k \<leftarrow> free_block (i_dev (inode_at k inode)) (unat (i_zone (inode_at k inode) 0)) k;
                          leave (- ERROR) [inode] (on_inode inode (\<lambda>n. n\<lparr>i_nlinks := i_nlinks n - 1\<rparr>) k) }
                      | Some h \<Rightarrow> do {
                          let k = kstore h (dot_entries (i_num (inode_at k inode)) (i_num (inode_at k dir))) k;
                          let k = kdirty h (on_inode inode (\<lambda>n. n\<lparr>i_nlinks := 2\<rparr>) k);
                          k \<leftarrow> kbrelse (Some h) k;
                          let k = on_inode inode (\<lambda>n. n\<lparr>i_mode := I_DIRECTORY OR
                                    (ucast mode AND 0x1ff AND NOT (t_umask (cur k))), i_dirt := 1\<rparr>) k;
                          (entry, k) \<leftarrow> add_entry dir base k;
                          case entry of
                            None \<Rightarrow> do {
                              k \<leftarrow> iput (Some dir) k;
                              k \<leftarrow> free_block (i_dev (inode_at k inode)) (unat (i_zone (inode_at k inode) 0)) k;
                              leave (- ENOSPC) [inode] (on_inode inode (\<lambda>n. n\<lparr>i_nlinks := 0\<rparr>) k) }
                          | Some (b, p) \<Rightarrow> do {
                              let k = kdirty b (kstore b (put16 p (i_num (inode_at k inode))) k);
                              let k = on_inode dir (\<lambda>n. n\<lparr>i_nlinks := i_nlinks n + 1, i_dirt := 1\<rparr>) k;
                              k \<leftarrow> iput (Some dir) k;
                              k \<leftarrow> iput (Some inode) k;
                              k \<leftarrow> kbrelse (Some b) k;
                              Some (0, k) } } } } } } })"

text \<open>
  \<^verbatim>\<open>empty_dir\<close>. Past a hole in the directory the code lets go of the same buffer once more.
\<close>

function empty_loop :: "nat \<Rightarrow> nat \<Rightarrow> nat \<Rightarrow> nat \<Rightarrow> nat \<Rightarrow> kernel \<Rightarrow> (bool \<times> kernel) option" where
  "empty_loop inode len nr b p k =
     (if len \<le> nr then do { k \<leftarrow> kbrelse (Some b) k; Some (True, k) }
      else if BLOCK_SIZE \<le> p then do {
        k \<leftarrow> kbrelse (Some b) k;
        (block, k) \<leftarrow> bmap inode (int (nr div DIR_ENTRIES_PER_BLOCK)) k;
        if block = 0 then empty_loop inode len (nr + DIR_ENTRIES_PER_BLOCK) b p k
        else do {
          (bh, k) \<leftarrow> kbread (i_dev (inode_at k inode)) block k;
          case bh of None \<Rightarrow> Some (False, k)
          | Some b \<Rightarrow>
              if get16 (bdata k b) 0 \<noteq> 0 then do { k \<leftarrow> kbrelse (Some b) k; Some (False, k) }
              else empty_loop inode len (Suc nr) b DIR_ENTRY k } }
      else if get16 (bdata k b) p \<noteq> 0 then do { k \<leftarrow> kbrelse (Some b) k; Some (False, k) }
      else empty_loop inode len (Suc nr) b (p + DIR_ENTRY) k)"
  by pat_completeness auto
termination
  by (relation "measure (\<lambda>(inode, len, nr, b, p, k). len - nr)") auto

declare empty_loop.simps [simp del]

text \<open>A block that does not start like a directory stays held.\<close>

definition empty_dir :: "nat \<Rightarrow> kernel \<Rightarrow> (bool \<times> kernel) option" where
  "empty_dir inode k =
     (let n = inode_at k inode; len = unat (i_size n div 16) in
      if len < 2 \<or> i_zone n 0 = 0 then Some (False, k)
      else do {
        (bh, k) \<leftarrow> kbread (i_dev n) (unat (i_zone n 0)) k;
        case bh of None \<Rightarrow> Some (False, k)
        | Some b \<Rightarrow>
            let d = bdata k b in
            if get16 d 0 \<noteq> i_num n \<or> get16 d 16 = 0 \<or> \<not> (d 2 = 46 \<and> d 3 = 0) \<or> \<not> (d 18 = 46 \<and> d 19 = 46 \<and> d 20 = 0)
            then Some (False, k)
            else empty_loop inode len 2 b 32 k })"

definition sys_rmdir :: "byte list \<Rightarrow> kernel \<Rightarrow> (int \<times> kernel) option" where
  "sys_rmdir name k =
     (if \<not> superuser k then Some (- EPERM, k)
      else do {
        (dir, base, k) \<leftarrow> dir_namei name k;
        case dir of None \<Rightarrow> Some (- ENOENT, k)
        | Some dir \<Rightarrow>
          if base = [] then leave (- ENOENT) [dir] k
          else do {
            (entry, k) \<leftarrow> find_entry dir base k;
            case entry of None \<Rightarrow> leave (- ENOENT) [dir] k
            | Some (b, p) \<Rightarrow>
                if permission dir MAY_WRITE k = 0
                then do { (r, k) \<leftarrow> leave (- EPERM) [dir] k; k \<leftarrow> kbrelse (Some b) k; Some (r, k) }
                else do {
                  (inode, k) \<leftarrow> iget (i_dev (inode_at k dir)) (get16 (bdata k b) p) k;
                  (fine, k) \<leftarrow>
                    (if inode = dir then Some (Some (- EPERM), k)
                     else if \<not> S_ISDIR (i_mode (inode_at k inode)) then Some (Some (- ENOTDIR), k)
                     else do { (e, k) \<leftarrow> empty_dir inode k; Some (if e then None else Some (- ENOTEMPTY), k) });
                  case fine of
                    Some err \<Rightarrow> do { (r, k) \<leftarrow> leave err [inode, dir] k; k \<leftarrow> kbrelse (Some b) k; Some (r, k) }
                  | None \<Rightarrow> do {
                      k \<leftarrow> set_entry b p 0 k;
                      let k = on_inode inode (\<lambda>n. n\<lparr>i_nlinks := 0, i_dirt := 1\<rparr>) k;
                      let k = on_inode dir (\<lambda>n. n\<lparr>i_nlinks := i_nlinks n - 1, i_ctime := CURRENT_TIME k,
                                i_mtime := CURRENT_TIME k, i_dirt := 1\<rparr>) k;
                      leave 0 [dir, inode] k } } } })"

definition sys_unlink :: "byte list \<Rightarrow> kernel \<Rightarrow> (int \<times> kernel) option" where
  "sys_unlink name k =
     do { (dir, base, k) \<leftarrow> dir_namei name k;
          case dir of None \<Rightarrow> Some (- ENOENT, k)
          | Some dir \<Rightarrow>
            if base = [] then leave (- ENOENT) [dir] k
            else if permission dir MAY_WRITE k = 0 then leave (- EPERM) [dir] k
            else do {
              (entry, k) \<leftarrow> find_entry dir base k;
              case entry of None \<Rightarrow> leave (- ENOENT) [dir] k
              | Some (b, p) \<Rightarrow> do {
                  (inode, k) \<leftarrow> iget (i_dev (inode_at k dir)) (get16 (bdata k b) p) k;
                  if \<not> S_ISREG (i_mode (inode_at k inode))
                  then do { (r, k) \<leftarrow> leave (- EPERM) [inode, dir] k; k \<leftarrow> kbrelse (Some b) k; Some (r, k) }
                  else do {
                    let k = (if i_nlinks (inode_at k inode) = 0 then on_inode inode (\<lambda>n. n\<lparr>i_nlinks := 1\<rparr>) k else k);
                    k \<leftarrow> set_entry b p 0 k;
                    let k = on_inode inode (\<lambda>n. n\<lparr>i_nlinks := i_nlinks n - 1, i_dirt := 1, i_ctime := CURRENT_TIME k\<rparr>) k;
                    leave 0 [inode, dir] k } } } }"

definition sys_link :: "byte list \<Rightarrow> byte list \<Rightarrow> kernel \<Rightarrow> (int \<times> kernel) option" where
  "sys_link oldname newname k =
     do { (oldinode, k) \<leftarrow> namei oldname k;
          case oldinode of None \<Rightarrow> Some (- ENOENT, k)
          | Some oldinode \<Rightarrow>
            if \<not> S_ISREG (i_mode (inode_at k oldinode)) then leave (- EPERM) [oldinode] k
            else do {
              (dir, base, k) \<leftarrow> dir_namei newname k;
              case dir of None \<Rightarrow> leave (- EACCES) [oldinode] k
              | Some dir \<Rightarrow>
                if base = [] then leave (- EPERM) [oldinode, dir] k
                else if i_dev (inode_at k dir) \<noteq> i_dev (inode_at k oldinode) then leave (- EXDEV) [dir, oldinode] k
                else if permission dir MAY_WRITE k = 0 then leave (- EACCES) [dir, oldinode] k
                else do {
                  (entry, k) \<leftarrow> find_entry dir base k;
                  case entry of Some (b, p) \<Rightarrow> do { k \<leftarrow> kbrelse (Some b) k; leave (- EEXIST) [dir, oldinode] k }
                  | None \<Rightarrow> do {
                      (entry, k) \<leftarrow> add_entry dir base k;
                      case entry of None \<Rightarrow> leave (- ENOSPC) [dir, oldinode] k
                      | Some (b, p) \<Rightarrow> do {
                          k \<leftarrow> set_entry b p (i_num (inode_at k oldinode)) k;
                          k \<leftarrow> iput (Some dir) k;
                          leave 0 [oldinode] (on_inode oldinode (\<lambda>n. n\<lparr>i_nlinks := i_nlinks n + 1,
                            i_ctime := CURRENT_TIME k, i_dirt := 1\<rparr>) k) } } } } }"


section \<open>Looking a name up\<close>

text \<open>As \<open>reading\<close> of theory Inode, without the promise about other buffers: buffer \<open>h\<close> is held once more.\<close>

definition showing :: "u16 \<Rightarrow> nat \<Rightarrow> nat \<Rightarrow> bcache \<Rightarrow> bcache \<Rightarrow> bool" where
  "showing D n h b b1 \<longleftrightarrow> bc_ok D b1 \<and> same_view D b b1 \<and> h < nr_buffers b1 \<and> holds b1 D n h \<and>
     b_uptodate (buf b1 h) \<noteq> 0 \<and> (\<forall>p<1024. b_data (buf b1 h) p = view b D n p) \<and>
     (\<forall>j. b_count (buf b1 j) = b_count (buf b j) + (if j = h then 1 else 0)) \<and> b_count (buf b1 h) \<noteq> 0"

lemma reading_showing: "reading D n h b b1 \<Longrightarrow> showing D n h b b1"
  unfolding reading_def showing_def by blast

lemma settled_showing:
  assumes s: "settled D b b1" and r: "showing D n h b1 b2" and v: "valid b D n"
  shows "showing D n h b b2"
  using r settled_view [OF s v] s by (auto simp: showing_def settled_def intro: same_view_trans)

lemma showing_release:
  assumes "showing D n h b (bc k)"
  obtains b' where "kbrelse (Some h) k = Some (k\<lparr>bc := b'\<rparr>)" "settled D b b'"
proof -
  have r: "bc_ok D (bc k)" "same_view D b (bc k)" "b_count (buf (bc k) h) \<noteq> 0"
    "\<forall>j. b_count (buf (bc k) j) = b_count (buf b j) + (if j = h then 1 else 0)"
    using assms by (auto simp: showing_def)
  obtain b' where b': "kbrelse (Some h) k = Some (k\<lparr>bc := b'\<rparr>)" "bc_ok D b'" "same_view D (bc k) b'"
    "\<forall>j. b_count (buf b' j) = (if j = h then b_count (buf (bc k) j) - 1 else b_count (buf (bc k) j))"
    using kbrelse_spec [OF r(1,3)] by blast
  have "settled D b b'" using b'(2-4) r(2,4) by (auto simp: settled_def intro: same_view_trans)
  then show ?thesis using that b'(1) by blast
qed

lemma showing_data: "showing D n h b b1 \<Longrightarrow> p < 1024 \<Longrightarrow> b_data (buf b1 h) p = view b D n p"
  by (simp add: showing_def)

text \<open>The indirect blocks of a file; \<open>file_zone\<close> depends on what the device shows in them, and on nothing else there.\<close>

definition map_blocks :: "u16 \<Rightarrow> kernel \<Rightarrow> nat \<Rightarrow> nat set" where
  "map_blocks D k i = {z. z \<noteq> 0 \<and> (z = unat (i_zone (inode_at k i) 7) \<or> z = unat (i_zone (inode_at k i) 8) \<or>
     i_zone (inode_at k i) 8 \<noteq> 0 \<and> (\<exists>n<512. z = zone_entry D k (unat (i_zone (inode_at k i) 8)) n))}"

lemma map_ok_blocks: "map_ok D k i \<longleftrightarrow> i_dev (inode_at k i) = D \<and> (\<forall>z\<in>map_blocks D k i. valid (bc k) D z)"
  by (auto simp: map_ok_def map_blocks_def unat_eq_zero unat_gt_0)

lemma zone_entry_cong:
  "(\<And>p. p < 1024 \<Longrightarrow> view (bc k') D z p = view (bc k) D z p) \<Longrightarrow> n < 512 \<Longrightarrow> zone_entry D k' z n = zone_entry D k z n"
  unfolding zone_entry_def by (intro arg_cong [where f = unat] get16_cong) simp_all

lemma file_zone_cong:
  assumes v: "\<And>z p. z \<in> map_blocks D k i \<Longrightarrow> p < 1024 \<Longrightarrow> view (bc k') D z p = view (bc k) D z p"
    and z: "i_zone (inode_at k' i) = i_zone (inode_at k i)"
  shows "map_blocks D k' i = map_blocks D k i"
    and "n < 7 + 512 + 512 * 512 \<Longrightarrow> file_zone D k' i n = file_zone D k i n"
proof -
  have nz: "unat (i_zone (inode_at k i) m) = 0 \<longleftrightarrow> i_zone (inode_at k i) m = 0" for m by (simp add: unat_eq_zero)
  have z8: "zone_entry D k' (unat (i_zone (inode_at k i) 8)) m = zone_entry D k (unat (i_zone (inode_at k i) 8)) m"
    if "i_zone (inode_at k i) 8 \<noteq> 0" "m < 512" for m
    using that nz by (intro zone_entry_cong v) (auto simp: map_blocks_def)
  show "map_blocks D k' i = map_blocks D k i"
    using z8 by (auto simp: map_blocks_def z)
  show "file_zone D k' i n = file_zone D k i n" if n: "n < 7 + 512 + 512 * 512"
  proof -
    define a where "a = (n - 519) div 512"
    define c where "c = (n - 519) mod 512"
    have d: "c < 512" "n \<ge> 519 \<Longrightarrow> a < 512" using n unfolding a_def c_def by linarith+
    show ?thesis
    proof (cases "n < 519")
      case True
      have "zone_entry D k' (unat (i_zone (inode_at k i) 7)) (n - 7) = zone_entry D k (unat (i_zone (inode_at k i) 7)) (n - 7)"
        if "i_zone (inode_at k i) 7 \<noteq> 0" "7 \<le> n"
        using that nz True by (intro zone_entry_cong v) (auto simp: map_blocks_def)
      then show ?thesis using True by (simp add: file_zone_def z nz)
    next
      case False
      define e where "e = zone_entry D k (unat (i_zone (inode_at k i) 8)) a"
      have "file_zone D k' i n = (if i_zone (inode_at k i) 8 = 0 \<or> e = 0 then 0 else zone_entry D k' e c)"
        using False z8 d unfolding file_zone_def Let_def z nz a_def [symmetric] c_def [symmetric] e_def by auto
      moreover have "file_zone D k i n = (if i_zone (inode_at k i) 8 = 0 \<or> e = 0 then 0 else zone_entry D k e c)"
        using False unfolding file_zone_def Let_def nz a_def [symmetric] c_def [symmetric] e_def by auto
      moreover have "zone_entry D k' e c = zone_entry D k e c" if "i_zone (inode_at k i) 8 \<noteq> 0" "e \<noteq> 0"
        using that d False by (intro zone_entry_cong v) (auto simp: map_blocks_def e_def)
      ultimately show ?thesis by auto
    qed
  qed
qed

lemma map_ok_settled:
  assumes s: "settled D (bc k) b" and m: "map_ok D k i"
  shows "map_ok D (k\<lparr>bc := b\<rparr>) i"
    and "n < 7 + 512 + 512 * 512 \<Longrightarrow> file_zone D (k\<lparr>bc := b\<rparr>) i n = file_zone D k i n"
proof -
  have v: "view (bc (k\<lparr>bc := b\<rparr>)) D z p = view (bc k) D z p" if "z \<in> map_blocks D k i" "p < 1024" for z p
    using settled_view [OF s] m that by (simp add: map_ok_blocks)
  note c = file_zone_cong [of D k i "k\<lparr>bc := b\<rparr>", OF v]
  show "map_ok D (k\<lparr>bc := b\<rparr>) i"
    using m c(1) by (simp add: map_ok_blocks k_simps settled_valid [OF s])
  show "n < 7 + 512 + 512 * 512 \<Longrightarrow> file_zone D (k\<lparr>bc := b\<rparr>) i n = file_zone D k i n"
    using c(2) by (simp add: k_simps)
qed

text \<open>\<^verbatim>\<open>bmap\<close> and \<^verbatim>\<open>bread\<close> from a state that shows the same device as \<open>k\<close>.\<close>

lemma bmap_settled:
  assumes "calm (bc k)" and "map_ok D k i" and "settled D (bc k) b" and "n < 7 + 512 + 512 * 512"
  obtains b' where "bmap i (int n) (k\<lparr>bc := b\<rparr>) = Some (file_zone D k i n, k\<lparr>bc := b'\<rparr>)" "settled D (bc k) b'"
proof -
  have "bc_ok D (bc (k\<lparr>bc := b\<rparr>))" "calm (bc (k\<lparr>bc := b\<rparr>))"
    using assms settled_calm by (simp_all add: settled_def) blast
  from bmap_reads [OF this map_ok_settled(1) [OF assms(3,2)], of "int n"] assms(4)
  obtain b' where "bmap i (int n) (k\<lparr>bc := b\<rparr>) = Some (file_zone D (k\<lparr>bc := b\<rparr>) i n, k\<lparr>bc := b'\<rparr>)" "settled D b b'"
    by auto
  then show ?thesis
    using that map_ok_settled(2) [OF assms(3,2,4)] settled_trans [OF assms(3)] by simp
qed

lemma kbread_settled:
  assumes "calm (bc k)" and "settled D (bc k) b" and "valid (bc k) D n"
  obtains h b' where "kbread D n (k\<lparr>bc := b\<rparr>) = Some (Some h, k\<lparr>bc := b'\<rparr>)" "showing D n h (bc k) b'"
proof -
  have "bc_ok D (bc (k\<lparr>bc := b\<rparr>))" "calm (bc (k\<lparr>bc := b\<rparr>))" "valid (bc (k\<lparr>bc := b\<rparr>)) D n"
    using assms settled_calm settled_valid [OF assms(2)] by (simp_all add: settled_def) blast
  from kbread_spec [OF this(1,3,2)] obtain h b' where
    "kbread D n (k\<lparr>bc := b\<rparr>) = Some (Some h, k\<lparr>bc := b'\<rparr>)" "reading D n h b b'" by auto
  then show ?thesis using that settled_showing [OF assms(2) reading_showing assms(3)] by blast
qed

text \<open>The entries of a directory, read off the device.\<close>

definition nr_entries :: "kernel \<Rightarrow> nat \<Rightarrow> nat" where
  "nr_entries k dir = unat (i_size (inode_at k dir) div 16)"

definition entry_matches :: "u16 \<Rightarrow> kernel \<Rightarrow> nat \<Rightarrow> byte list \<Rightarrow> nat \<Rightarrow> bool" where
  "entry_matches D k dir name i \<longleftrightarrow> file_zone D k dir (i div 64) \<noteq> 0 \<and>
     match name (view (bc k) D (file_zone D k dir (i div 64))) (16 * (i mod 64))"

definition dir_ok :: "u16 \<Rightarrow> kernel \<Rightarrow> nat \<Rightarrow> bool" where
  "dir_ok D k dir \<longleftrightarrow> bc_ok D (bc k) \<and> calm (bc k) \<and> map_ok D k dir \<and>
     nr_entries k dir \<le> 64 * (7 + 512 + 512 * 512) \<and>
     (\<forall>n. 64 * n < nr_entries k dir \<longrightarrow> file_zone D k dir n \<noteq> 0 \<longrightarrow> valid (bc k) D (file_zone D k dir n))"

text \<open>Where the loop stands: in front of entry \<open>i\<close>, on block \<open>q\<close> or behind a block it could not have.\<close>

definition at_entry :: "u16 \<Rightarrow> kernel \<Rightarrow> nat \<Rightarrow> nat \<Rightarrow> nat option \<Rightarrow> nat \<Rightarrow> bcache \<Rightarrow> bool" where
  "at_entry D k dir i bh p b \<longleftrightarrow>
     (case bh of None \<Rightarrow> i mod 64 = 0 \<and> settled D (bc k) b
      | Some h \<Rightarrow> \<exists>q. 64 * q \<le> i \<and> i \<le> 64 * q + 64 \<and> p = 16 * (i - 64 * q) \<and>
          file_zone D k dir q \<noteq> 0 \<and> showing D (file_zone D k dir q) h (bc k) b)"

lemma at_entry_here:
  assumes "at_entry D k dir i (Some h) p b" and "p < 1024"
  shows "p = 16 * (i mod 64)" and "file_zone D k dir (i div 64) \<noteq> 0"
    and "showing D (file_zone D k dir (i div 64)) h (bc k) b"
proof -
  obtain q where q: "64 * q \<le> i" "i \<le> 64 * q + 64" "p = 16 * (i - 64 * q)"
    "file_zone D k dir q \<noteq> 0" "showing D (file_zone D k dir q) h (bc k) b"
    using assms(1) by (auto simp: at_entry_def)
  then have "i < 64 * q + 64" using assms(2) by simp
  with q(1) have "i div 64 = q" by (intro div_nat_eqI) simp_all
  then show "p = 16 * (i mod 64)" "file_zone D k dir (i div 64) \<noteq> 0"
    "showing D (file_zone D k dir (i div 64)) h (bc k) b"
    using q by (simp_all add: minus_mult_div_eq_mod [symmetric])
qed

lemma at_entry_release:
  assumes "at_entry D k dir i bh p b"
  obtains b' where "kbrelse bh (k\<lparr>bc := b\<rparr>) = Some (k\<lparr>bc := b'\<rparr>)" "settled D (bc k) b'"
proof (cases bh)
  case None
  then show ?thesis using assms that [of b] by (simp add: at_entry_def kbrelse_def brelse_def)
next
  case (Some h)
  then obtain q where "showing D (file_zone D k dir q) h (bc k) b" using assms by (auto simp: at_entry_def)
  then show ?thesis using showing_release [of D _ h "bc k" "k\<lparr>bc := b\<rparr>"] that Some by auto
qed

lemma at_entry_end:
  assumes "at_entry D k dir i bh p b" and "\<not> (bh \<noteq> None \<and> p < 1024)"
  shows "i mod 64 = 0"
proof (cases bh)
  case (Some h)
  then obtain q where q: "64 * q \<le> i" "i \<le> 64 * q + 64" "p = 16 * (i - 64 * q)"
    using assms(1) by (auto simp: at_entry_def)
  have "64 \<le> i - 64 * q" using q(3) assms(2) Some by simp
  then have "i = 64 * q + 64" using q(2) by linarith
  then show ?thesis by simp
qed (use assms(1) in \<open>simp add: at_entry_def\<close>)

lemma at_entry_next:
  assumes "file_zone D k dir (i div 64) \<noteq> 0" and "showing D (file_zone D k dir (i div 64)) h (bc k) b"
  shows "at_entry D k dir (Suc i) (Some h) (16 * (i mod 64) + 16) b"
proof -
  define m where "m = i mod 64"
  have "i = 64 * (i div 64) + m" "m < 64" by (simp_all add: m_def)
  then show ?thesis
    unfolding at_entry_def option.case m_def [symmetric] using assms
    by (intro exI [of _ "i div 64"]) (simp; linarith)
qed

lemma entry_buffer_finds:
  assumes ok: "dir_ok D k dir" and i: "i < nr_entries k dir" and st: "at_entry D k dir i bh p b"
  shows "\<exists>bh' p' b'. entry_buffer dir i bh p (k\<lparr>bc := b\<rparr>) = Some (bh', p', k\<lparr>bc := b'\<rparr>) \<and>
    (case bh' of None \<Rightarrow> i mod 64 = 0 \<and> file_zone D k dir (i div 64) = 0 \<and> settled D (bc k) b'
     | Some h \<Rightarrow> p' = 16 * (i mod 64) \<and> file_zone D k dir (i div 64) \<noteq> 0 \<and>
         showing D (file_zone D k dir (i div 64)) h (bc k) b')"
proof (cases "bh \<noteq> None \<and> p < 1024")
  case True
  then obtain h where h: "bh = Some h" by blast
  show ?thesis
    using True at_entry_here [OF st [unfolded h]]
    by (intro exI [of _ bh] exI [of _ p] exI [of _ b]) (simp add: entry_buffer_def h)
next
  case False
  have m: "i mod 64 = 0" using at_entry_end [OF st False] .
  obtain b1 where b1: "kbrelse bh (k\<lparr>bc := b\<rparr>) = Some (k\<lparr>bc := b1\<rparr>)" "settled D (bc k) b1"
    using at_entry_release [OF st] .
  have "64 * (i div 64) \<le> i" by simp
  then have n: "64 * (i div 64) < nr_entries k dir" using i by (rule le_less_trans)
  have "i < (7 + 512 + 512 * 512) * 64" using i ok by (simp add: dir_ok_def)
  then have n2: "i div 64 < 7 + 512 + 512 * 512" by (rule less_mult_imp_div_less)
  obtain b2 where b2: "bmap dir (int (i div 64)) (k\<lparr>bc := b1\<rparr>) = Some (file_zone D k dir (i div 64), k\<lparr>bc := b2\<rparr>)"
    "settled D (bc k) b2"
    using bmap_settled [OF _ _ b1(2) n2] ok unfolding dir_ok_def by blast
  have dev: "i_dev (inode_at k dir) = D" using ok by (simp add: dir_ok_def map_ok_def)
  show ?thesis
  proof (cases "file_zone D k dir (i div 64) = 0")
    case True
    then show ?thesis using False b1 b2 m by (intro exI) (auto simp: entry_buffer_def)
  next
    case z: False
    then have "valid (bc k) D (file_zone D k dir (i div 64))" using ok n unfolding dir_ok_def by blast
    then obtain h b3 where "kbread D (file_zone D k dir (i div 64)) (k\<lparr>bc := b2\<rparr>) = Some (Some h, k\<lparr>bc := b3\<rparr>)"
      "showing D (file_zone D k dir (i div 64)) h (bc k) b3"
      using kbread_settled [of k D b2] ok b2(2) by (auto simp: dir_ok_def)
    then show ?thesis using False b1 b2 m z by (intro exI) (auto simp: entry_buffer_def k_simps dev)
  qed
qed

lemma match_cong:
  assumes "\<And>q. p \<le> q \<Longrightarrow> q < p + 16 \<Longrightarrow> d q = e q"
  shows "match name d p = match name e p"
proof -
  have "get16 d p = get16 e p" using assms by (intro get16_cong) simp_all
  then show ?thesis using assms by (auto simp: match_def list_all_iff)
qed

lemma find_upt_skip:
  assumes "i \<le> j" and "\<And>x. i \<le> x \<Longrightarrow> x < j \<Longrightarrow> \<not> P x"
  shows "List.find P [i..<n] = List.find P [j..<n]"
  using assms
proof (induction "j - i" arbitrary: i)
  case (Suc d)
  then show ?case
  proof (cases "i < n")
    case True
    then have "List.find P [i..<n] = List.find P [Suc i..<n]" using Suc.prems Suc.hyps(2) by (simp add: upt_conv_Cons)
    also have "\<dots> = List.find P [j..<n]" using Suc.hyps Suc.prems by (intro Suc.hyps(1)) auto
    finally show ?thesis .
  qed simp
qed simp

definition found :: "u16 \<Rightarrow> kernel \<Rightarrow> nat \<Rightarrow> nat option \<Rightarrow> ((nat \<times> nat) option \<times> kernel) option \<Rightarrow> bool" where
  "found D k dir r res \<longleftrightarrow>
     (case r of None \<Rightarrow> \<exists>b'. res = Some (None, k\<lparr>bc := b'\<rparr>) \<and> settled D (bc k) b'
      | Some j \<Rightarrow> \<exists>h b'. res = Some (Some (h, 16 * (j mod 64)), k\<lparr>bc := b'\<rparr>) \<and>
          showing D (file_zone D k dir (j div 64)) h (bc k) b')"

lemma find_loop_finds:
  assumes ok: "dir_ok D k dir"
  shows "at_entry D k dir i bh p b \<Longrightarrow>
    found D k dir (List.find (entry_matches D k dir name) [i..<nr_entries k dir])
      (find_loop dir name (nr_entries k dir) i bh p (k\<lparr>bc := b\<rparr>))"
proof (induction "nr_entries k dir - i" arbitrary: i bh p b rule: less_induct)
  case less
  let ?N = "nr_entries k dir"
  show ?case
  proof (cases "?N \<le> i")
    case True
    obtain b' where "kbrelse bh (k\<lparr>bc := b\<rparr>) = Some (k\<lparr>bc := b'\<rparr>)" "settled D (bc k) b'"
      using at_entry_release [OF less.prems] by blast
    then show ?thesis using True by (subst find_loop.simps) (simp add: found_def, blast)
  next
    case False
    define m where "m = i mod 64"
    have m: "m < 64" by (simp add: m_def)
    from entry_buffer_finds [OF ok _ less.prems] False obtain bh' p' b' where
      eb: "entry_buffer dir i bh p (k\<lparr>bc := b\<rparr>) = Some (bh', p', k\<lparr>bc := b'\<rparr>)" and
      c: "case bh' of None \<Rightarrow> m = 0 \<and> file_zone D k dir (i div 64) = 0 \<and> settled D (bc k) b'
         | Some h \<Rightarrow> p' = 16 * m \<and> file_zone D k dir (i div 64) \<noteq> 0 \<and>
             showing D (file_zone D k dir (i div 64)) h (bc k) b'"
      unfolding m_def by (auto simp: not_le)
    show ?thesis
    proof (cases bh')
      case None
      then have z: "i mod 64 = 0" "file_zone D k dir (i div 64) = 0" "settled D (bc k) b'" using c m_def by simp_all
      have "List.find (entry_matches D k dir name) [i..<?N] = List.find (entry_matches D k dir name) [i + 64..<?N]"
      proof (rule find_upt_skip)
        fix x assume "i \<le> x" "x < i + 64"
        moreover have "i = 64 * (i div 64)" using z(1) mult_div_mod_eq [of 64 i] by simp
        ultimately have "x div 64 = i div 64" by (intro div_nat_eqI) simp_all
        then show "\<not> entry_matches D k dir name x" using z(2) by (simp add: entry_matches_def)
      qed simp
      moreover have "at_entry D k dir (i + 64) None p' b'" using z by (simp add: at_entry_def)
      then have "found D k dir (List.find (entry_matches D k dir name) [i + 64..<?N])
          (find_loop dir name ?N (i + 64) None p' (k\<lparr>bc := b'\<rparr>))"
        using False by (intro less.hyps) simp_all
      ultimately show ?thesis using False eb None by (subst find_loop.simps) simp
    next
      case (Some h)
      let ?z = "file_zone D k dir (i div 64)"
      have h: "p' = 16 * m" "?z \<noteq> 0" "showing D ?z h (bc k) b'" using c Some by simp_all
      have "match name (b_data (buf b' h)) p' = match name (view (bc k) D ?z) p'"
        using showing_data [OF h(3)] h(1) m by (intro match_cong) simp
      then have mt: "match name (bdata (k\<lparr>bc := b'\<rparr>) h) p' = entry_matches D k dir name i"
        using h(1,2) by (simp add: entry_matches_def bdata_def m_def)
      show ?thesis
      proof (cases "entry_matches D k dir name i")
        case True
        then show ?thesis using False eb Some h mt
          by (subst find_loop.simps) (auto simp: upt_conv_Cons found_def m_def)
      next
        case no: False
        have "at_entry D k dir (Suc i) (Some h) (p' + 16) b'"
          using at_entry_next [OF h(2,3)] h(1) m_def by simp
        then have "found D k dir (List.find (entry_matches D k dir name) [Suc i..<?N])
            (find_loop dir name ?N (Suc i) (Some h) (p' + 16) (k\<lparr>bc := b'\<rparr>))"
          using False by (intro less.hyps) simp_all
        then show ?thesis using False eb Some no mt
          by (subst find_loop.simps) (simp add: upt_conv_Cons)
      qed
    qed
  qed
qed

text \<open>
  C19: \<^verbatim>\<open>find_entry\<close> looks through all blocks of a directory, direct and indirect ones, past the holes, and
  finds the first entry in use that carries the name (cut to 14 bytes): its buffer is held once and
  shows the block of the entry. When there is none it finds nothing and holds nothing. Either way the
  device shows what it showed before.
\<close>

theorem find_entry_finds:
  assumes "dir_ok D k dir" and "name \<noteq> []" and "i_zone (inode_at k dir) 0 \<noteq> 0" and "0 < nr_entries k dir"
  shows "case List.find (entry_matches D k dir (take 14 name)) [0..<nr_entries k dir] of
      None \<Rightarrow> \<exists>b'. find_entry dir name k = Some (None, k\<lparr>bc := b'\<rparr>) \<and> settled D (bc k) b'
    | Some j \<Rightarrow> \<exists>h b'. find_entry dir name k = Some (Some (h, 16 * (j mod 64)), k\<lparr>bc := b'\<rparr>) \<and>
        showing D (file_zone D k dir (j div 64)) h (bc k) b'"
proof -
  have ok: "bc_ok D (bc k)" "calm (bc k)" "i_dev (inode_at k dir) = D"
    and z: "file_zone D k dir 0 = unat (i_zone (inode_at k dir) 0)"
    using assms(1) by (simp_all add: dir_ok_def map_ok_def file_zone_def)
  have nz: "file_zone D k dir 0 \<noteq> 0" using assms(3) by (simp add: z unat_eq_zero)
  then have "valid (bc k) D (file_zone D k dir 0)"
    using assms(1,4) by (auto simp: dir_ok_def dest: spec [of _ 0])
  then obtain h b where rd: "kbread D (file_zone D k dir 0) k = Some (Some h, k\<lparr>bc := b\<rparr>)"
    "reading D (file_zone D k dir 0) h (bc k) b" using kbread_spec [OF ok(1) _ ok(2)] by metis
  have "at_entry D k dir 0 (Some h) 0 b"
    using reading_showing [OF rd(2)] nz by (simp add: at_entry_def)
  from find_loop_finds [OF assms(1) this, of "take 14 name"]
  have "found D k dir (List.find (entry_matches D k dir (take 14 name)) [0..<nr_entries k dir]) (find_entry dir name k)"
    using assms(2,3) rd(1) ok(3) by (simp add: find_entry_def z nr_entries_def)
  then show ?thesis by (simp add: found_def)
qed


text \<open>A directory of 65 entries, the last one in a hole; every byte of the disk is 7.\<close>

definition dir_kernel :: kernel where
  "dir_kernel = on_inode 0 (\<lambda>n. n\<lparr>i_dev := ROOT_DEV, i_num := 1, i_mode := 0x41ed, i_size := 1040, i_count := 1,
     i_nlinks := 2, i_zone := (\<lambda>z. if z = 0 then 6 else 0)\<rparr>) (small_kernel small_cache)"

lemma dir_kernel_inode: "inode_at dir_kernel 0 = zero_inode\<lparr>i_dev := ROOT_DEV, i_num := 1, i_mode := 0x41ed,
    i_size := 1040, i_count := 1, i_nlinks := 2, i_zone := (\<lambda>z. if z = 0 then 6 else 0)\<rparr>"
  by (simp add: dir_kernel_def k_simps) (simp add: inode_at_def small_kernel_def)

lemma dir_kernel_bc: "bc dir_kernel = small_cache"
  by (simp add: dir_kernel_def k_simps) (simp add: small_kernel_def)

lemma dir_kernel_zone: "n < 7 + 512 + 512 * 512 \<Longrightarrow> file_zone ROOT_DEV dir_kernel 0 n = (if n = 0 then 6 else 0)"
  by (simp add: file_zone_def dir_kernel_inode)

lemma small_cache_calm: "calm small_cache"
  by (auto simp: calm_def small_cache_def)

lemma dir_kernel_ok: "dir_ok ROOT_DEV dir_kernel 0" "nr_entries dir_kernel 0 = 65"
proof -
  show n: "nr_entries dir_kernel 0 = 65" by (simp add: nr_entries_def dir_kernel_inode)
  have "map_ok ROOT_DEV dir_kernel 0" by (simp add: map_ok_def dir_kernel_inode)
  moreover have "valid small_cache ROOT_DEV 6" by (simp add: small_cache_valid)
  ultimately show "dir_ok ROOT_DEV dir_kernel 0"
    unfolding dir_ok_def n dir_kernel_bc using small_cache_ok small_cache_calm dir_kernel_zone by auto
qed

theorem find_entry_finds_witness:
  "(\<exists>h b. find_entry 0 (replicate 20 7) dir_kernel = Some (Some (h, 0), dir_kernel\<lparr>bc := b\<rparr>)) \<and>
   (\<exists>b. find_entry 0 [7, 7] dir_kernel = Some (None, dir_kernel\<lparr>bc := b\<rparr>))"
proof -
  have z: "file_zone ROOT_DEV dir_kernel 0 (j div 64) = (if j < 64 then 6 else 0)" if "j < 65" for j
    using that dir_kernel_zone [of "j div 64"] by (simp add: div_eq_0_iff)
  have "entry_matches ROOT_DEV dir_kernel 0 (replicate 14 7) 0"
    using z [of 0] by (simp add: entry_matches_def dir_kernel_bc match_def small_cache_view list_all_iff get16_def)
  then have 1: "List.find (entry_matches ROOT_DEV dir_kernel 0 (take 14 (replicate 20 7))) [0..<65] = Some 0"
    by (simp add: upt_conv_Cons min_def)
  have "\<not> entry_matches ROOT_DEV dir_kernel 0 [7, 7] j" if "j < 65" for j
    using z [OF that] by (simp add: entry_matches_def dir_kernel_bc match_def small_cache_view)
  then have 2: "List.find (entry_matches ROOT_DEV dir_kernel 0 (take 14 [7, 7])) [0..<65] = None"
    by (simp add: find_None_iff)
  have "i_zone (inode_at dir_kernel 0) 0 \<noteq> 0" by (simp add: dir_kernel_inode)
  then show ?thesis
    using find_entry_finds [OF dir_kernel_ok(1), of "replicate 20 7"] find_entry_finds [OF dir_kernel_ok(1), of "[7, 7]"]
    unfolding dir_kernel_ok(2) 1 2 by auto
qed

end
