(* ===== verification/Directory.thy ===== *)
theory Directory
  imports Namei
begin

text \<open>
  Entering names into directories: what \<^verbatim>\<open>add_entry\<close> of \<^verbatim>\<open>fs/namei.c\<close> and the store of the inode number by
  its callers do to the directory as \<^verbatim>\<open>find_entry\<close> sees it.
\<close>

section \<open>Entering a name\<close>

lemma ind_entry_created:
  assumes "bc_ok D (bc k)" and "valid (bc k) D z" and "calm (bc k)" and "n < 512" and "zone_entry D k z n \<noteq> 0"
  shows "ind_entry True D z n k = ind_entry False D z n k"
proof -
  obtain h b1 where rd: "kbread D z k = Some (Some h, k\<lparr>bc := b1\<rparr>)" "reading D z h (bc k) b1"
    using kbread_spec [OF assms(1-3)] by blast
  have "get16 (b_data (buf b1 h)) (2 * n) = get16 (view (bc k) D z) (2 * n)"
    using reading_data [OF rd(2)] assms(4) by (intro get16_cong) simp_all
  then have "unat (get16 (b_data (buf b1 h)) (2 * n)) \<noteq> 0" using assms(5) by (simp add: zone_entry_def)
  then show ?thesis by (simp add: ind_entry_def rd(1) bdata_def)
qed

text \<open>Creating a block that exists is looking it up.\<close>

lemma create_mapped:
  assumes ok: "bc_ok D (bc k)" "calm (bc k)" and m: "map_ok D k i" and n: "n < 7 + 512 + 512 * 512"
    and z: "file_zone D k i n \<noteq> 0"
  shows "create_block i (int n) k = bmap i (int n) k"
proof -
  have nz: "unat (i_zone (inode_at k i) m) = 0 \<longleftrightarrow> i_zone (inode_at k i) m = 0" for m by (simp add: unat_eq_zero)
  have dev: "i_dev (inode_at k i) = D" using m by (simp add: map_ok_def)
  have slot: "zone_slot True i l k = Some k" if "i_zone (inode_at k i) l \<noteq> 0" for l
    using that by (simp add: zone_slot_def)
  consider "n < 7" | "7 \<le> n" "n < 519" | "519 \<le> n" by linarith
  then show ?thesis
  proof cases
    case 1
    then have "i_zone (inode_at k i) n \<noteq> 0" using z by (simp add: file_zone_def nz)
    then show ?thesis using 1 slot by (simp add: create_block_def bmap_def bmap_at_def)
  next
    case 2
    then have c: "i_zone (inode_at k i) 7 \<noteq> 0" "zone_entry D k (unat (i_zone (inode_at k i) 7)) (n - 7) \<noteq> 0"
      using z by (auto simp: file_zone_def nz split: if_splits)
    have "valid (bc k) D (unat (i_zone (inode_at k i) 7))" using m c(1) by (simp add: map_ok_def)
    moreover have "n - 7 < 512" using 2 by simp
    ultimately have "ind_entry True D (unat (i_zone (inode_at k i) 7)) (n - 7) k
        = ind_entry False D (unat (i_zone (inode_at k i) 7)) (n - 7) k"
      using c(2) by (intro ind_entry_created ok)
    then show ?thesis
      using 2 slot [OF c(1)] c(1) \<open>n - 7 < 512\<close> by (simp add: create_block_def bmap_def bmap_at_def dev Let_def)
  next
    case 3
    define a where "a = (n - 519) div 512"
    define c where "c = (n - 519) mod 512"
    define e where "e = zone_entry D k (unat (i_zone (inode_at k i) 8)) a"
    have d: "c < 512" "a < 512" using n 3 unfolding a_def c_def by linarith+
    have nn: "\<not> int n < 7" "\<not> int n < 0" "\<not> 7 + 512 + 512 * 512 \<le> int n" "\<not> nat (int n) - 7 < 512"
      "nat (int n) - 7 - 512 = n - 519" using 3 n by simp_all
    have e: "i_zone (inode_at k i) 8 \<noteq> 0" "e \<noteq> 0" "zone_entry D k e c \<noteq> 0"
      using z 3 unfolding file_zone_def Let_def nz a_def [symmetric] c_def [symmetric] e_def by (auto split: if_splits)
    have v8: "valid (bc k) D (unat (i_zone (inode_at k i) 8))" and ve: "valid (bc k) D e"
      using m e(1,2) d by (auto simp: map_ok_def e_def)
    have eq: "bmap_at i (int n) f k = do { (x, k) \<leftarrow> ind_entry f D (unat (i_zone (inode_at k i) 8)) a k;
        if x = 0 then Some (0, k) else ind_entry f (i_dev (inode_at k i)) x c k }" for f
      using nn e(1) slot [OF e(1)]
      unfolding bmap_at_def Let_def a_def c_def
      by (cases f) (simp_all only: dev zone_slot_False bind.bind_lunit if_False simp_thms nn)
    obtain b1 where b1: "ind_entry False D (unat (i_zone (inode_at k i) 8)) a k = Some (e, k\<lparr>bc := b1\<rparr>)"
      "settled D (bc k) b1"
      using ind_entry_reads [OF ok(1) v8 ok(2) d(2)] unfolding e_def by blast
    have "zone_entry D (k\<lparr>bc := b1\<rparr>) e c \<noteq> 0"
      using e(3) zone_entry_cong [of "k\<lparr>bc := b1\<rparr>" D e k c] settled_view [OF b1(2) ve] d by simp
    then have "ind_entry True D e c (k\<lparr>bc := b1\<rparr>) = ind_entry False D e c (k\<lparr>bc := b1\<rparr>)"
      using b1(2) ve d settled_calm [OF b1(2) ok(2)] settled_valid [OF b1(2)]
      by (intro ind_entry_created) (simp_all add: settled_def)
    moreover have "ind_entry True D (unat (i_zone (inode_at k i) 8)) a k = ind_entry False D (unat (i_zone (inode_at k i) 8)) a k"
      using e(2) by (intro ind_entry_created ok v8 d) (simp add: e_def)
    ultimately show ?thesis by (simp add: create_block_def bmap_def eq b1(1) k_simps dev)
  qed
qed


text \<open>A block overwritten byte by byte through its buffer, and the buffer let go.\<close>

definition rewritten :: "u16 \<Rightarrow> nat \<Rightarrow> (cbuf \<Rightarrow> cbuf) \<Rightarrow> bcache \<Rightarrow> bcache \<Rightarrow> bool" where
  "rewritten D z f b b' \<longleftrightarrow> bc_ok D b' \<and> nr_buffers b' = nr_buffers b \<and> hd_part b' = hd_part b \<and>
     bad_block b' = bad_block b \<and> (\<forall>j. b_count (buf b' j) = b_count (buf b j)) \<and>
     (\<forall>n p. valid b D n \<longrightarrow> p < 1024 \<longrightarrow> view b' D n p = (if n = z then f (view b D z) p else view b D n p))"

definition bytewise :: "(cbuf \<Rightarrow> cbuf) \<Rightarrow> bool" where
  "bytewise f \<longleftrightarrow> (\<forall>d e p. d p = e p \<longrightarrow> f d p = f e p)"

lemma bytewise_put: "bytewise (put16 p v)" "bytewise (put_name p name)" "bytewise id"
  by (auto simp: bytewise_def put16_def put_name_def)

lemma bytewise_comp: "bytewise f \<Longrightarrow> bytewise g \<Longrightarrow> bytewise (f \<circ> g)"
  unfolding bytewise_def comp_def by blast

lemma bytewiseD: "bytewise f \<Longrightarrow> d p = e p \<Longrightarrow> f d p = f e p"
  unfolding bytewise_def by blast

lemma rewrite_release:
  assumes s: "showing D z h b b1" and v: "valid b D z" and f: "bytewise f"
    and k: "bc k = mark_dirty h (store h f b1)"
  obtains b2 where "kbrelse (Some h) k = Some (k\<lparr>bc := b2\<rparr>)" "rewritten D z f b b2"
proof -
  have r: "bc_ok D b1" "same_view D b b1" "h < nr_buffers b1" "holds b1 D z h" "b_uptodate (buf b1 h) \<noteq> 0"
    "\<And>j. b_count (buf b1 j) = b_count (buf b j) + (if j = h then 1 else 0)" "b_count (buf b1 h) \<noteq> 0"
    using s unfolding showing_def by blast+
  have v1: "valid b1 D z" using v r(2) by (metis valid_cong same_view_def)
  note S = store_spec [OF r(1,3,4,5) v1, of f]
  obtain b2 where b2: "kbrelse (Some h) k = Some (k\<lparr>bc := b2\<rparr>)" "bc_ok D b2" "same_view D (bc k) b2"
    "\<forall>j. b_count (buf b2 j) = (if j = h then b_count (buf (bc k) j) - 1 else b_count (buf (bc k) j))"
    using kbrelse_spec [of D k h] S(1) S(3) r(7) k by metis
  have "view b2 D n p = (if n = z then f (view b D z) p else view b D n p)" if n: "valid b D n" "p < 1024" for n p
  proof -
    have "valid (bc k) D n" using n(1) r(2) S(5,6) k by (metis valid_cong same_view_def)
    then have "view b2 D n p = view (bc k) D n p" using b2(3) n(2) by (simp add: same_view_def)
    also have "\<dots> = (if n = z then f (view b1 D z) p else view b1 D n p)" using S(2) k by simp
    also have "f (view b1 D z) p = f (view b D z) p"
      by (rule bytewiseD [OF f]) (use r(2) v n(2) in \<open>simp add: same_view_def\<close>)
    also have "view b1 D n p = view b D n p" using r(2) n by (simp add: same_view_def)
    finally show ?thesis .
  qed
  moreover have "b_count (buf b2 j) = b_count (buf b j)" for j using b2(4) S(3) r(6) k by simp
  ultimately have "rewritten D z f b b2"
    using b2(2,3) S(4-6) r(2) k by (simp add: rewritten_def same_view_def)
  then show ?thesis using that b2(1) by blast
qed

text \<open>The first slot of a directory that is free, or the one behind its end.\<close>

definition slot_free :: "u16 \<Rightarrow> kernel \<Rightarrow> nat \<Rightarrow> nat \<Rightarrow> bool" where
  "slot_free D k dir i \<longleftrightarrow> get16 (view (bc k) D (file_zone D k dir (i div 64))) (16 * (i mod 64)) = 0"

definition first_slot :: "u16 \<Rightarrow> kernel \<Rightarrow> nat \<Rightarrow> nat" where
  "first_slot D k dir = (case List.find (slot_free D k dir) [0..<nr_entries k dir] of
     None \<Rightarrow> nr_entries k dir | Some j \<Rightarrow> j)"

text \<open>The directory has its blocks up to that slot, and the block of the slot serves nothing else.\<close>

definition slot_ok :: "u16 \<Rightarrow> kernel \<Rightarrow> nat \<Rightarrow> bool" where
  "slot_ok D k dir \<longleftrightarrow> (let j = first_slot D k dir; z = file_zone D k dir (j div 64) in
     j < 64 * (7 + 512 + 512 * 512) \<and> 16 dvd unat (i_size (inode_at k dir)) \<and>
     (\<forall>q. 64 * q \<le> j \<longrightarrow> file_zone D k dir q \<noteq> 0 \<and> valid (bc k) D (file_zone D k dir q)) \<and>
     z \<notin> map_blocks D k dir \<and> (\<forall>q. 64 * q < nr_entries k dir \<longrightarrow> q \<noteq> j div 64 \<longrightarrow> file_zone D k dir q \<noteq> z))"

lemma first_slot_le: "first_slot D k dir \<le> nr_entries k dir"
  by (auto simp: first_slot_def find_Some_iff split: option.splits)

lemma before_first_slot: "i < first_slot D k dir \<Longrightarrow> \<not> slot_free D k dir i"
  by (auto simp: first_slot_def find_None_iff find_Some_iff split: option.splits)

lemma at_first_slot: "first_slot D k dir < nr_entries k dir \<Longrightarrow> slot_free D k dir (first_slot D k dir)"
proof (cases "List.find (slot_free D k dir) [0..<nr_entries k dir]")
  case (Some j)
  then have "slot_free D k dir j" by (auto simp: find_Some_iff)
  then show ?thesis by (simp add: first_slot_def Some)
qed (simp add: first_slot_def)

lemma add_buffer_finds:
  assumes ok: "dir_ok D k dir" and i: "i < (7 + 512 + 512 * 512) * 64" and st: "at_entry D k dir i bh p b"
    and z: "file_zone D k dir (i div 64) \<noteq> 0" "valid (bc k) D (file_zone D k dir (i div 64))"
  shows "\<exists>h b'. add_buffer dir i bh p (k\<lparr>bc := b\<rparr>) = Some (False, Some h, 16 * (i mod 64), k\<lparr>bc := b'\<rparr>) \<and>
    showing D (file_zone D k dir (i div 64)) h (bc k) b'"
proof (cases "bh \<noteq> None \<and> p < 1024")
  case True
  then obtain h where h: "bh = Some h" by blast
  show ?thesis
    using True at_entry_here [OF st [unfolded h]]
    by (intro exI [of _ h] exI [of _ b]) (simp add: add_buffer_def h)
next
  case False
  have m: "i mod 64 = 0" using at_entry_end [OF st False] .
  have d: "calm (bc k)" "map_ok D k dir" "i_dev (inode_at k dir) = D"
    using ok by (simp_all add: dir_ok_def map_ok_def)
  obtain b1 where b1: "kbrelse bh (k\<lparr>bc := b\<rparr>) = Some (k\<lparr>bc := b1\<rparr>)" "settled D (bc k) b1"
    using at_entry_release [OF st] .
  have n: "i div 64 < 7 + 512 + 512 * 512" using i by (rule less_mult_imp_div_less)
  have "bc_ok D b1" using b1(2) by (simp add: settled_def)
  moreover have "file_zone D (k\<lparr>bc := b1\<rparr>) dir (i div 64) \<noteq> 0"
    using map_ok_settled(2) [OF b1(2) d(2) n] z(1) by simp
  ultimately have "create_block dir (int (i div 64)) (k\<lparr>bc := b1\<rparr>) = bmap dir (int (i div 64)) (k\<lparr>bc := b1\<rparr>)"
    using settled_calm [OF b1(2) d(1)] map_ok_settled(1) [OF b1(2) d(2)] n
    by (intro create_mapped [where D = D]) simp_all
  moreover obtain b2 where "bmap dir (int (i div 64)) (k\<lparr>bc := b1\<rparr>) = Some (file_zone D k dir (i div 64), k\<lparr>bc := b2\<rparr>)"
    "settled D (bc k) b2"
    using bmap_settled [OF d(1,2) b1(2) n] by blast
  moreover from kbread_settled [OF d(1) this(2) z(2)] obtain h b3
    where "kbread D (file_zone D k dir (i div 64)) (k\<lparr>bc := b2\<rparr>) = Some (Some h, k\<lparr>bc := b3\<rparr>)"
      "showing D (file_zone D k dir (i div 64)) h (bc k) b3" .
  ultimately show ?thesis
    using False b1(1) z(1) m d(3) by (intro exI [of _ h] exI [of _ b3]) (auto simp: add_buffer_def k_simps)
qed

lemma size_behind: "i < nr_entries k dir \<Longrightarrow> \<not> i_size (inode_at k dir) \<le> of_nat (i * 16)"
proof -
  assume "i < nr_entries k dir"
  then have "16 * i + 16 \<le> unat (i_size (inode_at k dir))" by (simp add: nr_entries_def unat_div)
  moreover from this have "unat (of_nat (i * 16) :: u32) = i * 16"
    using unsigned_less [of "i_size (inode_at k dir)", where 'a = nat] by (intro unat_of_nat_small) simp
  ultimately show ?thesis by (simp add: word_le_nat_alt)
qed

lemma size_at_end:
  assumes "16 dvd unat (i_size (inode_at k dir))"
  shows "i_size (inode_at k dir) \<le> of_nat (nr_entries k dir * 16)"
proof -
  have "nr_entries k dir * 16 = unat (i_size (inode_at k dir))" using assms by (simp add: nr_entries_def unat_div)
  then show ?thesis by (simp add: word_le_nat_alt)
qed

text \<open>The state \<^verbatim>\<open>add_entry\<close> returns.\<close>

definition entered :: "nat \<Rightarrow> byte list \<Rightarrow> nat \<Rightarrow> nat \<Rightarrow> nat \<Rightarrow> kernel \<Rightarrow> kernel" where
  "entered dir name i h p k =
     (let k = grow_dir dir i h p k in
      kdirty h (kstore h (put_name p name) (on_inode dir (\<lambda>n. n\<lparr>i_mtime := CURRENT_TIME k\<rparr>) k)))"

lemma add_loop_finds:
  assumes ok: "dir_ok D k dir" and sl: "slot_ok D k dir"
  shows "i \<le> first_slot D k dir \<Longrightarrow> at_entry D k dir i bh p b \<Longrightarrow>
    \<exists>h b'. add_loop dir name i bh p (k\<lparr>bc := b\<rparr>)
        = Some (Some (h, 16 * (first_slot D k dir mod 64)),
            entered dir name (first_slot D k dir) h (16 * (first_slot D k dir mod 64)) (k\<lparr>bc := b'\<rparr>)) \<and>
      showing D (file_zone D k dir (first_slot D k dir div 64)) h (bc k) b'"
proof (induction "first_slot D k dir - i" arbitrary: i bh p b)
  case 0
  let ?j = "first_slot D k dir"
  let ?z = "file_zone D k dir (?j div 64)"
  have i: "i = ?j" using 0 by simp
  have j: "?j < (7 + 512 + 512 * 512) * 64" "16 dvd unat (i_size (inode_at k dir))"
    using sl by (simp_all add: slot_ok_def Let_def)
  have "64 * (?j div 64) \<le> ?j" by simp
  then have z: "?z \<noteq> 0" "valid (bc k) D ?z" using sl unfolding slot_ok_def Let_def by blast+
  from add_buffer_finds [OF ok j(1) 0(3) [unfolded i] z] obtain h b' where
    h: "add_buffer dir ?j bh p (k\<lparr>bc := b\<rparr>) = Some (False, Some h, 16 * (?j mod 64), k\<lparr>bc := b'\<rparr>)"
    "showing D ?z h (bc k) b'" by blast
  define q where "q = 16 * (?j mod 64)"
  have q: "q + 16 \<le> 1024" by (simp add: q_def)
  have "get16 (bdata (grow_dir dir ?j h q (k\<lparr>bc := b'\<rparr>)) h) q = 0"
  proof (cases "?j < nr_entries k dir")
    case True
    have "get16 (b_data (buf b' h)) q = get16 (view (bc k) D ?z) q"
      using showing_data [OF h(2)] q by (intro get16_cong) simp_all
    then show ?thesis
      using at_first_slot [OF True] size_behind [OF True]
      by (simp add: grow_dir_def bdata_def slot_free_def q_def k_simps)
  next
    case False
    then have "?j = nr_entries k dir" using first_slot_le [of D k dir] by simp
    then show ?thesis
      using size_at_end [OF j(2)] by (simp add: grow_dir_def bdata_def k_simps kstore_def store_def bc_simps)
  qed
  then have "add_loop dir name ?j bh p (k\<lparr>bc := b\<rparr>) = Some (Some (h, q), entered dir name ?j h q (k\<lparr>bc := b'\<rparr>))"
    using h(1) j(1) unfolding q_def by (subst add_loop.simps) (simp add: entered_def Let_def)
  then show ?case using h(2) unfolding i q_def by blast
next
  case (Suc d)
  let ?z = "file_zone D k dir (i div 64)"
  have lt: "i < first_slot D k dir" using Suc(2) by simp
  then have ile: "i < nr_entries k dir" using first_slot_le [of D k dir] by simp
  have "64 * (i div 64) \<le> i" by simp
  then have "64 * (i div 64) \<le> first_slot D k dir" using lt by (rule le_trans [OF _ less_imp_le])
  then have z: "?z \<noteq> 0" "valid (bc k) D ?z" using sl unfolding slot_ok_def Let_def by blast+
  have i64: "i < (7 + 512 + 512 * 512) * 64" using sl lt by (simp add: slot_ok_def Let_def)
  from add_buffer_finds [OF ok i64 Suc(4) z] obtain h b' where
    h: "add_buffer dir i bh p (k\<lparr>bc := b\<rparr>) = Some (False, Some h, 16 * (i mod 64), k\<lparr>bc := b'\<rparr>)"
    "showing D ?z h (bc k) b'" by blast
  define q where "q = 16 * (i mod 64)"
  have q: "q + 16 \<le> 1024" by (simp add: q_def)
  have "get16 (b_data (buf b' h)) q = get16 (view (bc k) D ?z) q"
    using showing_data [OF h(2)] q by (intro get16_cong) simp_all
  then have "get16 (bdata (k\<lparr>bc := b'\<rparr>) h) q \<noteq> 0"
    using before_first_slot [OF lt] by (simp add: bdata_def slot_free_def q_def)
  moreover have "grow_dir dir i h q (k\<lparr>bc := b'\<rparr>) = k\<lparr>bc := b'\<rparr>"
    using size_behind [OF ile] by (simp add: grow_dir_def k_simps)
  ultimately have step: "add_loop dir name i bh p (k\<lparr>bc := b\<rparr>)
      = add_loop dir name (Suc i) (Some h) (q + 16) (k\<lparr>bc := b'\<rparr>)"
    using h(1) i64 unfolding q_def by (subst add_loop.simps) simp
  have "at_entry D k dir (Suc i) (Some h) (q + 16) b'"
    unfolding q_def by (rule at_entry_next [OF z(1) h(2)])
  then show ?case
    unfolding step using Suc(2) lt by (intro Suc(1)) simp_all
qed

section \<open>The directory as a map\<close>

text \<open>The inode number under a name, 14 bytes of which count.\<close>

definition entry_inode :: "u16 \<Rightarrow> kernel \<Rightarrow> nat \<Rightarrow> nat \<Rightarrow> u16" where
  "entry_inode D k dir i = get16 (view (bc k) D (file_zone D k dir (i div 64))) (16 * (i mod 64))"

definition lookup :: "u16 \<Rightarrow> kernel \<Rightarrow> nat \<Rightarrow> byte list \<Rightarrow> u16 option" where
  "lookup D k dir name = map_option (entry_inode D k dir)
     (List.find (entry_matches D k dir (take 14 name)) [0..<nr_entries k dir])"

text \<open>\<^verbatim>\<open>add_entry\<close>, followed by what \<^verbatim>\<open>open_namei\<close>, \<^verbatim>\<open>sys_mkdir\<close> and \<^verbatim>\<open>sys_link\<close> do with the entry.\<close>

definition link_name :: "nat \<Rightarrow> byte list \<Rightarrow> u16 \<Rightarrow> kernel \<Rightarrow> kernel option" where
  "link_name dir name nr k =
     do { (entry, k) \<leftarrow> add_entry dir name k;
          case entry of None \<Rightarrow> None | Some (b, p) \<Rightarrow> set_entry b p nr k }"

text \<open>The bytes of the new entry.\<close>

lemma named_entry:
  fixes d :: cbuf
  assumes "q < p \<or> p + 16 \<le> q"
  shows "(put16 p nr (put_name p name d)) q = d q"
  using assms by (auto simp: put16_def put_name_def)

lemma match_named:
  assumes m: "length m \<le> 14" "0 \<notin> set m" and n: "length n \<le> 14" "0 \<notin> set n" and "nr \<noteq> 0"
  shows "match n (put16 p nr (put_name p m d)) p \<longleftrightarrow> n = m"
proof -
  let ?d = "put16 p nr (put_name p m d)"
  have at: "?d (p + 2 + i) = (if i < length m then m ! i else 0)" if "i < 14" for i
    using that by (simp add: put16_def put_name_def)
  have g: "get16 ?d p = nr" by simp
  show ?thesis
  proof
    assume eq: "match n ?d p"
    have zero: "\<not> length n < length m" if l: "length n < 14"
    proof
      assume less: "length n < length m"
      have "?d (p + 2 + length n) = 0" using eq l by (simp add: match_def)
      then have "m ! length n = 0" using at [OF l] less by simp
      then show False using nth_mem [OF less] m(2) by simp
    qed
    have same: "i < length m \<and> n ! i = m ! i" if i: "i < length n" for i
    proof -
      have "n ! i = ?d (p + 2 + i)" using eq i by (simp add: match_def list_all_iff)
      also have "\<dots> = (if i < length m then m ! i else 0)" using i n(1) by (intro at) simp
      finally show ?thesis using nth_mem [OF i] n(2) by (auto split: if_splits)
    qed
    have "length n \<le> length m" using same by (meson leI less_irrefl)
    moreover have "length m \<le> length n" using zero m(1) by (cases "length n < 14") simp_all
    ultimately show "n = m" using same by (intro nth_equalityI) simp_all
  next
    assume "n = m"
    moreover have "?d (p + 2 + length m) = 0" if "length m < 14" using at [OF that] by simp
    moreover have "m ! i = ?d (p + 2 + i)" if "i < length m" for i using at [of i] that m(1) by simp
    ultimately show "match n ?d p" using g assms(5) m(1) by (simp add: match_def list_all_iff)
  qed
qed

text \<open>The block as it is in the end, with one buffer stored to.\<close>

lemma put_overwrites: "put16 p nr (put_name p name (put16 p v d)) = put16 p nr (put_name p name d)"
  by (auto simp: put16_def put_name_def fun_eq_iff)

lemma store_again:
  "store h g (store h f b) = store h (g \<circ> f) b"
  "store h g (mark_dirty h b) = mark_dirty h (store h g b)"
  "mark_dirty h (mark_dirty h b) = mark_dirty h b"
  by (cases "buf b h"; simp add: store_def mark_dirty_def on_buf_def)+

lemma entered_state:
  fixes k dir name i h p nr
  defines "k1 \<equiv> kdirty h (kstore h (put16 p nr) (entered dir name i h p k))"
    and "grown \<equiv> i_size (inode_at k dir) \<le> of_nat (i * 16)"
  shows "bc k1 = mark_dirty h (store h (put16 p nr \<circ> put_name p name) (bc k))"
    and "i_zone (inode_at k1 dir) = i_zone (inode_at k dir)" "i_dev (inode_at k1 dir) = i_dev (inode_at k dir)"
    and "i_size (inode_at k1 dir) = (if grown then of_nat ((i + 1) * 16) else i_size (inode_at k dir))"
proof -
  have "put16 p nr \<circ> (put_name p name \<circ> put16 p 0) = put16 p nr \<circ> put_name p name"
    by (simp add: fun_eq_iff put_overwrites)
  then show "bc k1 = mark_dirty h (store h (put16 p nr \<circ> put_name p name) (bc k))"
    unfolding k1_def entered_def grow_dir_def Let_def
    by (simp add: kdirty_def kstore_def store_again k_simps comp_assoc)
qed (simp_all add: k1_def grown_def entered_def grow_dir_def Let_def kdirty_def kstore_def k_simps)

lemma slot_size:
  assumes "slot_ok D k dir"
  shows "i_size (inode_at k dir) \<le> of_nat (first_slot D k dir * 16) \<longleftrightarrow> first_slot D k dir = nr_entries k dir"
proof
  assume "i_size (inode_at k dir) \<le> of_nat (first_slot D k dir * 16)"
  then have "\<not> first_slot D k dir < nr_entries k dir" using size_behind by blast
  then show "first_slot D k dir = nr_entries k dir" using first_slot_le [of D k dir] by simp
next
  assume "first_slot D k dir = nr_entries k dir"
  then show "i_size (inode_at k dir) \<le> of_nat (first_slot D k dir * 16)"
    using assms size_at_end [of k dir] by (simp add: slot_ok_def Let_def)
qed

lemma link_name_does:
  assumes ok: "dir_ok D k dir" and sl: "slot_ok D k dir" and name: "name \<noteq> []"
  defines "j \<equiv> first_slot D k dir"
  defines "z \<equiv> file_zone D k dir (j div 64)" and "p \<equiv> 16 * (j mod 64)"
  shows "\<exists>k'. link_name dir name nr k = Some k' \<and>
    rewritten D z (put16 p nr \<circ> put_name p (take 14 name)) (bc k) (bc k') \<and>
    i_zone (inode_at k' dir) = i_zone (inode_at k dir) \<and> i_dev (inode_at k' dir) = D \<and>
    nr_entries k' dir = max (nr_entries k dir) (Suc j)"
proof -
  have d: "bc_ok D (bc k)" "calm (bc k)" "i_dev (inode_at k dir) = D"
    and z0: "file_zone D k dir 0 = unat (i_zone (inode_at k dir) 0)"
    using ok by (simp_all add: dir_ok_def map_ok_def file_zone_def)
  have "64 * 0 \<le> j" "64 * (j div 64) \<le> j" by simp_all
  then have nz: "file_zone D k dir 0 \<noteq> 0" "valid (bc k) D (file_zone D k dir 0)" and vz: "valid (bc k) D z"
    using sl unfolding slot_ok_def Let_def j_def z_def by blast+
  obtain h0 b0 where rd: "kbread D (file_zone D k dir 0) k = Some (Some h0, k\<lparr>bc := b0\<rparr>)"
    "reading D (file_zone D k dir 0) h0 (bc k) b0" using kbread_spec [OF d(1) nz(2) d(2)] by metis
  have "at_entry D k dir 0 (Some h0) 0 b0"
    using reading_showing [OF rd(2)] nz(1) by (simp add: at_entry_def)
  from add_loop_finds [OF ok sl _ this, of "take 14 name"] obtain h b where
    add: "add_loop dir (take 14 name) 0 (Some h0) 0 (k\<lparr>bc := b0\<rparr>)
      = Some (Some (h, p), entered dir (take 14 name) j h p (k\<lparr>bc := b\<rparr>))" and sh: "showing D z h (bc k) b"
    unfolding j_def z_def p_def by auto
  define k1 where "k1 = kdirty h (kstore h (put16 p nr) (entered dir (take 14 name) j h p (k\<lparr>bc := b\<rparr>)))"
  have e: "bc k1 = mark_dirty h (store h (put16 p nr \<circ> put_name p (take 14 name)) b)"
    "i_zone (inode_at k1 dir) = i_zone (inode_at k dir)" "i_dev (inode_at k1 dir) = D"
    "i_size (inode_at k1 dir) = (if j = nr_entries k dir then of_nat ((j + 1) * 16) else i_size (inode_at k dir))"
    using entered_state [of h p nr dir "take 14 name" j "k\<lparr>bc := b\<rparr>"] slot_size [OF sl] d(3)
    unfolding k1_def [symmetric] j_def [symmetric] by (simp_all add: k_simps)
  obtain b2 where b2: "kbrelse (Some h) k1 = Some (k1\<lparr>bc := b2\<rparr>)"
    "rewritten D z (put16 p nr \<circ> put_name p (take 14 name)) (bc k) b2"
    using rewrite_release [OF sh vz bytewise_comp [OF bytewise_put(1,2)] e(1)] .
  have "j < 64 * (7 + 512 + 512 * 512)" using sl by (simp add: slot_ok_def Let_def j_def)
  then have "unat (of_nat ((j + 1) * 16) :: u32) = (j + 1) * 16" by (intro unat_of_nat_small) simp
  then have "nr_entries k1 dir = max (nr_entries k dir) (Suc j)"
    using first_slot_le [of D k dir] e(4) unfolding j_def [symmetric] by (auto simp: nr_entries_def unat_div)
  moreover have "link_name dir name nr k = Some (k1\<lparr>bc := b2\<rparr>)"
    using rd(1) add name nz(1) z0 b2(1) d(3) unfolding k1_def
    by (simp add: link_name_def add_entry_def set_entry_def unat_eq_zero)
  ultimately show ?thesis
    using b2(2) e(2,3) by (intro exI [of _ "k1\<lparr>bc := b2\<rparr>"]) (simp add: k_simps nr_entries_def)
qed

text \<open>A directory after a store to entry \<open>j\<close>: the other entries are what they were.\<close>

definition entry_written :: "u16 \<Rightarrow> kernel \<Rightarrow> kernel \<Rightarrow> nat \<Rightarrow> nat \<Rightarrow> (cbuf \<Rightarrow> cbuf) \<Rightarrow> bool" where
  "entry_written D k k' dir j f \<longleftrightarrow> dir_ok D k dir \<and> slot_ok D k dir \<and> j = first_slot D k dir \<and>
     rewritten D (file_zone D k dir (j div 64)) f (bc k) (bc k') \<and> bytewise f \<and>
     (\<forall>d q. q < 16 * (j mod 64) \<or> 16 * (j mod 64) + 16 \<le> q \<longrightarrow> f d q = d q) \<and>
     i_zone (inode_at k' dir) = i_zone (inode_at k dir)"

lemma entry_writtenD:
  assumes "entry_written D k k' dir j f"
  shows "dir_ok D k dir" "slot_ok D k dir" "j = first_slot D k dir"
    "rewritten D (file_zone D k dir (j div 64)) f (bc k) (bc k')"
    "q < 16 * (j mod 64) \<or> 16 * (j mod 64) + 16 \<le> q \<Longrightarrow> f d q = d q"
    "i_zone (inode_at k' dir) = i_zone (inode_at k dir)"
  using assms unfolding entry_written_def by blast+

lemma written_zone: "entry_written D k k' dir j f \<Longrightarrow> n < 7 + 512 + 512 * 512 \<Longrightarrow> file_zone D k' dir n = file_zone D k dir n"
proof -
  assume w: "entry_written D k k' dir j f"
  note ok = entry_writtenD(1) [OF w] and sl = entry_writtenD(2) [OF w] and j = entry_writtenD(3) [OF w]
  have "view (bc k') D z p = view (bc k) D z p" if "z \<in> map_blocks D k dir" "p < 1024" for z p
    using that w sl ok unfolding entry_written_def rewritten_def slot_ok_def Let_def j [symmetric] dir_ok_def map_ok_blocks
    by metis
  then show "n < 7 + 512 + 512 * 512 \<Longrightarrow> file_zone D k' dir n = file_zone D k dir n"
    using file_zone_cong(2) [of D k dir k' n] w by (simp add: entry_written_def)
qed

lemma written_other:
  assumes w: "entry_written D k k' dir j f"
    and i: "i < nr_entries k dir" "i \<noteq> j" and z: "file_zone D k dir (i div 64) \<noteq> 0"
    and q: "16 * (i mod 64) \<le> q" "q < 16 * (i mod 64) + 16"
  shows "view (bc k') D (file_zone D k dir (i div 64)) q = view (bc k) D (file_zone D k dir (i div 64)) q"
proof -
  note ok = entry_writtenD(1) [OF w] and sl = entry_writtenD(2) [OF w] and j = entry_writtenD(3) [OF w]
  have "64 * (i div 64) \<le> i" by simp
  then have n: "64 * (i div 64) < nr_entries k dir" using i(1) by (rule le_less_trans)
  then have v: "valid (bc k) D (file_zone D k dir (i div 64))" using ok z unfolding dir_ok_def by blast
  have q2: "q < 1024" using q(2) mod_less_divisor [of 64 i] by simp
  have eq: "view (bc k') D (file_zone D k dir (i div 64)) q
      = (if file_zone D k dir (i div 64) = file_zone D k dir (j div 64)
         then f (view (bc k) D (file_zone D k dir (j div 64))) q else view (bc k) D (file_zone D k dir (i div 64)) q)"
    using w v q2 unfolding entry_written_def rewritten_def by blast
  show ?thesis
  proof (cases "i div 64 = j div 64")
    case True
    then have "i mod 64 \<noteq> j mod 64" using i(2) by (metis div_mult_mod_eq)
    then have "q < 16 * (j mod 64) \<or> 16 * (j mod 64) + 16 \<le> q" using q by linarith
    then show ?thesis using entry_writtenD(5) [OF w] eq True by simp
  next
    case False
    then have "file_zone D k dir (i div 64) \<noteq> file_zone D k dir (j div 64)"
      using sl n unfolding slot_ok_def Let_def j [symmetric] by blast
    then show ?thesis using eq by simp
  qed
qed

lemma written_entries:
  assumes w: "entry_written D k k' dir j f" and i: "i < nr_entries k dir" "i \<noteq> j"
  shows "entry_matches D k' dir n i \<longleftrightarrow> entry_matches D k dir n i"
    and "file_zone D k dir (i div 64) \<noteq> 0 \<Longrightarrow> entry_inode D k' dir i = entry_inode D k dir i"
proof -
  have "i < (7 + 512 + 512 * 512) * 64" using i(1) entry_writtenD(1) [OF w] by (simp add: dir_ok_def)
  then have "i div 64 < 7 + 512 + 512 * 512" by (rule less_mult_imp_div_less)
  then have fz: "file_zone D k' dir (i div 64) = file_zone D k dir (i div 64)" by (rule written_zone [OF w])
  show "entry_matches D k' dir n i \<longleftrightarrow> entry_matches D k dir n i"
  proof (cases "file_zone D k dir (i div 64) = 0")
    case False
    then have "match n (view (bc k') D (file_zone D k dir (i div 64))) (16 * (i mod 64))
        = match n (view (bc k) D (file_zone D k dir (i div 64))) (16 * (i mod 64))"
      by (intro match_cong written_other [OF w i])
    then show ?thesis by (simp add: entry_matches_def fz)
  qed (simp add: entry_matches_def fz)
  show "entry_inode D k' dir i = entry_inode D k dir i" if "file_zone D k dir (i div 64) \<noteq> 0"
    unfolding entry_inode_def fz by (intro get16_cong written_other [OF w] i that) simp_all
qed

lemma written_entry:
  assumes w: "entry_written D k k' dir j f"
  shows "q < 1024 \<Longrightarrow>
      view (bc k') D (file_zone D k' dir (j div 64)) q = f (view (bc k) D (file_zone D k dir (j div 64))) q"
    and "file_zone D k' dir (j div 64) \<noteq> 0"
proof -
  note sl = entry_writtenD(2) [OF w] and j = entry_writtenD(3) [OF w]
  have "64 * (j div 64) \<le> j" by simp
  then have z: "file_zone D k dir (j div 64) \<noteq> 0" "valid (bc k) D (file_zone D k dir (j div 64))"
    using sl unfolding slot_ok_def Let_def j [symmetric] by blast+
  have "j < (7 + 512 + 512 * 512) * 64" using sl by (simp add: slot_ok_def Let_def j)
  then have "j div 64 < 7 + 512 + 512 * 512" by (rule less_mult_imp_div_less)
  note fz = written_zone [OF w this]
  show "view (bc k') D (file_zone D k' dir (j div 64)) q = f (view (bc k) D (file_zone D k dir (j div 64))) q"
    if "q < 1024" using w that z(2) unfolding entry_written_def rewritten_def fz by simp
  show "file_zone D k' dir (j div 64) \<noteq> 0" using z(1) fz by simp
qed

text \<open>What the lookup finds once entry \<open>j\<close> carries a name that was not there.\<close>

lemma free_slot_matches: "dir_ok D k dir \<Longrightarrow> j = first_slot D k dir \<Longrightarrow> j < nr_entries k dir \<Longrightarrow>
    \<not> entry_matches D k dir n j"
  using at_first_slot [of D k dir] by (simp add: entry_matches_def match_def slot_free_def)

lemma find_append: "List.find P (xs @ ys) = (case List.find P xs of None \<Rightarrow> List.find P ys | Some x \<Rightarrow> Some x)"
  by (induction xs) simp_all

lemma find_moved:
  assumes old: "\<And>i. i < n \<Longrightarrow> i \<noteq> j \<Longrightarrow> P' i \<longleftrightarrow> P i" and j: "j \<le> n"
    and free: "j < n \<Longrightarrow> \<not> P j" and new: "\<not> P' j"
  shows "List.find P' [0..<max n (Suc j)] = List.find P [0..<n]"
proof (cases "j = n")
  case True
  then have "max n (Suc j) = Suc n" by simp
  moreover have "List.find P' [0..<n] = List.find P [0..<n]" by (rule find_cong) (use old True in auto)
  ultimately show ?thesis
    using new True by (cases "List.find P [0..<n]") (simp_all add: find_append)
next
  case False
  then have "max n (Suc j) = n" using j by simp
  moreover have "List.find P' [0..<n] = List.find P [0..<n]"
    by (rule find_cong) (use old free new False j in \<open>auto simp: le_less\<close>)
  ultimately show ?thesis by simp
qed

lemma find_new:
  assumes "\<And>i. i < n \<Longrightarrow> i \<noteq> j \<Longrightarrow> \<not> P' i" and "P' j" and "j \<le> n"
  shows "List.find P' [0..<max n (Suc j)] = Some j"
  unfolding find_Some_iff using assms by (intro exI [of _ j]) auto

lemma link_name_written:
  assumes "dir_ok D k dir" and "slot_ok D k dir" and "name \<noteq> []"
  defines "j \<equiv> first_slot D k dir"
  shows "\<exists>k'. link_name dir name nr k = Some k' \<and> nr_entries k' dir = max (nr_entries k dir) (Suc j) \<and>
    entry_written D k k' dir j (put16 (16 * (j mod 64)) nr \<circ> put_name (16 * (j mod 64)) (take 14 name))"
proof -
  have "(put16 p nr \<circ> put_name p (take 14 name)) d q = d q" if "q < p \<or> p + 16 \<le> q" for p d q
    using named_entry [OF that] by simp
  then show ?thesis
    using link_name_does [OF assms(1-3), of nr] assms(1,2)
    unfolding j_def [symmetric] entry_written_def by (auto intro: bytewise_comp bytewise_put)
qed

text \<open>
  C22: A directory is a map from names, of which 14 bytes count, to inode numbers. Entering a name that is not
  there, as \<^verbatim>\<open>open\<close>, \<^verbatim>\<open>mkdir\<close> and \<^verbatim>\<open>link\<close> do (\<^verbatim>\<open>add_entry\<close>, then the store of the inode number), succeeds when
  the block for it is there, and makes exactly the one change to the map, wherever the free entry lies.
\<close>

theorem add_entry_links:
  assumes ok: "dir_ok D k dir" "slot_ok D k dir" and name: "name \<noteq> []" "0 \<notin> set name" and nr: "nr \<noteq> 0"
    and new: "lookup D k dir name = None"
  shows "\<exists>k'. link_name dir name nr k = Some k' \<and>
    (\<forall>n. 0 \<notin> set n \<longrightarrow> lookup D k' dir n = (if take 14 n = take 14 name then Some nr else lookup D k dir n))"
proof -
  let ?m = "take 14 name"
  define j where "j = first_slot D k dir"
  define p where "p = 16 * (j mod 64)"
  define d where "d = view (bc k) D (file_zone D k dir (j div 64))"
  obtain k' where k': "link_name dir name nr k = Some k'" "nr_entries k' dir = max (nr_entries k dir) (Suc j)"
    and w: "entry_written D k k' dir j (put16 p nr \<circ> put_name p ?m)"
    using link_name_written [OF ok name(1), of nr] unfolding j_def p_def by blast
  have jle: "j \<le> nr_entries k dir" unfolding j_def by (rule first_slot_le)
  have v: "view (bc k') D (file_zone D k' dir (j div 64)) q = put16 p nr (put_name p ?m d) q" if "q < 1024" for q
    using written_entry(1) [OF w that] by (simp add: d_def)
  have p: "p + 16 \<le> 1024" by (simp add: p_def)
  have m: "0 \<notin> set (take 14 l)" if "0 \<notin> set l" for l :: "byte list" using that by (auto dest: in_set_takeD)
  have "match n (view (bc k') D (file_zone D k' dir (j div 64))) p = match n (put16 p nr (put_name p ?m d)) p" for n
    using p by (intro match_cong v) simp
  then have at_j: "entry_matches D k' dir (take 14 n) j \<longleftrightarrow> take 14 n = ?m" if "0 \<notin> set n" for n
    using match_named [of ?m "take 14 n" nr p d] m [OF that] m [OF name(2)] nr written_entry(2) [OF w]
    by (simp add: entry_matches_def p_def)
  have "get16 (view (bc k') D (file_zone D k' dir (j div 64))) p = get16 (put16 p nr (put_name p ?m d)) p"
    using p by (intro get16_cong v) simp_all
  then have inode_j: "entry_inode D k' dir j = nr" by (simp add: entry_inode_def p_def)
  have "lookup D k' dir n = (if take 14 n = ?m then Some nr else lookup D k dir n)" if n: "0 \<notin> set n" for n
  proof (cases "take 14 n = ?m")
    case True
    have "\<not> entry_matches D k' dir (take 14 n) i" if "i < nr_entries k dir" "i \<noteq> j" for i
      using new written_entries(1) [OF w that] that(1) True by (simp add: lookup_def find_None_iff)
    then show ?thesis
      using find_new [OF _ _ jle, of "entry_matches D k' dir (take 14 n)"] at_j [OF n] True inode_j
      by (simp add: lookup_def k'(2))
  next
    case False
    have "List.find (entry_matches D k' dir (take 14 n)) [0..<nr_entries k' dir]
        = List.find (entry_matches D k dir (take 14 n)) [0..<nr_entries k dir]"
      unfolding k'(2) using free_slot_matches [OF ok(1) j_def] at_j [OF n] False
      by (intro find_moved written_entries(1) [OF w] jle) simp_all
    moreover have "entry_inode D k' dir i = entry_inode D k dir i"
      if "List.find (entry_matches D k dir (take 14 n)) [0..<nr_entries k dir] = Some i" for i
    proof -
      have i: "i < nr_entries k dir" "entry_matches D k dir (take 14 n) i"
        using that by (auto simp: find_Some_iff)
      then have "i \<noteq> j" using free_slot_matches [OF ok(1) j_def] by blast
      then show ?thesis using written_entries(2) [OF w i(1)] i(2) by (simp add: entry_matches_def)
    qed
    ultimately show ?thesis
      using False by (auto simp: lookup_def split: option.splits intro: option.map_cong)
  qed
  then show ?thesis using k'(1) by blast
qed

text \<open>The same directory with two entries, both in use; the third is behind its end.\<close>

definition two_entries :: kernel where
  "two_entries = on_inode 0 (\<lambda>n. n\<lparr>i_size := 32\<rparr>) dir_kernel"

lemma two_entries_state:
  "inode_at two_entries 0 = (inode_at dir_kernel 0)\<lparr>i_size := 32\<rparr>" "bc two_entries = small_cache"
  "nr_entries two_entries 0 = 2"
  "n < 7 + 512 + 512 * 512 \<Longrightarrow> file_zone ROOT_DEV two_entries 0 n = (if n = 0 then 6 else 0)"
  by (simp_all add: two_entries_def k_simps dir_kernel_bc nr_entries_def file_zone_def dir_kernel_inode)

lemma two_entries_zone: "file_zone ROOT_DEV two_entries 0 0 = 6"
  by (simp add: two_entries_state)

lemma two_entries_ok: "dir_ok ROOT_DEV two_entries 0"
proof -
  have "map_ok ROOT_DEV two_entries 0" by (simp add: map_ok_def two_entries_state dir_kernel_inode)
  moreover have "valid small_cache ROOT_DEV 6" by (simp add: small_cache_valid)
  ultimately show ?thesis
    unfolding dir_ok_def two_entries_state(2,3) using small_cache_ok small_cache_calm two_entries_zone by auto
qed

lemma two_entries_used: "\<not> slot_free ROOT_DEV two_entries 0 i" if "i < 2"
proof -
  have "i div 64 = 0" using that by simp
  then show ?thesis
    by (simp add: slot_free_def two_entries_zone two_entries_state(2) get16_def small_cache_view)
qed

lemma two_entries_slot: "first_slot ROOT_DEV two_entries 0 = 2" "slot_ok ROOT_DEV two_entries 0"
proof -
  have "List.find (slot_free ROOT_DEV two_entries 0) [0..<2] = None"
    using two_entries_used by (simp add: find_None_iff)
  then show j: "first_slot ROOT_DEV two_entries 0 = 2"
    by (simp add: first_slot_def two_entries_state(3))
  have one: "q = 0" if "64 * q \<le> 2" for q :: nat using that by simp
  have "map_blocks ROOT_DEV two_entries 0 = {}"
    by (auto simp: map_blocks_def two_entries_state(1) dir_kernel_inode)
  moreover have all: "\<forall>q. 64 * q \<le> (2 :: nat) \<longrightarrow> file_zone ROOT_DEV two_entries 0 q \<noteq> 0 \<and>
      valid small_cache ROOT_DEV (file_zone ROOT_DEV two_entries 0 q)"
  proof (intro allI impI)
    fix q :: nat
    assume "64 * q \<le> 2"
    then have "q = 0" by (rule one)
    then show "file_zone ROOT_DEV two_entries 0 q \<noteq> 0 \<and>
        valid small_cache ROOT_DEV (file_zone ROOT_DEV two_entries 0 q)"
      by (simp add: two_entries_zone small_cache_valid)
  qed
  ultimately show "slot_ok ROOT_DEV two_entries 0"
    unfolding slot_ok_def Let_def j two_entries_state(2,3)
    by (intro conjI) (simp_all add: two_entries_zone two_entries_state(1) del: One_nat_def)
qed

theorem add_entry_links_witness:
  "\<exists>k'. link_name 0 [65] 9 two_entries = Some k' \<and> lookup ROOT_DEV k' 0 [65] = Some 9 \<and>
     lookup ROOT_DEV k' 0 (replicate 14 7) = Some 0x707 \<and> lookup ROOT_DEV k' 0 [66] = None"
proof -
  have z: "i div 64 = 0" if "i < 2" for i :: nat using that by simp
  have other: "\<not> entry_matches ROOT_DEV two_entries 0 [c] i" if "c \<noteq> 7" "i < 2" for c i
    using that z [OF that(2)]
    by (simp add: entry_matches_def two_entries_zone two_entries_state(2) match_def small_cache_view)
  have none: "lookup ROOT_DEV two_entries 0 [c] = None" if "c \<noteq> 7" for c
    using other [OF that] by (simp add: lookup_def two_entries_state(3) find_None_iff)
  have "entry_matches ROOT_DEV two_entries 0 (replicate 14 7) 0"
    by (simp add: entry_matches_def two_entries_zone two_entries_state(2) match_def small_cache_view list_all_iff get16_def)
  then have "List.find (entry_matches ROOT_DEV two_entries 0 (take 14 (replicate 14 7))) [0..<2] = Some 0"
    by (simp add: upt_conv_Cons)
  then have "lookup ROOT_DEV two_entries 0 (replicate 14 7) = Some 0x707"
    by (simp add: lookup_def two_entries_state(2,3) entry_inode_def two_entries_zone get16_def small_cache_view)
  then show ?thesis
    using add_entry_links [OF two_entries_ok two_entries_slot(2), of "[65]" 9] none [of 65] none [of 66] by auto
qed

end
