(* ===== verification/FileIO.thy ===== *)
theory FileIO
  imports KeyManager Directory Cipher
begin

text \<open>
  Reading and writing regular files and block devices: \<^verbatim>\<open>fs/file_dev.c\<close> and \<^verbatim>\<open>fs/block_dev.c\<close>.

  A file is an index into \<^verbatim>\<open>file_table\<close>, a user address a number. The local array a block is decrypted
  into, and the one inside the cipher, start with what the stack holds: \<open>stack n\<close> when \<open>n\<close> bytes are left.
\<close>

section \<open>Copying to and from the caller\<close>

text \<open>\<^verbatim>\<open>while (chars-->0) put_fs_byte(*(p++),buff++)\<close>, and the other way round.\<close>

primrec put_bytes :: "nat \<Rightarrow> (nat \<Rightarrow> byte) \<Rightarrow> nat \<Rightarrow> nat \<Rightarrow> kernel \<Rightarrow> kernel" where
  "put_bytes 0 p q buff k = k"
| "put_bytes (Suc chars) p q buff k = put_bytes chars p (Suc q) (Suc buff) (put_fs_byte (p q) buff k)"

primrec get_bytes :: "nat \<Rightarrow> kernel \<Rightarrow> nat \<Rightarrow> nat \<Rightarrow> cbuf \<Rightarrow> cbuf" where
  "get_bytes 0 k buff p d = d"
| "get_bytes (Suc chars) k buff p d = get_bytes chars k (Suc buff) (Suc p) (d(p := get_fs_byte k buff))"

section \<open>Regular files\<close>

text \<open>
  \<^verbatim>\<open>strlen(key) > 0 && enc_table.search(...) != ERR_NOT_FND\<close>: there is a key, of the process or the global
  one, and the file is registered. The search can run for ever.
\<close>

definition has_key :: "kernel \<Rightarrow> bool" where
  "has_key k \<longleftrightarrow> (if t_key (cur k) 0 = 0 then encryption_key k 0 else t_key (cur k) 0) \<noteq> 0"

definition is_encrypted :: "nat \<Rightarrow> kernel \<Rightarrow> bool option" where
  "is_encrypted inode k =
     (if has_key k
      then do { r \<leftarrow> search_func (enc_table k) (i_num (inode_at k inode)); Some (r \<noteq> ERR_NOT_FND) }
      else Some False)"

text \<open>
  The loop of \<^verbatim>\<open>file_read\<close> with \<open>left\<close> bytes to go: how many it leaves unread. A negative position that
  \<^verbatim>\<open>bmap\<close> takes for block 0 reads in front of the buffer. The key is the one \<^verbatim>\<open>key_to_use\<close> points to;
  a decrypted block is copied from its first byte on, wherever the position is.
\<close>

lemma chars_less: "l \<noteq> 0 \<Longrightarrow> l - min (1024 - nat (x mod 1024)) l < l"
proof -
  have "nat (x mod 1024) < 1024" by (simp add: nat_less_iff)
  then show "l \<noteq> 0 \<Longrightarrow> l - min (1024 - nat (x mod 1024)) l < l" by simp
qed

lemma chars_written: "\<not> n \<le> i \<Longrightarrow> n - (i + min (1024 - nat (x mod 1024)) (n - i)) < n - i"
  using chars_less [of "n - i" x] by simp

function file_read_loop :: "(nat \<Rightarrow> cbuf \<times> cbuf) \<Rightarrow> nat \<Rightarrow> nat \<Rightarrow> nat \<Rightarrow> nat \<Rightarrow> kernel \<Rightarrow> (nat \<times> kernel) option" where
  "file_read_loop stack inode filp buff left k =
     (if left = 0 then Some (0, k)
      else do {
        let ofs = sint (f_pos (file_table k filp));
        (nr, k) \<leftarrow> bmap inode (ofs sdiv 1024) k;
        (bh, k) \<leftarrow> (if nr \<noteq> 0 then kbread (i_dev (inode_at k inode)) nr k else Some (None, k));
        if nr \<noteq> 0 \<and> bh = None then Some (left, k)
        else if ofs < 0 then overrun ''b_data''
        else
          let off = nat (ofs mod 1024); chars = min (1024 - off) left;
              k = on_file filp (\<lambda>f. f\<lparr>f_pos := f_pos f + of_nat chars\<rparr>) k in
          do {
            k \<leftarrow> (case bh of
                None \<Rightarrow> Some (put_bytes chars (\<lambda>_. 0) 0 buff k)
              | Some b \<Rightarrow> do {
                  enc \<leftarrow> is_encrypted inode k;
                  k \<leftarrow> (if enc then do {
                           key \<leftarrow> key_in_use k;
                           decrypted \<leftarrow> decrypt_block key (fst (stack left)) (bdata k b) (snd (stack left));
                           Some (put_bytes chars decrypted 0 buff k) }
                         else Some (put_bytes chars (bdata k b) off buff k));
                  kbrelse (Some b) k });
            file_read_loop stack inode filp (buff + chars) (left - chars) k } })"
  by pat_completeness auto
termination
  by (relation "measure (\<lambda>(_, _, _, _, left, _). left)", simp, simp only: in_measure split_conv, rule chars_less)

declare file_read_loop.simps [simp del]

text \<open>The result is the number of bytes read, \<^verbatim>\<open>-ERROR\<close> for none; the cnt is positive.\<close>

definition file_read :: "(nat \<Rightarrow> cbuf \<times> cbuf) \<Rightarrow> nat \<Rightarrow> nat \<Rightarrow> nat \<Rightarrow> int \<Rightarrow> kernel \<Rightarrow> (int \<times> kernel) option" where
  "file_read stack inode filp buff cnt k =
     (if cnt \<le> 0 then Some (0, k)
      else do {
        (left, k) \<leftarrow> file_read_loop stack inode filp buff (nat cnt) k;
        let k = on_inode inode (\<lambda>n. n\<lparr>i_atime := CURRENT_TIME k\<rparr>) k;
        let r = cnt - int left;
        Some (if r \<noteq> 0 then r else - ERROR, k) })"

text \<open>
  The block at hand is fill_block with \<open>c\<close> bytes of the caller from offset \<open>off\<close> on; \<open>ofs\<close> is the position
  behind them, which may be the new size of the file.
\<close>

definition fill_block :: "nat \<Rightarrow> nat \<Rightarrow> nat \<Rightarrow> nat \<Rightarrow> nat \<Rightarrow> int \<Rightarrow> kernel \<Rightarrow> kernel" where
  "fill_block i b c a off ofs k =
     (let k = kdirty b k;
          k = (if i_size (inode_at k i) < word_of_int ofs
               then on_inode i (\<lambda>n. n\<lparr>i_size := word_of_int ofs, i_dirt := 1\<rparr>) k else k)
      in kstore b (get_bytes c k a off) k)"

text \<open>
  The loop of \<^verbatim>\<open>file_write\<close> with \<open>i\<close> bytes written, the next one at \<open>ofs\<close> of the file. The flag
  \<open>encr\<close> is set by the first block found to be encrypted and never cleared.
\<close>

function file_write_loop :: "(nat \<Rightarrow> cbuf \<times> cbuf) \<Rightarrow> nat \<Rightarrow> nat \<Rightarrow> nat \<Rightarrow> nat \<Rightarrow> int \<Rightarrow> bool \<Rightarrow> kernel \<Rightarrow>
    (nat \<times> int \<times> kernel) option" where
  "file_write_loop stack inode buff cnt i ofs encr k =
     (if cnt \<le> i then Some (i, ofs, k)
      else do {
        (block, k) \<leftarrow> create_block inode (ofs sdiv 1024) k;
        if block = 0 then Some (i, ofs, k)
        else do {
          (bh, k) \<leftarrow> kbread (i_dev (inode_at k inode)) block k;
          case bh of None \<Rightarrow> Some (i, ofs, k)
          | Some b \<Rightarrow> do {
              enc \<leftarrow> is_encrypted inode k;
              k \<leftarrow> (if enc then do {
                       key \<leftarrow> key_in_use k;
                       d \<leftarrow> decrypt_block key (fst (stack (cnt - i))) (bdata k b) (bdata k b);
                       Some (kstore b (\<lambda>_. d) k) }
                     else Some k);
              if ofs < 0 then overrun ''b_data''
              else
                let off = nat (ofs mod 1024); c = min (1024 - off) (cnt - i); ofs = ofs + int c;
                    k = fill_block inode b c (buff + i) off ofs k
                in do {
                  k \<leftarrow> (if enc \<or> encr then do {
                           key \<leftarrow> key_in_use k;
                           d \<leftarrow> encrypt_block key (snd (stack (cnt - i))) (bdata k b) (bdata k b);
                           Some (kstore b (\<lambda>_. d) k) }
                         else Some k);
                  k \<leftarrow> kbrelse (Some b) k;
                  file_write_loop stack inode buff cnt (i + c) ofs (enc \<or> encr) k } } } })"
  by pat_completeness auto
termination
  by (relation "measure (\<lambda>(_, _, _, cnt, i, _). cnt - i)", simp, simp only: in_measure split_conv, rule chars_written)

declare file_write_loop.simps [simp del]

definition file_write :: "(nat \<Rightarrow> cbuf \<times> cbuf) \<Rightarrow> nat \<Rightarrow> nat \<Rightarrow> nat \<Rightarrow> nat \<Rightarrow> kernel \<Rightarrow> (int \<times> kernel) option" where
  "file_write stack inode filp buff cnt k =
     (let append = ucast (f_flags (file_table k filp)) AND O_APPEND \<noteq> 0;
          ofs = (if append then sint (i_size (inode_at k inode)) else sint (f_pos (file_table k filp))) in
      do {
        (i, ofs, k) \<leftarrow> file_write_loop stack inode buff cnt 0 ofs False k;
        let k = on_inode inode (\<lambda>n. n\<lparr>i_mtime := CURRENT_TIME k\<rparr>) k;
        let k = (if append then k
           else on_inode inode (\<lambda>n. n\<lparr>i_ctime := CURRENT_TIME k\<rparr>) (on_file filp (\<lambda>f. f\<lparr>f_pos := word_of_int ofs\<rparr>) k));
        Some (if i \<noteq> 0 then int i else - 1, k) })"

section \<open>Block devices\<close>

text \<open>
  Every block but the first starts at its beginning; the number of bytes moved ignores the offset, so that
  from an offset on the copy runs over the end of the buffer.
\<close>

fun block_move :: "bool \<Rightarrow> nat \<Rightarrow> u16 \<Rightarrow> nat \<Rightarrow> nat \<Rightarrow> nat \<Rightarrow> u32 \<Rightarrow> nat \<Rightarrow> kernel \<Rightarrow> (int \<times> u32 \<times> kernel) option" where
  "block_move writing written dev block off buff ofs cnt k =
     (if cnt = 0 then Some (int written, ofs, k)
      else do {
        (bh, k) \<leftarrow> kbread dev block k;
        case bh of None \<Rightarrow> Some (if written \<noteq> 0 then int written else - EIO, ofs, k)
        | Some b \<Rightarrow>
            let chars = min cnt 1024 in
            if 1024 < off + chars then overrun ''b_data''
            else do {
              let k = (if writing then kstore b (get_bytes chars k buff off) k else put_bytes chars (bdata k b) off buff k);
              k \<leftarrow> kbrelse (Some b) (kdirty b k);
              block_move writing (written + chars) dev (Suc block) 0 (buff + chars) (ofs + of_nat chars) (cnt - chars) k } })"

declare block_move.simps [simp del]

definition block_write :: "u16 \<Rightarrow> u32 \<Rightarrow> nat \<Rightarrow> int \<Rightarrow> kernel \<Rightarrow> (int \<times> u32 \<times> kernel) option" where
  "block_write dev ofs buff cnt k =
     (if sint ofs < 0 then overrun ''block'' else
      block_move True 0 dev (nat (sint ofs div 1024)) (nat (sint ofs mod 1024)) buff ofs (nat cnt) k)"

definition block_read :: "u16 \<Rightarrow> u32 \<Rightarrow> nat \<Rightarrow> int \<Rightarrow> kernel \<Rightarrow> (int \<times> u32 \<times> kernel) option" where
  "block_read dev ofs buff cnt k =
     block_move False 0 dev (unat ofs div 1024) (unat ofs mod 1024) buff ofs (nat cnt) k"

section \<open>The bytes of a file\<close>

text \<open>Byte \<open>p\<close> of a file as the device shows it; a hole reads as zeros.\<close>

definition file_byte :: "u16 \<Rightarrow> kernel \<Rightarrow> nat \<Rightarrow> nat \<Rightarrow> byte" where
  "file_byte D k i p = (let z = file_zone D k i (p div 1024) in if z = 0 then 0 else view (bc k) D z (p mod 1024))"

text \<open>The first \<open>m\<close> bytes can be read.\<close>

definition readable :: "u16 \<Rightarrow> kernel \<Rightarrow> nat \<Rightarrow> nat \<Rightarrow> bool" where
  "readable D k i m \<longleftrightarrow> bc_ok D (bc k) \<and> calm (bc k) \<and> map_ok D k i \<and> m \<le> 1024 * (7 + 512 + 512 * 512) \<and>
     (\<forall>q. 1024 * q < m \<longrightarrow> file_zone D k i q \<noteq> 0 \<longrightarrow> valid (bc k) D (file_zone D k i q))"

lemma shift_diff: "Suc a \<le> x \<Longrightarrow> Suc q + (x - Suc a) = q + (x - a)"
  by (metis Suc_diff_Suc Suc_le_eq add_Suc_shift)

lemma shifted_bytes:
  "(if Suc a \<le> x \<and> x < Suc a + n then f (Suc q + (x - Suc a)) else (d(a := f q)) x)
    = (if a \<le> x \<and> x < a + Suc n then f (q + (x - a)) else (d x :: byte))"
  using shift_diff [of a x q] by (cases "x = a") (auto simp del: add_Suc)

lemma put_bytes_eq:
  "put_bytes n f q a k = k\<lparr>fsmem := (\<lambda>x. if a \<le> x \<and> x < a + n then f (q + (x - a)) else fsmem k x)\<rparr>"
proof (induction n arbitrary: q a k)
  case 0
  have "(\<lambda>x. if a \<le> x \<and> x < a + 0 then f (q + (x - a)) else fsmem k x) = fsmem k" by (rule ext) auto
  then show ?case by simp
next
  case (Suc n)
  have "put_bytes (Suc n) f q a k = k\<lparr>fsmem := (\<lambda>x. if Suc a \<le> x \<and> x < Suc a + n then f (Suc q + (x - Suc a))
      else ((fsmem k)(a := f q)) x)\<rparr>"
    unfolding put_bytes.simps Suc.IH put_fs_byte_def by (simp del: add_Suc fun_upd_apply cong: if_cong)
  then show ?case unfolding shifted_bytes .
qed

lemma get_bytes_eq:
  "get_bytes n k a p d = (\<lambda>x. if p \<le> x \<and> x < p + n then fsmem k (a + (x - p)) else d x)"
proof (induction n arbitrary: a p d)
  case 0
  show ?case by (rule ext) auto
next
  case (Suc n)
  show ?case
    unfolding get_bytes.simps Suc.IH
    by (rule ext) (use shifted_bytes [of p _ n "fsmem k" a d] in \<open>simp add: get_fs_byte_def del: add_Suc\<close>)
qed

text \<open>What depends only on the cache and the inode.\<close>

lemma map_frame:
  assumes "bc k' = bc k" and "i_zone (inode_at k' i) = i_zone (inode_at k i)" and "i_dev (inode_at k' i) = i_dev (inode_at k i)"
  shows "file_zone D k' i n = file_zone D k i n" and "map_ok D k' i = map_ok D k i" and "map_blocks D k' i = map_blocks D k i"
  using assms by (simp_all add: file_zone_def map_ok_def map_blocks_def zone_entry_def)

lemma file_byte_in_block:
  assumes "p mod 1024 + j < 1024"
  shows "file_byte D k i (p + j) = (if file_zone D k i (p div 1024) = 0 then 0
    else view (bc k) D (file_zone D k i (p div 1024)) (p mod 1024 + j))"
proof -
  have "p + j = 1024 * (p div 1024) + (p mod 1024 + j)" by simp
  then have "(p + j) div 1024 = p div 1024" "(p + j) mod 1024 = p mod 1024 + j"
    using assms by (metis div_mult_self4 div_less add.commute add_0 mult.commute zero_neq_numeral,
        metis mod_mult_self4 mod_less mult.commute)
  then show ?thesis by (simp add: file_byte_def Let_def)
qed

lemma sint_small: "n < 2 ^ 31 \<Longrightarrow> sint (of_nat n :: u32) = int n"
proof -
  have "(of_nat n :: u32) = word_of_int (int n)" by simp
  then show "n < 2 ^ 31 \<Longrightarrow> sint (of_nat n :: u32) = int n" by (simp only: int_word_sint) simp
qed

section \<open>Reading\<close>

definition copied :: "u16 \<Rightarrow> kernel \<Rightarrow> nat \<Rightarrow> nat \<Rightarrow> nat \<Rightarrow> nat \<Rightarrow> cbuf \<Rightarrow> cbuf" where
  "copied D k i a l p m = (\<lambda>x. if a \<le> x \<and> x < a + l then file_byte D k i (p + (x - a)) else m x)"

lemma copied_cong:
  assumes "\<And>j. j < l \<Longrightarrow> file_byte D k i (p + j) = g j"
  shows "(\<lambda>x. if a \<le> x \<and> x < a + l then g (x - a) else m x) = copied D k i a l p m"
proof (rule ext)
  fix x
  show "(if a \<le> x \<and> x < a + l then g (x - a) else m x) = copied D k i a l p m x"
  proof (cases "a \<le> x \<and> x < a + l")
    case True
    then have "file_byte D k i (p + (x - a)) = g (x - a)" by (intro assms) linarith
    then show ?thesis unfolding copied_def by presburger
  qed (auto simp: copied_def)
qed

lemma copied_append: "c \<le> l \<Longrightarrow> copied D k i (a + c) (l - c) (p + c) (copied D k i a c p m) = copied D k i a l p m"
  by (auto simp: copied_def fun_eq_iff)

lemma plain_frame:
  assumes "task k' = task k" "current k' = current k" "encryption_key k' = encryption_key k" "enc_table k' = enc_table k"
    and "i_num (inode_at k' i) = i_num (inode_at k i)"
  shows "is_encrypted i k' = is_encrypted i k"
  using assms by (simp add: is_encrypted_def has_key_def cur_def)

text \<open>The states a read goes through.\<close>

definition io_state :: "kernel \<Rightarrow> cbuf \<Rightarrow> (nat \<Rightarrow> file_struct) \<Rightarrow> bcache \<Rightarrow> kernel" where
  "io_state k m ft b = k\<lparr>fsmem := m, bc := b, file_table := ft\<rparr>"

lemma io_state_sel [simp]:
  "bc (io_state k m ft b) = b" "inode_at (io_state k m ft b) i = inode_at k i"
  "file_table (io_state k m ft b) = ft" "fsmem (io_state k m ft b) = m"
  "CURRENT_TIME (io_state k m ft b) = CURRENT_TIME k"
  "is_encrypted i (io_state k m ft b) = is_encrypted i k"
  by (simp_all add: io_state_def inode_at_def CURRENT_TIME_def is_encrypted_def has_key_def cur_def)

lemma io_state_upd [simp]:
  "(io_state k m ft b)\<lparr>bc := b'\<rparr> = io_state k m ft b'" "(io_state k m ft b)\<lparr>fsmem := m'\<rparr> = io_state k m' ft b"
  "on_file h f (io_state k m ft b) = io_state k m (ft(h := f (ft h))) b"
  "io_state k (fsmem k) (file_table k) (bc k) = k"
  by (cases k; simp add: io_state_def on_file_def)+

lemma io_state_put [simp]: "put_bytes n f q a (io_state k m ft b)
    = io_state k (\<lambda>x. if a \<le> x \<and> x < a + n then f (q + (x - a)) else m x) ft b"
  by (simp add: put_bytes_eq cong: if_cong)

lemma io_state_map [simp]:
  "file_zone D (io_state k m ft (bc k)) i n = file_zone D k i n" "map_ok D (io_state k m ft (bc k)) i = map_ok D k i"
  using map_frame [of "io_state k m ft (bc k)" k i] by simp_all

text \<open>One round of the loop: a block, or a hole, into the memory of the caller.\<close>

lemma file_read_round:
  assumes ok: "readable D k i (p + l)" and l: "0 < l" and plain: "is_encrypted i k = Some False"
    and f: "f_pos (ft h) = of_nat p" and b: "settled D (bc k) b"
  defines "c \<equiv> min (1024 - p mod 1024) l"
  shows "\<exists>b'. file_read_loop stack i h a l (io_state k m ft b)
    = file_read_loop stack i h (a + c) (l - c)
        (io_state k (copied D k i a c p m) (ft(h := (ft h)\<lparr>f_pos := of_nat (p + c)\<rparr>)) b') \<and> settled D (bc k) b'"
proof -
  let ?k = "io_state k m ft (bc k)"
  define q where "q = p div 1024"
  define z where "z = file_zone D k i q"
  have p: "p < 1024 * (7 + 512 + 512 * 512)" "1024 * q \<le> p" using ok l by (auto simp: readable_def q_def)
  have q: "q < 7 + 512 + 512 * 512" using p(1) unfolding q_def by (intro less_mult_imp_div_less) (simp add: mult.commute)
  have sp: "sint (of_nat p :: u32) = int p" using p(1) by (intro sint_small) simp
  have sq: "int p sdiv 1024 = int q" by (cases "p = 0") (simp_all add: q_def signed_divide_int_def zdiv_int)
  have cm: "calm (bc k)" "i_dev (inode_at k i) = D" "map_ok D k i" using ok by (simp_all add: readable_def map_ok_def)
  obtain b1 where b1: "bmap i (int q) (io_state k m ft b) = Some (z, io_state k m ft b1)" "settled D (bc k) b1"
    using bmap_settled [of ?k D i b q] cm b q unfolding z_def by auto
  have cp: "c = min (1024 - nat (int p mod 1024)) l" "nat (int p mod 1024) = p mod 1024"
    by (simp_all add: c_def nat_mod_distrib)
  have byte: "file_byte D k i (p + j) = (if z = 0 then 0 else view (bc k) D z (p mod 1024 + j))" if "j < c" for j
    unfolding z_def q_def using that by (intro file_byte_in_block) (simp add: c_def less_diff_conv add.commute)
  show ?thesis
  proof (cases "z = 0")
    case True
    have "(\<lambda>x. if a \<le> x \<and> x < a + c then 0 else m x) = copied D k i a c p m"
      using byte True by (intro copied_cong) simp
    then show ?thesis
      using b1 l True f sp sq
      by (intro exI [of _ b1], subst file_read_loop.simps) (simp add: c_def cp(2) Let_def)
  next
    case False
    have "1024 * q < p + l" using p(2) l by simp
    then have v: "valid (bc k) D z" using ok False unfolding z_def readable_def by blast
    obtain hb b2 where b2: "kbread D z (io_state k m ft b1) = Some (Some hb, io_state k m ft b2)" "showing D z hb (bc k) b2"
      using kbread_settled [of ?k D b1 z] cm(1) b1(2) v by auto
    have cp: "(\<lambda>x. if a \<le> x \<and> x < a + c then b_data (buf b2 hb) (p mod 1024 + (x - a)) else m x) = copied D k i a c p m"
    proof (rule copied_cong)
      fix j assume "j < c"
      then have "p mod 1024 + j < 1024" by (simp add: c_def less_diff_conv add.commute)
      then show "file_byte D k i (p + j) = b_data (buf b2 hb) (p mod 1024 + j)"
        using byte [OF \<open>j < c\<close>] False showing_data [OF b2(2)] by simp
    qed
    let ?m = "copied D k i a c p m" and ?ft = "ft(h := (ft h)\<lparr>f_pos := of_nat (p + c)\<rparr>)"
    obtain b3 where b3: "kbrelse (Some hb) (io_state k ?m ?ft b2) = Some (io_state k ?m ?ft b3)" "settled D (bc k) b3"
      using showing_release [of D z hb "bc k" "io_state k ?m ?ft b2"] b2(2) by auto
    show ?thesis
      using b1 b2 b3 l False f sp sq plain cm(2) cp
      by (intro exI [of _ b3], subst file_read_loop.simps) (simp add: bdata_def c_def nat_mod_distrib Let_def)
  qed
qed

lemma file_read_loop_reads:
  assumes ok: "readable D k i m" and plain: "is_encrypted i k = Some False"
  shows "p + l \<le> m \<Longrightarrow> f_pos (ft h) = of_nat p \<Longrightarrow> settled D (bc k) b \<Longrightarrow>
    \<exists>b'. file_read_loop stack i h a l (io_state k um ft b)
      = Some (0, io_state k (copied D k i a l p um) (ft(h := (ft h)\<lparr>f_pos := of_nat (p + l)\<rparr>)) b') \<and> settled D (bc k) b'"
proof (induction l arbitrary: p a um ft b rule: less_induct)
  case (less l)
  show ?case
  proof (cases "l = 0")
    case True
    have "(ft h)\<lparr>f_pos := of_nat p\<rparr> = ft h" using less.prems(2) by (cases "ft h") simp
    then have "ft(h := (ft h)\<lparr>f_pos := of_nat p\<rparr>) = ft" by (simp add: fun_upd_idem)
    moreover have "copied D k i a 0 p um = um" unfolding copied_def by (rule ext) auto
    ultimately show ?thesis
      using True less.prems(3) by (intro exI [of _ b], subst file_read_loop.simps) simp
  next
    case False
    define c where "c = min (1024 - p mod 1024) l"
    let ?um = "copied D k i a c p um" and ?ft = "ft(h := (ft h)\<lparr>f_pos := of_nat (p + c)\<rparr>)"
    have c: "0 < c" "c \<le> l" using False by (simp_all add: c_def)
    have "readable D k i (p + l)" using ok less.prems(1) by (auto simp: readable_def)
    from file_read_round [where ft = ft and h = h and m = um and a = a and stack = stack, OF this _ plain less.prems(2,3)] obtain b1 where
      r: "file_read_loop stack i h a l (io_state k um ft b) = file_read_loop stack i h (a + c) (l - c) (io_state k ?um ?ft b1)"
      "settled D (bc k) b1" using False unfolding c_def by auto
    have eq: "p + c + (l - c) = p + l" using c(2) by simp
    have "l - c < l" "p + c + (l - c) \<le> m" "f_pos (?ft h) = of_nat (p + c)" using c less.prems(1) by simp_all
    from less.IH [where a = "a + c" and ft = ?ft and um = ?um, OF this r(2)] obtain b2 where
      "file_read_loop stack i h (a + c) (l - c) (io_state k ?um ?ft b1)
        = Some (0, io_state k (copied D k i (a + c) (l - c) (p + c) ?um) (?ft(h := (?ft h)\<lparr>f_pos := of_nat (p + c + (l - c))\<rparr>)) b2)"
      "settled D (bc k) b2" by blast
    moreover have "?ft(h := (?ft h)\<lparr>f_pos := of_nat (p + c + (l - c))\<rparr>) = ft(h := (ft h)\<lparr>f_pos := of_nat (p + l)\<rparr>)"
      unfolding eq by simp
    ultimately show ?thesis unfolding r(1) copied_append [OF c(2)] by metis
  qed
qed

lemma file_read_spec:
  assumes "readable D k i (p + n)" and "is_encrypted i k = Some False"
    and "f_pos (file_table k h) = of_nat p" and "0 < n"
  shows "\<exists>k' b. file_read stack i h a (int n) k = Some (int n, k') \<and>
    k' = on_inode i (\<lambda>x. x\<lparr>i_atime := CURRENT_TIME k\<rparr>) (on_file h (\<lambda>f. f\<lparr>f_pos := of_nat (p + n)\<rparr>)
      (k\<lparr>fsmem := (\<lambda>x. if a \<le> x \<and> x < a + n then file_byte D k i (p + (x - a)) else fsmem k x), bc := b\<rparr>)) \<and>
    settled D (bc k) b"
proof -
  let ?ft = "(file_table k)(h := (file_table k h)\<lparr>f_pos := of_nat (p + n)\<rparr>)"
  have "settled D (bc k) (bc k)" using assms(1) by (simp add: readable_def settled_refl)
  from file_read_loop_reads
      [where ft = "file_table k" and h = h and stack = stack and a = a and um = "fsmem k" and l = n, OF assms(1,2) _ assms(3) this]
  obtain b where
    "file_read_loop stack i h a n k = Some (0, io_state k (copied D k i a n p (fsmem k)) ?ft b)" "settled D (bc k) b"
    by auto
  moreover have "on_file h (\<lambda>f. f\<lparr>f_pos := of_nat (p + n)\<rparr>) (k\<lparr>fsmem := copied D k i a n p (fsmem k), bc := b\<rparr>)
      = io_state k (copied D k i a n p (fsmem k)) ?ft b"
    by (simp add: io_state_def on_file_def)
  ultimately show ?thesis
    using assms(4) unfolding copied_def [symmetric] by (intro exI [of _ b] exI conjI) (simp_all add: file_read_def)
qed

text \<open>
  \<^verbatim>\<open>file_read\<close> gives the caller the bytes of the file from its position on: for a file that is not
  encrypted it returns the count, copies the \<open>n\<close> bytes the device shows (zeros for holes) to the buffer and
  nothing else, moves the position by \<open>n\<close>, and leaves the cache as it was but for the blocks it read.
\<close>

theorem file_read_reads:
  assumes "readable D k i (p + n)" and "is_encrypted i k = Some False"
    and "f_pos (file_table k h) = of_nat p" and "0 < n"
  shows "\<exists>k' b. file_read stack i h a (int n) k = Some (int n, k') \<and>
    k' = on_inode i (\<lambda>x. x\<lparr>i_atime := CURRENT_TIME k\<rparr>) (on_file h (\<lambda>f. f\<lparr>f_pos := of_nat (p + n)\<rparr>)
      (k\<lparr>fsmem := (\<lambda>x. if a \<le> x \<and> x < a + n then file_byte D k i (p + (x - a)) else fsmem k x), bc := b\<rparr>)) \<and>
    settled D (bc k) b"
  using assms by (rule file_read_spec)

section \<open>Writing\<close>

text \<open>The first \<open>m\<close> bytes of the file have blocks, each its own, none of them an indirect block.\<close>

definition writable :: "u16 \<Rightarrow> kernel \<Rightarrow> nat \<Rightarrow> nat \<Rightarrow> bool" where
  "writable D k i m \<longleftrightarrow> readable D k i m \<and>
     (\<forall>q. 1024 * q < m \<longrightarrow> file_zone D k i q \<noteq> 0 \<and> file_zone D k i q \<notin> map_blocks D k i \<and>
        (\<forall>r. 1024 * r < m \<longrightarrow> file_zone D k i r = file_zone D k i q \<longrightarrow> r = q))"

text \<open>What a write keeps: everything but the cache and the inode, and of the inode what places its blocks.\<close>

definition written_only :: "nat \<Rightarrow> kernel \<Rightarrow> kernel \<Rightarrow> bool" where
  "written_only i k k' \<longleftrightarrow> k' = k\<lparr>bc := bc k', inode_table := inode_table k'\<rparr> \<and>
     i_zone (inode_at k' i) = i_zone (inode_at k i) \<and> i_dev (inode_at k' i) = i_dev (inode_at k i) \<and>
     i_num (inode_at k' i) = i_num (inode_at k i)"

lemma written_only_trans: "written_only i k k' \<Longrightarrow> written_only i k' k'' \<Longrightarrow> written_only i k k''"
  unfolding written_only_def by (cases k; cases k'; cases k'') simp

lemma written_only_keeps:
  assumes "written_only i k k'"
  shows "fsmem k' = fsmem k" "file_table k' = file_table k" "is_encrypted i k' = is_encrypted i k"
proof -
  have k': "k' = k\<lparr>bc := bc k', inode_table := inode_table k'\<rparr>" and n: "i_num (inode_at k' i) = i_num (inode_at k i)"
    using assms by (auto simp: written_only_def)
  show "fsmem k' = fsmem k" "file_table k' = file_table k" by (subst k', simp)+
  show "is_encrypted i k' = is_encrypted i k" using n by (intro plain_frame) (subst k', simp)+
qed

text \<open>A block of the file rewritten: the other bytes of the file stay, and it stays writable.\<close>

lemma block_rewritten:
  assumes ok: "writable D k i m" and w: "rewritten D (file_zone D k i q) f (bc k) (bc k')" and q: "1024 * q < m"
    and k': "written_only i k k'"
  shows "writable D k' i m"
    and "p < m \<Longrightarrow> file_byte D k' i p = (if p div 1024 = q then f (view (bc k) D (file_zone D k i q)) (p mod 1024)
      else file_byte D k i p)"
    and "n < 7 + 512 + 512 * 512 \<Longrightarrow> file_zone D k' i n = file_zone D k i n"
proof -
  have r: "readable D k i m" using ok by (simp add: writable_def)
  have z: "valid (bc k) D (file_zone D k i s)" "file_zone D k i s \<noteq> 0" "file_zone D k i s \<notin> map_blocks D k i"
    "file_zone D k i s = file_zone D k i q \<longleftrightarrow> s = q" if "1024 * s < m" for s
    using ok q that unfolding writable_def readable_def by blast+
  have fr: "i_zone (inode_at k' i) = i_zone (inode_at k i)" "i_dev (inode_at k' i) = i_dev (inode_at k i)"
    using k' by (simp_all add: written_only_def)
  have vw: "view (bc k') D y x = view (bc k) D y x" if "y \<in> map_blocks D k i" "x < 1024" for y x
  proof -
    have "valid (bc k) D y" using r that(1) unfolding readable_def map_ok_blocks by blast
    moreover have "y \<noteq> file_zone D k i q" using z(3) [OF q] that(1) by blast
    ultimately show ?thesis using w that(2) by (simp add: rewritten_def)
  qed
  have mb: "map_blocks D k' i = map_blocks D k i" by (rule file_zone_cong(1) [OF _ fr(1)]) (rule vw)
  have fz: "file_zone D k' i n = file_zone D k i n" if "n < 7 + 512 + 512 * 512" for n
    by (rule file_zone_cong(2) [OF _ fr(1) that]) (rule vw)
  then show "n < 7 + 512 + 512 * 512 \<Longrightarrow> file_zone D k' i n = file_zone D k i n" .
  have val: "valid (bc k') = valid (bc k)" using w by (intro valid_cong) (simp_all add: rewritten_def)
  have lim: "s < 7 + 512 + 512 * 512" if "1024 * s < m" for s using that r by (simp add: readable_def)
  have "readable D k' i m"
    using r w mb fz lim fr(2) unfolding readable_def map_ok_blocks val rewritten_def calm_def by auto
  then show "writable D k' i m" using ok mb fz lim unfolding writable_def by auto
  show "file_byte D k' i p = (if p div 1024 = q then f (view (bc k) D (file_zone D k i q)) (p mod 1024)
      else file_byte D k i p)" if p: "p < m"
  proof -
    have "1024 * (p div 1024) \<le> p" by simp
    then have s: "1024 * (p div 1024) < m" using p by (rule le_less_trans)
    have "view (bc k') D (file_zone D k i (p div 1024)) (p mod 1024)
        = (if p div 1024 = q then f (view (bc k) D (file_zone D k i q)) (p mod 1024)
           else view (bc k) D (file_zone D k i (p div 1024)) (p mod 1024))"
      using w z(1,4) [OF s] by (simp add: rewritten_def)
    then show ?thesis
      using z(2) [OF s] z(2) [OF q] fz [OF lim [OF s]] unfolding file_byte_def Let_def by auto
  qed
qed

lemma bytewise_get_bytes: "bytewise (get_bytes n k a p)"
  by (auto simp: bytewise_def get_bytes_eq)

lemma fill_block_state:
  "bc (fill_block i b c a off ofs k) = mark_dirty b (store b (get_bytes c k a off) (bc k))"
  "written_only i k (fill_block i b c a off ofs k)"
proof -
  have g: "fsmem k' = fsmem k \<Longrightarrow> get_bytes c k' a off = get_bytes c k a off" for k'
    by (simp add: get_bytes_eq fun_eq_iff)
  show "bc (fill_block i b c a off ofs k) = mark_dirty b (store b (get_bytes c k a off) (bc k))"
    using g [of "kdirty b k"] g [of "on_inode i f (kdirty b k)" for f]
    by (simp add: fill_block_def kstore_def kdirty_def k_simps store_again(2) Let_def)
  show "written_only i k (fill_block i b c a off ofs k)"
    by (cases k) (simp add: written_only_def fill_block_def kstore_def kdirty_def on_inode_def inode_at_def Let_def)
qed

lemma same_block:
  assumes "x div 1024 = p div (1024 :: nat)"
  shows "p \<le> x \<longleftrightarrow> p mod 1024 \<le> x mod 1024" "x < p + c \<longleftrightarrow> x mod 1024 < p mod 1024 + c"
    "x - p = x mod 1024 - p mod 1024"
proof -
  have "x = 1024 * (p div 1024) + x mod 1024" "p = 1024 * (p div 1024) + p mod 1024"
    using mult_div_mod_eq [of 1024 x] mult_div_mod_eq [of 1024 p] unfolding assms by simp_all
  then show "p \<le> x \<longleftrightarrow> p mod 1024 \<le> x mod 1024" "x < p + c \<longleftrightarrow> x mod 1024 < p mod 1024 + c"
    "x - p = x mod 1024 - p mod 1024" by linarith+
qed

lemma chunk_in_block: "p \<le> x \<Longrightarrow> x < p + min (1024 - p mod 1024) l \<Longrightarrow> x div 1024 = p div (1024 :: nat)"
proof (rule div_nat_eqI)
  assume a: "p \<le> x" "x < p + min (1024 - p mod 1024) l"
  have p: "1024 * (p div 1024) + p mod 1024 = p" "p mod 1024 < 1024" by simp_all
  show "1024 * (p div 1024) \<le> x" using a(1) p(1) by linarith
  have "x < p + (1024 - p mod 1024)" using a(2) by simp
  then show "x < 1024 * Suc (p div 1024)" unfolding mult_Suc_right using p by linarith
qed

lemma file_write_round:
  assumes ok: "writable D k i m" and plain: "is_encrypted i k = Some False" and j: "j < n" "p + (n - j) \<le> m"
  defines "c \<equiv> min (1024 - p mod 1024) (n - j)"
  shows "\<exists>k'. file_write_loop stack i a n j (int p) False k = file_write_loop stack i a n (j + c) (int (p + c)) False k' \<and>
    writable D k' i m \<and> written_only i k k' \<and>
    (\<forall>x<m. file_byte D k' i x = (if p \<le> x \<and> x < p + c then fsmem k (a + j + (x - p)) else file_byte D k i x))"
proof -
  define q where "q = p div 1024"
  define z where "z = file_zone D k i q"
  have p: "p < m" "1024 * q \<le> p" using j by (auto simp: q_def)
  have r: "bc_ok D (bc k)" "calm (bc k)" "i_dev (inode_at k i) = D" "map_ok D k i" "m \<le> 1024 * (7 + 512 + 512 * 512)"
    using ok by (simp_all add: writable_def readable_def map_ok_def)
  have pm: "p < (7 + 512 + 512 * 512) * 1024" using p(1) r(5) by simp
  then have q: "q < 7 + 512 + 512 * 512" unfolding q_def by (rule less_mult_imp_div_less)
  have qm: "1024 * q < m" using p by (rule le_less_trans [rotated])
  then have z: "z \<noteq> 0" "valid (bc k) D z"
    using ok unfolding z_def writable_def readable_def by blast+
  have sq: "int p sdiv 1024 = int q" by (cases "p = 0") (simp_all add: q_def signed_divide_int_def zdiv_int)
  have off: "nat (int p mod 1024) = p mod 1024" by (simp add: nat_mod_distrib)
  obtain b1 where b1: "create_block i (int q) k = Some (z, k\<lparr>bc := b1\<rparr>)" "settled D (bc k) b1"
    using create_mapped [OF r(1,2,4) q] bmap_settled [OF r(2,4) settled_refl [OF r(1)] q] z(1) unfolding z_def by auto
  obtain hb b2 where b2: "kbread D z (k\<lparr>bc := b1\<rparr>) = Some (Some hb, k\<lparr>bc := b2\<rparr>)" "showing D z hb (bc k) b2"
    using kbread_settled [OF r(2) b1(2) z(2)] by auto
  have pl: "is_encrypted i (k\<lparr>bc := b2\<rparr>) = Some False"
    using plain plain_frame [of "k\<lparr>bc := b2\<rparr>" k i] by (simp add: k_simps)
  define k2 where "k2 = fill_block i hb c (a + j) (p mod 1024) (int (p + c)) (k\<lparr>bc := b2\<rparr>)"
  define f where "f = get_bytes c (k\<lparr>bc := b2\<rparr>) (a + j) (p mod 1024)"
  have k2: "bc k2 = mark_dirty hb (store hb f b2)" "written_only i (k\<lparr>bc := b2\<rparr>) k2"
    unfolding k2_def f_def by (simp_all add: fill_block_state)
  obtain b3 where b3: "kbrelse (Some hb) k2 = Some (k2\<lparr>bc := b3\<rparr>)" "rewritten D z f (bc k) b3"
    using rewrite_release [OF b2(2) z(2) _ k2(1)] bytewise_get_bytes unfolding f_def by blast
  let ?k' = "k2\<lparr>bc := b3\<rparr>"
  have w: "written_only i k ?k'" using k2(2) by (cases k; cases k2) (simp add: written_only_def inode_at_def)
  have step: "file_write_loop stack i a n j (int p) False k = file_write_loop stack i a n (j + c) (int (p + c)) False ?k'"
    using j(1) b1(1) b2(1) b3(1) pl z(1) unfolding k2_def
    by (subst file_write_loop.simps) (simp add: sq r(3) k_simps off c_def [symmetric] Let_def)
  have rw: "rewritten D (file_zone D k i q) f (bc k) (bc ?k')" using b3(2) by (simp add: z_def)
  note B = block_rewritten [OF ok rw qm w]
  have "file_byte D ?k' i x = (if p \<le> x \<and> x < p + c then fsmem k (a + j + (x - p)) else file_byte D k i x)"
    if x: "x < m" for x
  proof (cases "x div 1024 = q")
    case True
    have "f (view (bc k) D z) (x mod 1024) = (if p mod 1024 \<le> x mod 1024 \<and> x mod 1024 < p mod 1024 + c
        then fsmem k (a + j + (x mod 1024 - p mod 1024)) else view (bc k) D z (x mod 1024))"
      by (simp add: f_def get_bytes_eq)
    moreover have "file_byte D k i x = view (bc k) D z (x mod 1024)" using True z(1) by (simp add: file_byte_def z_def)
    ultimately show ?thesis
      using B(2) [OF x] True same_block [OF True [unfolded q_def]] by (simp add: z_def)
  next
    case False
    have "\<not> (p \<le> x \<and> x < p + c)" using chunk_in_block [of p x "n - j"] False unfolding q_def c_def by blast
    then have "(if p \<le> x \<and> x < p + c then fsmem k (a + j + (x - p)) else file_byte D k i x) = file_byte D k i x"
      by (rule if_not_P)
    then show ?thesis using B(2) [OF x] False by simp
  qed
  then show ?thesis using step B(1) w by blast
qed

lemma file_write_loop_writes:
  assumes ok: "writable D k i m" and plain: "is_encrypted i k = Some False"
  shows "j \<le> n \<Longrightarrow> p + (n - j) \<le> m \<Longrightarrow>
    \<exists>k'. file_write_loop stack i a n j (int p) False k = Some (n, int (p + (n - j)), k') \<and>
      writable D k' i m \<and> written_only i k k' \<and>
      (\<forall>x<m. file_byte D k' i x = (if p \<le> x \<and> x < p + (n - j) then fsmem k (a + j + (x - p)) else file_byte D k i x))"
  using ok plain
proof (induction "n - j" arbitrary: j p k rule: less_induct)
  case less
  show ?case
  proof (cases "j < n")
    case False
    then show ?thesis
      using less.prems by (intro exI [of _ k], subst file_write_loop.simps) (auto simp: written_only_def)
  next
    case True
    define c where "c = min (1024 - p mod 1024) (n - j)"
    have c: "0 < c" "j + c \<le> n" "p + c + (n - (j + c)) = p + (n - j)" using True by (simp_all add: c_def)
    from file_write_round [OF less.prems(3,4) True less.prems(2)] obtain k1 where
      k1: "file_write_loop stack i a n j (int p) False k = file_write_loop stack i a n (j + c) (int (p + c)) False k1"
      "writable D k1 i m" "written_only i k k1"
      "\<And>x. x < m \<Longrightarrow> file_byte D k1 i x = (if p \<le> x \<and> x < p + c then fsmem k (a + j + (x - p)) else file_byte D k i x)"
      unfolding c_def by blast
    note keeps = written_only_keeps [OF k1(3)]
    have "is_encrypted i k1 = Some False" using less.prems(4) keeps(3) by simp
    moreover have "n - (j + c) < n - j" "p + c + (n - (j + c)) \<le> m" using c less.prems(2) by simp_all
    ultimately obtain k2 where
      k2: "file_write_loop stack i a n (j + c) (int (p + c)) False k1 = Some (n, int (p + (n - j)), k2)"
      "writable D k2 i m" "written_only i k1 k2"
      "\<And>x. x < m \<Longrightarrow> file_byte D k2 i x = (if p + c \<le> x \<and> x < p + (n - j)
          then fsmem k1 (a + (j + c) + (x - (p + c))) else file_byte D k1 i x)"
      using less.hyps [of "j + c" "p + c" k1] k1(2) c by (metis less_imp_le_nat)
    have "file_byte D k2 i x = (if p \<le> x \<and> x < p + (n - j) then fsmem k (a + j + (x - p)) else file_byte D k i x)"
      if "x < m" for x
    proof (cases "p + c \<le> x")
      case True
      then have "a + (j + c) + (x - (p + c)) = a + j + (x - p)" "p \<le> x" "\<not> x < p + c" by linarith+
      then show ?thesis using k2(4) [OF that] k1(4) [OF that] True keeps(1) by (simp only: simp_thms if_False)
    next
      case False
      then have "x < p + (n - j) \<longleftrightarrow> x < p + (n - j) \<and> x < p + c" "x < p + c" by auto
      moreover have "x < p + (n - j)" using False c(2) by linarith
      ultimately show ?thesis using k2(4) [OF that] k1(4) [OF that] False by (simp only: simp_thms if_False)
    qed
    then show ?thesis using k1(1) k2(1,2) written_only_trans [OF k1(3) k2(3)] by auto
  qed
qed

text \<open>
  C23: What \<^verbatim>\<open>file_write\<close> writes, \<^verbatim>\<open>file_read\<close> reads back: into existing blocks of a file that is not encrypted,
  from any position and across any number of direct and indirect blocks, a write of \<open>n\<close> bytes stores
  exactly those bytes in the file; after a seek back to the position a read of \<open>n\<close> bytes returns them.
\<close>

theorem write_then_read:
  assumes ok: "writable D k i (p + n)" and plain: "is_encrypted i k = Some False" and n: "0 < n"
    and f: "f_pos (file_table k h) = of_nat p" and flags: "ucast (f_flags (file_table k h)) AND O_APPEND = 0"
  shows "\<exists>k1 k2. file_write stack i h src n k = Some (int n, k1) \<and>
    (\<forall>x<p + n. file_byte D k1 i x = (if p \<le> x then fsmem k (src + (x - p)) else file_byte D k i x)) \<and>
    file_read stack i h dst (int n) (on_file h (\<lambda>f. f\<lparr>f_pos := of_nat p\<rparr>) k1) = Some (int n, k2) \<and>
    (\<forall>j<n. fsmem k2 (dst + j) = fsmem k (src + j))"
proof -
  have "p < 2 ^ 31" using ok n by (simp add: writable_def readable_def)
  then have sp: "sint (f_pos (file_table k h)) = int p" unfolding f by (rule sint_small)
  obtain k' where k': "file_write_loop stack i src n 0 (int p) False k = Some (n, int (p + n), k')"
    "writable D k' i (p + n)" "written_only i k k'"
    "\<And>x. x < p + n \<Longrightarrow> file_byte D k' i x = (if p \<le> x \<and> x < p + n then fsmem k (src + (x - p)) else file_byte D k i x)"
    using file_write_loop_writes [OF ok plain, of 0 n p stack src] by auto
  define k1 where "k1 = on_inode i (\<lambda>x. x\<lparr>i_ctime := CURRENT_TIME k'\<rparr>) (on_file h (\<lambda>f. f\<lparr>f_pos := word_of_int (int (p + n))\<rparr>)
    (on_inode i (\<lambda>x. x\<lparr>i_mtime := CURRENT_TIME k'\<rparr>) k'))"
  have w: "file_write stack i h src n k = Some (int n, k1)"
    using n flags sp k'(1) unfolding k1_def
    by (simp add: file_write_def) (simp add: CURRENT_TIME_def on_inode_def on_file_def)
  define k2 where "k2 = on_file h (\<lambda>f. f\<lparr>f_pos := of_nat p\<rparr>) k1"
  have fr: "bc k2 = bc k'" "i_zone (inode_at k2 i) = i_zone (inode_at k' i)" "i_dev (inode_at k2 i) = i_dev (inode_at k' i)"
    "bc k1 = bc k'" "i_zone (inode_at k1 i) = i_zone (inode_at k' i)" "i_dev (inode_at k1 i) = i_dev (inode_at k' i)"
    by (simp_all add: k2_def k1_def k_simps)
  have byte: "file_byte D k2 i x = file_byte D k' i x" "file_byte D k1 i x = file_byte D k' i x" for x
    using map_frame(1) [OF fr(1-3)] map_frame(1) [OF fr(4-6)] fr(1,4) by (simp_all add: file_byte_def Let_def)
  have "readable D k2 i (p + n)"
    using k'(2) map_frame [OF fr(1-3)] fr(1) by (simp add: writable_def readable_def)
  moreover have "is_encrypted i k2 = Some False"
    using plain written_only_keeps(3) [OF k'(3)] plain_frame [of k2 k' i] by (simp add: k2_def k1_def on_file_def on_inode_def inode_at_def)
  moreover have "f_pos (file_table k2 h) = of_nat p" by (simp add: k2_def k_simps)
  ultimately obtain k3 b where r: "file_read stack i h dst (int n) k2 = Some (int n, k3)"
    "k3 = on_inode i (\<lambda>x. x\<lparr>i_atime := CURRENT_TIME k2\<rparr>) (on_file h (\<lambda>f. f\<lparr>f_pos := of_nat (p + n)\<rparr>)
      (k2\<lparr>fsmem := (\<lambda>x. if dst \<le> x \<and> x < dst + n then file_byte D k2 i (p + (x - dst)) else fsmem k2 x), bc := b\<rparr>))"
    using file_read_spec [of D k2 i p n h stack dst] n by blast
  have "fsmem k3 (dst + j) = fsmem k (src + j)" if "j < n" for j
  proof -
    have "fsmem k3 (dst + j) = file_byte D k2 i (p + j)" using that by (simp add: r(2) k_simps)
    also have "\<dots> = fsmem k (src + j)" using k'(4) [of "p + j"] that byte by simp
    finally show ?thesis .
  qed
  moreover have "file_byte D k1 i x = (if p \<le> x then fsmem k (src + (x - p)) else file_byte D k i x)" if "x < p + n" for x
    using k'(4) [OF that] that byte(2) by simp
  ultimately show ?thesis using w r(1) unfolding k2_def by blast
qed

text \<open>The file of inode 0 of \<open>two_entries\<close>, one block long, and some bytes in the memory of the caller.\<close>

definition file_kernel :: kernel where
  "file_kernel = two_entries\<lparr>fsmem := of_nat\<rparr>"

lemma file_kernel_bc: "bc file_kernel = small_cache"
  by (simp add: file_kernel_def two_entries_state(2))

lemma file_kernel_state:
  "file_zone ROOT_DEV file_kernel 0 n = file_zone ROOT_DEV two_entries 0 n" "writable ROOT_DEV file_kernel 0 13"
  "is_encrypted 0 file_kernel = Some False" "file_table file_kernel = (\<lambda>_. zero_file)" "fsmem file_kernel = of_nat"
proof -
  have fr: "bc file_kernel = bc two_entries" "inode_at file_kernel 0 = inode_at two_entries 0"
    by (simp_all add: file_kernel_def inode_at_def)
  note m = map_frame [OF fr(1), of 0, unfolded fr(2), OF refl refl]
  have q: "1024 * q < 13 \<longleftrightarrow> q = 0" for q :: nat by auto
  have "map_blocks ROOT_DEV two_entries 0 = {}"
    by (auto simp: map_blocks_def two_entries_state(1) dir_kernel_inode)
  then show "writable ROOT_DEV file_kernel 0 13"
    using two_entries_ok small_cache_valid [of 6]
    by (auto simp: q writable_def readable_def m fr two_entries_zone dir_ok_def two_entries_state(2))
  show "file_zone ROOT_DEV file_kernel 0 n = file_zone ROOT_DEV two_entries 0 n" by (rule m)
qed (simp_all add: file_kernel_def is_encrypted_def has_key_def cur_def two_entries_def dir_kernel_def on_inode_def
    small_kernel_def some_task_def INIT_TASK_def)

theorem file_read_reads_witness:
  "\<exists>k'. file_read (\<lambda>_. (\<lambda>_. 0, \<lambda>_. 0)) 0 0 200 13 file_kernel = Some (13, k') \<and> fsmem k' 212 = 7 \<and> fsmem k' 213 = 213"
proof -
  have "readable ROOT_DEV file_kernel 0 (0 + 13)" using file_kernel_state(2) by (simp add: writable_def)
  moreover have "f_pos (file_table file_kernel 0) = of_nat 0" by (simp add: file_kernel_state zero_file_def)
  moreover have "file_byte ROOT_DEV file_kernel 0 12 = 7"
    by (simp add: file_byte_def file_kernel_state(1) two_entries_zone file_kernel_bc small_cache_view)
  ultimately show ?thesis
    using file_read_reads [of ROOT_DEV file_kernel 0 0 13 0 "\<lambda>_. (\<lambda>_. 0, \<lambda>_. 0)" 200] file_kernel_state(3)
    by (auto simp: k_simps file_kernel_state(5))
qed

theorem write_then_read_witness:
  "\<exists>k1 k2. file_write (\<lambda>_. (\<lambda>_. 0, \<lambda>_. 0)) 0 0 65 3 (on_file 0 (\<lambda>f. f\<lparr>f_pos := 10\<rparr>) file_kernel) = Some (3, k1) \<and>
     file_byte ROOT_DEV k1 0 9 = 7 \<and> file_byte ROOT_DEV k1 0 10 = 65 \<and>
     file_read (\<lambda>_. (\<lambda>_. 0, \<lambda>_. 0)) 0 0 200 3 (on_file 0 (\<lambda>f. f\<lparr>f_pos := 10\<rparr>) k1) = Some (3, k2) \<and> fsmem k2 201 = 66"
proof -
  let ?k = "on_file 0 (\<lambda>f. f\<lparr>f_pos := 10\<rparr>) file_kernel"
  have fr: "bc ?k = bc file_kernel" "inode_at ?k 0 = inode_at file_kernel 0" by (simp_all add: k_simps)
  note m = map_frame [OF fr(1), of 0, unfolded fr(2), OF refl refl]
  have "writable ROOT_DEV ?k 0 (10 + 3)"
    using file_kernel_state(2) by (simp add: writable_def readable_def m fr)
  moreover have "is_encrypted 0 ?k = Some False"
    using file_kernel_state(3) plain_frame [of ?k file_kernel 0] by (simp add: on_file_def inode_at_def)
  moreover have "f_pos (file_table ?k 0) = of_nat 10" "ucast (f_flags (file_table ?k 0)) AND O_APPEND = 0"
    by (simp_all add: k_simps file_kernel_state(4) zero_file_def)
  ultimately obtain k1 k2 where
    r: "file_write (\<lambda>_. (\<lambda>_. 0, \<lambda>_. 0)) 0 0 65 3 ?k = Some (int 3, k1)"
    "\<forall>x<10 + 3. file_byte ROOT_DEV k1 0 x = (if 10 \<le> x then fsmem ?k (65 + (x - 10)) else file_byte ROOT_DEV ?k 0 x)"
    "file_read (\<lambda>_. (\<lambda>_. 0, \<lambda>_. 0)) 0 0 200 (int 3) (on_file 0 (\<lambda>f. f\<lparr>f_pos := of_nat 10\<rparr>) k1) = Some (int 3, k2)"
    "\<forall>j<3. fsmem k2 (200 + j) = fsmem ?k (65 + j)"
    using write_then_read [of ROOT_DEV ?k 0 10 3 0 "\<lambda>_. (\<lambda>_. 0, \<lambda>_. 0)" 65 200] by auto
  have "file_byte ROOT_DEV ?k 0 9 = 7"
    by (simp add: file_byte_def m fr file_kernel_state(1) two_entries_zone file_kernel_bc small_cache_view)
  then show ?thesis
    using r(1,3) r(2) [rule_format, of 9] r(2) [rule_format, of 10] r(4) [rule_format, of 1]
    by (intro exI [of _ k1] exI [of _ k2]) (simp add: k_simps file_kernel_state(5))
qed

end
