(* ===== verification/Frames.thy ===== *)
theory Frames
  imports FileIO
begin

text \<open>
  What the file system leaves alone. The operations on blocks, inodes and directories change the buffer
  cache, the inode table and the reference counts of memory pages, and wake processes that wait at a pipe; all else of the
  processes, the open files, the super blocks and the terminals stay what they were. \<open>other k\<close> is the state without those parts.
\<close>

definition other :: "kernel \<Rightarrow> kernel" where
  "other k = k\<lparr>mm := empty_mm, bc := small_cache, inode_table := (\<lambda>_. zero_inode), last_allocated_inode := 0,
     task := (\<lambda>i. map_option (t_state_update (\<lambda>_. 0)) (task k i))\<rparr>"

lemma other_wake [simp]: "other (wake_readers i k) = other k"
  by (cases "i_wait (inode_at k i)")
    (auto simp: wake_readers_def wake_up_def set_runnable_def on_task_def put_wait_def on_inode_def other_def fun_eq_iff option.map_comp
      comp_def)

lemma other_upd [simp]:
  "other (k\<lparr>bc := b\<rparr>) = other k" "other (k\<lparr>mm := m\<rparr>) = other k" "other (on_inode i f k) = other k"
  "other (k\<lparr>last_allocated_inode := n\<rparr>) = other k" "other (kstore h g k) = other k" "other (kdirty h k) = other k"
  "other (clear_inode i k) = other k" "other (count_down i k) = other k"
  by (simp_all add: other_def on_inode_def kstore_def kdirty_def clear_inode_def count_down_def)

lemma other_sel:
  assumes "other k' = other k"
  shows "map_option (t_state_update (\<lambda>_. 0)) (task k' i) = map_option (t_state_update (\<lambda>_. 0)) (task k i)" "current k' = current k" "file_table k' = file_table k" "enc_table k' = enc_table k"
    "super_block_table k' = super_block_table k" "fsmem k' = fsmem k" "jiffies k' = jiffies k"
    "startup_time k' = startup_time k" "encryption_key k' = encryption_key k" "tty_table k' = tty_table k"
    "con k' = con k" "key_to_use k' = key_to_use k" "hash_to_use k' = hash_to_use k" "g_h_key k' = g_h_key k"
  using arg_cong [OF assms, of "\<lambda>k. task k i"] arg_cong [OF assms, of current] arg_cong [OF assms, of file_table]
    arg_cong [OF assms, of enc_table] arg_cong [OF assms, of super_block_table] arg_cong [OF assms, of fsmem]
    arg_cong [OF assms, of jiffies] arg_cong [OF assms, of startup_time] arg_cong [OF assms, of encryption_key]
    arg_cong [OF assms, of tty_table] arg_cong [OF assms, of con] arg_cong [OF assms, of key_to_use]
    arg_cong [OF assms, of hash_to_use] arg_cong [OF assms, of g_h_key]
  by (simp_all add: other_def)

text \<open>What is read of a task other than its state.\<close>

lemma other_task:
  assumes "other k' = other k" and "\<And>t. f (t_state_update (\<lambda>_. 0) t) = f t"
  shows "map_option f (task k' i) = map_option f (task k i)"
  using arg_cong [OF other_sel(1) [OF assms(1)], of "map_option f" i] assms(2) by (simp add: option.map_comp comp_def)

lemma other_alive: "other k' = other k \<Longrightarrow> task k' i = None \<longleftrightarrow> task k i = None"
  using other_sel(1) [of k' k i] by (cases "task k' i"; cases "task k i") auto

lemma other_cur:
  assumes "other k' = other k" and "\<And>t. f (t_state_update (\<lambda>_. 0) t) = f t"
  shows "f (cur k') = f (cur k)"
proof (cases "task k (current k)")
  case None
  then show ?thesis using other_alive [OF assms(1), of "current k"] other_sel(2) [OF assms(1)] by (simp add: cur_def)
next
  case (Some t)
  then show ?thesis using other_task [of k' k f "current k", OF assms] other_sel(2) [OF assms(1)] by (auto simp: cur_def)
qed

named_theorems frame "operations that keep the other parts of the state"

section \<open>Blocks\<close>

lemma kbread_other [frame]: "kbread d n k = Some (r, k') \<Longrightarrow> other k' = other k"
  by (auto simp: kbread_def)

lemma kgetblk_other [frame]: "kgetblk d n k = Some (r, k') \<Longrightarrow> other k' = other k"
  by (auto simp: kgetblk_def)

lemma kbrelse_other [frame]: "kbrelse h k = Some k' \<Longrightarrow> other k' = other k"
  by (auto simp: kbrelse_def)

lemma drop_buffer_other [frame]: "drop_buffer d n k = Some (r, k') \<Longrightarrow> other k' = other k"
  by (auto simp: drop_buffer_def bind_Some_iff Let_def split: prod.split_asm option.split_asm if_split_asm dest!: frame)

lemma free_block_other [frame]: "free_block d n k = Some k' \<Longrightarrow> other k' = other k"
  by (auto simp: free_block_def bind_Some_iff Let_def split: option.splits if_splits dest!: frame)

lemma new_block_other [frame]: "new_block d k = Some (r, k') \<Longrightarrow> other k' = other k"
  by (auto simp: new_block_def bind_Some_iff Let_def split: option.splits if_splits dest!: frame)

section \<open>Inodes\<close>

lemma read_inode_other [frame]: "read_inode i k = Some k' \<Longrightarrow> other k' = other k"
  by (auto simp: read_inode_def bind_Some_iff split: option.splits dest!: frame)

lemma write_inode_other [frame]: "write_inode i k = Some k' \<Longrightarrow> other k' = other k"
  by (auto simp: write_inode_def bind_Some_iff split: option.splits dest!: frame)

lemma sync_inodes_other [frame]: "sync_inodes k = Some k' \<Longrightarrow> other k' = other k"
proof -
  have "sync_inodes_from is k = Some k' \<Longrightarrow> other k' = other k" for "is"
    by (induction "is" arbitrary: k) (auto simp: bind_Some_iff split: if_splits dest!: frame)
  then show "sync_inodes k = Some k' \<Longrightarrow> other k' = other k" by (simp add: sync_inodes_def)
qed

lemma zone_slot_other [frame]: "zone_slot c i n k = Some k' \<Longrightarrow> other k' = other k"
  by (auto simp: zone_slot_def bind_Some_iff Let_def split: if_splits dest!: frame)

lemma ind_entry_other [frame]: "ind_entry c d b n k = Some (r, k') \<Longrightarrow> other k' = other k"
  by (auto simp: ind_entry_def bind_Some_iff Let_def split: option.splits if_splits dest!: frame)

lemma bmap_at_other [frame]: "bmap_at i b c k = Some (r, k') \<Longrightarrow> other k' = other k"
  by (auto simp: bmap_at_def bind_Some_iff Let_def split: if_splits dest!: frame)

lemma bmap_other [frame]: "bmap i b k = Some (r, k') \<Longrightarrow> other k' = other k"
  unfolding bmap_def by (rule frame)

lemma create_block_other [frame]: "create_block i b k = Some (r, k') \<Longrightarrow> other k' = other k"
  unfolding create_block_def by (rule frame)

lemma free_each_other:
  "(\<And>n k k'. free n k = Some k' \<Longrightarrow> other k' = other k) \<Longrightarrow> free_each free b ns k = Some k' \<Longrightarrow> other k' = other k"
  by (induction ns arbitrary: k) (auto simp: bind_Some_iff Let_def split: if_splits)

lemma free_ind_other [frame]: "free_ind d n k = Some k' \<Longrightarrow> other k' = other k"
  by (auto simp: free_ind_def bind_Some_iff split: option.splits if_splits
      dest!: frame free_each_other [rotated, where free = "free_block d"])

lemma free_dind_other [frame]: "free_dind d n k = Some k' \<Longrightarrow> other k' = other k"
  by (auto simp: free_dind_def bind_Some_iff split: option.splits if_splits
      dest!: frame free_each_other [rotated, where free = "free_ind d"])

lemma free_direct_other [frame]: "free_direct i ns k = Some k' \<Longrightarrow> other k' = other k"
  by (induction ns arbitrary: k) (auto simp: bind_Some_iff split: if_splits dest!: frame)

lemma truncate_other [frame]: "truncate i k = Some k' \<Longrightarrow> other k' = other k"
  by (auto simp: truncate_def bind_Some_iff split: if_splits dest!: frame)

lemma free_inode_other [frame]: "free_inode i k = Some k' \<Longrightarrow> other k' = other k"
  by (auto simp: free_inode_def bind_Some_iff Let_def split: option.splits if_splits dest!: frame)

lemma iput_other [frame]: "iput i k = Some k' \<Longrightarrow> other k' = other k"
  by (auto simp: iput_def bind_Some_iff Let_def split: option.splits if_splits dest!: frame)

lemma get_empty_inode_other [frame]: "get_empty_inode k = Some (r, k') \<Longrightarrow> other k' = other k"
  by (auto simp: get_empty_inode_def bind_Some_iff Let_def split: option.splits if_splits dest!: frame)

lemma get_pipe_inode_other [frame]: "get_pipe_inode k = Some (r, k') \<Longrightarrow> other k' = other k"
  by (clarsimp simp: get_pipe_inode_def bind_Some_iff)
    (auto simp: Let_def split: prod.split_asm if_split_asm dest!: frame)

lemma iget_other [frame]: "iget d n k = Some (r, k') \<Longrightarrow> other k' = other k"
  by (auto simp: iget_def bind_Some_iff split: option.splits if_splits dest!: frame)

lemma new_inode_other [frame]: "new_inode d k = Some (r, k') \<Longrightarrow> other k' = other k"
  by (clarsimp simp: new_inode_def bind_Some_iff)
    (auto simp: bind_Some_iff Let_def split: option.split_asm prod.split_asm if_split_asm dest!: frame)

section \<open>Directories and paths\<close>

lemma entry_buffer_other [frame]: "entry_buffer d i b p k = Some (b', p', k') \<Longrightarrow> other k' = other k"
  by (auto simp: entry_buffer_def bind_Some_iff split: if_splits dest!: frame)

lemma add_buffer_other [frame]: "add_buffer d i b p k = Some (f, b', p', k') \<Longrightarrow> other k' = other k"
  by (auto simp: add_buffer_def bind_Some_iff split: if_splits dest!: frame)

lemma grow_dir_other [simp]: "other (grow_dir d i b p k) = other k"
  by (simp add: grow_dir_def)

lemma find_loop_other [frame]: "find_loop d name n i b p k = Some (r, k') \<Longrightarrow> other k' = other k"
proof (induction "n - i" arbitrary: i b p k rule: less_induct)
  case less
  show ?case
  proof (cases "n \<le> i")
    case False
    then obtain b1 p1 k1 where k1: "entry_buffer d i b p k = Some (b1, p1, k1)"
      using less.prems by (subst (asm) find_loop.simps) (auto simp: bind_Some_iff)
    then show ?thesis
      using less.prems False entry_buffer_other [OF k1]
      by (subst (asm) find_loop.simps)
        (auto split: option.split_asm if_split_asm dest!: less.hyps [rotated])
  qed (use less.prems in \<open>subst (asm) find_loop.simps, auto simp: bind_Some_iff dest!: frame\<close>)
qed

lemma add_loop_other [frame]: "add_loop d name i b p k = Some (r, k') \<Longrightarrow> other k' = other k"
proof (induction "64 * (7 + 512 + 512 * 512) - i" arbitrary: i b p k rule: less_induct)
  case less
  from less.prems show ?case
    by (subst (asm) add_loop.simps)
      (auto simp: bind_Some_iff Let_def split: if_splits option.splits dest!: frame less.hyps [rotated])
qed

lemma find_entry_other [frame]: "find_entry d name k = Some (r, k') \<Longrightarrow> other k' = other k"
  by (auto simp: find_entry_def bind_Some_iff Let_def split: option.splits if_splits dest!: frame)

lemma add_entry_other [frame]: "add_entry d name k = Some (r, k') \<Longrightarrow> other k' = other k"
  by (auto simp: add_entry_def bind_Some_iff Let_def split: option.splits if_splits dest!: frame)

lemma set_entry_other [frame]: "set_entry b p n k = Some k' \<Longrightarrow> other k' = other k"
  by (auto simp: set_entry_def dest!: frame)

lemma leave_other [frame]: "leave r is k = Some (r', k') \<Longrightarrow> other k' = other k"
  by (induction "is" arbitrary: k) (auto simp: bind_Some_iff dest!: frame)

lemma walk_other [frame]: "walk i path k = Some (r, k') \<Longrightarrow> other k' = other k"
proof (induction "length path" arbitrary: i path k rule: less_induct)
  case less
  have "length (tl (drop n path)) < length path" if "drop n path \<noteq> []" for n
    using that by (cases "drop n path") (auto dest!: arg_cong [of _ _ length])
  from less.prems this show ?case
    by (subst (asm) walk.simps)
      (auto simp: bind_Some_iff Let_def split: if_splits option.splits dest!: frame less.hyps [rotated])
qed

lemma get_dir_other [frame]: "get_dir path k = Some (r, k') \<Longrightarrow> other k' = other k"
  by (auto simp: get_dir_def Let_def split: option.splits if_splits dest!: frame)

lemma dir_namei_other [frame]: "dir_namei path k = Some (r, b, k') \<Longrightarrow> other k' = other k"
  by (auto simp: dir_namei_def bind_Some_iff split: option.splits dest!: frame)

lemma namei_other [frame]: "namei path k = Some (r, k') \<Longrightarrow> other k' = other k"
  by (clarsimp simp: namei_def bind_Some_iff)
    (auto simp: bind_Some_iff Let_def split: option.split_asm if_split_asm dest!: frame)

section \<open>Step by step\<close>

text \<open>
  The long operations are followed step by step: \<open>keeps V k0 st m\<close> says that \<open>m\<close> returns, if it does, a state
  (the part \<open>st\<close> of its result) that looks through \<open>V\<close> as \<open>k0\<close> does. \<open>V\<close> may be any view of the other
  parts of the state.
\<close>

definition keeps :: "(kernel \<Rightarrow> 'v) \<Rightarrow> kernel \<Rightarrow> ('a \<Rightarrow> kernel) \<Rightarrow> 'a option \<Rightarrow> bool" where
  "keeps V k0 st m \<longleftrightarrow> (\<forall>x. m = Some x \<longrightarrow> V (st x) = V k0)"

named_theorems keeping "rules for keeps"

lemma keeps_step [keeping]:
  fixes g :: "'a \<Rightarrow> kernel \<Rightarrow> 'c option" and h :: "'a \<Rightarrow> 'b \<Rightarrow> kernel \<Rightarrow> 'c option"
  shows "keeps V k0 id m1 \<Longrightarrow> (\<And>k'. V k' = V k0 \<Longrightarrow> keeps V k0 st (f k')) \<Longrightarrow> keeps V k0 st (m1 \<bind> f)"
    and "keeps V k0 snd m2 \<Longrightarrow> (\<And>a k'. V k' = V k0 \<Longrightarrow> keeps V k0 st (g a k')) \<Longrightarrow>
      keeps V k0 st (m2 \<bind> (\<lambda>(a, k'). g a k'))"
    and "keeps V k0 (snd \<circ> snd) m3 \<Longrightarrow> (\<And>a b k'. V k' = V k0 \<Longrightarrow> keeps V k0 st (h a b k')) \<Longrightarrow>
      keeps V k0 st (m3 \<bind> (\<lambda>(a, b, k'). h a b k'))"
  by (fastforce simp: keeps_def bind_Some_iff)+

lemma keeps_branch [keeping]:
  "(P \<Longrightarrow> keeps V k0 st m) \<Longrightarrow> (\<not> P \<Longrightarrow> keeps V k0 st m') \<Longrightarrow> keeps V k0 st (if P then m else m')"
  "(x = None \<Longrightarrow> keeps V k0 st m) \<Longrightarrow> (\<And>y. x = Some y \<Longrightarrow> keeps V k0 st (g y)) \<Longrightarrow>
     keeps V k0 st (case x of None \<Rightarrow> m | Some y \<Rightarrow> g y)"
  "(\<And>a b. p = (a, b) \<Longrightarrow> keeps V k0 st (h a b)) \<Longrightarrow> keeps V k0 st (case p of (a, b) \<Rightarrow> h a b)"
  by (auto split: option.split prod.split)

lemma keeps_end [keeping]:
  "keeps V k0 st (panic msg)" "keeps V k0 st (overrun msg)" "V k = V k0 \<Longrightarrow> keeps V k0 id (Some k)"
  "V k = V k0 \<Longrightarrow> keeps V k0 snd (Some (r, k))" "V k = V k0 \<Longrightarrow> keeps V k0 (snd \<circ> snd) (Some (r, s, k))"
  by (simp_all add: keeps_def)

text \<open>A step that gives no state.\<close>

lemma keeps_value: "(\<And>x. m = Some x \<Longrightarrow> keeps V k0 st (f x)) \<Longrightarrow> keeps V k0 st (m \<bind> f)"
  by (auto simp: keeps_def bind_Some_iff)

lemma keepsD: "keeps V k st m \<Longrightarrow> m = Some x \<Longrightarrow> V (st x) = V k"
  by (simp add: keeps_def)

locale part =
  fixes V :: "kernel \<Rightarrow> 'v"
  assumes V_other: "other k' = other k \<Longrightarrow> V k' = V k"
begin

lemma V_upd [simp]:
  "V (k\<lparr>bc := b\<rparr>) = V k" "V (k\<lparr>mm := m\<rparr>) = V k" "V (on_inode i f k) = V k"
  "V (kstore h g k) = V k" "V (kdirty h k) = V k"
  by (rule V_other, simp)+

lemma keeps_calls [keeping]:
  assumes "V k = V k0"
  shows "keeps V k0 id (kbrelse h k)" "keeps V k0 snd (kbread d n k)" "keeps V k0 id (free_block d n k)"
    "keeps V k0 snd (new_block d k)" "keeps V k0 snd (bmap i bl k)" "keeps V k0 snd (create_block i bl k)"
    "keeps V k0 id (truncate i k)" "keeps V k0 id (iput io k)" "keeps V k0 snd (iget d nr k)" "keeps V k0 snd (new_inode d k)"
    "keeps V k0 snd (get_empty_inode k)" "keeps V k0 snd (find_entry i name k)" "keeps V k0 snd (add_entry i name k)"
    "keeps V k0 id (set_entry b p nr k)" "keeps V k0 snd (leave r is k)" "keeps V k0 (snd \<circ> snd) (dir_namei path k)"
    "keeps V k0 snd (namei path k)" "keeps V k0 snd (get_pipe_inode k)" "keeps V k0 id (sync_inodes k)"
  using assms by (auto simp: keeps_def dest!: frame V_other)

end

interpretation whole: part other
  by unfold_locales

lemma open_namei_other [frame]: "open_namei path flag mode k = Some (r, k') \<Longrightarrow> other k' = other k"
proof -
  have "keeps other k snd (open_namei path flag mode k)"
    unfolding open_namei_def Let_def by (intro keeping refl) simp_all
  then show "open_namei path flag mode k = Some (r, k') \<Longrightarrow> other k' = other k" by (simp add: keeps_def)
qed

end
