(* ===== verification/Encrypt.thy ===== *)
theory Encrypt
  imports Frames
begin

text \<open>
  Encrypting and decrypting files and directory trees on the disk: the rest of \<^verbatim>\<open>fs/security.c\<close>, the system
  calls \<^verbatim>\<open>encr\<close>, \<^verbatim>\<open>decr\<close> and \<^verbatim>\<open>load_table\<close> of \<^verbatim>\<open>kernel/sys.c\<close>, and \<^verbatim>\<open>sys_sync\<close> of \<^verbatim>\<open>fs/buffer.c\<close>, which
  saves the table of encrypted files in the block of inode 126.

  \<open>stack n j\<close> is what the local array of the cipher holds when block \<open>j\<close> of inode number \<open>n\<close> is ciphered: the
  table lets a call cipher no file twice.
\<close>

abbreviation ENC_TABLE_INODE :: u16 where "ENC_TABLE_INODE \<equiv> 126"

section \<open>Files\<close>

text \<open>
  One block through its buffer, which is marked dirty. The string the key is taken from is the one
  \<^verbatim>\<open>key_to_use\<close> points to at that time.
\<close>

definition crypt_block :: "bool \<Rightarrow> cbuf \<Rightarrow> nat \<Rightarrow> kernel \<Rightarrow> kernel option" where
  "crypt_block encrypting stack b k =
     do { key \<leftarrow> key_in_use k;
          d \<leftarrow> (if encrypting then encrypt_block key stack (bdata k b) (bdata k b)
                else decrypt_block key stack (bdata k b) (bdata k b));
          Some (kdirty b (kstore b (\<lambda>_. d) k)) }"

text \<open>
  \<^verbatim>\<open>while((block = bmap(inode, i++)) && (buff_head = bread(...)))\<close>: block by block up to the first hole or bad
  block. \<^verbatim>\<open>bmap\<close> panics behind the last block a file can have.
\<close>

partial_function (option) crypt_loop :: "bool \<Rightarrow> (nat \<Rightarrow> cbuf) \<Rightarrow> nat \<Rightarrow> nat \<Rightarrow> kernel \<Rightarrow> kernel option" where
  "crypt_loop encrypting stack inode i k =
     do { (block, k) \<leftarrow> bmap inode (int i) k;
          if block = 0 then Some k
          else do {
            (bh, k) \<leftarrow> kbread (i_dev (inode_at k inode)) block k;
            case bh of None \<Rightarrow> Some k
            | Some b \<Rightarrow> do {
                k \<leftarrow> crypt_block encrypting (stack i) b k;
                k \<leftarrow> kbrelse (Some b) k;
                crypt_loop encrypting stack inode (Suc i) k } } }"

definition encrypt_file :: "(u16 \<Rightarrow> nat \<Rightarrow> cbuf) \<Rightarrow> nat \<Rightarrow> e_dir \<Rightarrow> kernel \<Rightarrow> (int \<times> kernel) option" where
  "encrypt_file stack inode new_dir k =
     do { (status, t) \<leftarrow> add_func (enc_table k) (Some new_dir);
          let k = k\<lparr>enc_table := t\<rparr>;
          if status = ERR_ALR_ENC then Some (status, k)
          else do { k \<leftarrow> crypt_loop True (stack (i_num (inode_at k inode))) inode 0 k; Some (status, k) } }"

definition decrypt_file :: "(u16 \<Rightarrow> nat \<Rightarrow> cbuf) \<Rightarrow> nat \<Rightarrow> kernel \<Rightarrow> (int \<times> kernel) option" where
  "decrypt_file stack inode k =
     do { h \<leftarrow> hash_bytes k;
          (status, t) \<leftarrow> remove_func h (enc_table k) (i_num (inode_at k inode));
          let k = k\<lparr>enc_table := t\<rparr>;
          if status = - EINVAL \<or> status = ERR_RM then Some (status, k)
          else do { k \<leftarrow> crypt_loop False (stack (i_num (inode_at k inode))) inode 0 k; Some (status, k) } }"

section \<open>Directory trees\<close>

text \<open>The entry \<^verbatim>\<open>string_copy(new_dir.h_key,hash_to_use,HKEY_SIZE)\<close> makes for inode number \<open>n\<close>.\<close>

definition new_entry :: "u16 \<Rightarrow> kernel \<Rightarrow> e_dir option" where
  "new_entry n k = do { h \<leftarrow> hash_bytes k; Some \<lparr>ed_i_num = n, ed_h_key = copy_bytes HKEY_SIZE h (\<lambda>_. 0)\<rparr> }"

definition crypt_file :: "bool \<Rightarrow> (u16 \<Rightarrow> nat \<Rightarrow> cbuf) \<Rightarrow> nat \<Rightarrow> u16 \<Rightarrow> kernel \<Rightarrow> kernel option" where
  "crypt_file encrypting stack inode n k =
     do { (_, k) \<leftarrow> (if encrypting then do { d \<leftarrow> new_entry n k; encrypt_file stack inode d k }
                     else decrypt_file stack inode k);
          Some k }"

text \<open>
  The entries \<open>e\<close> of the first block of a directory, up to the first free one: subdirectories are put on the
  stack, files are ciphered, and names that start with a dot are passed over. A directory whose block is
  full is read on behind the block.
\<close>

primrec crypt_entries :: "bool \<Rightarrow> (u16 \<Rightarrow> nat \<Rightarrow> cbuf) \<Rightarrow> nat \<Rightarrow> nat \<Rightarrow> nat list \<Rightarrow> nat stack \<Rightarrow> kernel \<Rightarrow>
    (nat stack \<times> kernel) option" where
  "crypt_entries encrypting stack current_node b [] s k = overrun ''b_data''"
| "crypt_entries encrypting stack current_node b (e # es) s k =
     (let n = get16 (bdata k b) (16 * e) in
      if n = 0 then Some (s, k)
      else if bdata k b (16 * e + 2) = 46 then crypt_entries encrypting stack current_node b es s k
      else do {
        (tmp, k) \<leftarrow> iget (i_dev (inode_at k current_node)) n k;
        (s, k) \<leftarrow> (if S_ISDIR (i_mode (inode_at k tmp)) then do { s \<leftarrow> push_func s tmp; Some (s, k) }
                   else do {
                     k \<leftarrow> crypt_file encrypting stack tmp n k;
                     k \<leftarrow> iput (Some tmp) k;
                     Some (s, k) });
        crypt_entries encrypting stack current_node b es s k })"

definition read_first :: "nat \<Rightarrow> kernel \<Rightarrow> (nat \<times> kernel) option" where
  "read_first inode k =
     do { (bh, k) \<leftarrow> kbread (i_dev (inode_at k inode)) (unat (i_zone (inode_at k inode) 0)) k;
          case bh of None \<Rightarrow> overrun ''NULL buff_head'' | Some b \<Rightarrow> Some (b, k) }"

text \<open>A directory is encrypted after its entries have been read, and decrypted before.\<close>

partial_function (option) encrypt_dirs :: "(u16 \<Rightarrow> nat \<Rightarrow> cbuf) \<Rightarrow> nat \<Rightarrow> nat stack \<Rightarrow> kernel \<Rightarrow> kernel option" where
  "encrypt_dirs stack inode s k =
     (if is_empty_func s then Some k
      else do {
        (current_node, s) \<leftarrow> pop_func s;
        (b, k) \<leftarrow> read_first current_node k;
        (s, k) \<leftarrow> crypt_entries True stack current_node b [2..<64] s k;
        k \<leftarrow> crypt_file True stack current_node (i_num (inode_at k current_node)) k;
        k \<leftarrow> kbrelse (Some b) k;
        k \<leftarrow> (if current_node \<noteq> inode then iput (Some current_node) k else Some k);
        encrypt_dirs stack inode s k })"

partial_function (option) decrypt_dirs :: "(u16 \<Rightarrow> nat \<Rightarrow> cbuf) \<Rightarrow> nat \<Rightarrow> nat stack \<Rightarrow> kernel \<Rightarrow> kernel option" where
  "decrypt_dirs stack inode s k =
     (if is_empty_func s then Some k
      else do {
        (current_node, s) \<leftarrow> pop_func s;
        k \<leftarrow> crypt_file False stack current_node (i_num (inode_at k current_node)) k;
        (b, k) \<leftarrow> read_first current_node k;
        (s, k) \<leftarrow> crypt_entries False stack current_node b [2..<64] s k;
        k \<leftarrow> kbrelse (Some b) k;
        k \<leftarrow> (if current_node \<noteq> inode then iput (Some current_node) k else Some k);
        decrypt_dirs stack inode s k })"

text \<open>The stack of \<^verbatim>\<open>encrypt_directory\<close> with the directory itself on it.\<close>

definition one_on_stack :: "nat \<Rightarrow> nat stack option" where
  "one_on_stack inode = push_func \<lparr>st_values = (\<lambda>_. 0), st_sp = 0\<rparr> inode"

definition encrypt_directory :: "(u16 \<Rightarrow> nat \<Rightarrow> cbuf) \<Rightarrow> nat \<Rightarrow> kernel \<Rightarrow> (int \<times> kernel) option" where
  "encrypt_directory stack inode k =
     do { r \<leftarrow> search_func (enc_table k) (i_num (inode_at k inode));
          if r \<noteq> ERR_NOT_FND then Some (- EINVAL, k)
          else do {
            s \<leftarrow> one_on_stack inode;
            k \<leftarrow> encrypt_dirs stack inode s k;
            Some (1, k) } }"

definition decrypt_directory :: "(u16 \<Rightarrow> nat \<Rightarrow> cbuf) \<Rightarrow> nat \<Rightarrow> kernel \<Rightarrow> (int \<times> kernel) option" where
  "decrypt_directory stack inode k =
     do { r \<leftarrow> search_func (enc_table k) (i_num (inode_at k inode));
          if r = ERR_NOT_FND then Some (- EINVAL, k)
          else do {
            h \<leftarrow> hash_bytes k;
            if compare_hash h (ed_h_key (enc_table k (nat r))) = - EINVAL then Some (- EINVAL, k)
            else do {
              s \<leftarrow> one_on_stack inode;
              k \<leftarrow> decrypt_dirs stack inode s k;
              Some (1, k) } } }"

section \<open>System calls\<close>

text \<open>
  \<^verbatim>\<open>sys_encr\<close> and \<^verbatim>\<open>sys_decr\<close>: the file is looked up from the root of the disk, the process is left without a
  root and a working directory. \<open>status\<close> is only assigned when there was an error; \<open>junk\<close> is what it holds
  before.
\<close>

definition crypt_node :: "bool \<Rightarrow> int \<Rightarrow> (u16 \<Rightarrow> nat \<Rightarrow> cbuf) \<Rightarrow> nat option \<Rightarrow> kernel \<Rightarrow> (int \<times> kernel) option" where
  "crypt_node encrypting junk stack dir_node k =
     (case dir_node of None \<Rightarrow> Some (- 1, k)
      | Some i \<Rightarrow> do {
          key \<leftarrow> key_in_use k;
          if key = [] then Some (- 1, k)
          else if S_ISDIR (i_mode (inode_at k i)) then do {
            (_, k) \<leftarrow> (if encrypting then encrypt_directory stack i k else decrypt_directory stack i k);
            Some (junk, k) }
          else do { k \<leftarrow> crypt_file encrypting stack i (i_num (inode_at k i)) k; Some (junk, k) } })"

definition crypt_call :: "bool \<Rightarrow> int \<Rightarrow> (u16 \<Rightarrow> nat \<Rightarrow> cbuf) \<Rightarrow> byte list \<Rightarrow> kernel \<Rightarrow> (int \<times> kernel) option" where
  "crypt_call encrypting junk stack file_path k =
     do { (root_node, k) \<leftarrow> iget 0x301 1 k;
          let k = on_cur (\<lambda>t. t\<lparr>t_root := Some root_node\<rparr>) k;
          (dir_node, k) \<leftarrow> namei file_path k;
          (status, k) \<leftarrow> crypt_node encrypting junk stack dir_node (select_key k);
          k \<leftarrow> iput dir_node k;
          k \<leftarrow> iput (Some root_node) k;
          Some (status, on_cur (\<lambda>t. t\<lparr>t_pwd := None, t_root := None\<rparr>) k) }"

definition sys_encr :: "int \<Rightarrow> (u16 \<Rightarrow> nat \<Rightarrow> cbuf) \<Rightarrow> byte list \<Rightarrow> kernel \<Rightarrow> (int \<times> kernel) option" where
  "sys_encr junk stack file_path k = crypt_call True junk stack file_path k"

definition sys_decr :: "int \<Rightarrow> (u16 \<Rightarrow> nat \<Rightarrow> cbuf) \<Rightarrow> byte list \<Rightarrow> kernel \<Rightarrow> (int \<times> kernel) option" where
  "sys_decr junk stack file_path k = crypt_call False junk stack file_path k"

section \<open>The table on the disk\<close>

text \<open>\<^verbatim>\<open>struct e_dir\<close> takes 16 bytes: the inode number and the hash.\<close>

definition put_edir :: "nat \<Rightarrow> e_dir \<Rightarrow> cbuf \<Rightarrow> cbuf" where
  "put_edir p v d = (\<lambda>x. if p + 2 \<le> x \<and> x < p + 16 then ed_h_key v (x - (p + 2)) else put16 p (ed_i_num v) d x)"

definition get_edir :: "cbuf \<Rightarrow> nat \<Rightarrow> e_dir" where
  "get_edir d p = \<lparr>ed_i_num = get16 d p, ed_h_key = (\<lambda>x. if x < HKEY_SIZE then d (p + 2 + x) else 0)\<rparr>"

definition store_table :: "hash_table \<Rightarrow> cbuf \<Rightarrow> cbuf" where
  "store_table t d = fold (\<lambda>i d. put_edir (16 * i) (t i) d) [0..<TABLE_SIZE] d"

definition fetch_table :: "cbuf \<Rightarrow> hash_table \<Rightarrow> hash_table" where
  "fetch_table d t = fold (\<lambda>i t. t(i := get_edir d (16 * i))) [0..<TABLE_SIZE] t"

definition load_hash_table :: "kernel \<Rightarrow> kernel option" where
  "load_hash_table k =
     do { (enc_inode, k) \<leftarrow> iget 0x301 ENC_TABLE_INODE k;
          (b, k) \<leftarrow> read_first enc_inode k;
          let k = k\<lparr>enc_table := fetch_table (bdata k b) (enc_table k)\<rparr>;
          k \<leftarrow> kbrelse (Some b) k;
          iput (Some enc_inode) k }"

definition sys_load_table :: "kernel \<Rightarrow> (int \<times> kernel) option" where
  "sys_load_table k = do { k \<leftarrow> load_hash_table k; Some (0, k) }"

definition sys_sync :: "kernel \<Rightarrow> (int \<times> kernel) option" where
  "sys_sync k =
     do { (enc_inode, k) \<leftarrow> iget 0x301 ENC_TABLE_INODE k;
          (b, k) \<leftarrow> read_first enc_inode k;
          let k = kdirty b (kstore b (store_table (enc_table k)) k);
          k \<leftarrow> kbrelse (Some b) k;
          k \<leftarrow> iput (Some enc_inode) k;
          k \<leftarrow> sync_inodes k;
          bc \<leftarrow> sync_all (bc k);
          Some (0, k\<lparr>bc := bc\<rparr>) }"

section \<open>Lemmas\<close>

lemma key_in_use_frame:
  "key_in_use (k\<lparr>bc := b\<rparr>) = key_in_use k" "key_in_use (k\<lparr>enc_table := t\<rparr>) = key_in_use k"
  "hash_bytes (k\<lparr>bc := b\<rparr>) = hash_bytes k" "hash_bytes (k\<lparr>enc_table := t\<rparr>) = hash_bytes k"
  by (simp_all add: key_in_use_def key_bytes_def hash_bytes_def cong: key_ptr.case_cong)

lemma permuted_cong:
  assumes "perm_list n \<sigma>" and n: "good_length n" and p: "p < 1024" and "\<And>p. p < 1024 \<Longrightarrow> b p = b' p"
  shows "permuted \<sigma> x b p = permuted \<sigma> x b' p"
proof -
  have "p div n * n + \<sigma> ! (p mod n) < 1024"
    using row_col [OF n p] perm_listD(4) [OF assms(1), of "p mod n"] good_lengthD(3) [OF n] last_row [OF n] by linarith
  then show ?thesis using assms(4) perm_listD(1) [OF assms(1)] by (simp add: permuted_def Let_def)
qed

text \<open>Byte \<open>p\<close> of block \<open>q\<close> of a file.\<close>

definition block_bytes :: "u16 \<Rightarrow> kernel \<Rightarrow> nat \<Rightarrow> nat \<Rightarrow> cbuf" where
  "block_bytes D k i q p = file_byte D k i (1024 * q + p)"

lemma block_bytes_view:
  "p < 1024 \<Longrightarrow> block_bytes D k i q p = (if file_zone D k i q = 0 then 0 else view (bc k) D (file_zone D k i q) p)"
  by (simp add: block_bytes_def file_byte_def)

text \<open>The routine for a direction, and the state of a file all of whose \<open>n\<close> blocks can be ciphered.\<close>

definition cipher_of :: "bool \<Rightarrow> byte list \<Rightarrow> cbuf \<Rightarrow> cbuf \<Rightarrow> cbuf \<Rightarrow> cbuf option" where
  "cipher_of encrypting = (if encrypting then encrypt_block else decrypt_block)"

definition crypt_ok :: "u16 \<Rightarrow> kernel \<Rightarrow> nat \<Rightarrow> nat \<Rightarrow> bool" where
  "crypt_ok D k i n \<longleftrightarrow> writable D k i (1024 * n) \<and> n < 7 + 512 + 512 * 512 \<and> file_zone D k i n = 0"

lemma crypt_settled:
  assumes ok: "crypt_ok D k i n" and s: "settled D (bc k) b"
  shows "crypt_ok D (k\<lparr>bc := b\<rparr>) i n"
    and "r < n \<Longrightarrow> p < 1024 \<Longrightarrow> block_bytes D (k\<lparr>bc := b\<rparr>) i r p = block_bytes D k i r p"
proof -
  have w: "writable D k i (1024 * n)" and n: "n < 7 + 512 + 512 * 512" "file_zone D k i n = 0"
    using ok by (simp_all add: crypt_ok_def)
  have r: "calm (bc k)" "map_ok D k i" using w by (simp_all add: writable_def readable_def)
  have v: "view (bc (k\<lparr>bc := b\<rparr>)) D z p = view (bc k) D z p" if "z \<in> map_blocks D k i" "p < 1024" for z p
    using settled_view [OF s] r(2) that by (simp add: map_ok_blocks)
  have mb: "map_blocks D (k\<lparr>bc := b\<rparr>) i = map_blocks D k i"
    by (rule file_zone_cong(1) [OF v]) (simp_all add: inode_at_def)
  have fz: "file_zone D (k\<lparr>bc := b\<rparr>) i q = file_zone D k i q" if "q < 7 + 512 + 512 * 512" for q
    by (rule map_ok_settled(2) [OF s r(2) that])
  have lim: "q < 7 + 512 + 512 * 512" if "1024 * q < 1024 * n" for q using that n(1) by simp
  have "readable D (k\<lparr>bc := b\<rparr>) i (1024 * n)"
    using w s settled_calm [OF s r(1)] map_ok_settled(1) [OF s r(2)] settled_valid [OF s] fz lim
    unfolding writable_def readable_def by (auto simp: settled_def)
  then show "crypt_ok D (k\<lparr>bc := b\<rparr>) i n"
    using w n fz lim mb unfolding crypt_ok_def writable_def by auto
  show "r < n \<Longrightarrow> p < 1024 \<Longrightarrow> block_bytes D (k\<lparr>bc := b\<rparr>) i r p = block_bytes D k i r p"
    using w settled_view [OF s] fz n(1) by (auto simp: block_bytes_view writable_def readable_def)
qed

lemma crypt_round:
  assumes ok: "crypt_ok D k i n" and q: "q < n" and key: "key_in_use k = Some key"
    and c: "lays (cipher_of encrypting key) \<sigma>" "perm_list (length key) \<sigma>" "good_length (length key)"
  shows "\<exists>b. crypt_loop encrypting stack i q k = crypt_loop encrypting stack i (Suc q) (k\<lparr>bc := b\<rparr>) \<and>
    crypt_ok D (k\<lparr>bc := b\<rparr>) i n \<and>
    (\<forall>r<n. \<forall>p<1024. block_bytes D (k\<lparr>bc := b\<rparr>) i r p =
       (if r = q then permuted \<sigma> (stack q 1023) (block_bytes D k i q) p else block_bytes D k i r p))"
proof -
  let ?m = "1024 * n"
  have w: "writable D k i ?m" and n: "n < 7 + 512 + 512 * 512" "file_zone D k i n = 0"
    using ok by (simp_all add: crypt_ok_def)
  have r: "bc_ok D (bc k)" "calm (bc k)" "map_ok D k i" "i_dev (inode_at k i) = D"
    using w by (simp_all add: writable_def readable_def map_ok_def)
  define z where "z = file_zone D k i q"
  have qm: "1024 * q < ?m" using q by simp
  then have z: "z \<noteq> 0" "valid (bc k) D z"
    using w unfolding z_def writable_def readable_def by blast+
  obtain b1 where b1: "bmap i (int q) k = Some (z, k\<lparr>bc := b1\<rparr>)" "settled D (bc k) b1"
    using bmap_settled [OF r(2,3) settled_refl [OF r(1)], of q] q n(1) unfolding z_def by auto
  obtain h b2 where b2: "kbread D z (k\<lparr>bc := b1\<rparr>) = Some (Some h, k\<lparr>bc := b2\<rparr>)" "showing D z h (bc k) b2"
    using kbread_settled [OF r(2) b1(2) z(2)] by auto
  let ?d = "b_data (buf b2 h)"
  obtain d where d: "cipher_of encrypting key (stack q) ?d ?d = Some d"
    "\<forall>p<1024. d p = permuted \<sigma> (stack q 1023) ?d p"
    using c(1) unfolding lays_def by blast
  let ?k2 = "kdirty h (kstore h (\<lambda>_. d) (k\<lparr>bc := b2\<rparr>))"
  have cb: "crypt_block encrypting (stack q) h (k\<lparr>bc := b2\<rparr>) = Some ?k2"
    using d(1) key by (simp add: crypt_block_def key_in_use_frame bdata_def cipher_of_def split: if_splits)
  have k2: "bc ?k2 = mark_dirty h (store h (\<lambda>_. d) b2)" "?k2 = k\<lparr>bc := bc ?k2\<rparr>"
    by (simp_all add: kdirty_def kstore_def)
  obtain b3 where b3: "kbrelse (Some h) ?k2 = Some (?k2\<lparr>bc := b3\<rparr>)" "rewritten D z (\<lambda>_. d) (bc k) b3"
    using rewrite_release [OF b2(2) z(2) _ k2(1)] by (auto simp: bytewise_def)
  let ?k3 = "k\<lparr>bc := b3\<rparr>"
  have k3: "?k2\<lparr>bc := b3\<rparr> = ?k3" by (subst k2(2)) simp
  have step: "crypt_loop encrypting stack i q k = crypt_loop encrypting stack i (Suc q) ?k3"
    using b1(1) b2(1) cb b3(1) z(1) k3 r(4)
    by (subst crypt_loop.simps) (simp add: k_simps inode_at_def)
  have rw: "rewritten D (file_zone D k i q) (\<lambda>_. d) (bc k) (bc ?k3)" using b3(2) by (simp add: z_def)
  have wo: "written_only i k ?k3" by (simp add: written_only_def inode_at_def)
  note B = block_rewritten [OF w rw qm wo]
  have "block_bytes D ?k3 i r p =
      (if r = q then permuted \<sigma> (stack q 1023) (block_bytes D k i q) p else block_bytes D k i r p)"
    if "r < n" "p < 1024" for r p
  proof -
    have "1024 * r + p < ?m" using that by linarith
    from B(2) [OF this] have "block_bytes D ?k3 i r p = (if r = q then d p else block_bytes D k i r p)"
      using that(2) by (simp add: block_bytes_def)
    moreover have "d p = permuted \<sigma> (stack q 1023) (block_bytes D k i q) p"
    proof -
      have "?d p = block_bytes D k i q p" if "p < 1024" for p
        using showing_data [OF b2(2) that] z(1) that by (simp add: block_bytes_view z_def)
      then show ?thesis using d(2) that(2) permuted_cong [OF c(2,3) that(2)] by metis
    qed
    ultimately show ?thesis by simp
  qed
  moreover have "crypt_ok D ?k3 i n" using B(1) B(3) [OF n(1)] n by (simp add: crypt_ok_def)
  ultimately show ?thesis using step by blast
qed

lemma crypt_loop_crypts:
  assumes "crypt_ok D k i n" and "key_in_use k = Some key"
    and c: "lays (cipher_of encrypting key) \<sigma>" "perm_list (length key) \<sigma>" "good_length (length key)"
  shows "q \<le> n \<Longrightarrow> \<exists>b. crypt_loop encrypting stack i q k = Some (k\<lparr>bc := b\<rparr>) \<and> crypt_ok D (k\<lparr>bc := b\<rparr>) i n \<and>
    (\<forall>r<n. \<forall>p<1024. block_bytes D (k\<lparr>bc := b\<rparr>) i r p =
       (if q \<le> r then permuted \<sigma> (stack r 1023) (block_bytes D k i r) p else block_bytes D k i r p))"
  using assms(1,2)
proof (induction "n - q" arbitrary: q k)
  case 0
  then have q: "q = n" by simp
  have w: "bc_ok D (bc k)" "calm (bc k)" "map_ok D k i" "n < 7 + 512 + 512 * 512" "file_zone D k i n = 0"
    using "0.prems"(2) by (simp_all add: crypt_ok_def writable_def readable_def)
  obtain b where b: "bmap i (int n) k = Some (0, k\<lparr>bc := b\<rparr>)" "settled D (bc k) b"
    using bmap_settled [OF w(2,3) settled_refl [OF w(1)] w(4)] w(5) by auto
  have "crypt_loop encrypting stack i q k = Some (k\<lparr>bc := b\<rparr>)"
    using b(1) q by (subst crypt_loop.simps) simp
  then show ?case using crypt_settled [OF "0.prems"(2) b(2)] q by (intro exI [of _ b]) auto
next
  case (Suc x)
  then have q: "q < n" by simp
  from crypt_round [OF Suc.prems(2) q Suc.prems(3) c] obtain b1 where
    b1: "crypt_loop encrypting stack i q k = crypt_loop encrypting stack i (Suc q) (k\<lparr>bc := b1\<rparr>)"
    "crypt_ok D (k\<lparr>bc := b1\<rparr>) i n"
    "\<And>r p. r < n \<Longrightarrow> p < 1024 \<Longrightarrow> block_bytes D (k\<lparr>bc := b1\<rparr>) i r p =
       (if r = q then permuted \<sigma> (stack q 1023) (block_bytes D k i q) p else block_bytes D k i r p)" by blast
  have "x = n - Suc q" using Suc.hyps(2) by simp
  moreover have "Suc q \<le> n" using q by simp
  moreover have "key_in_use (k\<lparr>bc := b1\<rparr>) = Some key" using Suc.prems(3) by (simp add: key_in_use_frame)
  ultimately obtain b2 where b2: "crypt_loop encrypting stack i (Suc q) (k\<lparr>bc := b1\<rparr>) = Some (k\<lparr>bc := b1\<rparr>\<lparr>bc := b2\<rparr>)"
    "crypt_ok D (k\<lparr>bc := b1\<rparr>\<lparr>bc := b2\<rparr>) i n"
    "\<And>r p. r < n \<Longrightarrow> p < 1024 \<Longrightarrow> block_bytes D (k\<lparr>bc := b1\<rparr>\<lparr>bc := b2\<rparr>) i r p = (if Suc q \<le> r
       then permuted \<sigma> (stack r 1023) (block_bytes D (k\<lparr>bc := b1\<rparr>) i r) p else block_bytes D (k\<lparr>bc := b1\<rparr>) i r p)"
    using Suc.hyps(1) [OF _ _ b1(2)] by blast
  have "block_bytes D (k\<lparr>bc := b2\<rparr>) i r p = (if q \<le> r then permuted \<sigma> (stack r 1023) (block_bytes D k i r) p
      else block_bytes D k i r p)" if "r < n" "p < 1024" for r p
  proof -
    have "permuted \<sigma> (stack r 1023) (block_bytes D (k\<lparr>bc := b1\<rparr>) i r) p = permuted \<sigma> (stack r 1023) (block_bytes D k i r) p"
      if "Suc q \<le> r" by (rule permuted_cong [OF c(2,3) \<open>p < 1024\<close>]) (use b1(3) \<open>r < n\<close> that in simp)
    then show ?thesis using b2(3) [OF that] b1(3) [OF that] by (auto simp: not_less_eq_eq)
  qed
  then show ?case using b1(1) b2(1,2) by auto
qed

lemma crypt_ok_table:
  "crypt_ok D (k\<lparr>enc_table := t\<rparr>) i n = crypt_ok D k i n"
  "block_bytes D (k\<lparr>enc_table := t\<rparr>) i r p = block_bytes D k i r p"
  using map_frame [of "k\<lparr>enc_table := t\<rparr>" k i]
  by (simp_all add: crypt_ok_def writable_def readable_def block_bytes_def file_byte_def Let_def inode_at_def)

lemma enc_table_bc: "k\<lparr>enc_table := t\<rparr>\<lparr>bc := b\<rparr>\<lparr>enc_table := t'\<rparr> = k\<lparr>bc := b, enc_table := t'\<rparr>"
  by (cases k) simp

text \<open>The new entry carries the hash of the key, so the same key opens it again.\<close>

lemma new_entry_hash:
  assumes "new_entry n k = Some d" and "hash_bytes k = Some h"
  shows "ed_i_num d = n" "compare_hash h (ed_h_key d) = 1"
  using assms by (auto simp: new_entry_def compare_hash_def copy_bytes_def list_all_iff)

text \<open>A new file in the table: the slot it gets, and what a removal with the right hash leaves.\<close>

lemma enter_and_remove:
  assumes tab: "tab_ok t" "free_slots t \<noteq> {}" and new: "ed_i_num d \<noteq> 0" "\<And>s. \<not> stored t (ed_i_num d) s"
    and h: "compare_hash h (ed_h_key d) = 1"
  obtains s t' where "add_func t (Some d) = Some (int s, t(s := d))" "stored (t(s := d)) (ed_i_num d) s"
    "tab_ok (t(s := d))" "remove_func h (t(s := d)) (ed_i_num d) = Some (SUCC_RM, t')"
    "EncTable.entries t' = EncTable.entries t"
proof -
  let ?n = "ed_i_num d"
  obtain f where "f \<in> free_slots t" using tab(2) by blast
  from add_func_absent [OF new this] obtain s where
    s: "add_func t (Some d) = Some (int s, t(s := d))" "s \<in> free_slots t" "\<And>e. e < disp ?n s \<Longrightarrow> \<not> stop_at t ?n e"
    by blast
  let ?t = "t(s := d)"
  have ok: "tab_ok ?t" by (rule tab_ok_add [OF tab(1) refl new(1) s(2,3)])
  have st: "stored ?t ?n s" using s(2) new(1) by (simp add: stored_def free_slots_def)
  have "compare_hash h (ed_h_key (?t s)) = 1" using h by simp
  from remove_func_stored [OF ok st this] obtain t' where
    t': "remove_func h ?t ?n = Some (SUCC_RM, t')" "EncTable.entries t' = EncTable.entries ?t - {(?n, ed_h_key d)}"
    unfolding fun_upd_same by blast
  have free: "\<not> stored t m s" for m using s(2) by (auto simp: stored_def free_slots_def)
  have "stored ?t m j \<longleftrightarrow> (if j = s then m = ?n else stored t m j)" for m j
    using s(2) new(1) by (auto simp: stored_def free_slots_def)
  then have "(m, g) \<in> EncTable.entries ?t \<longleftrightarrow> m = ?n \<and> g = ed_h_key d \<or> (m, g) \<in> EncTable.entries t" for m g
    unfolding entries_stored using free by (metis fun_upd_other fun_upd_same)
  moreover have "(?n, g) \<notin> EncTable.entries t" for g using new(2) by (simp add: entries_stored)
  ultimately have "(m, g) \<in> EncTable.entries t' \<longleftrightarrow> (m, g) \<in> EncTable.entries t" for m g using t'(2) by auto
  then have "EncTable.entries t' = EncTable.entries t" by auto
  then show ?thesis using that s(1) st ok t'(1) by blast
qed

text \<open>
  C24: A file encrypted and decrypted again is the file it was: for a file the table has room for, under a key of
  2, 4, 8 or 16 distinct letters, \<^verbatim>\<open>encrypt_file\<close> registers it and \<^verbatim>\<open>decrypt_file\<close> finds it, accepts the key,
  gives the table the entries it had and every byte of every block its value, except byte 1023 and one other
  byte of each block, which are lost.
\<close>

theorem encrypt_then_decrypt:
  assumes ok: "crypt_ok D k i n" and tab: "tab_ok (enc_table k)" "free_slots (enc_table k) \<noteq> {}"
    and num: "i_num (inode_at k i) \<noteq> 0" "\<And>s. \<not> stored (enc_table k) (i_num (inode_at k i)) s"
    and key: "key_in_use k = Some key" "good_length (length key)" "distinct key"
    and d: "new_entry (i_num (inode_at k i)) k = Some d"
  shows "\<exists>q s k1 k2. BLOCK_SIZE - length key \<le> q \<and> q < BLOCK_SIZE \<and>
    encrypt_file stack i d k = Some (int s, k1) \<and> stored (enc_table k1) (i_num (inode_at k i)) s \<and>
    decrypt_file stack' i k1 = Some (SUCC_RM, k2) \<and> EncTable.entries (enc_table k2) = EncTable.entries (enc_table k) \<and>
    k2 = k\<lparr>bc := bc k2, enc_table := enc_table k2\<rparr> \<and>
    (\<forall>r<n. \<forall>p<BLOCK_SIZE. p \<noteq> 1023 \<longrightarrow> p \<noteq> q \<longrightarrow> block_bytes D k2 i r p = block_bytes D k i r p)"
proof -
  let ?n = "i_num (inode_at k i)"
  obtain h where h: "hash_bytes k = Some h" using d by (auto simp: new_entry_def bind_Some_iff)
  note E = new_entry_hash [OF d h]
  obtain s t2 where t: "add_func (enc_table k) (Some d) = Some (int s, (enc_table k)(s := d))"
    "stored ((enc_table k)(s := d)) ?n s" "remove_func h ((enc_table k)(s := d)) ?n = Some (SUCC_RM, t2)"
    "EncTable.entries t2 = EncTable.entries (enc_table k)"
    using enter_and_remove [OF tab, of d h] num E by metis
  let ?t = "(enc_table k)(s := d)"
  obtain \<sigma> \<tau> q where perm: "perm_list (length key) \<sigma>" "perm_list (length key) \<tau>"
    and q: "1024 - length key \<le> q" "q < 1024"
    and lay: "lays (encrypt_block key) \<sigma>" "lays (decrypt_block key) \<tau>" and un: "undoes \<tau> \<sigma> q"
    by (rule cipher_perms [OF key(2,3)])
  let ?k = "k\<lparr>enc_table := ?t\<rparr>"
  have "crypt_ok D ?k i n" "key_in_use ?k = Some key" "lays (cipher_of True key) \<sigma>"
    using ok key(1) lay(1) by (simp_all add: crypt_ok_table key_in_use_frame cipher_of_def)
  from crypt_loop_crypts [OF this perm(1) key(2), of 0 "stack ?n"] obtain b1 where
    b1: "crypt_loop True (stack ?n) i 0 ?k = Some (?k\<lparr>bc := b1\<rparr>)" "crypt_ok D (?k\<lparr>bc := b1\<rparr>) i n"
    "\<And>r p. r < n \<Longrightarrow> p < 1024 \<Longrightarrow> block_bytes D (?k\<lparr>bc := b1\<rparr>) i r p = permuted \<sigma> (stack ?n r 1023) (block_bytes D ?k i r) p"
    by auto
  let ?k1 = "?k\<lparr>bc := b1\<rparr>" and ?k2 = "k\<lparr>bc := b1, enc_table := t2\<rparr>"
  have k2: "?k1\<lparr>enc_table := t2\<rparr> = ?k2" by (rule enc_table_bc)
  have "crypt_ok D ?k2 i n" "key_in_use ?k2 = Some key" "lays (cipher_of False key) \<tau>"
    using b1(2) key(1) lay(2) crypt_ok_table(1) [where k = ?k1 and t = t2] unfolding k2
    by (simp_all add: key_in_use_frame cipher_of_def)
  from crypt_loop_crypts [OF this perm(2) key(2), of 0 "stack' ?n"] obtain b2 where
    b2: "crypt_loop False (stack' ?n) i 0 ?k2 = Some (?k2\<lparr>bc := b2\<rparr>)"
    "\<And>r p. r < n \<Longrightarrow> p < 1024 \<Longrightarrow> block_bytes D (?k2\<lparr>bc := b2\<rparr>) i r p = permuted \<tau> (stack' ?n r 1023) (block_bytes D ?k2 i r) p"
    by auto
  have "encrypt_file stack i d k = Some (int s, ?k1)"
    using t(1) b1(1) by (simp add: encrypt_file_def inode_at_def)
  moreover have "decrypt_file stack' i ?k1 = Some (SUCC_RM, ?k2\<lparr>bc := b2\<rparr>)"
    using t(3) h b2(1) by (simp add: decrypt_file_def key_in_use_frame inode_at_def)
  moreover have "block_bytes D (?k2\<lparr>bc := b2\<rparr>) i r p = block_bytes D k i r p"
    if r: "r < n" and p: "p < 1024" "p \<noteq> 1023" "p \<noteq> q" for r p
  proof -
    have "block_bytes D ?k2 i r p = permuted \<sigma> (stack ?n r 1023) (block_bytes D k i r) p" if "p < 1024" for p
      using b1(3) [OF r that] crypt_ok_table(2) [where k = ?k1 and t = t2] permuted_cong [OF perm(1) key(2) that, of "block_bytes D ?k i r"]
      unfolding k2 by (simp add: crypt_ok_table)
    then show ?thesis
      using un [unfolded undoes_def, rule_format, OF p(1)] b2(2) [OF r p(1)] p(2,3) by simp
  qed
  moreover have "?k2\<lparr>bc := b2\<rparr> = k\<lparr>bc := bc (?k2\<lparr>bc := b2\<rparr>), enc_table := enc_table (?k2\<lparr>bc := b2\<rparr>)\<rparr>"
    by (cases k) simp
  ultimately show ?thesis using q t(2,4)
    by - (rule exI [of _ q], rule exI [of _ s], rule exI [of _ ?k1], rule exI [of _ "?k2\<lparr>bc := b2\<rparr>"], simp)
qed

section \<open>A process without a root\<close>

text \<open>Which processes there are and which is the current one: no step of \<^verbatim>\<open>sys_encr\<close> changes that.\<close>

definition alive :: "kernel \<Rightarrow> nat \<times> nat set" where
  "alive k = (current k, {i. task k i \<noteq> None})"

lemma alive_other:
  assumes "other k' = other k"
  shows "alive k' = alive k"
proof -
  have "{i. task k' i \<noteq> None} = {i. task k i \<noteq> None}" by (rule Collect_cong) (simp only: other_alive [OF assms])
  then show ?thesis by (simp only: alive_def other_sel(2) [OF assms])
qed

interpretation alive: part alive
  by unfold_locales (rule alive_other)

lemma alive_upd [simp]:
  "alive (k\<lparr>enc_table := t\<rparr>) = alive k" "alive (select_key k) = alive k" "alive (on_cur f k) = alive k"
  by (auto simp: alive_def select_key_def on_cur_def on_task_def Let_def)

lemma running_alive: "alive k' = alive k \<Longrightarrow> running k' = running k"
  by (auto simp: alive_def running_def set_eq_iff)

lemma crypt_block_alive [keeping]: "alive k = alive k0 \<Longrightarrow> keeps alive k0 id (crypt_block e st b k)"
  unfolding crypt_block_def by (intro keeps_value keeping) simp

lemma crypt_loop_alive: "crypt_loop e st i q k = Some k' \<Longrightarrow> alive k' = alive k"
proof (rule crypt_loop.raw_induct [where P = "\<lambda>e st i q k k'. alive k' = alive k"], rotate_tac)
  fix f :: "bool \<Rightarrow> (nat \<Rightarrow> cbuf) \<Rightarrow> nat \<Rightarrow> nat \<Rightarrow> kernel \<Rightarrow> kernel option" and e st i q k k'
  assume "\<And>e st i q k k'. f e st i q k = Some k' \<Longrightarrow> alive k' = alive k"
  then have IH: "keeps alive k0 id (f e st i q k)" if "alive k = alive k0" for e st i q k k0
    using that by (auto simp: keeps_def)
  assume body: "bmap i (int q) k \<bind> (\<lambda>(block, k). if block = 0 then Some k
      else kbread (i_dev (inode_at k i)) block k \<bind> (\<lambda>(bh, k). case bh of None \<Rightarrow> Some k
        | Some b \<Rightarrow> crypt_block e (st q) b k \<bind> (\<lambda>k. kbrelse (Some b) k \<bind> (\<lambda>k. f e st i (Suc q) k)))) = Some k'"
  show "alive k' = alive k"
    by (rule keepsD [OF _ body, where V = alive and st = id, simplified]) (intro keeping IH refl)
qed

lemma crypt_loop_keeps [keeping]: "alive k = alive k0 \<Longrightarrow> keeps alive k0 id (crypt_loop e st i q k)"
  using crypt_loop_alive by (simp add: keeps_def)

lemma crypt_file_alive [keeping]: "alive k = alive k0 \<Longrightarrow> keeps alive k0 id (crypt_file e st i n k)"
  unfolding crypt_file_def encrypt_file_def decrypt_file_def new_entry_def Let_def
  by (intro keeping keeps_value; simp)

lemma crypt_entries_alive [keeping]: "alive k = alive k0 \<Longrightarrow> keeps alive k0 snd (crypt_entries e st i b es s k)"
proof (induction es arbitrary: s k)
  case (Cons x es)
  show ?case unfolding crypt_entries.simps Let_def
    by (intro keeping keeps_value Cons.IH) (use Cons.prems in auto)
qed (simp add: keeps_def)

lemma read_first_alive [keeping]: "alive k = alive k0 \<Longrightarrow> keeps alive k0 snd (read_first i k)"
  unfolding read_first_def by (intro keeping)

lemma encrypt_dirs_alive: "encrypt_dirs st i s k = Some k' \<Longrightarrow> alive k' = alive k"
proof (rule encrypt_dirs.raw_induct [where P = "\<lambda>st i s k k'. alive k' = alive k"], rotate_tac)
  fix f :: "(u16 \<Rightarrow> nat \<Rightarrow> cbuf) \<Rightarrow> nat \<Rightarrow> nat stack \<Rightarrow> kernel \<Rightarrow> kernel option" and st i s k k'
  assume "\<And>st i s k k'. f st i s k = Some k' \<Longrightarrow> alive k' = alive k"
  then have IH: "keeps alive k0 id (f st i s k)" if "alive k = alive k0" for st i s k k0
    using that by (auto simp: keeps_def)
  assume body: "(if is_empty_func s then Some k else pop_func s \<bind> (\<lambda>(n, s). read_first n k \<bind> (\<lambda>(b, k).
      crypt_entries True st n b [2..<64] s k \<bind> (\<lambda>(s, k). crypt_file True st n (i_num (inode_at k n)) k \<bind> (\<lambda>k.
      kbrelse (Some b) k \<bind> (\<lambda>k. (if n \<noteq> i then iput (Some n) k else Some k) \<bind> (\<lambda>k. f st i s k))))))) = Some k'"
  show "alive k' = alive k"
    by (rule keepsD [OF _ body, where V = alive and st = id, simplified]) (intro keeping keeps_value IH refl)
qed

lemma decrypt_dirs_alive: "decrypt_dirs st i s k = Some k' \<Longrightarrow> alive k' = alive k"
proof (rule decrypt_dirs.raw_induct [where P = "\<lambda>st i s k k'. alive k' = alive k"], rotate_tac)
  fix f :: "(u16 \<Rightarrow> nat \<Rightarrow> cbuf) \<Rightarrow> nat \<Rightarrow> nat stack \<Rightarrow> kernel \<Rightarrow> kernel option" and st i s k k'
  assume "\<And>st i s k k'. f st i s k = Some k' \<Longrightarrow> alive k' = alive k"
  then have IH: "keeps alive k0 id (f st i s k)" if "alive k = alive k0" for st i s k k0
    using that by (auto simp: keeps_def)
  assume body: "(if is_empty_func s then Some k else pop_func s \<bind> (\<lambda>(n, s).
      crypt_file False st n (i_num (inode_at k n)) k \<bind> (\<lambda>k. read_first n k \<bind> (\<lambda>(b, k).
      crypt_entries False st n b [2..<64] s k \<bind> (\<lambda>(s, k).
      kbrelse (Some b) k \<bind> (\<lambda>k. (if n \<noteq> i then iput (Some n) k else Some k) \<bind> (\<lambda>k. f st i s k))))))) = Some k'"
  show "alive k' = alive k"
    by (rule keepsD [OF _ body, where V = alive and st = id, simplified]) (intro keeping keeps_value IH refl)
qed

lemma dirs_keep [keeping]:
  "alive k = alive k0 \<Longrightarrow> keeps alive k0 snd (encrypt_directory st i k)"
  "alive k = alive k0 \<Longrightarrow> keeps alive k0 snd (decrypt_directory st i k)"
  unfolding encrypt_directory_def decrypt_directory_def
  by (intro keeping keeps_value; simp add: keeps_def encrypt_dirs_alive decrypt_dirs_alive)+

lemma crypt_node_alive: "crypt_node e junk st dir k = Some (r, k') \<Longrightarrow> alive k' = alive k"
proof -
  have "keeps alive k snd (crypt_node e junk st dir k)"
    unfolding crypt_node_def by (intro keeping keeps_value refl)
  then show "crypt_node e junk st dir k = Some (r, k') \<Longrightarrow> alive k' = alive k" by (simp add: keeps_def)
qed

lemma crypt_call_alive:
  assumes "crypt_call e junk st path k = Some (r, k')"
  obtains k1 where "k' = on_cur (\<lambda>t. t\<lparr>t_pwd := None, t_root := None\<rparr>) k1" "alive k1 = alive k"
proof -
  obtain root k1 dir k2 k3 k4 k5 where "iget 0x301 1 k = Some (root, k1)"
    "namei path (on_cur (\<lambda>t. t\<lparr>t_root := Some root\<rparr>) k1) = Some (dir, k2)"
    "crypt_node e junk st dir (select_key k2) = Some (r, k3)" "iput dir k3 = Some k4" "iput (Some root) k4 = Some k5"
    "k' = on_cur (\<lambda>t. t\<lparr>t_pwd := None, t_root := None\<rparr>) k5"
    using assms by (auto simp: crypt_call_def bind_Some_iff Let_def)
  then show ?thesis
    by (intro that [of k5]) (auto dest!: crypt_node_alive frame alive.V_other)
qed

text \<open>
  C25: After \<^verbatim>\<open>sys_encr\<close> or \<^verbatim>\<open>sys_decr\<close>, successful or not, the process has no root directory, and the next
  path it names, in whatever call, makes the kernel panic: \<^verbatim>\<open>No root inode\<close>.
\<close>

theorem crypt_loses_root:
  assumes "running k" and "crypt_call e junk st path k = Some (r, k')"
  shows "t_root (cur k') = None \<and> namei p k' = None \<and> open_namei p flag mode k' = None"
proof -
  obtain k1 where k1: "k' = on_cur (\<lambda>t. t\<lparr>t_pwd := None, t_root := None\<rparr>) k1" "alive k1 = alive k"
    using assms(2) by (rule crypt_call_alive)
  have "running k1" using assms(1) running_alive [OF k1(2)] by simp
  then have r: "t_root (cur k') = None" by (simp add: k1(1) task_simps)
  have "dir_namei p k' = None" by (simp add: dir_namei_def get_dir_def r)
  then show ?thesis by (simp add: r namei_def open_namei_def Let_def)
qed

section \<open>The table on the disk and back\<close>

definition edir_byte :: "e_dir \<Rightarrow> nat \<Rightarrow> byte" where
  "edir_byte v y = (if y = 0 then ucast (ed_i_num v) else if y = 1 then ucast (drop_bit 8 (ed_i_num v)) else ed_h_key v (y - 2))"

lemma put_edir_byte: "put_edir p v d x = (if p \<le> x \<and> x < p + 16 then edir_byte v (x - p) else d x)"
  by (auto simp: put_edir_def edir_byte_def put16_def)

lemma store_table_byte:
  "fold (\<lambda>i d. put_edir (16 * i) (t i) d) [0..<n] d x = (if x < 16 * n then edir_byte (t (x div 16)) (x mod 16) else d x)"
proof (induction n)
  case (Suc n)
  have "16 * n \<le> x \<and> x < 16 * n + 16 \<longleftrightarrow> x div 16 = n" by (auto simp: div_nat_eqI)
  moreover have "x - 16 * n = x mod 16" if "x div 16 = n" using that by (metis minus_mult_div_eq_mod)
  ultimately show ?case using Suc.IH by (auto simp: put_edir_byte) 
qed simp

lemma fetch_table_at: "fold (\<lambda>i t. t(i := get_edir d (16 * i))) [0..<n] t i = (if i < n then get_edir d (16 * i) else t i)"
  by (induction n) auto

lemma fetch_table_slot: "i < 61 \<Longrightarrow> fetch_table d t i = get_edir d (16 * i)"
  by (simp add: fetch_table_def fetch_table_at)

lemma table_saved:
  assumes "i < 61"
  shows "ed_i_num (fetch_table (store_table t d) t' i) = ed_i_num (t i)"
    and "j < HKEY_SIZE \<Longrightarrow> ed_h_key (fetch_table (store_table t d) t' i) j = ed_h_key (t i) j"
proof -
  have at: "store_table t d (16 * i + y) = edir_byte (t i) y" if "y < 16" for y
    using that assms unfolding store_table_def store_table_byte by simp
  have "get16 (store_table t d) (16 * i) = get16 (put16 0 (ed_i_num (t i)) (\<lambda>_. 0)) 0"
    using at [of 0] at [of 1] by (simp add: get16_def edir_byte_def put16_def)
  then show "ed_i_num (fetch_table (store_table t d) t' i) = ed_i_num (t i)"
    using assms by (simp add: fetch_table_slot get_edir_def)
  show "j < HKEY_SIZE \<Longrightarrow> ed_h_key (fetch_table (store_table t d) t' i) j = ed_h_key (t i) j"
    using assms at [of "2 + j"] by (simp add: fetch_table_slot get_edir_def edir_byte_def)
qed

text \<open>The lookup only sees the inode numbers of the 61 slots.\<close>

lemma search_probe_cong:
  assumes same: "\<And>i. i < 61 \<Longrightarrow> ed_i_num (t' i) = ed_i_num (t i)"
  shows "search_probe t n i = Some r \<Longrightarrow> search_probe t' n i = Some r"
proof (rule search_probe.raw_induct [where P = "\<lambda>u n i r. u = t \<longrightarrow> search_probe t' n i = Some r", rule_format, OF _ _ refl])
  fix f u n i r
  assume IH: "\<And>u n i r. f u n i = Some r \<Longrightarrow> u = t \<Longrightarrow> search_probe t' n i = Some r" and u: "u = t"
    and eq: "(let index = HASH_probe n i in if ed_i_num (u index) = n then Some (int index)
      else if ed_i_num (u index) \<noteq> 0 then f u n (Suc i) else Some ERR_NOT_FND) = Some r"
  show "search_probe t' n i = Some r"
    using eq IH [of t n "Suc i" r] same [OF HASH_probe_lt [of n i]]
    by (subst search_probe.simps) (auto simp: Let_def u split: if_splits)
qed

lemma search_func_cong:
  assumes "\<And>i. i < 61 \<Longrightarrow> ed_i_num (t' i) = ed_i_num (t i)"
  shows "search_func t' n = search_func t n"
  using search_probe_cong [where t = t and t' = t' and n = n and i = 0] search_probe_cong [where t = t' and t' = t and n = n and i = 0] assms
  unfolding search_func_def by (cases "search_probe t n 0"; cases "search_probe t' n 0") auto

text \<open>
  C26: The table of encrypted files survives a shutdown: written over any block by \<^verbatim>\<open>sys_sync\<close> and read from it
  by \<^verbatim>\<open>load_hash_table\<close> it has the same inode numbers and hashes in every slot, so every lookup answers as
  before; the bytes of the block behind the 61 entries stay.
\<close>

theorem table_survives:
  "search_func (fetch_table (store_table t d) t') n = search_func t n \<and>
    (\<forall>i<TABLE_SIZE. ed_i_num (fetch_table (store_table t d) t' i) = ed_i_num (t i) \<and>
      (\<forall>j<HKEY_SIZE. ed_h_key (fetch_table (store_table t d) t' i) j = ed_h_key (t i) j)) \<and>
    (\<forall>x\<ge>16 * TABLE_SIZE. store_table t d x = d x)"
  using search_func_cong [where t = t and n = n and t' = "fetch_table (store_table t d) t'"] table_saved [where t = t and d = d and t' = t']
  by (auto simp: store_table_def store_table_byte)

section \<open>Examples\<close>

text \<open>The file of inode 0 of \<open>file_kernel\<close>, one block of sevens, and the global key \<^verbatim>\<open>ba\<close>.\<close>

definition key_kernel :: kernel where
  "key_kernel = file_kernel\<lparr>encryption_key := store_str [98, 97] (\<lambda>_. 0)\<rparr>"

lemma key_kernel_state:
  "bc key_kernel = small_cache" "inode_at key_kernel 0 = inode_at two_entries 0"
  "file_zone ROOT_DEV key_kernel 0 n = file_zone ROOT_DEV two_entries 0 n" "enc_table key_kernel = empty_table (\<lambda>_. 0)"
  "key_in_use key_kernel = Some [98, 97]" "hash_bytes key_kernel = Some (\<lambda>_. 0)"
proof -
  show fr: "bc key_kernel = small_cache" "inode_at key_kernel 0 = inode_at two_entries 0"
    by (simp_all add: key_kernel_def file_kernel_def inode_at_def two_entries_state(2))
  show "file_zone ROOT_DEV key_kernel 0 n = file_zone ROOT_DEV two_entries 0 n"
    using map_frame(1) [of key_kernel two_entries 0] fr by (simp add: two_entries_state(2))
qed (simp_all add: key_kernel_def file_kernel_def two_entries_def dir_kernel_def on_inode_def small_kernel_def
    key_in_use_def key_bytes_def hash_bytes_def key_string_store_str)

lemma key_kernel_ok: "crypt_ok ROOT_DEV key_kernel 0 1"
proof -
  have "map_blocks ROOT_DEV key_kernel 0 = {}" "map_ok ROOT_DEV key_kernel 0"
    by (auto simp: map_blocks_def map_ok_def key_kernel_state two_entries_state(1) dir_kernel_inode)
  then show ?thesis
    using small_cache_ok small_cache_calm small_cache_valid [of 6] two_entries_state(4) [of 1]
    by (auto simp: crypt_ok_def writable_def readable_def key_kernel_state two_entries_zone)
qed

theorem encrypt_then_decrypt_witness:
  "\<exists>s k1 k2. encrypt_file (\<lambda>_ _ _. 1) 0 \<lparr>ed_i_num = 1, ed_h_key = copy_bytes HKEY_SIZE (\<lambda>_. 0) (\<lambda>_. 0)\<rparr> key_kernel = Some (int s, k1) \<and>
     decrypt_file (\<lambda>_ _ _. 2) 0 k1 = Some (SUCC_RM, k2) \<and> block_bytes ROOT_DEV k2 0 0 5 = 7"
proof -
  have num: "i_num (inode_at key_kernel 0) = 1"
    by (simp add: key_kernel_state two_entries_state(1) dir_kernel_inode)
  let ?d = "\<lparr>ed_i_num = 1, ed_h_key = copy_bytes HKEY_SIZE (\<lambda>_. 0) (\<lambda>_. 0)\<rparr>"
  have d: "new_entry (i_num (inode_at key_kernel 0)) key_kernel = Some ?d"
    by (simp add: new_entry_def key_kernel_state(6) num)
  have tab: "tab_ok (enc_table key_kernel)" "free_slots (enc_table key_kernel) \<noteq> {}"
    "\<not> stored (enc_table key_kernel) (i_num (inode_at key_kernel 0)) s" for s
    by (simp_all add: key_kernel_state(4) lessThan_empty_iff)
  have good: "good_length (length [98, 97 :: byte])" "distinct [98, 97 :: byte]" by (simp_all add: good_length_def)
  from encrypt_then_decrypt [where stack = "\<lambda>_ _ _. 1" and stack' = "\<lambda>_ _ _. 2",
      OF key_kernel_ok tab(1,2) _ tab(3) key_kernel_state(5) good d] obtain q s k1 k2 where
    r: "1024 - length [98, 97 :: byte] \<le> q" "encrypt_file (\<lambda>_ _ _. 1) 0 ?d key_kernel = Some (int s, k1)"
    "decrypt_file (\<lambda>_ _ _. 2) 0 k1 = Some (SUCC_RM, k2)"
    "\<forall>r<1. \<forall>p<1024. p \<noteq> 1023 \<longrightarrow> p \<noteq> q \<longrightarrow> block_bytes ROOT_DEV k2 0 r p = block_bytes ROOT_DEV key_kernel 0 r p"
    by (auto simp: num)
  moreover have "block_bytes ROOT_DEV key_kernel 0 0 5 = 7"
    by (simp add: block_bytes_view key_kernel_state(1,3) two_entries_zone small_cache_view)
  ultimately show ?thesis by (intro exI [of _ s] exI [of _ k1] exI [of _ k2]) auto
qed

text \<open>A process whose root and working directory is inode 0, and the empty path.\<close>

definition rooted_kernel :: kernel where
  "rooted_kernel = on_cur (\<lambda>t. t\<lparr>t_root := Some 0, t_pwd := Some 0\<rparr>) dir_kernel"

theorem crypt_loses_root_witness:
  "\<exists>k'. sys_encr 0 (\<lambda>_ _ _. 0) [] rooted_kernel = Some (- 1, k') \<and> namei [47] k' = None"
proof -
  have "running rooted_kernel"
    by (simp add: rooted_kernel_def task_simps dir_kernel_def on_inode_def small_kernel_def running_def)
  moreover obtain k' where "crypt_call True 0 (\<lambda>_ _ _. 0) [] rooted_kernel = Some (- 1, k')"
    by (simp add: crypt_call_def crypt_node_def iget_def get_empty_inode_def free_slot_def upt_conv_Cons inode_at_def on_inode_def
        clear_inode_def iput_def count_down_def namei_def dir_namei_def get_dir_def rooted_kernel_def dir_kernel_def
        small_kernel_def zero_inode_def on_cur_def on_task_def cur_def some_task_def INIT_TASK_def
        select_key_def Let_def)
  ultimately show ?thesis using crypt_loses_root unfolding sys_encr_def by blast
qed

theorem table_survives_witness:
  "search_func (fetch_table (store_table (pair_table some_hash) (\<lambda>_. 1)) (empty_table some_hash)) 61 = Some 2 \<and>
     ed_h_key (fetch_table (store_table (pair_table some_hash) (\<lambda>_. 1)) (empty_table some_hash) 2) 13 = 65 \<and>
     store_table (pair_table some_hash) (\<lambda>_. 1) 976 = 1"
proof -
  have "stored (pair_table some_hash) 61 2" by (simp add: pair_table_stored)
  then have "search_func (pair_table some_hash) 61 = Some (int 2)" by (intro search_func_stored) simp_all
  moreover have "ed_h_key (pair_table some_hash 2) 13 = 65" by (simp add: pair_table_def some_hash_def)
  ultimately show ?thesis
    using table_survives [of "pair_table some_hash" "\<lambda>_. 1" "empty_table some_hash" 61] by simp
qed

end
