(* ===== verification/Syscalls.thy ===== *)
theory Syscalls
  imports Frames
begin

text \<open>
  \<^verbatim>\<open>verify_area\<close> of \<^verbatim>\<open>kernel/fork.c\<close> and the rest of \<^verbatim>\<open>kernel/sys.c\<close>: the identity of a process, its times, its
  data segment, its process group and session, and the calls that only answer \<^verbatim>\<open>-ENOSYS\<close>.

  A process that runs out of memory inside a system call exits there: the result \<open>Inl sig\<close> is the exit code,
  \<open>Inr\<close> the ordinary return.
\<close>

section \<open>Writing to the memory of the caller\<close>

text \<open>
  \<^verbatim>\<open>verify_area\<close>: every page of the area is made private to the process before the kernel writes to it. The
  count is an \<^verbatim>\<open>int\<close> and wraps.
\<close>

function verify_pages :: "int \<Rightarrow> u32 \<Rightarrow> mm \<Rightarrow> (nat + mm) option" where
  "verify_pages cnt start m =
     (if cnt \<le> 0 then Some (Inr m)
      else do {
        r \<leftarrow> write_verify start m;
        case r of Inl sig \<Rightarrow> Some (Inl sig) | Inr m \<Rightarrow> verify_pages (cnt - 4096) (start + 4096) m })"
  by pat_completeness auto
termination
  by (relation "measure (\<lambda>(cnt, start, m). nat cnt)") auto

declare verify_pages.simps [simp del]

definition verify_area :: "u32 \<Rightarrow> u32 \<Rightarrow> kernel \<Rightarrow> (nat + kernel) option" where
  "verify_area addr cnt k =
     do { r \<leftarrow> verify_pages (sint (cnt + (addr AND 0xfff))) ((addr AND 0xfffff000) + get_base (t_ldt (cur k) 2)) (mm k);
          Some (map_sum id (\<lambda>m. k\<lparr>mm := m\<rparr>) r) }"

text \<open>What a system call does with the area once it is verified.\<close>

definition with_area :: "u32 \<Rightarrow> u32 \<Rightarrow> (kernel \<Rightarrow> 'a option) \<Rightarrow> kernel \<Rightarrow> (nat + 'a) option" where
  "with_area addr cnt f k =
     do { r \<leftarrow> verify_area addr cnt k;
          case r of Inl sig \<Rightarrow> Some (Inl sig) | Inr k \<Rightarrow> map_option Inr (f k) }"

section \<open>Calls that are not there\<close>

definition sys_ftime :: int where "sys_ftime = - ENOSYS"
definition sys_mknod :: int where "sys_mknod = - ENOSYS"
definition sys_break :: int where "sys_break = - ENOSYS"
definition sys_mount :: int where "sys_mount = - ENOSYS"
definition sys_umount :: int where "sys_umount = - ENOSYS"
definition sys_ustat :: "int \<Rightarrow> nat \<Rightarrow> int" where "sys_ustat dev ubuf = - 1"
definition sys_ptrace :: int where "sys_ptrace = - ENOSYS"
definition sys_gtty :: int where "sys_gtty = - ENOSYS"
definition sys_rename :: int where "sys_rename = - ENOSYS"
definition sys_prof :: int where "sys_prof = - ENOSYS"
definition sys_acct :: int where "sys_acct = - ENOSYS"
definition sys_phys :: int where "sys_phys = - ENOSYS"
definition sys_lock :: int where "sys_lock = - ENOSYS"
definition sys_mpx :: int where "sys_mpx = - ENOSYS"
definition sys_ulimit :: int where "sys_ulimit = - ENOSYS"
definition sys_oldolduname :: "nat \<Rightarrow> int" where "sys_oldolduname v = - ENOSYS"

text \<open>The static variable \<^verbatim>\<open>prev_nr\<close> only served a message.\<close>

definition sys_null :: "int \<Rightarrow> int \<Rightarrow> int \<times> int" where
  "sys_null nr prev_nr =
     (if nr = 174 \<or> nr = 175 then (- ENOSYS, prev_nr) else if prev_nr \<noteq> nr then (- ENOSYS, nr) else (- ENOSYS, prev_nr))"

section \<open>Terminals\<close>

abbreviation NR_TTY :: nat where "NR_TTY \<equiv> 3"

definition sys_stty :: "int \<Rightarrow> u32 \<Rightarrow> kernel \<Rightarrow> (int \<times> kernel) option" where
  "sys_stty tty_index sett k =
     (if tty_index < 0 \<or> int NR_TTY \<le> tty_index then overrun ''tty_table''
      else Some (0, k\<lparr>tty_table := (tty_table k)(nat tty_index := (tty_table k (nat tty_index))\<lparr>settings := sett\<rparr>)\<rparr>))"

section \<open>Identity\<close>

text \<open>The numbers are \<^verbatim>\<open>int\<close> in the calls and 16 bits wide in the task.\<close>

definition sys_setgid :: "int \<Rightarrow> kernel \<Rightarrow> int \<times> kernel" where
  "sys_setgid gid k =
     (let t = cur k in
      if t_euid t \<noteq> 0 \<and> t_uid t \<noteq> 0 then
        if uint (t_gid t) = gid \<or> uint (t_sgid t) = gid then (0, on_cur (\<lambda>t. t\<lparr>t_egid := word_of_int gid\<rparr>) k)
        else (- EPERM, k)
      else (0, on_cur (\<lambda>t. t\<lparr>t_gid := word_of_int gid, t_egid := word_of_int gid\<rparr>) k))"

definition sys_setuid :: "int \<Rightarrow> kernel \<Rightarrow> int \<times> kernel" where
  "sys_setuid uid k =
     (let t = cur k in
      if t_euid t \<noteq> 0 \<and> t_uid t \<noteq> 0 then
        if uid = uint (t_uid t) \<or> t_suid t = t_uid t then (0, on_cur (\<lambda>t. t\<lparr>t_euid := word_of_int uid\<rparr>) k)
        else (- EPERM, k)
      else (0, on_cur (\<lambda>t. t\<lparr>t_uid := word_of_int uid, t_euid := word_of_int uid\<rparr>) k))"

section \<open>Times\<close>

definition sys_time :: "nat \<Rightarrow> kernel \<Rightarrow> (nat + int \<times> kernel) option" where
  "sys_time tloc k =
     (let i = CURRENT_TIME k in
      if tloc \<noteq> 0 then with_area (of_nat tloc) 4 (\<lambda>k. Some (sint i, put_fs_long i tloc k)) k
      else Some (Inr (sint i, k)))"

definition sys_stime :: "nat \<Rightarrow> kernel \<Rightarrow> int \<times> kernel" where
  "sys_stime tptr k =
     (if t_euid (cur k) \<noteq> 0 \<and> t_uid (cur k) \<noteq> 0 then (- 1, k)
      else (0, k\<lparr>startup_time := get_fs_long k tptr - of_int (sint (jiffies k) sdiv 100)\<rparr>))"

definition sys_times :: "nat \<Rightarrow> kernel \<Rightarrow> (nat + int \<times> kernel) option" where
  "sys_times tbuf k =
     (if tbuf = 0 then Some (Inr (sint (jiffies k), k))
      else with_area (of_nat tbuf) 16 (\<lambda>k.
        let t = cur k;
            k = put_fs_long (t_cstime t) (tbuf + 12) (put_fs_long (t_cutime t) (tbuf + 8)
                  (put_fs_long (t_stime t) (tbuf + 4) (put_fs_long (t_utime t) tbuf k)))
        in Some (sint (jiffies k), k)) k)"

section \<open>Data segment, process groups, sessions\<close>

definition sys_brk :: "u32 \<Rightarrow> kernel \<Rightarrow> u32 \<times> kernel" where
  "sys_brk end_data_seg k =
     (let k = (if t_end_code (cur k) \<le> end_data_seg \<and> end_data_seg < t_start_stack (cur k) - 16384
               then on_cur (\<lambda>t. t\<lparr>t_brk := end_data_seg\<rparr>) k else k)
      in (t_brk (cur k), k))"

text \<open>The first slot whose process has the number \<open>pid\<close>.\<close>

definition find_pid :: "u32 \<Rightarrow> kernel \<Rightarrow> nat option" where
  "find_pid pid k = List.find (\<lambda>i. \<exists>t. task k i = Some t \<and> t_pid t = pid) [0..<NR_TASKS]"

definition sys_setpgid :: "u32 \<Rightarrow> u32 \<Rightarrow> kernel \<Rightarrow> int \<times> kernel" where
  "sys_setpgid pid pgid k =
     (let pid = (if pid = 0 then t_pid (cur k) else pid);
          pgid = (if pgid = 0 then pid else pgid) in
      case find_pid pid k of None \<Rightarrow> (- ESRCH, k)
      | Some i \<Rightarrow>
          let t = the (task k i) in
          if t_leader t \<noteq> 0 then (- EPERM, k)
          else if t_session t \<noteq> t_session (cur k) then (- EPERM, k)
          else (0, on_task i (\<lambda>t. t\<lparr>t_pgrp := pgid\<rparr>) k))"

definition sys_getpgrp :: "kernel \<Rightarrow> u32" where
  "sys_getpgrp k = t_pgrp (cur k)"

definition sys_setsid :: "kernel \<Rightarrow> int \<times> kernel" where
  "sys_setsid k =
     (let t = cur k in
      if t_uid t \<noteq> 0 \<and> t_euid t \<noteq> 0 then (- EPERM, k)
      else if t_leader t \<noteq> 0 then (- EPERM, k)
      else (sint (t_pid t), on_cur (\<lambda>t. t\<lparr>t_leader := 1, t_session := t_pid t, t_pgrp := t_pid t, t_tty := - 1\<rparr>) k))"

definition sys_umask :: "int \<Rightarrow> kernel \<Rightarrow> int \<times> kernel" where
  "sys_umask msk k =
     (uint (t_umask (cur k)), on_cur (\<lambda>t. t\<lparr>t_umask := word_of_int msk AND 0x1ff\<rparr>) k)"

section \<open>The name of the system\<close>

text \<open>Six arrays of 65 characters; the sixth is all zeros.\<close>

definition thisname :: "byte list" where
  "thisname = concat (map (\<lambda>s. s @ replicate (65 - length s) 0)
     [map of_nat [108, 105, 110, 117, 120, 32, 48, 46, 48, 49, 45, 51, 46, 120],
      map of_nat [110, 111, 100, 101, 110, 97, 109, 101],
      map of_nat [114, 101, 108, 101, 97, 115, 101, 32],
      map of_nat [51, 46, 120], map of_nat [105, 51, 56, 54], []])"

definition sys_uname :: "nat \<Rightarrow> kernel \<Rightarrow> (nat + int \<times> kernel) option" where
  "sys_uname name k =
     (if name = 0 then Some (Inr (- 1, k))
      else with_area (of_nat name) 390 (\<lambda>k. Some (0, put_bytes 390 (\<lambda>i. thisname ! i) 0 name k)) k)"

section \<open>Lemmas\<close>

lemma thisname_length: "length thisname = 390"
  by (simp add: thisname_def)

text \<open>An area of \<open>n\<close> bytes is verified in as many steps as it has pages.\<close>

lemma verify_pages_done: "verify_pages 0 start m = Some (Inr m)"
  by (subst verify_pages.simps) simp

lemma map_sum_Inr: "map_sum f g r = Inr y \<Longrightarrow> (\<And>x. r = Inr x \<Longrightarrow> y = g x \<Longrightarrow> P) \<Longrightarrow> P"
  by (cases r) auto

lemma verify_area_keeps: "verify_area a n k = Some (Inr k') \<Longrightarrow> other k' = other k"
  by (auto simp: verify_area_def bind_Some_iff elim!: map_sum_Inr)

section \<open>Properties\<close>

text \<open>
  C27: Who may become whom. The superuser sets both user numbers. Any other process gets exactly what it asks
  for, any number, as its effective one when its saved number equals its real one (which it does unless a
  set-user-id program ran), and so becomes the superuser; otherwise it only gets its own number back. Group
  numbers are guarded: an ordinary process only reaches its real and its saved group.
\<close>

theorem setuid_escalates:
  assumes run: "running k" and plain: "t_euid (cur k) \<noteq> 0 \<and> t_uid (cur k) \<noteq> 0"
  shows "(t_suid (cur k) = t_uid (cur k) \<longrightarrow> fst (sys_setuid 0 k) = 0 \<and> superuser (snd (sys_setuid 0 k))) \<and>
    (t_suid (cur k) \<noteq> t_uid (cur k) \<longrightarrow> snd (sys_setuid uid k) = k \<or> t_euid (cur (snd (sys_setuid uid k))) = t_uid (cur k)) \<and>
    (let (r, k') = sys_setgid gid k in
     if r = 0 then t_egid (cur k') \<in> {t_gid (cur k), t_sgid (cur k)} \<and> t_gid (cur k') = t_gid (cur k) else r = - EPERM \<and> k' = k)"
  using assms by (auto simp: sys_setuid_def sys_setgid_def Let_def superuser_def cur_on_cur)

text \<open>A process of user 5 and group 6.\<close>

definition user_kernel :: kernel where
  "user_kernel = on_cur (\<lambda>t. t\<lparr>t_uid := 5, t_euid := 5, t_suid := 5, t_gid := 6, t_egid := 6, t_sgid := 6\<rparr>) (small_kernel small_cache)"

theorem setuid_escalates_witness:
  "superuser (snd (sys_setuid 0 user_kernel)) \<and> fst (sys_setgid 0 user_kernel) = - EPERM"
proof -
  have run: "running user_kernel" by (simp add: user_kernel_def task_simps running_def small_kernel_def)
  have t: "t_euid (cur user_kernel) = 5" "t_uid (cur user_kernel) = 5" "t_suid (cur user_kernel) = 5"
    "t_gid (cur user_kernel) = 6" "t_sgid (cur user_kernel) = 6"
    by (simp_all add: user_kernel_def cur_def task_simps small_kernel_def)
  have "sys_setgid 0 user_kernel = (- EPERM, user_kernel)" by (simp add: sys_setgid_def Let_def t)
  then show ?thesis using setuid_escalates [OF run, of 0 0] t by simp
qed

end
