(* ===== verification/Pipe.thy ===== *)
theory Pipe
  imports Syscalls TtyQueue
begin

text \<open>
  Pipes: \<^verbatim>\<open>read_pipe\<close> and \<^verbatim>\<open>write_pipe\<close> of \<^verbatim>\<open>fs/pipe.c\<close>. A pipe is an inode without a disk: \<^verbatim>\<open>i_size\<close> is the
  address of its page, the first two longs of \<^verbatim>\<open>i_zone\<close> are the head and the tail of the ring in it.

  A process that has to wait goes to sleep. What happens until it runs again is not code of the call: the
  other processes and the interrupts. They are the parameter \<open>rest\<close>, which takes the state at the switch to
  the state the process finds when it is back, or to \<open>None\<close> if it never is.
\<close>

section \<open>Sleeping\<close>

type_synonym world = "kernel \<Rightarrow> kernel option"

text \<open>\<^verbatim>\<open>sleep_on(&head)\<close> for a queue head that \<open>put\<close> stores.\<close>

definition sleep_on :: "world \<Rightarrow> nat option \<Rightarrow> (nat option \<Rightarrow> kernel \<Rightarrow> kernel) \<Rightarrow> kernel \<Rightarrow> kernel option" where
  "sleep_on rest head put k =
     do { (tmp, new, k) \<leftarrow> sleep_on_enter head k;
          k \<leftarrow> rest (put new k);
          Some (sleep_on_leave tmp k) }"

definition sleep_on_inode :: "world \<Rightarrow> nat \<Rightarrow> kernel \<Rightarrow> kernel option" where
  "sleep_on_inode rest i k = sleep_on rest (i_wait (inode_at k i)) (put_wait i) k"

section \<open>The ring in the page\<close>

definition mem_byte :: "mm \<Rightarrow> u32 \<Rightarrow> byte" where
  "mem_byte m a = ucast (drop_bit (8 * unat (a AND 3)) (rd m (a AND NOT 3)))"

definition put_mem_byte :: "u32 \<Rightarrow> byte \<Rightarrow> mm \<Rightarrow> mm" where
  "put_mem_byte a v m =
     (let s = 8 * unat (a AND 3); w = rd m (a AND NOT 3)
      in wr (a AND NOT 3) ((w AND NOT (push_bit s (mask 8))) OR push_bit s (ucast v)) m)"

definition zone_long :: "nat \<Rightarrow> m_inode \<Rightarrow> u32" where
  "zone_long n i = ucast (i_zone i (2 * n)) OR push_bit 16 (ucast (i_zone i (2 * n + 1)))"

definition put_zone_long :: "nat \<Rightarrow> u32 \<Rightarrow> m_inode \<Rightarrow> m_inode" where
  "put_zone_long n v i = i\<lparr>i_zone := (i_zone i)(2 * n := ucast v, 2 * n + 1 := ucast (drop_bit 16 v))\<rparr>"

definition PIPE_HEAD :: "m_inode \<Rightarrow> u32" where "PIPE_HEAD i = zone_long 0 i"
definition PIPE_TAIL :: "m_inode \<Rightarrow> u32" where "PIPE_TAIL i = zone_long 1 i"
definition PIPE_SIZE :: "m_inode \<Rightarrow> u32" where "PIPE_SIZE i = (PIPE_HEAD i - PIPE_TAIL i) AND 4095"
definition PIPE_EMPTY :: "m_inode \<Rightarrow> bool" where "PIPE_EMPTY i \<longleftrightarrow> PIPE_HEAD i = PIPE_TAIL i"
definition PIPE_FULL :: "m_inode \<Rightarrow> bool" where "PIPE_FULL i \<longleftrightarrow> PIPE_SIZE i = 4095"
definition INC_PIPE :: "u32 \<Rightarrow> u32" where "INC_PIPE v = (v + 1) AND 4095"

text \<open>The next byte out of a pipe, and one more into it.\<close>

definition pipe_get :: "nat \<Rightarrow> kernel \<Rightarrow> byte \<times> kernel" where
  "pipe_get i k =
     (let n = inode_at k i in
      (mem_byte (mm k) (i_size n + PIPE_TAIL n), on_inode i (put_zone_long 1 (INC_PIPE (PIPE_TAIL n))) k))"

definition pipe_put :: "nat \<Rightarrow> byte \<Rightarrow> kernel \<Rightarrow> kernel" where
  "pipe_put i v k =
     (let n = inode_at k i in
      on_inode i (put_zone_long 0 (INC_PIPE (PIPE_HEAD n))) (k\<lparr>mm := put_mem_byte (i_size n + PIPE_HEAD n) v (mm k)\<rparr>))"

section \<open>Reading and writing\<close>

text \<open>Wait until there is something to read, or nobody left to write: then the answer is no.\<close>

partial_function (option) wait_for_data :: "world \<Rightarrow> nat \<Rightarrow> kernel \<Rightarrow> (bool \<times> kernel) option" where
  "wait_for_data rest i k =
     (if \<not> PIPE_EMPTY (inode_at k i) then Some (True, k)
      else let k = wake_readers i k in
        if i_count (inode_at k i) \<noteq> 2 then Some (False, k)
        else do { k \<leftarrow> sleep_on_inode rest i k; wait_for_data rest i k })"

primrec pipe_out :: "nat \<Rightarrow> nat \<Rightarrow> nat \<Rightarrow> kernel \<Rightarrow> nat \<times> kernel" where
  "pipe_out i b 0 k = (b, k)"
| "pipe_out i b (Suc cnt) k =
     (if PIPE_EMPTY (inode_at k i) then (b, k)
      else let (c, k) = pipe_get i k in pipe_out i (Suc b) cnt (put_fs_byte c b k))"

definition read_pipe :: "world \<Rightarrow> nat \<Rightarrow> nat \<Rightarrow> int \<Rightarrow> kernel \<Rightarrow> (int \<times> kernel) option" where
  "read_pipe rest i buff cnt k =
     do { (data, k) \<leftarrow> wait_for_data rest i k;
          if \<not> data then Some (0, k)
          else let (b, k) = pipe_out i buff (nat cnt) k in Some (int b - int buff, wake_readers i k) }"

abbreviation SIGPIPE :: nat where "SIGPIPE \<equiv> 13"

definition broken_pipe :: "kernel \<Rightarrow> kernel" where
  "broken_pipe k = on_cur (\<lambda>t. t\<lparr>t_signal := t_signal t OR sig_bit SIGPIPE\<rparr>) k"

text \<open>Wait until there is room; no room any more when there is nobody left to read.\<close>

partial_function (option) wait_for_room :: "world \<Rightarrow> nat \<Rightarrow> kernel \<Rightarrow> (bool \<times> kernel) option" where
  "wait_for_room rest i k =
     (if \<not> PIPE_FULL (inode_at k i) then Some (True, k)
      else let k = wake_readers i k in
        if i_count (inode_at k i) \<noteq> 2 then Some (False, broken_pipe k)
        else do { k \<leftarrow> sleep_on_inode rest i k; wait_for_room rest i k })"

primrec pipe_in :: "world \<Rightarrow> nat \<Rightarrow> nat \<Rightarrow> nat \<Rightarrow> kernel \<Rightarrow> (nat \<times> kernel) option" where
  "pipe_in rest i b 0 k = Some (b, wake_readers i k)"
| "pipe_in rest i b (Suc cnt) k =
     do { (room, k) \<leftarrow> wait_for_room rest i k;
          if \<not> room then Some (b, k)
          else pipe_in rest i (Suc b) cnt (wake_readers i (pipe_put i (get_fs_byte k b) k)) }"

definition write_pipe :: "world \<Rightarrow> nat \<Rightarrow> nat \<Rightarrow> int \<Rightarrow> kernel \<Rightarrow> (int \<times> kernel) option" where
  "write_pipe rest i buff cnt k =
     (let k = wake_readers i k in
      if i_count (inode_at k i) \<noteq> 2 then Some (- 1, broken_pipe k)
      else do { (b, k) \<leftarrow> pipe_in rest i buff (nat cnt) k; Some (int b - int buff, k) })"

section \<open>Bytes in words\<close>

lemma and_3: "unat (a AND 3 :: u32) = unat a mod 4"
proof -
  have "a AND 3 = take_bit 2 a" by (simp add: take_bit_eq_mask mask_eq_exp_minus_1)
  then show ?thesis by (simp add: unsigned_take_bit_eq take_bit_eq_mod unat_mod)
qed

lemma word_and_byte: "a AND NOT 3 = b AND NOT 3 \<Longrightarrow> a AND 3 = b AND 3 \<Longrightarrow> a = (b :: u32)"
  by (metis bit.conj_cancel_right bit.conj_disj_distrib bit.disj_cancel_right and.right_neutral)

lemma byte_in_word:
  fixes w :: u32 and v :: byte
  assumes "s < 4" and "t < 4"
  shows "ucast (drop_bit (8 * t) ((w AND NOT (push_bit (8 * s) (mask 8))) OR push_bit (8 * s) (ucast v)))
    = (if s = t then v else (ucast (drop_bit (8 * t) w) :: byte))"
proof (cases "s = t")
  case True
  then show ?thesis using assms by (auto intro!: bit_word_eqI simp: bit_simps dest: bit_imp_le_length)
next
  case False
  then have "8 * t + n < 8 * s \<or> 8 * s + 8 \<le> 8 * t + n" if "n < 8" for n using that by linarith
  then show ?thesis using assms False
    by (auto intro!: bit_word_eqI simp: bit_simps dest: bit_imp_le_length) (fastforce dest: bit_imp_le_length)+
qed

lemma mem_byte_put: "mem_byte (put_mem_byte a v m) b = (if a = b then v else mem_byte m b)"
proof (cases "a AND NOT 3 = b AND NOT 3")
  case False
  then have "a \<noteq> b" by auto
  then show ?thesis using False by (simp add: mem_byte_def put_mem_byte_def Let_def)
next
  case True
  have lt: "unat (a AND 3) < 4" "unat (b AND 3) < 4" by (simp_all add: and_3)
  have "mem_byte (put_mem_byte a v m) b = (if unat (a AND 3) = unat (b AND 3) then v else mem_byte m b)"
    unfolding byte_in_word [OF lt, symmetric] mem_byte_def [of m]
    using byte_in_word [OF lt, of "rd m (b AND NOT 3)" v] True
    by (simp add: mem_byte_def put_mem_byte_def Let_def)
  moreover have "unat (a AND 3) = unat (b AND 3) \<longleftrightarrow> a = b" using True word_and_byte by (metis word_unat_eq_iff)
  ultimately show ?thesis by simp
qed

section \<open>A pipe is a ring\<close>

lemma zone_long_put [simp]:
  "zone_long n (put_zone_long n v i) = v" "m \<noteq> n \<Longrightarrow> zone_long m (put_zone_long n v i) = zone_long m i"
proof -
  have "ucast (ucast v :: u16) OR push_bit 16 (ucast (ucast (drop_bit 16 v) :: u16)) = v"
    by (rule bit_word_eqI) (auto simp: bit_simps dest: bit_imp_le_length)
  then show "zone_long n (put_zone_long n v i) = v" by (simp add: zone_long_def put_zone_long_def)
  show "m \<noteq> n \<Longrightarrow> zone_long m (put_zone_long n v i) = zone_long m i"
    by (auto simp: zone_long_def put_zone_long_def)
qed

lemma put_zone_long_sel [simp]:
  "i_size (put_zone_long n v i) = i_size i" "i_count (put_zone_long n v i) = i_count i" "i_wait (put_zone_long n v i) = i_wait i"
  by (simp_all add: put_zone_long_def)

lemma and_4095: "unat (a AND 4095 :: u32) = unat a mod 4096"
proof -
  have "a AND 4095 = take_bit 12 a" by (simp add: take_bit_eq_mask mask_eq_exp_minus_1)
  then show ?thesis by (simp add: unsigned_take_bit_eq take_bit_eq_mod unat_mod)
qed

text \<open>The positions are inside the page, and the page does not wrap around the end of memory.\<close>

definition pipe_ok :: "nat \<Rightarrow> kernel \<Rightarrow> bool" where
  "pipe_ok i k \<longleftrightarrow> unat (PIPE_HEAD (inode_at k i)) < 4096 \<and> unat (PIPE_TAIL (inode_at k i)) < 4096"

definition pipe_len :: "m_inode \<Rightarrow> nat" where
  "pipe_len n = (unat (PIPE_HEAD n) + 4096 - unat (PIPE_TAIL n)) mod 4096"

definition pipe_bytes :: "nat \<Rightarrow> kernel \<Rightarrow> byte list" where
  "pipe_bytes i k = (let n = inode_at k i in
     map (\<lambda>j. mem_byte (mm k) (i_size n + of_nat ((unat (PIPE_TAIL n) + j) mod 4096))) [0..<pipe_len n])"

lemma length_pipe_bytes [simp]: "length (pipe_bytes i k) = pipe_len (inode_at k i)"
  by (simp add: pipe_bytes_def Let_def)

lemma unat_INC_PIPE: "unat v < 4096 \<Longrightarrow> unat (INC_PIPE v) = (unat v + 1) mod 4096"
  unfolding INC_PIPE_def and_4095 by (simp add: unat_word_ariths)

lemma PIPE_EMPTY_len: "pipe_ok i k \<Longrightarrow> PIPE_EMPTY (inode_at k i) \<longleftrightarrow> pipe_len (inode_at k i) = 0"
proof -
  have "PIPE_EMPTY (inode_at k i) \<longleftrightarrow> unat (PIPE_HEAD (inode_at k i)) = unat (PIPE_TAIL (inode_at k i))"
    by (simp add: PIPE_EMPTY_def word_unat_eq_iff)
  then show "pipe_ok i k \<Longrightarrow> PIPE_EMPTY (inode_at k i) \<longleftrightarrow> pipe_len (inode_at k i) = 0"
    by (auto simp: pipe_len_def pipe_ok_def mod_if split: if_splits)
qed

lemma PIPE_SIZE_len: "pipe_ok i k \<Longrightarrow> unat (PIPE_SIZE (inode_at k i)) = pipe_len (inode_at k i)"
proof -
  let ?h = "PIPE_HEAD (inode_at k i)" and ?t = "PIPE_TAIL (inode_at k i)"
  assume "pipe_ok i k"
  then have h: "unat ?h < 4096" "unat ?t < 4096" by (simp_all add: pipe_ok_def)
  have "unat (?h - ?t) mod 4096 = (unat ?h + 4096 - unat ?t) mod 4096"
  proof (cases "unat ?t \<le> unat ?h")
    case True
    then have "unat (?h - ?t) = unat ?h - unat ?t" by (simp add: unat_sub word_le_nat_alt)
    moreover have "(unat ?h + 4096 - unat ?t) mod 4096 = (unat ?h - unat ?t + 4096) mod 4096" using True by simp
    ultimately show ?thesis by simp
  next
    case False
    then have "unat (?h - ?t) = unat ?h + 4294967296 - unat ?t"
      by (simp add: unat_sub_if_size word_le_nat_alt word_size)
    also have "\<dots> = unat ?h + 4096 - unat ?t + 1048575 * 4096" using h by simp
    also have "\<dots> mod 4096 = (unat ?h + 4096 - unat ?t) mod 4096" by (rule mod_mult_self1)
    finally show ?thesis .
  qed
  then show ?thesis unfolding PIPE_SIZE_def and_4095 pipe_len_def .
qed

lemma PIPE_FULL_len: "pipe_ok i k \<Longrightarrow> PIPE_FULL (inode_at k i) \<longleftrightarrow> pipe_len (inode_at k i) = 4095"
  using PIPE_SIZE_len [of i k] by (auto simp: PIPE_FULL_def word_unat_eq_iff)

lemma of_nat_page: "n < 4096 \<Longrightarrow> m < 4096 \<Longrightarrow> (of_nat n :: u32) = of_nat m \<longleftrightarrow> n = m"
  by (auto dest!: arg_cong [of _ _ unat] simp: unat_of_nat)

lemma pipe_put_ring:
  assumes ok: "pipe_ok i k" and room: "length (pipe_bytes i k) < 4095"
  shows "pipe_bytes i (pipe_put i v k) = pipe_bytes i k @ [v] \<and> pipe_ok i (pipe_put i v k)"
proof -
  let ?n = "inode_at k i"
  let ?h = "unat (PIPE_HEAD ?n)" and ?t = "unat (PIPE_TAIL ?n)" and ?len = "pipe_len ?n"
  have h: "?h < 4096" "?t < 4096" using ok by (simp_all add: pipe_ok_def)
  have n': "inode_at (pipe_put i v k) i = put_zone_long 0 (INC_PIPE (PIPE_HEAD ?n)) ?n"
    by (simp add: pipe_put_def Let_def k_simps) (simp add: inode_at_def)
  have p: "PIPE_HEAD (inode_at (pipe_put i v k) i) = INC_PIPE (PIPE_HEAD ?n)"
    "PIPE_TAIL (inode_at (pipe_put i v k) i) = PIPE_TAIL ?n" "i_size (inode_at (pipe_put i v k) i) = i_size ?n"
    by (simp_all add: n' PIPE_HEAD_def PIPE_TAIL_def)
  have head: "i_size ?n + PIPE_HEAD ?n = i_size ?n + of_nat ((?t + ?len) mod 4096)"
    using h by (auto simp: pipe_len_def mod_if)
  have mm: "mm (pipe_put i v k) = put_mem_byte (i_size ?n + PIPE_HEAD ?n) v (mm k)"
    by (simp add: pipe_put_def Let_def k_simps)
  have len: "pipe_len (inode_at (pipe_put i v k) i) = Suc ?len"
    using h room by (auto simp: pipe_len_def p unat_INC_PIPE mod_if split: if_splits)
  have ne: "(?t + j) mod 4096 \<noteq> (?t + ?len) mod 4096" if "j < ?len" for j
    using that h room by (auto simp: mod_if split: if_splits)
  have "pipe_bytes i (pipe_put i v k) = pipe_bytes i k @ [v]"
    unfolding pipe_bytes_def Let_def len p mm head using ne [symmetric] by (auto simp: mem_byte_put of_nat_page)
  moreover have "pipe_ok i (pipe_put i v k)" using h by (simp add: pipe_ok_def p unat_INC_PIPE)
  ultimately show ?thesis ..
qed

lemma pipe_get_ring:
  assumes ok: "pipe_ok i k" and ne: "pipe_bytes i k \<noteq> []"
  shows "fst (pipe_get i k) = hd (pipe_bytes i k) \<and> pipe_bytes i (snd (pipe_get i k)) = tl (pipe_bytes i k) \<and>
    pipe_ok i (snd (pipe_get i k))"
proof -
  let ?n = "inode_at k i" and ?k = "snd (pipe_get i k)"
  let ?h = "unat (PIPE_HEAD ?n)" and ?t = "unat (PIPE_TAIL ?n)"
  have h: "?h < 4096" "?t < 4096" using ok by (simp_all add: pipe_ok_def)
  obtain m where m: "pipe_len ?n = Suc m" using ne by (cases "pipe_len ?n") (simp_all add: pipe_bytes_def Let_def)
  have n': "inode_at ?k i = put_zone_long 1 (INC_PIPE (PIPE_TAIL ?n)) ?n"
    by (simp add: pipe_get_def Let_def k_simps)
  have p: "PIPE_HEAD (inode_at ?k i) = PIPE_HEAD ?n" "PIPE_TAIL (inode_at ?k i) = INC_PIPE (PIPE_TAIL ?n)"
    "i_size (inode_at ?k i) = i_size ?n" "mm ?k = mm k"
    by (simp_all add: n' PIPE_HEAD_def PIPE_TAIL_def) (simp add: pipe_get_def Let_def k_simps)
  have len: "pipe_len (inode_at ?k i) = m"
    using h m by (auto simp: pipe_len_def p unat_INC_PIPE mod_if split: if_splits)
  have "fst (pipe_get i k) = hd (pipe_bytes i k)"
    using h m by (simp add: pipe_get_def pipe_bytes_def Let_def upt_conv_Cons del: upt_Suc)
  moreover have "((?t + 1) mod 4096 + j) mod 4096 = (?t + Suc j) mod 4096" for j by (simp add: mod_simps)
  then have "pipe_bytes i ?k = tl (pipe_bytes i k)"
    using h m by (simp add: pipe_bytes_def Let_def len p unat_INC_PIPE upt_conv_Cons map_Suc_upt [symmetric] comp_def del: upt_Suc)
  moreover have "pipe_ok i ?k" using h by (simp add: pipe_ok_def p unat_INC_PIPE)
  ultimately show ?thesis by blast
qed

interpretation pipe: ring "pipe_ok i" "pipe_bytes i" 4095 "pipe_put i" "pipe_get i" for i
  by standard (simp_all only: pipe_put_ring pipe_get_ring simp_thms)

section \<open>What a pipe delivers\<close>

text \<open>What the wake-ups between the bytes do not change.\<close>

lemma wake_readers_sel:
  "PIPE_HEAD (inode_at (wake_readers i k) i) = PIPE_HEAD (inode_at k i)"
  "PIPE_TAIL (inode_at (wake_readers i k) i) = PIPE_TAIL (inode_at k i)"
  "i_size (inode_at (wake_readers i k) i) = i_size (inode_at k i)"
  "i_count (inode_at (wake_readers i k) i) = i_count (inode_at k i)"
  "mm (wake_readers i k) = mm k" "fsmem (wake_readers i k) = fsmem k"
  by (simp_all add: wake_readers_def wake_up_def put_wait_def set_runnable_def on_inode_def on_task_def inode_at_def
      PIPE_HEAD_def PIPE_TAIL_def zone_long_def split: option.split)

lemma wake_readers_pipe [simp]:
  "pipe_ok i (wake_readers i k) = pipe_ok i k" "pipe_bytes i (wake_readers i k) = pipe_bytes i k"
  "pipe_len (inode_at (wake_readers i k) i) = pipe_len (inode_at k i)"
  by (simp_all add: pipe_ok_def pipe_bytes_def pipe_len_def Let_def wake_readers_sel)

lemma pipe_ops_sel:
  "i_count (inode_at (pipe_put i v k) i) = i_count (inode_at k i)" "fsmem (pipe_put i v k) = fsmem k"
  "i_count (inode_at (snd (pipe_get i k)) i) = i_count (inode_at k i)" "fsmem (snd (pipe_get i k)) = fsmem k"
  by (simp_all add: pipe_put_def pipe_get_def Let_def k_simps) (simp add: inode_at_def)

lemma put_fs_byte_pipe:
  "pipe_ok i (put_fs_byte c b k) = pipe_ok i k" "pipe_bytes i (put_fs_byte c b k) = pipe_bytes i k"
  "inode_at (put_fs_byte c b k) i = inode_at k i" "fsmem (put_fs_byte c b k) = (fsmem k)(b := c)"
  by (simp_all add: put_fs_byte_def pipe_ok_def pipe_bytes_def inode_at_def)

text \<open>Into a pipe with enough room: no waiting, the bytes of the caller behind those already there.\<close>

lemma pipe_in_room:
  "pipe_ok i k \<Longrightarrow> length (pipe_bytes i k) + n \<le> 4095 \<Longrightarrow>
    \<exists>k'. pipe_in rest i b n k = Some (b + n, k') \<and> pipe_ok i k' \<and> fsmem k' = fsmem k \<and>
      i_count (inode_at k' i) = i_count (inode_at k i) \<and>
      pipe_bytes i k' = pipe_bytes i k @ map (\<lambda>j. fsmem k (b + j)) [0..<n]"
proof (induction n arbitrary: b k)
  case 0
  then show ?case by (simp add: wake_readers_sel)
next
  case (Suc n)
  let ?k = "wake_readers i (pipe_put i (get_fs_byte k b) k)"
  have room: "length (pipe_bytes i k) < 4095" using Suc.prems(2) by simp
  note P = pipe_put_ring [OF Suc.prems(1) room, of "get_fs_byte k b"]
  have "wait_for_room rest i k = Some (True, k)"
    using PIPE_FULL_len [OF Suc.prems(1)] room by (subst wait_for_room.simps) simp
  then have step: "pipe_in rest i b (Suc n) k = pipe_in rest i (Suc b) n ?k" by simp
  have "pipe_ok i ?k" "length (pipe_bytes i ?k) + n \<le> 4095" using P Suc.prems(2) by simp_all
  from Suc.IH [OF this, of "Suc b"] obtain k' where
    k': "pipe_in rest i (Suc b) n ?k = Some (Suc b + n, k')" "pipe_ok i k'" "fsmem k' = fsmem ?k"
    "i_count (inode_at k' i) = i_count (inode_at ?k i)"
    "pipe_bytes i k' = pipe_bytes i ?k @ map (\<lambda>j. fsmem ?k (Suc b + j)) [0..<n]" by blast
  have "map (\<lambda>j. fsmem k (b + j)) [0..<Suc n] = fsmem k b # map (\<lambda>j. fsmem k (Suc b + j)) [0..<n]"
    by (simp add: upt_conv_Cons map_Suc_upt [symmetric] comp_def del: upt_Suc)
  then show ?case
    using k' P step by (simp add: wake_readers_sel pipe_ops_sel get_fs_byte_def)
qed

lemma pipe_out_gives:
  "pipe_ok i k \<Longrightarrow> n \<le> length (pipe_bytes i k) \<Longrightarrow> \<exists>k'. pipe_out i b n k = (b + n, k') \<and> pipe_ok i k' \<and>
    pipe_bytes i k' = drop n (pipe_bytes i k) \<and>
    (\<forall>a. fsmem k' a = (if b \<le> a \<and> a < b + n then pipe_bytes i k ! (a - b) else fsmem k a))"
proof (induction n arbitrary: b k)
  case (Suc n)
  have ne: "pipe_bytes i k \<noteq> []" using Suc.prems(2) by (auto simp del: length_pipe_bytes)
  note G = pipe_get_ring [OF Suc.prems(1) ne]
  obtain c k1 where g: "pipe_get i k = (c, k1)" by fastforce
  let ?k = "put_fs_byte c b k1"
  have "\<not> PIPE_EMPTY (inode_at k i)" using PIPE_EMPTY_len [OF Suc.prems(1)] Suc.prems(2) by simp
  then have step: "pipe_out i b (Suc n) k = pipe_out i (Suc b) n ?k" by (simp add: g)
  have "pipe_ok i ?k" "n \<le> length (pipe_bytes i ?k)"
    using G Suc.prems(2) by (simp_all add: g put_fs_byte_pipe del: length_pipe_bytes)
  from Suc.IH [OF this, of "Suc b"] obtain k' where
    k': "pipe_out i (Suc b) n ?k = (Suc b + n, k')" "pipe_ok i k'" "pipe_bytes i k' = drop n (pipe_bytes i ?k)"
    "\<And>a. fsmem k' a = (if Suc b \<le> a \<and> a < Suc b + n then pipe_bytes i ?k ! (a - Suc b) else fsmem ?k a)" by blast
  have "fsmem k' a = (if b \<le> a \<and> a < b + Suc n then pipe_bytes i k ! (a - b) else fsmem k a)" for a
    using k'(4) [of a] G g ne pipe_ops_sel(4) [of i k]
    by (cases "pipe_bytes i k") (auto simp: put_fs_byte_pipe nth_Cons' simp del: length_pipe_bytes)
  then show ?case using k'(1-3) G step by (simp add: g put_fs_byte_pipe drop_Suc)
qed auto

text \<open>
  C28: A pipe is first in, first out. Writing \<open>n\<close> bytes to a pipe with a reader and room for them returns \<open>n\<close> at
  once and appends the bytes of the caller; reading \<open>m\<close> bytes, no more than there are, returns \<open>m\<close> at once,
  hands out the oldest bytes in order, writes nothing else to the caller's memory and leaves the rest.
\<close>

theorem pipe_fifo:
  assumes "pipe_ok i k" and "i_count (inode_at k i) = 2" and "length (pipe_bytes i k) + n \<le> 4095"
    and "0 < m" and "m \<le> length (pipe_bytes i k) + n"
  shows "\<exists>k1 k2. write_pipe rest i src (int n) k = Some (int n, k1) \<and>
    pipe_bytes i k1 = pipe_bytes i k @ map (\<lambda>j. fsmem k (src + j)) [0..<n] \<and>
    read_pipe rest i dst (int m) k1 = Some (int m, k2) \<and> pipe_bytes i k2 = drop m (pipe_bytes i k1) \<and>
    (\<forall>a. fsmem k2 a = (if dst \<le> a \<and> a < dst + m then pipe_bytes i k1 ! (a - dst) else fsmem k a))"
proof -
  let ?k = "wake_readers i k"
  have "pipe_ok i ?k" "length (pipe_bytes i ?k) + n \<le> 4095" using assms(1,3) by simp_all
  from pipe_in_room [OF this, of rest src] obtain k1 where
    k1: "pipe_in rest i src n ?k = Some (src + n, k1)" "pipe_ok i k1" "fsmem k1 = fsmem k"
    "pipe_bytes i k1 = pipe_bytes i k @ map (\<lambda>j. fsmem k (src + j)) [0..<n]"
    by (auto simp: wake_readers_sel)
  have w: "write_pipe rest i src (int n) k = Some (int n, k1)"
    using assms(2) k1(1) by (simp add: write_pipe_def wake_readers_sel Let_def)
  have len: "m \<le> length (pipe_bytes i k1)" using assms(5) unfolding k1(4) by simp
  from pipe_out_gives [OF k1(2) len, of dst] obtain k2 where
    k2: "pipe_out i dst m k1 = (dst + m, k2)" "pipe_bytes i k2 = drop m (pipe_bytes i k1)"
    "\<forall>a. fsmem k2 a = (if dst \<le> a \<and> a < dst + m then pipe_bytes i k1 ! (a - dst) else fsmem k1 a)" by blast
  have "wait_for_data rest i k1 = Some (True, k1)"
    using PIPE_EMPTY_len [OF k1(2)] len assms(4) by (subst wait_for_data.simps) simp
  then have "read_pipe rest i dst (int m) k1 = Some (int m, wake_readers i k2)"
    using k2(1) by (simp add: read_pipe_def)
  then show ?thesis
    using w k1(3,4) k2(2,3) by (intro exI [of _ k1] exI [of _ "wake_readers i k2"]) (simp add: wake_readers_sel)
qed

text \<open>A pipe in inode 0 with its page at the lowest free address; the memory of the caller holds its addresses.\<close>

definition pipe_kernel :: kernel where
  "pipe_kernel = on_inode 0 (\<lambda>n. n\<lparr>i_pipe := 1, i_count := 2, i_size := LOW_MEM\<rparr>) file_kernel"

theorem pipe_fifo_witness:
  "\<exists>k1 k2. write_pipe Some 0 65 3 (on_inode 0 (\<lambda>n. n\<lparr>i_zone := (\<lambda>_. 0)\<rparr>) pipe_kernel) = Some (3, k1) \<and>
     read_pipe Some 0 100 2 k1 = Some (2, k2) \<and> fsmem k2 100 = 65 \<and> fsmem k2 101 = 66 \<and> fsmem k2 102 = 102"
proof -
  let ?k = "on_inode 0 (\<lambda>n. n\<lparr>i_zone := (\<lambda>_. 0)\<rparr>) pipe_kernel"
  have k: "pipe_ok 0 ?k" "i_count (inode_at ?k 0) = 2" "pipe_bytes 0 ?k = []" "fsmem ?k = of_nat"
    by (simp_all add: pipe_ok_def pipe_bytes_def pipe_len_def PIPE_HEAD_def PIPE_TAIL_def zone_long_def pipe_kernel_def
        k_simps file_kernel_state(5))
  from pipe_fifo [OF k(1,2), of 3 2 Some 65 100] obtain k1 k2 where
    r: "write_pipe Some 0 65 (int 3) ?k = Some (int 3, k1)" "pipe_bytes 0 k1 = map (\<lambda>j. of_nat (65 + j)) [0..<3]"
    "read_pipe Some 0 100 (int 2) k1 = Some (int 2, k2)"
    "\<forall>a. fsmem k2 a = (if 100 \<le> a \<and> a < 100 + 2 then pipe_bytes 0 k1 ! (a - 100) else fsmem ?k a)"
    by (auto simp: k)
  then show ?thesis
    using r(4) [rule_format, of 100] r(4) [rule_format, of 101] r(4) [rule_format, of 102]
    by (intro exI [of _ k1] exI [of _ k2]) (simp add: k(4))
qed

end
