(* ===== verification/Ctype.thy ===== *)
theory Ctype
  imports Prelude
begin

text \<open>
  \<^verbatim>\<open>lib/ctype.c\<close> and \<^verbatim>\<open>include/ctype.h\<close>: the table of character classes and the macros that read it. A macro
  applied to a \<^verbatim>\<open>char\<close> below -1 reads in front of the table: that has no meaning in C and is \<open>None\<close> here.
\<close>

abbreviation UU :: byte where "UU \<equiv> 0x01"
abbreviation LL :: byte where "LL \<equiv> 0x02"
abbreviation DD :: byte where "DD \<equiv> 0x04"
abbreviation CC :: byte where "CC \<equiv> 0x08"
abbreviation PP :: byte where "PP \<equiv> 0x10"
abbreviation SS :: byte where "SS \<equiv> 0x20"
abbreviation XX :: byte where "XX \<equiv> 0x40"
abbreviation HH :: byte where "HH \<equiv> 0x80"

text \<open>\<^verbatim>\<open>_ctype\<close>, line by line; the first entry is that of \<^verbatim>\<open>EOF\<close>.\<close>

definition ctype_table :: "byte list" where
  "ctype_table = [0] @
    [CC, CC, CC, CC, CC, CC, CC, CC] @
    [CC, CC OR SS, CC OR SS, CC OR SS, CC OR SS, CC OR SS, CC, CC] @
    [CC, CC, CC, CC, CC, CC, CC, CC] @
    [CC, CC, CC, CC, CC, CC, CC, CC] @
    [SS OR HH, PP, PP, PP, PP, PP, PP, PP] @
    [PP, PP, PP, PP, PP, PP, PP, PP] @
    [DD, DD, DD, DD, DD, DD, DD, DD] @
    [DD, DD, PP, PP, PP, PP, PP, PP] @
    [PP, UU OR XX, UU OR XX, UU OR XX, UU OR XX, UU OR XX, UU OR XX, UU] @
    [UU, UU, UU, UU, UU, UU, UU, UU] @
    [UU, UU, UU, UU, UU, UU, UU, UU] @
    [UU, UU, UU, PP, PP, PP, PP, PP] @
    [PP, LL OR XX, LL OR XX, LL OR XX, LL OR XX, LL OR XX, LL OR XX, LL] @
    [LL, LL, LL, LL, LL, LL, LL, LL] @
    [LL, LL, LL, LL, LL, LL, LL, LL] @
    [LL, LL, LL, PP, PP, PP, PP, CC] @
    replicate 128 0"

text \<open>\<^verbatim>\<open>(_ctype+1)[c]\<close> for a \<^verbatim>\<open>char\<close> and the classes.\<close>

definition ctype_of :: "byte \<Rightarrow> byte option" where
  "ctype_of c = (if - 1 \<le> sint c then Some (ctype_table ! nat (sint c + 1)) else None)"

definition in_class :: "byte \<Rightarrow> byte \<Rightarrow> bool option" where
  "in_class m c = map_option (\<lambda>t. t AND m \<noteq> 0) (ctype_of c)"

definition isalnum :: "byte \<Rightarrow> bool option" where "isalnum = in_class (UU OR LL OR DD)"
definition isalpha :: "byte \<Rightarrow> bool option" where "isalpha = in_class (UU OR LL)"
definition iscntrl :: "byte \<Rightarrow> bool option" where "iscntrl = in_class CC"
definition isdigit :: "byte \<Rightarrow> bool option" where "isdigit = in_class DD"
definition isgraph :: "byte \<Rightarrow> bool option" where "isgraph = in_class (PP OR UU OR LL OR DD)"
definition islower :: "byte \<Rightarrow> bool option" where "islower = in_class LL"
definition isprint :: "byte \<Rightarrow> bool option" where "isprint = in_class (PP OR UU OR LL OR DD OR HH)"
definition ispunct :: "byte \<Rightarrow> bool option" where "ispunct = in_class PP"
definition isspace :: "byte \<Rightarrow> bool option" where "isspace = in_class SS"
definition isupper :: "byte \<Rightarrow> bool option" where "isupper = in_class UU"
definition isxdigit :: "byte \<Rightarrow> bool option" where "isxdigit = in_class (DD OR XX)"

definition isascii :: "u32 \<Rightarrow> bool" where "isascii c \<longleftrightarrow> c \<le> 0x7f"
definition toascii :: "u32 \<Rightarrow> u32" where "toascii c = c AND 0x7f"

text \<open>Note the sum of \<^verbatim>\<open>'a'\<close> and \<^verbatim>\<open>'A'\<close> in \<^verbatim>\<open>tolower\<close>, where \<^verbatim>\<open>toupper\<close> has a difference.\<close>

definition tolower :: "byte \<Rightarrow> int option" where
  "tolower c = map_option (\<lambda>u. if u then sint c + (97 + 65) else sint c) (isupper c)"

definition toupper :: "byte \<Rightarrow> int option" where
  "toupper c = map_option (\<lambda>l. if l then sint c + (65 - 97) else sint c) (islower c)"

section \<open>Lemmas\<close>

lemma ascii_nat: "0 \<le> sint (c :: byte) \<Longrightarrow> nat (sint c) \<in> set [0..<128] \<and> c = of_nat (nat (sint c))"
proof -
  have "sint c < 128" using sint_lt [of c] by simp
  moreover have "of_int (sint c) = c" by simp
  ultimately show "0 \<le> sint c \<Longrightarrow> nat (sint c) \<in> set [0..<128] \<and> c = of_nat (nat (sint c))"
    by (simp only: of_nat_nat set_upt atLeastLessThan_iff) (simp add: nat_less_iff)
qed

lemma ascii_cases:
  assumes "list_all (\<lambda>n. P (of_nat n) (int n)) [0..<128]" and "0 \<le> sint (c :: byte)"
  shows "P c (sint c)"
  using assms(1) ascii_nat [OF assms(2)] assms(2) unfolding list_all_iff by (metis int_nat_eq)

text \<open>On ASCII characters \<^verbatim>\<open>toupper\<close> is what its name says; \<^verbatim>\<open>tolower\<close> leaves ASCII.\<close>

lemma toupper_ascii:
  "0 \<le> sint c \<Longrightarrow> toupper c = Some (if 97 \<le> sint c \<and> sint c \<le> 122 then sint c - 32 else sint c)"
  by (rule ascii_cases [where P = "\<lambda>c i. toupper c = Some (if 97 \<le> i \<and> i \<le> 122 then i - 32 else i)"], code_simp)

lemma tolower_ascii:
  "0 \<le> sint c \<Longrightarrow> tolower c = Some (if 65 \<le> sint c \<and> sint c \<le> 90 then sint c + 162 else sint c)"
  by (rule ascii_cases [where P = "\<lambda>c i. tolower c = Some (if 65 \<le> i \<and> i \<le> 90 then i + 162 else i)"], code_simp)

end
