(* ===== verification/Tty.thy ===== *)
theory Tty
  imports Pipe Ctype
begin

text \<open>
  The terminals: \<^verbatim>\<open>kernel/tty_io.c\<close> and the queue side of \<^verbatim>\<open>con_write\<close> in \<^verbatim>\<open>kernel/console.c\<close>.

  \<^verbatim>\<open>copy_to_cooked\<close> echoes with \<^verbatim>\<open>tty->write\<close>; on the console that is \<^verbatim>\<open>con_write\<close>, whose answer to ESC Z calls
  \<^verbatim>\<open>copy_to_cooked\<close> again. The routines between the two calls take the inner one as the argument \<open>cooked\<close>.
  \<^verbatim>\<open>rs_write\<close> is assembly that only enables an interrupt of the serial chip. What other processes do while one
  sleeps is the parameter \<open>rest\<close> of theory Pipe.
\<close>

section \<open>Terminals\<close>

definition tty_at :: "kernel \<Rightarrow> nat \<Rightarrow> tty_struct" where
  "tty_at k ch = tty_table k ch"

definition on_tty :: "nat \<Rightarrow> (tty_struct \<Rightarrow> tty_struct) \<Rightarrow> kernel \<Rightarrow> kernel" where
  "on_tty ch f k = k\<lparr>tty_table := (tty_table k)(ch := f (tty_table k ch))\<rparr>"

definition L_CANON :: "termios \<Rightarrow> bool" where "L_CANON tm \<longleftrightarrow> c_lflag tm AND 2 \<noteq> 0"
definition L_ISIG :: "termios \<Rightarrow> bool" where "L_ISIG tm \<longleftrightarrow> c_lflag tm AND 1 \<noteq> 0"
definition L_ECHO :: "termios \<Rightarrow> bool" where "L_ECHO tm \<longleftrightarrow> c_lflag tm AND 8 \<noteq> 0"
definition L_ECHOCTL :: "termios \<Rightarrow> bool" where "L_ECHOCTL tm \<longleftrightarrow> c_lflag tm AND 0x200 \<noteq> 0"
definition I_UCLC :: "termios \<Rightarrow> bool" where "I_UCLC tm \<longleftrightarrow> c_iflag tm AND 0x200 \<noteq> 0"
definition I_NLCR :: "termios \<Rightarrow> bool" where "I_NLCR tm \<longleftrightarrow> c_iflag tm AND 0x40 \<noteq> 0"
definition I_CRNL :: "termios \<Rightarrow> bool" where "I_CRNL tm \<longleftrightarrow> c_iflag tm AND 0x100 \<noteq> 0"
definition I_NOCR :: "termios \<Rightarrow> bool" where "I_NOCR tm \<longleftrightarrow> c_iflag tm AND 0x80 \<noteq> 0"
definition O_POST :: "termios \<Rightarrow> bool" where "O_POST tm \<longleftrightarrow> c_oflag tm AND 1 \<noteq> 0"
definition O_NLCR :: "termios \<Rightarrow> bool" where "O_NLCR tm \<longleftrightarrow> c_oflag tm AND 4 \<noteq> 0"
definition O_CRNL :: "termios \<Rightarrow> bool" where "O_CRNL tm \<longleftrightarrow> c_oflag tm AND 8 \<noteq> 0"
definition O_NLRET :: "termios \<Rightarrow> bool" where "O_NLRET tm \<longleftrightarrow> c_oflag tm AND 0x20 \<noteq> 0"
definition O_LCUC :: "termios \<Rightarrow> bool" where "O_LCUC tm \<longleftrightarrow> c_oflag tm AND 2 \<noteq> 0"

text \<open>A control character is an \<^verbatim>\<open>unsigned char\<close> and is compared with a \<^verbatim>\<open>signed char\<close>.\<close>

abbreviation VINTR :: nat where "VINTR \<equiv> 0"
abbreviation VERASE :: nat where "VERASE \<equiv> 2"
abbreviation VEOF :: nat where "VEOF \<equiv> 4"
abbreviation VTIME :: nat where "VTIME \<equiv> 5"
abbreviation VMIN :: nat where "VMIN \<equiv> 6"
abbreviation VSTART :: nat where "VSTART \<equiv> 8"
abbreviation VSTOP :: nat where "VSTOP \<equiv> 9"

definition is_cc :: "nat \<Rightarrow> termios \<Rightarrow> byte \<Rightarrow> bool" where
  "is_cc v tm c \<longleftrightarrow> sint c = uint (c_cc tm v)"

definition put_write :: "nat \<Rightarrow> byte \<Rightarrow> kernel \<Rightarrow> kernel" where
  "put_write ch c k = on_tty ch (\<lambda>t. t\<lparr>write_q := PUTCH c (write_q t)\<rparr>) k"

abbreviation SIGINT :: nat where "SIGINT \<equiv> 2"

definition tty_intr :: "nat \<Rightarrow> nat \<Rightarrow> kernel \<Rightarrow> kernel" where
  "tty_intr ch sig k =
     (if pgrp (tty_at k ch) \<le> 0 then k
      else k\<lparr>task := (\<lambda>i. if i < NR_TASKS
               then map_option (\<lambda>t. if sint (t_pgrp t) = pgrp (tty_at k ch)
                                    then t\<lparr>t_signal := t_signal t OR sig_bit sig\<rparr> else t) (task k i)
               else task k i)\<rparr>)"

section \<open>Output to the console\<close>

definition on_con :: "(console \<Rightarrow> console) \<Rightarrow> kernel \<Rightarrow> kernel" where
  "on_con f k = k\<lparr>con := f (con k)\<rparr>"

text \<open>\<^verbatim>\<open>RESPONSE\<close> is ESC [ ? 1 ; 2 c.\<close>

definition RESPONSE :: "byte list" where
  "RESPONSE = [27, 91, 63, 49, 59, 50, 99]"

definition respond :: "(kernel \<Rightarrow> kernel option) \<Rightarrow> nat \<Rightarrow> kernel \<Rightarrow> kernel option" where
  "respond cooked ch k = cooked (on_tty ch (\<lambda>t. t\<lparr>read_q := fold PUTCH RESPONSE (read_q t)\<rparr>) k)"

definition IS_VISIBLE :: "u32 \<Rightarrow> bool" where
  "IS_VISIBLE s \<longleftrightarrow> s AND 1 \<noteq> 0"

primrec con_loop :: "(kernel \<Rightarrow> kernel option) \<Rightarrow> nat \<Rightarrow> nat \<Rightarrow> kernel \<Rightarrow> kernel option" where
  "con_loop cooked ch 0 k = Some k"
| "con_loop cooked ch (Suc nr) k =
     (let (c, q) = GETCH (write_q (tty_at k ch)); k = on_tty ch (\<lambda>t. t\<lparr>write_q := q\<rparr>) k in
      do { (ask, cn) \<leftarrow> con_char (IS_VISIBLE (settings (tty_at k ch))) (c_cc (termios (tty_at k ch)) VERASE) c (con k);
           k \<leftarrow> (if ask then respond cooked ch (k\<lparr>con := cn\<rparr>) else Some (k\<lparr>con := cn\<rparr>));
           con_loop cooked ch nr k })"

definition con_write :: "(kernel \<Rightarrow> kernel option) \<Rightarrow> nat \<Rightarrow> kernel \<Rightarrow> kernel option" where
  "con_write cooked ch k =
     map_option (on_con set_cursor) (con_loop cooked ch (unat (CHARS (write_q (tty_at k ch)))) k)"

text \<open>\<^verbatim>\<open>tty->write(tty)\<close>.\<close>

definition tty_out :: "(kernel \<Rightarrow> kernel option) \<Rightarrow> nat \<Rightarrow> kernel \<Rightarrow> kernel option" where
  "tty_out cooked ch k = (case writer (tty_at k ch) of Con_write \<Rightarrow> con_write cooked ch k | Rs_write \<Rightarrow> Some k)"

section \<open>Input\<close>

text \<open>The input flags: what becomes of a character, nothing if it is dropped.\<close>

definition in_char :: "termios \<Rightarrow> byte \<Rightarrow> byte option option" where
  "in_char tm c =
     (let low = (\<lambda>c. if I_UCLC tm then map_option (\<lambda>v. Some (word_of_int v)) (tolower c) else Some (Some c)) in
      if c = 13 then if I_CRNL tm then low 10 else if I_NOCR tm then Some None else low c
      else if c = 10 \<and> I_NLCR tm then low 13
      else low c)"

text \<open>The control characters of canonical mode; the flag says that the character is used up.\<close>

definition erase_char :: "(kernel \<Rightarrow> kernel option) \<Rightarrow> nat \<Rightarrow> kernel \<Rightarrow> kernel option" where
  "erase_char out ch k =
     (let t = tty_at k ch; l = LAST (secondary t) in
      if EMPTY (secondary t) \<or> l = 10 \<or> is_cc VEOF (termios t) l then Some k
      else do { k \<leftarrow> (if L_ECHO (termios t)
                      then out (put_write ch 127 (if l <s 32 then put_write ch 127 k else k)) else Some k);
                Some (on_tty ch (\<lambda>t. t\<lparr>secondary := drop_last (secondary t)\<rparr>) k) })"

definition canon_char :: "(kernel \<Rightarrow> kernel option) \<Rightarrow> nat \<Rightarrow> byte \<Rightarrow> kernel \<Rightarrow> (bool \<times> kernel) option" where
  "canon_char out ch c k =
     (let tm = termios (tty_at k ch) in
      if \<not> L_CANON tm then Some (False, k)
      else if is_cc VERASE tm c then map_option (Pair True) (erase_char out ch k)
      else if is_cc VSTOP tm c then Some (True, on_tty ch (\<lambda>t. t\<lparr>stopped := 1\<rparr>) k)
      else if is_cc VSTART tm c then Some (True, on_tty ch (\<lambda>t. t\<lparr>stopped := 0\<rparr>) k)
      else Some (False, k))"

definition echo_char :: "(kernel \<Rightarrow> kernel option) \<Rightarrow> nat \<Rightarrow> byte \<Rightarrow> kernel \<Rightarrow> kernel option" where
  "echo_char out ch c k =
     (let tm = termios (tty_at k ch) in
      if \<not> L_ECHO tm then Some k
      else out (if c = 10 then put_write ch 13 (put_write ch 10 k)
                else if c <s 32 then if L_ECHOCTL tm then put_write ch (c + 64) (put_write ch 94 k) else k
                else put_write ch c k))"

text \<open>The body of the loop for the character \<open>c\<close>. Note that the interrupt character counts when \<^verbatim>\<open>ISIG\<close> is off.\<close>

definition cook_char :: "(kernel \<Rightarrow> kernel option) \<Rightarrow> nat \<Rightarrow> byte \<Rightarrow> kernel \<Rightarrow> kernel option" where
  "cook_char out ch c k =
     do { c \<leftarrow> in_char (termios (tty_at k ch)) c;
          case c of None \<Rightarrow> Some k
          | Some c \<Rightarrow> do {
              (used, k) \<leftarrow> canon_char out ch c k;
              if used then Some k
              else let tm = termios (tty_at k ch) in
                if \<not> L_ISIG tm \<and> is_cc VINTR tm c then Some (tty_intr ch SIGINT k)
                else do {
                  let k = (if c = 10 \<or> is_cc VEOF tm c
                           then on_tty ch (\<lambda>t. t\<lparr>secondary := (secondary t)\<lparr>q_data := q_data (secondary t) + 1\<rparr>\<rparr>) k
                           else k);
                  k \<leftarrow> echo_char out ch c k;
                  Some (on_tty ch (\<lambda>t. t\<lparr>secondary := PUTCH c (secondary t)\<rparr>) k) } } }"

definition wake_cooked :: "nat \<Rightarrow> kernel \<Rightarrow> kernel" where
  "wake_cooked ch k =
     (let (head, k) = wake_up (q_proc_list (secondary (tty_at k ch))) k
      in on_tty ch (\<lambda>t. t\<lparr>secondary := (secondary t)\<lparr>q_proc_list := head\<rparr>\<rparr>) k)"

text \<open>The routines above are monotone in the inner call, so the loop through them is well defined.\<close>

lemma con_loop_mono [partial_function_mono]:
  "(\<And>k. mono_option (\<lambda>f. C f k)) \<Longrightarrow> mono_option (\<lambda>f. con_loop (C f) ch nr k)"
proof (induction nr arbitrary: k)
  case (Suc nr)
  show ?case
    unfolding con_loop.simps Let_def respond_def case_prod_unfold
    by (intro partial_function_mono Suc)
qed (simp add: partial_function_mono)

lemma tty_out_mono [partial_function_mono]:
  "(\<And>k. mono_option (\<lambda>f. C f k)) \<Longrightarrow> mono_option (\<lambda>f. tty_out (C f) ch k)"
  unfolding tty_out_def con_write_def map_conv_bind_option
  by (cases "writer (tty_at k ch)") (simp_all only: tty_writer.case, (intro partial_function_mono; assumption)+)

lemma erase_char_mono [partial_function_mono]:
  "(\<And>k. mono_option (\<lambda>f. C f k)) \<Longrightarrow> mono_option (\<lambda>f. erase_char (C f) ch k)"
  unfolding erase_char_def Let_def by (intro partial_function_mono)

lemma canon_char_mono [partial_function_mono]:
  "(\<And>k. mono_option (\<lambda>f. C f k)) \<Longrightarrow> mono_option (\<lambda>f. canon_char (C f) ch c k)"
  unfolding canon_char_def map_conv_bind_option Let_def by (intro partial_function_mono)

lemma echo_char_mono [partial_function_mono]:
  "(\<And>k. mono_option (\<lambda>f. C f k)) \<Longrightarrow> mono_option (\<lambda>f. echo_char (C f) ch c k)"
  unfolding echo_char_def Let_def by (cases "L_ECHO (termios (tty_at k ch))") (simp_all add: option.const_mono)

lemma cook_char_mono [partial_function_mono]:
  assumes "\<And>k. mono_option (\<lambda>f. C f k)"
  shows "mono_option (\<lambda>f. cook_char (C f) ch c k)"
  unfolding cook_char_def case_prod_unfold Let_def
  apply (intro partial_function_mono)
  subgoal for y by (cases y) (simp_all only: option.case, (intro partial_function_mono assms)+)
  done

partial_function (option) copy_to_cooked :: "nat \<Rightarrow> kernel \<Rightarrow> kernel option" where
  "copy_to_cooked ch k =
     (if EMPTY (read_q (tty_at k ch)) \<or> FULL (secondary (tty_at k ch)) then Some (wake_cooked ch k)
      else let (c, q) = GETCH (read_q (tty_at k ch)) in
        do { k \<leftarrow> cook_char (tty_out (copy_to_cooked ch) ch) ch c (on_tty ch (\<lambda>t. t\<lparr>read_q := q\<rparr>) k);
             copy_to_cooked ch k })"

definition do_tty_interrupt :: "nat \<Rightarrow> kernel \<Rightarrow> kernel option" where
  "do_tty_interrupt ch k = copy_to_cooked ch k"

section \<open>Waiting for a terminal\<close>

definition put_sec_wait :: "nat \<Rightarrow> nat option \<Rightarrow> kernel \<Rightarrow> kernel" where
  "put_sec_wait ch head k = on_tty ch (\<lambda>t. t\<lparr>secondary := (secondary t)\<lparr>q_proc_list := head\<rparr>\<rparr>) k"

definition put_write_wait :: "nat \<Rightarrow> nat option \<Rightarrow> kernel \<Rightarrow> kernel" where
  "put_write_wait ch head k = on_tty ch (\<lambda>t. t\<lparr>write_q := (write_q t)\<lparr>q_proc_list := head\<rparr>\<rparr>) k"

text \<open>\<^verbatim>\<open>interruptible_sleep_on(&head)\<close> for a queue head read by \<open>get\<close> and stored by \<open>put\<close>.\<close>

partial_function (option) isleep_resume ::
  "world \<Rightarrow> (kernel \<Rightarrow> nat option) \<Rightarrow> (nat option \<Rightarrow> kernel \<Rightarrow> kernel) \<Rightarrow> nat option \<Rightarrow> kernel \<Rightarrow> kernel option" where
  "isleep_resume rest get put tmp k =
     do { r \<leftarrow> interruptible_sleep_on_resume tmp (get k) k;
          case r of Inl k \<Rightarrow> do { k \<leftarrow> rest k; isleep_resume rest get put tmp k }
                  | Inr (head, k) \<Rightarrow> Some (put head k) }"

definition interruptible_sleep_on ::
  "world \<Rightarrow> (kernel \<Rightarrow> nat option) \<Rightarrow> (nat option \<Rightarrow> kernel \<Rightarrow> kernel) \<Rightarrow> kernel \<Rightarrow> kernel option" where
  "interruptible_sleep_on rest get put k =
     do { (tmp, new, k) \<leftarrow> interruptible_sleep_on_enter (get k) k;
          k \<leftarrow> rest (put new k);
          isleep_resume rest get put tmp k }"

abbreviation signals :: "kernel \<Rightarrow> u32" where "signals k \<equiv> t_signal (cur k)"

partial_function (option) sleep_if_empty :: "world \<Rightarrow> nat \<Rightarrow> kernel \<Rightarrow> kernel option" where
  "sleep_if_empty rest ch k =
     (if signals k = 0 \<and> EMPTY (secondary (tty_at k ch))
      then do { k \<leftarrow> interruptible_sleep_on rest (\<lambda>k. q_proc_list (secondary (tty_at k ch))) (put_sec_wait ch) k;
                sleep_if_empty rest ch k }
      else Some k)"

partial_function (option) wait_room :: "world \<Rightarrow> nat \<Rightarrow> kernel \<Rightarrow> kernel option" where
  "wait_room rest ch k =
     (if signals k = 0 \<and> LEFT (write_q (tty_at k ch)) < 128
      then do { k \<leftarrow> interruptible_sleep_on rest (\<lambda>k. q_proc_list (write_q (tty_at k ch))) (put_write_wait ch) k;
                wait_room rest ch k }
      else Some k)"

definition sleep_if_full :: "world \<Rightarrow> nat \<Rightarrow> kernel \<Rightarrow> kernel option" where
  "sleep_if_full rest ch k = (if \<not> FULL (write_q (tty_at k ch)) then Some k else wait_room rest ch k)"

section \<open>Reading\<close>

abbreviation ALRMMASK :: u32 where "ALRMMASK \<equiv> 0x2000"

definition set_alarm :: "u32 \<Rightarrow> kernel \<Rightarrow> kernel" where
  "set_alarm a k = on_cur (\<lambda>t. t\<lparr>t_alarm := a\<rparr>) k"

text \<open>The characters taken at once: was it an end of file, where the buffer has got to, what is still wanted.\<close>

primrec read_some :: "nat \<Rightarrow> nat \<Rightarrow> nat \<Rightarrow> kernel \<Rightarrow> bool \<times> nat \<times> nat \<times> kernel" where
  "read_some ch b 0 k = (False, b, 0, k)"
| "read_some ch b (Suc nr) k =
     (let (c, q) = GETCH (secondary (tty_at k ch)); tm = termios (tty_at k ch);
          q = (if is_cc VEOF tm c \<or> c = 10 then q\<lparr>q_data := q_data q - 1\<rparr> else q);
          k = on_tty ch (\<lambda>t. t\<lparr>secondary := q\<rparr>) k in
      if is_cc VEOF tm c \<and> L_CANON tm then (True, b, Suc nr, k)
      else let k = put_fs_byte c b k in
        if nr = 0 \<or> EMPTY (secondary (tty_at k ch)) then (False, Suc b, nr, k)
        else read_some ch (Suc b) nr k)"

definition re_alarm :: "nat \<Rightarrow> u32 \<Rightarrow> u32 \<Rightarrow> bool \<Rightarrow> kernel \<Rightarrow> bool \<times> kernel" where
  "re_alarm ch oldalarm time flag k =
     (if time \<noteq> 0 \<and> \<not> L_CANON (termios (tty_at k ch)) then
        if oldalarm = 0 \<or> time + jiffies k <s oldalarm then (True, set_alarm (time + jiffies k) k)
        else (False, set_alarm oldalarm k)
      else (flag, k))"

text \<open>
  The loop of \<^verbatim>\<open>tty_read\<close>. Interrupts are enabled in it, except in \<^verbatim>\<open>sleep_if_empty\<close>: \<open>intr\<close> is what they do to the state
  from one round to the next.
\<close>

partial_function (option) read_loop ::
  "world \<Rightarrow> world \<Rightarrow> nat \<Rightarrow> u32 \<Rightarrow> u32 \<Rightarrow> nat \<Rightarrow> nat \<Rightarrow> bool \<Rightarrow> nat \<Rightarrow> nat \<Rightarrow> kernel \<Rightarrow> (bool \<times> nat \<times> kernel) option" where
  "read_loop rest intr ch oldalarm time minimum b0 flag b nr k =
     (if nr = 0 then Some (False, b, k)
      else if flag \<and> signals k AND ALRMMASK \<noteq> 0
      then Some (False, b, on_cur (\<lambda>t. t\<lparr>t_signal := t_signal t AND NOT ALRMMASK\<rparr>) k)
      else if signals k \<noteq> 0 then Some (False, b, k)
      else let t = tty_at k ch in
        if EMPTY (secondary t) \<or> L_CANON (termios t) \<and> q_data (secondary t) = 0 \<and> 20 < LEFT (secondary t)
        then do { k \<leftarrow> sleep_if_empty rest ch k;
                  k \<leftarrow> intr k;
                  read_loop rest intr ch oldalarm time minimum b0 flag b nr k }
        else let (eof, b, nr, k) = read_some ch b nr k in
          if eof then Some (True, b, k)
          else let (flag, k) = re_alarm ch oldalarm time flag k in
            if (if L_CANON (termios (tty_at k ch)) then b \<noteq> b0 else minimum \<le> b - b0) then Some (False, b, k)
            else do { k \<leftarrow> intr k; read_loop rest intr ch oldalarm time minimum b0 flag b nr k })"

definition tty_read :: "world \<Rightarrow> world \<Rightarrow> nat \<Rightarrow> nat \<Rightarrow> int \<Rightarrow> kernel \<Rightarrow> (int \<times> kernel) option" where
  "tty_read rest intr ch b0 nr k =
     (if 2 < ch \<or> nr < 0 then Some (- 1, k)
      else let tm = termios (tty_at k ch); oldalarm = t_alarm (cur k);
               time = 10 * ucast (c_cc tm VTIME); minimum = unat (c_cc tm VMIN);
               timed = time \<noteq> 0 \<and> minimum = 0;
               flag = timed \<and> (oldalarm = 0 \<or> time + jiffies k <s oldalarm);
               k = (if flag then set_alarm (time + jiffies k) k else k);
               minimum = (if timed then 1 else minimum) in
           do { (eof, b, k) \<leftarrow> read_loop rest intr ch oldalarm time (min minimum (nat nr)) b0 flag b0 (nat nr) k;
                if eof then Some (int b - int b0, k)
                else let k = set_alarm oldalarm k in
                  Some (if signals k \<noteq> 0 \<and> b = b0 then - EINTR else int b - int b0, k) })"

section \<open>Writing\<close>

text \<open>The output flags: the character that goes out, and whether a carriage return goes out in its place first.\<close>

definition out_char :: "termios \<Rightarrow> int \<Rightarrow> byte \<Rightarrow> (bool \<times> byte) option" where
  "out_char tm crf c =
     (if \<not> O_POST tm then Some (False, c)
      else let c = (if c = 13 \<and> O_CRNL tm then 10 else if c = 10 \<and> O_NLRET tm then 13 else c) in
        if c = 10 \<and> crf = 0 \<and> O_NLCR tm then Some (True, 13)
        else if O_LCUC tm then map_option (\<lambda>v. (False, word_of_int v)) (toupper c)
        else Some (False, c))"

function fill_write :: "nat \<Rightarrow> nat \<Rightarrow> nat \<Rightarrow> kernel \<Rightarrow> (nat \<times> nat \<times> kernel) option" where
  "fill_write ch b nr k =
     (if nr = 0 \<or> FULL (write_q (tty_at k ch)) then Some (b, nr, k)
      else case out_char (termios (tty_at k ch)) (cr_flag k) (get_fs_byte k b) of
        None \<Rightarrow> None
      | Some (True, c) \<Rightarrow> fill_write ch b nr (put_write ch c (k\<lparr>cr_flag := 1\<rparr>))
      | Some (False, c) \<Rightarrow> fill_write ch (b + 1) (nr - 1) (put_write ch c (k\<lparr>cr_flag := 0\<rparr>)))"
  by pat_completeness auto

lemma cr_flag_put_write [simp]: "cr_flag (put_write ch c k) = cr_flag k"
  by (simp add: put_write_def on_tty_def)

lemma out_char_cr: "out_char tm crf c = Some (True, d) \<Longrightarrow> crf = 0"
  by (auto simp: out_char_def Let_def split: if_splits)

termination fill_write
  by (relation "measure (\<lambda>(ch, b, nr, k). 2 * nr + (if cr_flag k = 0 then 1 else 0))")
    (auto dest: out_char_cr)

declare fill_write.simps [simp del]

partial_function (option) write_loop :: "world \<Rightarrow> nat \<Rightarrow> nat \<Rightarrow> nat \<Rightarrow> kernel \<Rightarrow> (nat \<times> kernel) option" where
  "write_loop rest ch b nr k =
     (if nr = 0 then Some (b, k)
      else do {
        k \<leftarrow> sleep_if_full rest ch k;
        if signals k \<noteq> 0 then Some (b, k)
        else do {
          (b, nr, k) \<leftarrow> fill_write ch b nr k;
          k \<leftarrow> tty_out (copy_to_cooked ch) ch k;
          k \<leftarrow> (if 0 < nr then do { k \<leftarrow> schedule k; rest k } else Some k);
          write_loop rest ch b nr k } })"

definition tty_write :: "world \<Rightarrow> nat \<Rightarrow> nat \<Rightarrow> int \<Rightarrow> kernel \<Rightarrow> (int \<times> kernel) option" where
  "tty_write rest ch b0 nr k =
     (if 2 < ch \<or> nr < 0 then Some (- 1, k)
      else do { (b, k) \<leftarrow> write_loop rest ch b0 (nat nr) k; Some (int b - int b0, k) })"

section \<open>The end of a queue\<close>

lemma queue_last:
  assumes "queue_ok q" and "queue_chars q \<noteq> []"
  shows "LAST q = last (queue_chars q)" "queue_chars (drop_last q) = butlast (queue_chars q)"
proof -
  let ?h = "unat (q_head q)" and ?t = "unat (q_tail q)" and ?n = "chars_in q"
  have h: "?h < 1024" "?t < 1024" using assms(1) by (simp_all add: queue_ok_def)
  obtain m where n: "?n = Suc m" using assms(2) by (cases ?n) (simp_all add: queue_chars_def)
  have "?h = ?t + Suc m \<or> ?h + 1024 = ?t + Suc m" using h n by (auto simp: chars_in_def mod_if split: if_splits)
  then have m: "(?t + m) mod 1024 = (?h + 1023) mod 1024"
  proof
    assume "?h = ?t + Suc m"
    then have "?h + 1023 = ?t + m + 1024" by simp
    then show ?thesis by (simp only: mod_add_self2)
  next
    assume "?h + 1024 = ?t + Suc m"
    then have "?t + m = ?h + 1023" by simp
    then show ?thesis by (simp only:)
  qed
  have "unat (1023 AND (q_head q - 1)) = (?h + 1023) mod 1024"
    using unat_DEC [OF h(1)] by (simp add: DEC_def and.commute)
  then show "LAST q = last (queue_chars q)" using n m by (simp add: LAST_def queue_chars_def)
  have "m < 1024" using n chars_in_less [of q] by simp
  moreover have dl: "q_head (drop_last q) = DEC (q_head q)" "q_tail (drop_last q) = q_tail q" by (simp_all add: drop_last_def)
  have "chars_in (drop_last q) = ((?t + m) mod 1024 + 1024 - ?t) mod 1024"
    by (simp only: chars_in_def dl unat_DEC [OF h(1)] m)
  ultimately have "chars_in (drop_last q) = m" using h by (auto simp: mod_if)
  then show "queue_chars (drop_last q) = butlast (queue_chars q)"
    using n by (simp add: queue_chars_def) (simp add: drop_last_def)
qed

section \<open>What a terminal does to what is typed\<close>

text \<open>
  The line discipline on lists: the line under construction, the number of line ends in it, whether output is
  stopped, what has been echoed, and whether the interrupt character has been seen.
\<close>

record line =
  l_cooked :: "byte list"
  l_ends :: u32
  l_stopped :: int
  l_echoed :: "byte list"
  l_intr :: bool

definition echo_of :: "termios \<Rightarrow> byte \<Rightarrow> byte list" where
  "echo_of tm c =
     (if \<not> L_ECHO tm then []
      else if c = 10 then [10, 13]
      else if c <s 32 then if L_ECHOCTL tm then [94, c + 64] else []
      else [c])"

definition rub_out :: "termios \<Rightarrow> line \<Rightarrow> line" where
  "rub_out tm l =
     (if l_cooked l = [] \<or> last (l_cooked l) = 10 \<or> is_cc VEOF tm (last (l_cooked l)) then l
      else l\<lparr>l_echoed := l_echoed l @
               (if L_ECHO tm then if last (l_cooked l) <s 32 then [127, 127] else [127] else []),
             l_cooked := butlast (l_cooked l)\<rparr>)"

definition type_char :: "termios \<Rightarrow> byte \<Rightarrow> line \<Rightarrow> line" where
  "type_char tm c l =
     (if L_CANON tm \<and> is_cc VERASE tm c then rub_out tm l
      else if L_CANON tm \<and> is_cc VSTOP tm c then l\<lparr>l_stopped := 1\<rparr>
      else if L_CANON tm \<and> is_cc VSTART tm c then l\<lparr>l_stopped := 0\<rparr>
      else if \<not> L_ISIG tm \<and> is_cc VINTR tm c then l\<lparr>l_intr := True\<rparr>
      else let l = (if c = 10 \<or> is_cc VEOF tm c then l\<lparr>l_ends := l_ends l + 1\<rparr> else l) in
        l\<lparr>l_echoed := l_echoed l @ echo_of tm c, l_cooked := l_cooked l @ [c]\<rparr>)"

fun discipline :: "termios \<Rightarrow> byte list \<Rightarrow> line \<Rightarrow> (byte list \<times> line) option" where
  "discipline tm [] l = Some ([], l)"
| "discipline tm (c # cs) l =
     (if length (l_cooked l) = 1023 then Some (c # cs, l)
      else do { d \<leftarrow> in_char tm c;
                discipline tm cs (case d of None \<Rightarrow> l | Some c \<Rightarrow> type_char tm c l) })"

text \<open>A kernel state and a line that agree; \<open>k0\<close> is the state at the start.\<close>

definition line_ok :: "nat \<Rightarrow> kernel \<Rightarrow> byte list \<Rightarrow> line \<Rightarrow> kernel \<Rightarrow> bool" where
  "line_ok ch k0 cs l k \<longleftrightarrow>
     (let t = tty_at k ch in
      queue_ok (read_q t) \<and> queue_ok (secondary t) \<and> queue_ok (write_q t) \<and>
      queue_chars (read_q t) = cs \<and> queue_chars (secondary t) = l_cooked l \<and> queue_chars (write_q t) = l_echoed l \<and>
      q_data (secondary t) = l_ends l \<and> stopped t = l_stopped l \<and>
      termios t = termios (tty_at k0 ch) \<and> writer t = writer (tty_at k0 ch) \<and> pgrp t = pgrp (tty_at k0 ch) \<and>
      q_proc_list (secondary t) = q_proc_list (secondary (tty_at k0 ch)) \<and>
      task k = task (if l_intr l then tty_intr ch SIGINT k0 else k0))"

named_theorems tty_simps "terminals after an operation"

lemma on_tty_sel [tty_simps]:
  "tty_at (on_tty ch f k) ch = f (tty_at k ch)" "task (on_tty ch f k) = task k"
  "tty_at (tty_intr ch sig k) ch' = tty_at k ch'"
  by (simp_all add: on_tty_def tty_at_def tty_intr_def)

lemma queue_sel [simp]:
  "q_data (PUTCH c q) = q_data q" "q_data (drop_last q) = q_data q" "q_data (snd (GETCH q)) = q_data q"
  "q_proc_list (PUTCH c q) = q_proc_list q" "q_proc_list (drop_last q) = q_proc_list q"
  "q_proc_list (snd (GETCH q)) = q_proc_list q"
  "queue_chars (q\<lparr>q_data := d\<rparr>) = queue_chars q" "queue_ok (q\<lparr>q_data := d\<rparr>) = queue_ok q"
  "chars_in (q\<lparr>q_data := d\<rparr>) = chars_in q"
  by (simp_all add: PUTCH_def drop_last_def GETCH_def queue_chars_def queue_ok_def chars_in_def)

lemma tty_intr_twice: "task k' = task (tty_intr ch sig k) \<Longrightarrow> pgrp (tty_at k' ch) = pgrp (tty_at k ch) \<Longrightarrow>
    task (tty_intr ch sig k') = task (tty_intr ch sig k)"
  by (auto simp: tty_intr_def option.map_comp comp_def intro!: ext option.map_cong)

lemma tty_intr_task: "task k' = task k \<Longrightarrow> pgrp (tty_at k' ch) = pgrp (tty_at k ch) \<Longrightarrow>
    task (tty_intr ch sig k') = task (tty_intr ch sig k)"
  by (simp add: tty_intr_def cong: if_cong)

lemma chars_in_line: "chars_in q = length (queue_chars q)"
  by simp

text \<open>Each elementary step on the lists has its step on the kernel.\<close>

lemma line_ok_steps:
  assumes ok: "line_ok ch k0 cs l k"
  shows "length (l_echoed l) < 1023 \<Longrightarrow> line_ok ch k0 cs (l\<lparr>l_echoed := l_echoed l @ [c]\<rparr>) (put_write ch c k)"
    and "length (l_cooked l) < 1023 \<Longrightarrow>
      line_ok ch k0 cs (l\<lparr>l_cooked := l_cooked l @ [c]\<rparr>) (on_tty ch (\<lambda>t. t\<lparr>secondary := PUTCH c (secondary t)\<rparr>) k)"
    and "l_cooked l \<noteq> [] \<Longrightarrow>
      line_ok ch k0 cs (l\<lparr>l_cooked := butlast (l_cooked l)\<rparr>) (on_tty ch (\<lambda>t. t\<lparr>secondary := drop_last (secondary t)\<rparr>) k)"
    and "line_ok ch k0 cs (l\<lparr>l_ends := l_ends l + 1\<rparr>)
      (on_tty ch (\<lambda>t. t\<lparr>secondary := (secondary t)\<lparr>q_data := q_data (secondary t) + 1\<rparr>\<rparr>) k)"
    and "line_ok ch k0 cs (l\<lparr>l_stopped := i\<rparr>) (on_tty ch (\<lambda>t. t\<lparr>stopped := i\<rparr>) k)"
    and "line_ok ch k0 cs (l\<lparr>l_intr := True\<rparr>) (tty_intr ch SIGINT k)"
    and "cs \<noteq> [] \<Longrightarrow> line_ok ch k0 (tl cs) l (on_tty ch (\<lambda>t. t\<lparr>read_q := snd (GETCH (read_q t))\<rparr>) k)"
proof -
  have len: "chars_in (write_q (tty_at k ch)) = length (l_echoed l)" "chars_in (secondary (tty_at k ch)) = length (l_cooked l)"
    using ok by (simp_all only: chars_in_line) (simp_all add: line_ok_def Let_def)
  note facts = ok [unfolded line_ok_def Let_def]
  show "length (l_echoed l) < 1023 \<Longrightarrow> line_ok ch k0 cs (l\<lparr>l_echoed := l_echoed l @ [c]\<rparr>) (put_write ch c k)"
    using facts len by (simp add: line_ok_def Let_def put_write_def tty_simps queue_chars_PUTCH)
  show "length (l_cooked l) < 1023 \<Longrightarrow>
      line_ok ch k0 cs (l\<lparr>l_cooked := l_cooked l @ [c]\<rparr>) (on_tty ch (\<lambda>t. t\<lparr>secondary := PUTCH c (secondary t)\<rparr>) k)"
    using facts len by (simp add: line_ok_def Let_def tty_simps queue_chars_PUTCH)
  show "l_cooked l \<noteq> [] \<Longrightarrow>
      line_ok ch k0 cs (l\<lparr>l_cooked := butlast (l_cooked l)\<rparr>) (on_tty ch (\<lambda>t. t\<lparr>secondary := drop_last (secondary t)\<rparr>) k)"
    using facts by (simp add: line_ok_def Let_def tty_simps queue_last)
  show "line_ok ch k0 cs (l\<lparr>l_ends := l_ends l + 1\<rparr>)
      (on_tty ch (\<lambda>t. t\<lparr>secondary := (secondary t)\<lparr>q_data := q_data (secondary t) + 1\<rparr>\<rparr>) k)"
    using facts by (simp add: line_ok_def Let_def tty_simps)
  show "line_ok ch k0 cs (l\<lparr>l_stopped := i\<rparr>) (on_tty ch (\<lambda>t. t\<lparr>stopped := i\<rparr>) k)"
    using facts by (simp add: line_ok_def Let_def tty_simps)
  show "line_ok ch k0 cs (l\<lparr>l_intr := True\<rparr>) (tty_intr ch SIGINT k)"
    using facts tty_intr_task [of k k0 ch SIGINT] tty_intr_twice [of k ch SIGINT k0]
    by (simp add: line_ok_def Let_def tty_simps split: if_splits)
  show "cs \<noteq> [] \<Longrightarrow> line_ok ch k0 (tl cs) l (on_tty ch (\<lambda>t. t\<lparr>read_q := snd (GETCH (read_q t))\<rparr>) k)"
    using facts by (simp add: line_ok_def Let_def tty_simps queue_chars_GETCH)
qed

text \<open>Output that goes nowhere: a serial line, or no echo.\<close>

definition quiet :: "tty_struct \<Rightarrow> bool" where
  "quiet t \<longleftrightarrow> writer t = Rs_write \<or> \<not> L_ECHO (termios t)"

lemma put_write_sel [tty_simps]:
  "termios (tty_at (put_write ch c k) ch) = termios (tty_at k ch)" "writer (tty_at (put_write ch c k) ch) = writer (tty_at k ch)"
  by (simp_all add: put_write_def tty_simps)

lemma cook_char_quiet: "quiet (tty_at k ch) \<Longrightarrow> cook_char (tty_out C ch) ch c k = cook_char Some ch c k"
  by (auto simp: cook_char_def canon_char_def erase_char_def echo_char_def quiet_def tty_out_def Let_def tty_simps
      split: option.split intro!: Option.bind_cong)

lemma echo_step:
  assumes ok: "line_ok ch k0 cs l k" and room: "L_ECHO tm \<Longrightarrow> length (l_echoed l) + 2 \<le> 1023"
    and tm: "tm = termios (tty_at k0 ch)"
  shows "\<exists>k'. echo_char Some ch c k = Some k' \<and> line_ok ch k0 cs (l\<lparr>l_echoed := l_echoed l @ echo_of tm c\<rparr>) k'"
proof (cases "L_ECHO tm")
  case True
  then have n: "length (l_echoed l) < 1023" using room by simp
  have n2: "length (l_echoed l) + 1 < 1023" using room True by simp
  have two: "line_ok ch k0 cs (l\<lparr>l_echoed := l_echoed l @ [x, y]\<rparr>) (put_write ch y (put_write ch x k))" for x y
    using line_ok_steps(1) [OF line_ok_steps(1) [OF ok n], of x y] n2 by simp
  show ?thesis
    using ok True two line_ok_steps(1) [OF ok n, of c] tm
    by (auto simp: echo_char_def echo_of_def Let_def line_ok_def [of _ _ _ l])
next
  case False
  then show ?thesis using ok tm by (simp add: echo_char_def echo_of_def line_ok_def Let_def)
qed

lemma erase_step:
  assumes ok: "line_ok ch k0 cs l k" and room: "L_ECHO tm \<Longrightarrow> length (l_echoed l) + 2 \<le> 1023"
    and tm: "tm = termios (tty_at k0 ch)"
  shows "\<exists>k'. erase_char Some ch k = Some k' \<and> line_ok ch k0 cs (rub_out tm l) k'"
proof -
  let ?q = "secondary (tty_at k ch)"
  have q: "queue_ok ?q" "queue_chars ?q = l_cooked l" "termios (tty_at k ch) = tm"
    using ok tm by (simp_all add: line_ok_def Let_def)
  have e: "EMPTY ?q \<longleftrightarrow> l_cooked l = []"
    using q(2) by (simp add: EMPTY_chars_in [OF q(1)] chars_in_line del: length_queue_chars)
  show ?thesis
  proof (cases "l_cooked l = [] \<or> last (l_cooked l) = 10 \<or> is_cc VEOF tm (last (l_cooked l))")
    case True
    then show ?thesis
      using ok e q queue_last(1) [of ?q] by (auto simp: erase_char_def rub_out_def Let_def)
  next
    case False
    let ?r = "if L_ECHO tm then if last (l_cooked l) <s 32 then [127, 127] else [127] else []"
    have l: "LAST ?q = last (l_cooked l)" using q False queue_last(1) [of ?q] by simp
    have "\<exists>k'. erase_char Some ch k = Some (on_tty ch (\<lambda>t. t\<lparr>secondary := drop_last (secondary t)\<rparr>) k') \<and>
        line_ok ch k0 cs (l\<lparr>l_echoed := l_echoed l @ ?r\<rparr>) k'"
    proof (cases "L_ECHO tm")
      case True
      then have n: "length (l_echoed l) < 1023" "length (l_echoed l) + 1 < 1023" using room by simp_all
      show ?thesis
        using line_ok_steps(1) [OF ok n(1), of 127] line_ok_steps(1) [OF line_ok_steps(1) [OF ok n(1), of 127], of 127]
          n(2) False e l q True
        by (auto simp: erase_char_def Let_def)
    next
      case nE: False
      then show ?thesis using ok False e l q by (auto simp: erase_char_def Let_def)
    qed
    then show ?thesis using False line_ok_steps(3) [of ch k0 cs "l\<lparr>l_echoed := l_echoed l @ ?r\<rparr>"]
      by (auto simp: rub_out_def)
  qed
qed

lemma cook_step:
  assumes ok: "line_ok ch k0 cs l k" and room: "L_ECHO tm \<Longrightarrow> length (l_echoed l) + 2 \<le> 1023"
    and tm: "tm = termios (tty_at k0 ch)" and n: "length (l_cooked l) < 1023" and d: "in_char tm c = Some d"
  shows "\<exists>k'. cook_char Some ch c k = Some k' \<and> line_ok ch k0 cs (case d of None \<Rightarrow> l | Some c \<Rightarrow> type_char tm c l) k'"
proof (cases d)
  case None
  then show ?thesis using ok tm d by (simp add: cook_char_def line_ok_def Let_def)
next
  case (Some c)
  let ?k = "if c = 10 \<or> is_cc VEOF tm c
      then on_tty ch (\<lambda>t. t\<lparr>secondary := (secondary t)\<lparr>q_data := q_data (secondary t) + 1\<rparr>\<rparr>) k else k"
  let ?l = "if c = 10 \<or> is_cc VEOF tm c then l\<lparr>l_ends := l_ends l + 1\<rparr> else l"
  have t: "termios (tty_at k ch) = tm" using ok tm by (simp add: line_ok_def Let_def)
  have "line_ok ch k0 cs ?l ?k" using ok line_ok_steps(4) [OF ok] by simp
  moreover have "L_ECHO tm \<Longrightarrow> length (l_echoed ?l) + 2 \<le> 1023" using room by simp
  ultimately obtain k1 where
    k1: "echo_char Some ch c ?k = Some k1" "line_ok ch k0 cs (?l\<lparr>l_echoed := l_echoed ?l @ echo_of tm c\<rparr>) k1"
    using echo_step [OF _ _ tm, of cs ?l ?k c] by blast
  have plain: "line_ok ch k0 cs (?l\<lparr>l_echoed := l_echoed ?l @ echo_of tm c, l_cooked := l_cooked l @ [c]\<rparr>)
      (on_tty ch (\<lambda>t. t\<lparr>secondary := PUTCH c (secondary t)\<rparr>) k1)"
    using line_ok_steps(2) [OF k1(2), of c] n by (auto split: if_splits)
  show ?thesis
    using Some d t erase_step [OF ok room tm] line_ok_steps(5,6) [OF ok] k1(1) plain
    by (auto simp: cook_char_def canon_char_def type_char_def Let_def cong: if_cong split: if_splits)
qed

lemma type_char_echo: "length (l_echoed (type_char tm c l)) \<le> length (l_echoed l) + (if L_ECHO tm then 2 else 0)"
  by (simp add: type_char_def rub_out_def echo_of_def Let_def)

lemma type_char_cooked: "length (l_cooked (type_char tm c l)) \<le> Suc (length (l_cooked l))"
  by (auto simp: type_char_def rub_out_def Let_def)

lemma FULL_line: "line_ok ch k0 cs l k \<Longrightarrow> FULL (secondary (tty_at k ch)) \<longleftrightarrow> length (l_cooked l) = 1023"
  "line_ok ch k0 cs l k \<Longrightarrow> EMPTY (read_q (tty_at k ch)) \<longleftrightarrow> cs = []"
  by (auto simp: line_ok_def Let_def FULL_chars_in EMPTY_chars_in chars_in_line simp del: length_queue_chars)

lemma cooked_loop:
  assumes "quiet (tty_at k0 ch)" and "tm = termios (tty_at k0 ch)"
  shows "line_ok ch k0 cs l k \<Longrightarrow> (L_ECHO tm \<Longrightarrow> length (l_echoed l) + 2 * length cs \<le> 1023) \<Longrightarrow>
    length (l_cooked l) \<le> 1023 \<Longrightarrow> discipline tm cs l = Some (left, l') \<Longrightarrow>
    \<exists>k'. copy_to_cooked ch k = Some (wake_cooked ch k') \<and> line_ok ch k0 left l' k'"
proof (induction cs arbitrary: l k)
  case Nil
  then show ?case
    using FULL_line [OF Nil.prems(1)] by (subst copy_to_cooked.simps) (auto intro!: exI [of _ k])
next
  case (Cons c cs)
  show ?case
  proof (cases "length (l_cooked l) = 1023")
    case True
    then show ?thesis
      using Cons.prems FULL_line [OF Cons.prems(1)] by (subst copy_to_cooked.simps) (auto intro!: exI [of _ k])
  next
    case False
    let ?q = "read_q (tty_at k ch)"
    let ?k = "on_tty ch (\<lambda>t. t\<lparr>read_q := snd (GETCH ?q)\<rparr>) k"
    have same: "?k = on_tty ch (\<lambda>t. t\<lparr>read_q := snd (GETCH (read_q t))\<rparr>) k" by (simp add: on_tty_def tty_at_def)
    have k: "line_ok ch k0 cs l ?k" unfolding same using line_ok_steps(7) [OF Cons.prems(1)] by simp
    have c: "GETCH ?q = (c, snd (GETCH ?q))"
      using Cons.prems(1) queue_chars_GETCH(1) [of ?q] by (simp add: line_ok_def Let_def prod_eq_iff)
    have n: "length (l_cooked l) < 1023" using False Cons.prems(3) by simp
    from Cons.prems(4) False obtain d where
      d: "in_char tm c = Some d" "discipline tm cs (case d of None \<Rightarrow> l | Some c \<Rightarrow> type_char tm c l) = Some (left, l')"
      by (auto simp: bind_eq_Some_conv)
    let ?l = "case d of None \<Rightarrow> l | Some c \<Rightarrow> type_char tm c l"
    have "L_ECHO tm \<Longrightarrow> length (l_echoed l) + 2 \<le> 1023" using Cons.prems(2) by simp
    from cook_step [OF k this assms(2) n d(1)] obtain k1 where
      k1: "cook_char Some ch c ?k = Some k1" "line_ok ch k0 cs ?l k1" by blast
    have "quiet (tty_at ?k ch)" using assms(1) Cons.prems(1) by (simp add: quiet_def line_ok_def Let_def tty_simps)
    then have step: "copy_to_cooked ch k = copy_to_cooked ch k1"
      using FULL_line [OF Cons.prems(1)] False c k1(1)
      by (subst copy_to_cooked.simps) (simp add: cook_char_quiet Let_def case_prod_unfold prod_eq_iff)
    have "length (l_echoed ?l) + 2 * length cs \<le> 1023" if "L_ECHO tm"
      using Cons.prems(2) [OF that] type_char_echo [of tm "the d" l] that by (cases d) simp_all
    moreover have "length (l_cooked ?l) \<le> 1023" using n type_char_cooked [of tm "the d" l] by (cases d) simp_all
    ultimately show ?thesis unfolding step using Cons.IH [OF k1(2)] d(2) by blast
  qed
qed

text \<open>The line a terminal is in.\<close>

definition line_of :: "nat \<Rightarrow> kernel \<Rightarrow> line" where
  "line_of ch k =
     (let t = tty_at k ch in \<lparr>l_cooked = queue_chars (secondary t), l_ends = q_data (secondary t), l_stopped = stopped t,
        l_echoed = queue_chars (write_q t), l_intr = False\<rparr>)"

definition queues_ok :: "tty_struct \<Rightarrow> bool" where
  "queues_ok t \<longleftrightarrow> queue_ok (read_q t) \<and> queue_ok (write_q t) \<and> queue_ok (secondary t)"

text \<open>
  C29: On a serial line, or with echo off, \<^verbatim>\<open>copy_to_cooked\<close> ends and is the line discipline on lists: typed
  characters are mapped, erase takes back the last one of the line but no line end, stop and start switch the
  output, the interrupt character signals the foreground group, everything else is queued and echoed in order,
  and the waiting reader is woken. (With echo on, the write queue must have room for the echo, two characters for each
  typed one: \<^verbatim>\<open>PUTCH\<close> does not look whether it is full.)
\<close>

theorem cooked_refines:
  assumes "queues_ok (tty_at k ch)" and "quiet (tty_at k ch)"
    and "L_ECHO (termios (tty_at k ch)) \<Longrightarrow> chars_in (write_q (tty_at k ch)) + 2 * chars_in (read_q (tty_at k ch)) \<le> 1023"
    and "discipline (termios (tty_at k ch)) (queue_chars (read_q (tty_at k ch))) (line_of ch k) = Some (left, l)"
  shows "\<exists>k'. copy_to_cooked ch k = Some (wake_cooked ch k') \<and> queues_ok (tty_at k' ch) \<and>
    queue_chars (read_q (tty_at k' ch)) = left \<and> line_of ch k' = l\<lparr>l_intr := False\<rparr> \<and>
    task k' = task (if l_intr l then tty_intr ch SIGINT k else k)"
proof -
  have "line_ok ch k (queue_chars (read_q (tty_at k ch))) (line_of ch k) k"
    using assms(1) by (simp add: line_ok_def line_of_def queues_ok_def Let_def)
  moreover have "chars_in (secondary (tty_at k ch)) \<le> 1023" using chars_in_less [of "secondary (tty_at k ch)"] by simp
  ultimately obtain k' where "copy_to_cooked ch k = Some (wake_cooked ch k')" "line_ok ch k left l k'"
    using cooked_loop [OF assms(2) refl _ _ _ assms(4)] assms(3) by (auto simp: line_of_def Let_def)
  then show ?thesis by (auto simp: line_ok_def queues_ok_def line_of_def Let_def)
qed

text \<open>A serial line in canonical mode with echo, on which \<open>keys\<close> have been typed.\<close>

definition typed :: "byte list \<Rightarrow> kernel" where
  "typed keys = on_tty 1 (\<lambda>t. t\<lparr>termios := (termios t)\<lparr>c_lflag := 0x20a\<rparr>, read_q := fold PUTCH keys (read_q t)\<rparr>)
     (small_kernel small_cache)"

text \<open>Typed \<open>a\<close>, \<open>b\<close>, erase, \<open>c\<close> and a line end; the reader gets \<open>ac\<close>.\<close>

theorem cooked_refines_witness:
  "\<exists>k'. copy_to_cooked 1 (typed [97, 98, 127, 99, 10]) = Some (wake_cooked 1 k') \<and>
     line_of 1 k' = \<lparr>l_cooked = [97, 99, 10], l_ends = 1, l_stopped = 0, l_echoed = [97, 98, 127, 99, 10, 13], l_intr = False\<rparr>"
proof -
  let ?k = "typed [97, 98, 127, 99, 10]"
  have s: "queues_ok (tty_at ?k 1)" "quiet (tty_at ?k 1)" "chars_in (write_q (tty_at ?k 1)) = 0" "chars_in (read_q (tty_at ?k 1)) = 5"
    "discipline (termios (tty_at ?k 1)) (queue_chars (read_q (tty_at ?k 1))) (line_of 1 ?k)
      = Some ([], \<lparr>l_cooked = [97, 99, 10], l_ends = 1, l_stopped = 0, l_echoed = [97, 98, 127, 99, 10, 13], l_intr = False\<rparr>)"
    by code_simp+
  show ?thesis using cooked_refines [OF s(1,2) _ s(5)] s(3,4) by auto
qed

section \<open>What a reader gets\<close>

lemma signals_set_alarm [simp]: "signals (set_alarm a k) = signals k" "tty_at (set_alarm a k) = tty_at k"
  "fsmem (set_alarm a k) = fsmem k"
  by (cases "task k (current k)"; simp add: set_alarm_def on_cur_def on_task_def cur_def tty_at_def fun_eq_iff)+

lemma signals_on_tty [simp]: "signals (on_tty ch f k) = signals k" "signals (put_fs_byte c b k) = signals k"
  "tty_at (put_fs_byte c b k) = tty_at k" "fsmem (on_tty ch f k) = fsmem k" "jiffies (on_tty ch f k) = jiffies k"
  "fsmem (put_fs_byte c b k) = (fsmem k)(b := c)" "cr_flag (on_tty ch f k) = cr_flag k"
  by (simp_all add: on_tty_def cur_def put_fs_byte_def tty_at_def fun_eq_iff)

text \<open>The characters up to the end-of-file character, and no more than are wanted.\<close>

definition upto_eof :: "termios \<Rightarrow> nat \<Rightarrow> byte list \<Rightarrow> byte list" where
  "upto_eof tm n cs = takeWhile (\<lambda>c. \<not> is_cc VEOF tm c) (take n cs)"

definition at_eof :: "termios \<Rightarrow> nat \<Rightarrow> byte list \<Rightarrow> bool" where
  "at_eof tm n cs \<longleftrightarrow> length (upto_eof tm n cs) < min n (length cs)"

lemma upto_eof_Cons:
  "upto_eof tm (Suc n) (c # cs) = (if is_cc VEOF tm c then [] else c # upto_eof tm n cs)"
  "at_eof tm (Suc n) (c # cs) = (is_cc VEOF tm c \<or> at_eof tm n cs)" "\<not> at_eof tm 0 cs" "\<not> at_eof tm n []"
  "upto_eof tm 0 cs = []" "upto_eof tm n [] = []"
  by (auto simp: upto_eof_def at_eof_def)

lemma read_some_list:
  "queue_ok (secondary (tty_at k ch)) \<Longrightarrow> queue_chars (secondary (tty_at k ch)) = cs \<Longrightarrow> cs \<noteq> [] \<Longrightarrow> 0 < nr \<Longrightarrow>
    tm = termios (tty_at k ch) \<Longrightarrow> L_CANON tm \<Longrightarrow>
    \<exists>m k'. read_some ch b nr k = (at_eof tm nr cs, b + length (upto_eof tm nr cs), m, k') \<and>
      termios (tty_at k' ch) = tm \<and> signals k' = signals k \<and>
      queue_chars (secondary (tty_at k' ch)) = drop (length (upto_eof tm nr cs) + (if at_eof tm nr cs then 1 else 0)) cs \<and>
      (\<forall>a. fsmem k' a = (if b \<le> a \<and> a < b + length (upto_eof tm nr cs) then upto_eof tm nr cs ! (a - b) else fsmem k a))"
proof (induction nr arbitrary: b cs k)
  case (Suc nr)
  let ?s = "secondary (tty_at k ch)"
  obtain c cs' where cs: "cs = c # cs'" using Suc.prems(3) by (cases cs) auto
  let ?q = "if is_cc VEOF tm c \<or> c = 10 then (snd (GETCH ?s))\<lparr>q_data := q_data (snd (GETCH ?s)) - 1\<rparr> else snd (GETCH ?s)"
  let ?k = "put_fs_byte c b (on_tty ch (\<lambda>t. t\<lparr>secondary := ?q\<rparr>) k)"
  have g: "GETCH ?s = (c, snd (GETCH ?s))"
    using queue_chars_GETCH(1) [OF Suc.prems(1)] Suc.prems(2) cs by (simp add: prod_eq_iff)
  have q: "queue_ok ?q" "queue_chars ?q = cs'"
    using queue_chars_GETCH(2) [OF Suc.prems(1)] Suc.prems(1,2) cs by (simp_all)
  have sk: "secondary (tty_at ?k ch) = ?q" "termios (tty_at ?k ch) = tm" using Suc.prems(5) by (simp_all add: tty_simps)
  have e: "EMPTY ?q \<longleftrightarrow> cs' = []"
    using q(2) by (simp add: EMPTY_chars_in [OF q(1)] chars_in_line del: length_queue_chars)
  show ?case
  proof (cases "is_cc VEOF tm c")
    case True
    then show ?thesis
      using Suc.prems(5,6) q by (subst read_some.simps, subst g) (auto simp: cs upto_eof_Cons tty_simps)
  next
    case nc: False
    show ?thesis
    proof (cases "nr = 0 \<or> cs' = []")
      case True
      then have "read_some ch b (Suc nr) k = (False, Suc b, nr, ?k)"
        using nc Suc.prems(5) e by (subst read_some.simps, subst g) (simp add: tty_simps Let_def)
      then show ?thesis using True nc q sk by (auto simp: cs upto_eof_Cons)
    next
      case False
      then have "read_some ch b (Suc nr) k = read_some ch (Suc b) nr ?k"
        using nc Suc.prems(5) e by (subst read_some.simps, subst g) (simp add: tty_simps Let_def)
      moreover have "0 < nr" "cs' \<noteq> []" using False by simp_all
      ultimately show ?thesis
        using Suc.IH [of ?k cs' "Suc b"] nc q sk Suc.prems(6)
        by (fastforce simp: cs upto_eof_Cons nth_Cons')
    qed
  qed
qed simp

text \<open>What a canonical read hands out when the line is complete, and the state it leaves.\<close>

definition line_read :: "nat \<Rightarrow> nat \<Rightarrow> nat \<Rightarrow> kernel \<Rightarrow> kernel \<Rightarrow> bool" where
  "line_read ch b n k k' \<longleftrightarrow> (let tm = termios (tty_at k ch); cs = queue_chars (secondary (tty_at k ch)) in
     queue_chars (secondary (tty_at k' ch)) = drop (length (upto_eof tm n cs) + (if at_eof tm n cs then 1 else 0)) cs \<and>
     (\<forall>a. fsmem k' a = (if b \<le> a \<and> a < b + length (upto_eof tm n cs) then upto_eof tm n cs ! (a - b) else fsmem k a)))"

lemma canonical_loop:
  assumes "0 < n" and "signals k = 0" and "tm = termios (tty_at k ch)" and "L_CANON tm"
    and "queue_ok (secondary (tty_at k ch))" and "cs = queue_chars (secondary (tty_at k ch))"
    and "cs \<noteq> []" and "q_data (secondary (tty_at k ch)) \<noteq> 0"
  obtains k' where "\<And>rest intr oa mn. read_loop rest intr ch oa 0 mn b False b n k
      = Some (at_eof tm n cs, b + length (upto_eof tm n cs), k')"
    "signals k' = 0" "line_read ch b n k k'" "at_eof tm n cs \<or> 0 < length (upto_eof tm n cs)"
proof -
  obtain m k' where r: "read_some ch b n k = (at_eof tm n cs, b + length (upto_eof tm n cs), m, k')"
    "termios (tty_at k' ch) = tm" "signals k' = signals k"
    "queue_chars (secondary (tty_at k' ch)) = drop (length (upto_eof tm n cs) + (if at_eof tm n cs then 1 else 0)) cs"
    "\<forall>a. fsmem k' a = (if b \<le> a \<and> a < b + length (upto_eof tm n cs) then upto_eof tm n cs ! (a - b) else fsmem k a)"
    using read_some_list [OF assms(5) refl _ assms(1,3,4), of b] assms(6,7) by auto
  have e: "\<not> EMPTY (secondary (tty_at k ch))"
    using assms(6,7) by (simp add: EMPTY_chars_in [OF assms(5)] chars_in_line del: length_queue_chars)
  have some: "at_eof tm n cs \<or> 0 < length (upto_eof tm n cs)"
    using assms(1,7) by (cases cs; cases n) (auto simp: upto_eof_Cons)
  have "read_loop rest intr ch oa 0 mn b False b n k = Some (at_eof tm n cs, b + length (upto_eof tm n cs), k')" for rest intr oa mn
    using e assms(1,2,3,4,8) r(1,2) some by (subst read_loop.simps) (auto simp: re_alarm_def Let_def)
  moreover have "line_read ch b n k k'" using r(4,5) assms(3,6) by (simp add: line_read_def Let_def)
  ultimately show thesis using that [of k'] r(3) assms(2) some by simp
qed

lemma canonical_read:
  assumes "read_loop rest intr ch (t_alarm (cur k)) 0 (min (unat (c_cc (termios (tty_at k ch)) VMIN)) (nat nr)) b False b (nat nr) k =
      Some (eof, b + n, k')"
    and "ch \<le> 2" and "0 < nr" and "c_cc (termios (tty_at k ch)) VTIME = 0" and "signals k' = 0"
  shows "tty_read rest intr ch b nr k = Some (int n, if eof then k' else set_alarm (t_alarm (cur k)) k')"
  using assms by (simp add: tty_read_def Let_def)

lemma line_read_alarm: "line_read ch b n k (set_alarm a k') = line_read ch b n k k'"
  by (simp add: line_read_def Let_def)

text \<open>
  C30: In canonical mode a read of a terminal with a complete line returns at once: it hands out the characters up
  to the end-of-file character, no more than were asked for, in order, takes them and the end-of-file
  character from the queue and nothing else, and touches no other memory of the caller. (No signal is pending, and the
  time-out \<^verbatim>\<open>VTIME\<close> is 0.)
\<close>

theorem tty_read_canonical:
  assumes "ch \<le> 2" and "0 < nr" and "signals k = 0" and "tm = termios (tty_at k ch)" and "L_CANON tm"
    and "c_cc tm VTIME = 0" and "queue_ok (secondary (tty_at k ch))" and "cs = queue_chars (secondary (tty_at k ch))"
    and "cs \<noteq> []" and "q_data (secondary (tty_at k ch)) \<noteq> 0"
  shows "\<exists>k'. tty_read rest intr ch b nr k = Some (int (length (upto_eof tm (nat nr) cs)), k') \<and>
    queue_chars (secondary (tty_at k' ch)) =
      drop (length (upto_eof tm (nat nr) cs) + (if at_eof tm (nat nr) cs then 1 else 0)) cs \<and>
    (\<forall>a. fsmem k' a = (if b \<le> a \<and> a < b + length (upto_eof tm (nat nr) cs) then upto_eof tm (nat nr) cs ! (a - b)
                       else fsmem k a))"
proof -
  have n: "0 < nat nr" using assms(2) by simp
  obtain k' where k': "\<And>rest intr oa mn. read_loop rest intr ch oa 0 mn b False b (nat nr) k =
      Some (at_eof tm (nat nr) cs, b + length (upto_eof tm (nat nr) cs), k')" "signals k' = 0" "line_read ch b (nat nr) k k'"
    using canonical_loop [OF n assms(3,4,5,7,8,9,10), of b] by metis
  let ?k = "if at_eof tm (nat nr) cs then k' else set_alarm (t_alarm (cur k)) k'"
  have "tty_read rest intr ch b nr k = Some (int (length (upto_eof tm (nat nr) cs)), ?k)"
    using canonical_read [OF k'(1) assms(1,2) _ k'(2)] assms(4,6) by simp
  moreover have "line_read ch b (nat nr) k ?k" using k'(3) by (simp add: line_read_alarm)
  ultimately show ?thesis using assms(4,8) unfolding line_read_def Let_def by blast
qed

text \<open>A canonical reader that finds part of a line, and what \<open>n\<close> rounds of interrupts lead to.\<close>

definition half_line :: "nat \<Rightarrow> nat \<Rightarrow> kernel \<Rightarrow> bool" where
  "half_line ch nr k \<longleftrightarrow> (let t = tty_at k ch in 0 < nr \<and> signals k = 0 \<and> L_CANON (termios t) \<and>
     \<not> EMPTY (secondary t) \<and> q_data (secondary t) = 0 \<and> 20 < LEFT (secondary t))"

primrec rounds :: "world \<Rightarrow> nat \<Rightarrow> kernel \<Rightarrow> kernel option" where
  "rounds intr 0 k = Some k"
| "rounds intr (Suc n) k = do { k \<leftarrow> intr k; rounds intr n k }"

lemma half_line_round:
  assumes "half_line ch nr k"
  shows "read_loop rest intr ch oa time mn b0 flag b nr k = do { k \<leftarrow> intr k; read_loop rest intr ch oa time mn b0 flag b nr k }"
proof -
  have "sleep_if_empty rest ch k = Some k" using assms by (subst sleep_if_empty.simps) (simp add: half_line_def Let_def)
  then show ?thesis using assms by (subst read_loop.simps) (simp add: half_line_def Let_def)
qed

lemma half_line_rounds:
  "rounds intr n k = Some k' \<Longrightarrow> \<forall>i<n. \<exists>m. rounds intr i k = Some m \<and> half_line ch nr m \<Longrightarrow>
    read_loop rest intr ch oa time mn b0 flag b nr k = read_loop rest intr ch oa time mn b0 flag b nr k'"
proof (induction n arbitrary: k)
  case (Suc n)
  obtain k1 where k1: "intr k = Some k1" "rounds intr n k1 = Some k'" using Suc.prems(1) by (auto simp: bind_eq_Some_conv)
  have "\<exists>m. rounds intr i k1 = Some m \<and> half_line ch nr m" if "i < n" for i
    using Suc.prems(2) [rule_format, of "Suc i"] that k1(1) by simp
  then have "read_loop rest intr ch oa time mn b0 flag b nr k1 = read_loop rest intr ch oa time mn b0 flag b nr k'"
    using Suc.IH [OF k1(2)] by blast
  moreover have "half_line ch nr k" using Suc.prems(2) [rule_format, of 0] by simp
  ultimately show ?case using half_line_round k1(1) by simp
qed simp

text \<open>
  C32: A canonical read that finds part of a line polls: it goes round its loop, with nothing but interrupts from one round to
  the next, until they have completed the line, and returns then what C30 says of the complete line. It does not sleep: the
  result is the same whatever the processes \<open>rest\<close> would do, also when a switch to them would be a failure
  (\<^verbatim>\<open>sleep_if_empty\<close> returns at once because the queue is not empty). No signal is pending meanwhile, the terminal modes stay
  canonical, and the time-out is 0.
\<close>

theorem tty_read_polls:
  assumes "ch \<le> 2" and "0 < nr" and "c_cc (termios (tty_at k ch)) VTIME = 0"
    and "\<forall>i<n. \<exists>m. rounds intr i k = Some m \<and> half_line ch (nat nr) m" and "rounds intr n k = Some k'"
    and "signals k' = 0" and "tm = termios (tty_at k' ch)" and "L_CANON tm" and "queue_ok (secondary (tty_at k' ch))"
    and "cs = queue_chars (secondary (tty_at k' ch))" and "cs \<noteq> []" and "q_data (secondary (tty_at k' ch)) \<noteq> 0"
  shows "\<exists>k''. (\<forall>rest. tty_read rest intr ch b nr k = Some (int (length (upto_eof tm (nat nr) cs)), k'')) \<and>
    queue_chars (secondary (tty_at k'' ch)) =
      drop (length (upto_eof tm (nat nr) cs) + (if at_eof tm (nat nr) cs then 1 else 0)) cs \<and>
    (\<forall>a. fsmem k'' a = (if b \<le> a \<and> a < b + length (upto_eof tm (nat nr) cs) then upto_eof tm (nat nr) cs ! (a - b)
                        else fsmem k' a))"
proof -
  have n: "0 < nat nr" using assms(2) by simp
  obtain k1 where k1: "\<And>rest intr oa mn. read_loop rest intr ch oa 0 mn b False b (nat nr) k' =
      Some (at_eof tm (nat nr) cs, b + length (upto_eof tm (nat nr) cs), k1)" "signals k1 = 0" "line_read ch b (nat nr) k' k1"
    using canonical_loop [OF n assms(6-12), of b] by metis
  let ?k = "if at_eof tm (nat nr) cs then k1 else set_alarm (t_alarm (cur k)) k1"
  have "read_loop rest intr ch oa 0 mn b False b (nat nr) k =
      Some (at_eof tm (nat nr) cs, b + length (upto_eof tm (nat nr) cs), k1)" for rest oa mn
    using half_line_rounds [OF assms(5,4)] k1(1) by simp
  then have "tty_read rest intr ch b nr k = Some (int (length (upto_eof tm (nat nr) cs)), ?k)" for rest
    by (rule canonical_read) (use assms k1(2) in simp_all)
  moreover have "line_read ch b (nat nr) k' ?k" using k1(3) by (simp add: line_read_alarm)
  ultimately show ?thesis using assms(7,10) unfolding line_read_def Let_def by blast
qed

definition cooked :: "byte list \<Rightarrow> u32 \<Rightarrow> kernel" where
  "cooked cs n = on_tty 1 (\<lambda>t. t\<lparr>termios := (termios t)\<lparr>c_lflag := 0x20a\<rparr>,
     secondary := (fold PUTCH cs (secondary t))\<lparr>q_data := n\<rparr>\<rparr>) (small_kernel small_cache)"

theorem tty_read_canonical_witness:
  "\<exists>k'. tty_read Some Some 1 50 7 (cooked [97, 10, 4, 98] 2) = Some (2, k') \<and> fsmem k' 50 = 97 \<and> fsmem k' 51 = 10 \<and>
     fsmem k' 52 = 0 \<and> queue_chars (secondary (tty_at k' 1)) = [98]"
proof -
  let ?k = "cooked [97, 10, 4, 98] 2" and ?tm = "(termios (init_tty 1))\<lparr>c_lflag := 0x20a\<rparr>"
  have tm: "?tm = termios (tty_at ?k 1)" by (simp add: cooked_def on_tty_def small_kernel_def tty_at_def)
  have s: "signals ?k = 0" "L_CANON ?tm" "c_cc ?tm VTIME = 0" "queue_ok (secondary (tty_at ?k 1))"
    "[97, 10, 4, 98] = queue_chars (secondary (tty_at ?k 1))" "q_data (secondary (tty_at ?k 1)) = 2"
    "upto_eof ?tm 7 [97, 10, 4, 98] = [97, 10]" "at_eof ?tm 7 [97, 10, 4, 98]" "fsmem ?k 52 = 0"
    by code_simp+
  obtain k' where k': "tty_read Some Some 1 50 7 ?k = Some (int (length [97, 10 :: byte]), k')"
    "queue_chars (secondary (tty_at k' 1)) = drop (length [97, 10 :: byte] + 1) [97, 10, 4, 98]"
    "\<forall>a. fsmem k' a = (if 50 \<le> a \<and> a < 50 + length [97, 10 :: byte] then [97, 10] ! (a - 50) else fsmem ?k a)"
    using tty_read_canonical [of 1 7 ?k ?tm "[97, 10, 4, 98]" Some Some 50, OF _ _ s(1) tm s(2,3,4,5)] s(6-8)
    by (simp only: nat_numeral if_True list.distinct one_le_numeral zero_less_numeral simp_thms zero_neq_numeral) auto
  then show ?thesis
    using s(9) k'(3) [rule_format, of 50] k'(3) [rule_format, of 51] k'(3) [rule_format, of 52]
    by (intro exI [of _ k']) simp
qed

text \<open>The newline comes with an interrupt in the first round; other processes never run.\<close>

theorem tty_read_polls_witness:
  "\<exists>k'. tty_read (\<lambda>_. None) (\<lambda>_. Some (cooked [97, 10] 1)) 1 50 7 (cooked [97] 0) = Some (2, k') \<and> fsmem k' 50 = 97 \<and> fsmem k' 51 = 10"
proof -
  let ?k = "cooked [97] 0" and ?c = "cooked [97, 10] 1" and ?tm = "(termios (init_tty 1))\<lparr>c_lflag := 0x20a\<rparr>"
  have tm: "?tm = termios (tty_at ?c 1)" by (simp add: cooked_def on_tty_def small_kernel_def tty_at_def)
  have s: "signals ?c = 0" "L_CANON ?tm" "queue_ok (secondary (tty_at ?c 1))"
    "[97, 10] = queue_chars (secondary (tty_at ?c 1))" "q_data (secondary (tty_at ?c 1)) = 1"
    "upto_eof ?tm 7 [97, 10] = [97, 10]" "half_line 1 7 ?k" "c_cc (termios (tty_at ?k 1)) VTIME = 0"
    by code_simp+
  have r: "\<forall>i<1. \<exists>m. rounds (\<lambda>_. Some ?c) i ?k = Some m \<and> half_line 1 (nat 7) m" "rounds (\<lambda>_. Some ?c) 1 ?k = Some ?c"
    using s(7) by simp_all
  obtain k' where k': "\<forall>rest. tty_read rest (\<lambda>_. Some ?c) 1 50 7 ?k = Some (int (length [97, 10 :: byte]), k')"
    "\<forall>a. fsmem k' a = (if 50 \<le> a \<and> a < 50 + length [97, 10 :: byte] then [97, 10] ! (a - 50) else fsmem ?c a)"
    using tty_read_polls [of 1 7 ?k 1 "\<lambda>_. Some ?c" ?c ?tm "[97, 10]" 50, OF _ _ s(8) r s(1) tm s(2,3,4)] s(5,6)
    by (simp only: nat_numeral list.distinct one_le_numeral zero_less_numeral simp_thms zero_neq_one one_neq_zero) auto
  then show ?thesis using k'(2) [rule_format, of 50] k'(2) [rule_format, of 51] by (intro exI [of _ k']) simp
qed

section \<open>What a serial line sends\<close>

text \<open>The characters that go out for one character, and for a string; \<open>None\<close> when \<^verbatim>\<open>toupper\<close> has no meaning.\<close>

definition post :: "termios \<Rightarrow> byte \<Rightarrow> byte list option" where
  "post tm c = do { (cr, d) \<leftarrow> out_char tm 0 c;
                    if cr then do { (_, e) \<leftarrow> out_char tm 1 c; Some [d, e] } else Some [d] }"

fun posts :: "termios \<Rightarrow> byte list \<Rightarrow> byte list option" where
  "posts tm [] = Some []"
| "posts tm (c # cs) = do { x \<leftarrow> post tm c; y \<leftarrow> posts tm cs; Some (x @ y) }"

lemma put_write_state [simp]:
  "signals (put_write ch c k) = signals k" "fsmem (put_write ch c k) = fsmem k"
  "queue_ok (write_q (tty_at k ch)) \<Longrightarrow> queue_ok (write_q (tty_at (put_write ch c k) ch))"
  "queue_ok (write_q (tty_at k ch)) \<Longrightarrow> length (queue_chars (write_q (tty_at k ch))) < 1023 \<Longrightarrow>
    queue_chars (write_q (tty_at (put_write ch c k) ch)) = queue_chars (write_q (tty_at k ch)) @ [c]"
  "signals (k\<lparr>cr_flag := n\<rparr>) = signals k" "tty_at (k\<lparr>cr_flag := n\<rparr>) = tty_at k"
  by (simp_all add: put_write_def tty_simps queue_chars_PUTCH) (simp_all add: cur_def tty_at_def fun_eq_iff)

lemma not_FULL: "queue_ok q \<Longrightarrow> length (queue_chars q) < 1023 \<Longrightarrow> \<not> FULL q"
  by (simp add: FULL_chars_in)

lemma fill_write_posts:
  "posts (termios (tty_at k ch)) (map (\<lambda>j. fsmem k (b + j)) [0..<n]) = Some out \<Longrightarrow> cr_flag k = 0 \<Longrightarrow>
    queue_ok (write_q (tty_at k ch)) \<Longrightarrow> length (queue_chars (write_q (tty_at k ch))) + length out \<le> 1023 \<Longrightarrow>
    \<exists>k'. fill_write ch b n k = Some (b + n, 0, k') \<and> queue_chars (write_q (tty_at k' ch)) = queue_chars (write_q (tty_at k ch)) @ out \<and>
      signals k' = signals k \<and> writer (tty_at k' ch) = writer (tty_at k ch)"
proof (induction n arbitrary: b k out)
  case 0
  then show ?case by (subst fill_write.simps) simp
next
  case (Suc n)
  let ?tm = "termios (tty_at k ch)" and ?c = "fsmem k b"
  have l: "map (\<lambda>j. fsmem k (b + j)) [0..<Suc n] = ?c # map (\<lambda>j. fsmem k (Suc b + j)) [0..<n]"
    by (simp add: upt_conv_Cons map_Suc_upt [symmetric] comp_def del: upt_Suc)
  obtain x y where xy: "post ?tm ?c = Some x" "posts ?tm (map (\<lambda>j. fsmem k (Suc b + j)) [0..<n]) = Some y" "out = x @ y"
    using Suc.prems(1) unfolding l by (auto simp: bind_eq_Some_conv)
  obtain cr d where d: "out_char ?tm 0 ?c = Some (cr, d)" using xy(1) by (auto simp: post_def bind_eq_Some_conv)
  have fw: "fill_write ch b (Suc n) k = fill_write ch b' m k'"
    if "\<not> FULL (write_q (tty_at k ch))" "out_char (termios (tty_at k ch)) (cr_flag k) (get_fs_byte k b) = Some (e, d)"
      "b' = (if e then b else b + 1)" "m = (if e then Suc n else n)"
      "k' = put_write ch d (k\<lparr>cr_flag := if e then 1 else 0\<rparr>)" for b' m k' e d and k :: kernel
    using that by (subst fill_write.simps) (cases e; simp)
  show ?case
  proof (cases cr)
    case False
    then have x: "x = [d]" using xy(1) d by (simp add: post_def)
    let ?k = "put_write ch d (k\<lparr>cr_flag := 0\<rparr>)"
    have room: "length (queue_chars (write_q (tty_at k ch))) < 1023" using Suc.prems(4) xy(3) x by simp
    have "fill_write ch b (Suc n) k = fill_write ch (Suc b) n ?k"
      using fw [of k False d] d False Suc.prems(2) not_FULL [OF Suc.prems(3) room] by (simp add: get_fs_byte_def)
    then show ?thesis
      using Suc.IH [of ?k "Suc b" y] xy x Suc.prems(3,4) room
      by (simp add: tty_simps del: length_queue_chars)
  next
    case True
    then obtain cr' e where e: "out_char ?tm 1 ?c = Some (cr', e)" "x = [d, e]"
      using xy(1) d by (auto simp: post_def bind_eq_Some_conv)
    have cr': "\<not> cr'" using out_char_cr [of ?tm 1 ?c] e(1) by (cases cr') auto
    let ?k1 = "put_write ch d (k\<lparr>cr_flag := 1\<rparr>)" and ?k = "put_write ch e ((put_write ch d (k\<lparr>cr_flag := 1\<rparr>))\<lparr>cr_flag := 0\<rparr>)"
    have room: "length (queue_chars (write_q (tty_at k ch))) < 1023" "length (queue_chars (write_q (tty_at k ch))) + 1 < 1023"
      using Suc.prems(4) xy(3) e(2) by simp_all
    have q: "queue_ok (write_q (tty_at ?k1 ch))" "length (queue_chars (write_q (tty_at ?k1 ch))) < 1023"
      using Suc.prems(3) room by (simp_all del: length_queue_chars)
    have "fill_write ch b (Suc n) k = fill_write ch b (Suc n) ?k1"
      using fw [of k True d] d True Suc.prems(2) not_FULL [OF Suc.prems(3) room(1)] by (simp add: get_fs_byte_def)
    also have "\<dots> = fill_write ch (Suc b) n ?k"
      using fw [of ?k1 False e] e(1) cr' not_FULL [OF q] by (simp add: get_fs_byte_def tty_simps)
    finally show ?thesis
      using Suc.IH [of ?k "Suc b" y] xy e(2) Suc.prems(3,4) room q
      by (simp add: tty_simps del: length_queue_chars)
  qed
qed

text \<open>
  C31: A write to a serial line with room for what goes out sends all of it: the count is the number asked for, and
  the characters appear behind the queued ones, mapped by the output flags one by one (a line end as carriage
  return and line end when \<^verbatim>\<open>ONLCR\<close> is set).
\<close>

theorem tty_write_serial:
  assumes "ch \<le> 2" and "writer (tty_at k ch) = Rs_write" and "signals k = 0" and "cr_flag k = 0"
    and "queue_ok (write_q (tty_at k ch))"
    and "posts (termios (tty_at k ch)) (map (\<lambda>j. fsmem k (b + j)) [0..<n]) = Some out"
    and "chars_in (write_q (tty_at k ch)) + length out \<le> 1023"
  shows "\<exists>k'. tty_write rest ch b (int n) k = Some (int n, k') \<and>
    queue_chars (write_q (tty_at k' ch)) = queue_chars (write_q (tty_at k ch)) @ out"
proof (cases n)
  case 0
  then show ?thesis using assms(1,6) by (simp add: tty_write_def write_loop.simps)
next
  case (Suc m)
  have "length (queue_chars (write_q (tty_at k ch))) + length out \<le> 1023" using assms(7) by simp
  from fill_write_posts [OF assms(6,4,5) this] obtain k' where
    k': "fill_write ch b n k = Some (b + n, 0, k')" "queue_chars (write_q (tty_at k' ch)) = queue_chars (write_q (tty_at k ch)) @ out"
    "signals k' = signals k" "writer (tty_at k' ch) = writer (tty_at k ch)" by blast
  have "out \<noteq> []"
    using assms(6) unfolding Suc by (auto simp: post_def bind_eq_Some_conv upt_conv_Cons split: if_splits simp del: upt_Suc)
  then have "chars_in (write_q (tty_at k ch)) < 1023" using assms(7) by (cases out) auto
  then have f: "\<not> FULL (write_q (tty_at k ch))" using assms(5) by (simp add: FULL_chars_in)
  have "write_loop rest ch b n k = Some (b + n, k')"
    using k' f assms(2,3) Suc
    by (subst write_loop.simps) (simp add: sleep_if_full_def tty_out_def write_loop.simps [of rest ch _ 0])
  then show ?thesis using assms(1) k'(2) by (auto simp: tty_write_def)
qed

theorem tty_write_serial_witness:
  "\<exists>k'. tty_write Some 1 100 3 ((small_kernel small_cache)\<lparr>fsmem := (\<lambda>a. if a = 101 then 10 else 104)\<rparr>) = Some (3, k') \<and>
     queue_chars (write_q (tty_at k' 1)) = [104, 13, 104]"
proof -
  let ?k = "(small_kernel small_cache)\<lparr>fsmem := (\<lambda>a. if a = 101 then 10 else 104)\<rparr>"
  have s: "writer (tty_at ?k 1) = Rs_write" "signals ?k = 0" "cr_flag ?k = 0" "queue_ok (write_q (tty_at ?k 1))"
    "posts (termios (tty_at ?k 1)) (map (\<lambda>j. fsmem ?k (100 + j)) [0..<3]) = Some [104, 13, 104]"
    "chars_in (write_q (tty_at ?k 1)) = 0" "queue_chars (write_q (tty_at ?k 1)) = []"
    by code_simp+
  show ?thesis using tty_write_serial [OF _ s(1-5), of Some] s(6,7) by simp
qed

end
