(* ===== verification/TtyIoctl.thy ===== *)
theory TtyIoctl
  imports Tty
begin

text \<open>
  \<^verbatim>\<open>fs/tty_ioctl.c\<close>: the terminal settings as the caller reads and writes them, and \<^verbatim>\<open>tty_ioctl\<close>.

  A \<^verbatim>\<open>struct termios\<close> is four longs, \<^verbatim>\<open>c_line\<close>, the 17 bytes of \<^verbatim>\<open>c_cc\<close> and two bytes of padding, which are kept as
  bytes 17 and 18 of \<^verbatim>\<open>c_cc\<close>. A \<^verbatim>\<open>struct termio\<close> is four shorts, \<^verbatim>\<open>c_line\<close>, eight bytes and one of padding; the
  local variable of that type in \<^verbatim>\<open>get_termio\<close> is not cleared, so its padding is the argument \<open>junk\<close>.
  \<^verbatim>\<open>wait_until_sent\<close> and \<^verbatim>\<open>send_break\<close> are empty.
\<close>

section \<open>The settings as bytes\<close>

definition long_byte :: "u32 \<Rightarrow> nat \<Rightarrow> byte" where
  "long_byte v i = ucast (drop_bit (8 * i) v)"

definition termios_byte :: "termios \<Rightarrow> nat \<Rightarrow> byte" where
  "termios_byte tm i =
     (if i < 4 then long_byte (c_iflag tm) i
      else if i < 8 then long_byte (c_oflag tm) (i - 4)
      else if i < 12 then long_byte (c_cflag tm) (i - 8)
      else if i < 16 then long_byte (c_lflag tm) (i - 12)
      else if i = 16 then c_line tm
      else c_cc tm (i - 17))"

definition termios_of :: "cbuf \<Rightarrow> termios \<Rightarrow> termios" where
  "termios_of b tm =
     tm\<lparr>c_iflag := get32 b 0, c_oflag := get32 b 4, c_cflag := get32 b 8, c_lflag := get32 b 12, c_line := b 16,
        c_cc := (\<lambda>i. if i < 19 then b (17 + i) else c_cc tm i)\<rparr>"

abbreviation TERMIOS_SIZE :: nat where "TERMIOS_SIZE \<equiv> 36"
abbreviation TERMIO_SIZE :: nat where "TERMIO_SIZE \<equiv> 18"
abbreviation NCC :: nat where "NCC \<equiv> 8"

definition get_termios :: "nat \<Rightarrow> u32 \<Rightarrow> kernel \<Rightarrow> (nat + int \<times> kernel) option" where
  "get_termios ch arg k =
     with_area arg (of_nat TERMIOS_SIZE) (\<lambda>k. Some (0,
       fold (\<lambda>i. put_fs_byte (termios_byte (termios (tty_at k ch)) i) (unat arg + i)) [0..<TERMIOS_SIZE] k)) k"

definition set_termios :: "nat \<Rightarrow> u32 \<Rightarrow> kernel \<Rightarrow> int \<times> kernel" where
  "set_termios ch arg k =
     (0, on_tty ch (\<lambda>t. t\<lparr>termios := termios_of (\<lambda>i. get_fs_byte k (unat arg + i)) (termios t)\<rparr>) k)"

definition termio_byte :: "byte \<Rightarrow> termios \<Rightarrow> nat \<Rightarrow> byte" where
  "termio_byte junk tm i =
     (if i < 2 then long_byte (c_iflag tm) i
      else if i < 4 then long_byte (c_oflag tm) (i - 2)
      else if i < 6 then long_byte (c_cflag tm) (i - 4)
      else if i < 8 then long_byte (c_lflag tm) (i - 6)
      else if i = 8 then c_line tm
      else if i < 9 + NCC then c_cc tm (i - 9)
      else junk)"

definition get_termio :: "byte \<Rightarrow> nat \<Rightarrow> u32 \<Rightarrow> kernel \<Rightarrow> (nat + int \<times> kernel) option" where
  "get_termio junk ch arg k =
     with_area arg (of_nat TERMIO_SIZE) (\<lambda>k. Some (0,
       fold (\<lambda>i. put_fs_byte (termio_byte junk (termios (tty_at k ch)) i) (unat arg + i)) [0..<TERMIO_SIZE] k)) k"

text \<open>Only the lower halves of the flags are stored.\<close>

definition low_half :: "u16 \<Rightarrow> u32 \<Rightarrow> u32" where
  "low_half v w = (w AND NOT (mask 16)) OR ucast v"

definition termio_of :: "cbuf \<Rightarrow> termios \<Rightarrow> termios" where
  "termio_of b tm =
     tm\<lparr>c_iflag := low_half (get16 b 0) (c_iflag tm), c_oflag := low_half (get16 b 2) (c_oflag tm),
        c_cflag := low_half (get16 b 4) (c_cflag tm), c_lflag := low_half (get16 b 6) (c_lflag tm), c_line := b 8,
        c_cc := (\<lambda>i. if i < NCC then b (9 + i) else c_cc tm i)\<rparr>"

definition set_termio :: "nat \<Rightarrow> u32 \<Rightarrow> kernel \<Rightarrow> int \<times> kernel" where
  "set_termio ch arg k =
     (0, on_tty ch (\<lambda>t. t\<lparr>termios := termio_of (\<lambda>i. get_fs_byte k (unat arg + i)) (termios t)\<rparr>) k)"

section \<open>The commands\<close>

definition flush_read :: "nat \<Rightarrow> kernel \<Rightarrow> kernel" where
  "flush_read ch k = on_tty ch (\<lambda>t. t\<lparr>read_q := flush (read_q t)\<rparr>) k"

definition flush_write :: "nat \<Rightarrow> kernel \<Rightarrow> kernel" where
  "flush_write ch k = on_tty ch (\<lambda>t. t\<lparr>write_q := flush (write_q t)\<rparr>) k"

definition tty_flush :: "nat \<Rightarrow> u32 \<Rightarrow> kernel \<Rightarrow> int \<times> kernel" where
  "tty_flush ch arg k =
     (if arg = 0 then (0, flush_read ch k)
      else if arg = 1 then (0, flush_write ch k)
      else if arg = 2 then (0, flush_write ch (flush_read ch k))
      else (- EINVAL, k))"

text \<open>The number of the terminal is not checked: past the table it is \<open>None\<close>.\<close>

definition tty_number :: "u16 \<Rightarrow> kernel \<Rightarrow> nat option" where
  "tty_number dev k =
     (if MAJOR dev = 5 then
        if t_tty (cur k) < 0 then panic ''tty_ioctl: dev<0''
        else if 3 \<le> t_tty (cur k) then overrun ''tty_table'' else Some (nat (t_tty (cur k)))
      else if 3 \<le> MINOR dev then overrun ''tty_table'' else Some (MINOR dev))"

definition tty_command :: "byte \<Rightarrow> nat \<Rightarrow> u32 \<Rightarrow> u32 \<Rightarrow> kernel \<Rightarrow> (nat + int \<times> kernel) option" where
  "tty_command junk ch cmd arg k =
     (if cmd = 0x5401 then get_termios ch arg k
      else if cmd = 0x5404 then Some (Inr (set_termios ch arg (flush_read ch k)))
      else if cmd = 0x5403 \<or> cmd = 0x5402 then Some (Inr (set_termios ch arg k))
      else if cmd = 0x5405 then get_termio junk ch arg k
      else if cmd = 0x5408 then Some (Inr (set_termio ch arg (flush_read ch k)))
      else if cmd = 0x5407 \<or> cmd = 0x5406 then Some (Inr (set_termio ch arg k))
      else if cmd = 0x5409 then Some (Inr (0, k))
      else if cmd = 0x540B then Some (Inr (tty_flush ch arg k))
      else if cmd = 0x540F then
        with_area arg 4 (\<lambda>k. Some (0, put_fs_long (word_of_int (pgrp (tty_at k ch))) (unat arg) k)) k
      else if cmd = 0x5410 then
        Some (Inr (0, on_tty ch (\<lambda>t. t\<lparr>pgrp := sint (get_fs_long k (unat arg))\<rparr>) k))
      else if cmd = 0x5411 then
        with_area arg 4 (\<lambda>k. Some (0, put_fs_long (CHARS (write_q (tty_at k ch))) (unat arg) k)) k
      else Some (Inr (- EINVAL, k)))"

definition tty_ioctl :: "byte \<Rightarrow> u16 \<Rightarrow> u32 \<Rightarrow> u32 \<Rightarrow> kernel \<Rightarrow> (nat + int \<times> kernel) option" where
  "tty_ioctl junk dev cmd arg k = do { ch \<leftarrow> tty_number dev k; tty_command junk ch cmd arg k }"

section \<open>Lemmas\<close>

lemma long_byte_get32: "i < 4 \<Longrightarrow> long_byte (get32 b a) i = b (a + i)"
proof -
  assume "i < 4"
  then consider "i = 0" | "i = 1" | "i = 2" | "i = 3" by linarith
  moreover have "\<not> bit c (8 + n)" for c :: byte and n by (auto dest: bit_imp_le_length)
  ultimately show ?thesis
    by cases (auto intro!: bit_word_eqI simp: long_byte_def get32_def get16_def bit_simps numeral_3_eq_3 dest: bit_imp_le_length)
qed

lemma termios_of_bytes: "i < TERMIOS_SIZE \<Longrightarrow> termios_byte (termios_of b tm) i = b i"
  by (auto simp: termios_byte_def termios_of_def long_byte_get32)

lemma fold_put_fs_byte:
  "fsmem (fold (\<lambda>i. put_fs_byte (f i) (a + i)) [0..<n] k) x = (if a \<le> x \<and> x < a + n then f (x - a) else fsmem k x)"
  by (induction n) (auto simp: put_fs_byte_def)

lemma verify_area_fsmem: "verify_area a n k = Some (Inr k') \<Longrightarrow> fsmem k' = fsmem k \<and> tty_table k' = tty_table k"
  unfolding verify_area_def bind_eq_Some_conv by (elim exE conjE, rename_tac r, case_tac r) auto

lemma with_areaE:
  "with_area a n f k = Some (Inr r) \<Longrightarrow> \<exists>k'. f k' = Some r \<and> fsmem k' = fsmem k \<and> tty_table k' = tty_table k"
  unfolding with_area_def bind_eq_Some_conv
  by (elim exE conjE, rename_tac y, case_tac y) (auto dest: verify_area_fsmem)

text \<open>What \<^verbatim>\<open>TCSETS\<close> stores, \<^verbatim>\<open>TCGETS\<close> gives back.\<close>

lemma termios_roundtrip:
  assumes "set_termios ch a k = (r1, k1)" and "get_termios ch b k1 = Some (Inr (r2, k2))"
  shows "r1 = 0 \<and> r2 = 0 \<and> (\<forall>i<TERMIOS_SIZE. fsmem k2 (unat b + i) = fsmem k (unat a + i))"
proof -
  from assms(2) obtain k3 where k3: "tty_table k3 = tty_table k1" "r2 = 0"
    "k2 = fold (\<lambda>i. put_fs_byte (termios_byte (termios (tty_at k3 ch)) i) (unat b + i)) [0..<TERMIOS_SIZE] k3"
    unfolding get_termios_def by (auto dest!: with_areaE)
  have "fsmem k2 (unat b + i) = fsmem k (unat a + i)" if "i < TERMIOS_SIZE" for i
    unfolding k3(3) fold_put_fs_byte using assms(1) k3(1) that
    by (auto simp: tty_at_def set_termios_def on_tty_def termios_of_bytes get_fs_byte_def)
  then show ?thesis using assms(1) k3(2) by (simp add: set_termios_def)
qed

end
