(* ===== verification/OpenFile.thy ===== *)
theory OpenFile
  imports TtyIoctl
begin

text \<open>
  Open files: \<^verbatim>\<open>fs/open.c\<close>, \<^verbatim>\<open>fs/fcntl.c\<close>, \<^verbatim>\<open>fs/read_write.c\<close>, \<^verbatim>\<open>fs/char_dev.c\<close>, \<^verbatim>\<open>fs/ioctl.c\<close> and \<^verbatim>\<open>sys_pipe\<close>.
  A descriptor is an index into \<^verbatim>\<open>filp\<close> of the process, which holds an index into \<^verbatim>\<open>file_table\<close>. The main lemma
  is that \<^verbatim>\<open>f_count\<close> of an open file is the number of descriptors, of all processes, that refer to it.
\<close>

section \<open>Descriptors\<close>

definition filp_at :: "kernel \<Rightarrow> nat \<Rightarrow> nat option" where
  "filp_at k fd = t_filp (cur k) fd"

definition set_filp :: "nat \<Rightarrow> nat option \<Rightarrow> kernel \<Rightarrow> kernel" where
  "set_filp fd f k = on_cur (\<lambda>t. t\<lparr>t_filp := (t_filp t)(fd := f)\<rparr>) k"

definition set_f_count :: "nat \<Rightarrow> u16 \<Rightarrow> kernel \<Rightarrow> kernel" where
  "set_f_count f n k = on_file f (\<lambda>x. x\<lparr>f_count := n\<rparr>) k"

definition inc_f_count :: "nat \<Rightarrow> kernel \<Rightarrow> kernel" where
  "inc_f_count f k = set_f_count f (f_count (file_table k f) + 1) k"

definition keep_on_exec :: "nat \<Rightarrow> kernel \<Rightarrow> kernel" where
  "keep_on_exec fd k = on_cur (\<lambda>t. t\<lparr>t_close_on_exec := t_close_on_exec t AND NOT (push_bit fd 1)\<rparr>) k"

definition free_fds :: "kernel \<Rightarrow> nat list" where
  "free_fds k = filter (\<lambda>fd. filp_at k fd = None) [0..<NR_OPEN]"

definition free_files :: "kernel \<Rightarrow> nat list" where
  "free_files k = filter (\<lambda>f. f_count (file_table k f) = 0) [0..<NR_FILE]"

section \<open>Attributes of files\<close>

definition sys_utime :: "byte list \<Rightarrow> nat \<Rightarrow> kernel \<Rightarrow> (int \<times> kernel) option" where
  "sys_utime filename tb k =
     do { (inode, k) \<leftarrow> namei filename k;
          case inode of None \<Rightarrow> Some (- ENOENT, k)
          | Some i \<Rightarrow> do {
              let actime = (if tb \<noteq> 0 then get_fs_long k tb else CURRENT_TIME k);
              let modtime = (if tb \<noteq> 0 then get_fs_long k (tb + 4) else CURRENT_TIME k);
              k \<leftarrow> iput (Some i) (on_inode i (\<lambda>n. n\<lparr>i_atime := actime, i_mtime := modtime, i_dirt := 1\<rparr>) k);
              Some (0, k) } }"

text \<open>The inode is read after it has been given up, and the group is given the rights of the owner.\<close>

definition sys_access :: "byte list \<Rightarrow> u16 \<Rightarrow> kernel \<Rightarrow> (int \<times> kernel) option" where
  "sys_access filename mode k =
     (let mode = mode AND 7 in
      do { (inode, k) \<leftarrow> namei filename k;
           case inode of None \<Rightarrow> Some (- EACCES, k)
           | Some i \<Rightarrow> do {
               let res = i_mode (inode_at k i) AND 0x1ff;
               k \<leftarrow> iput (Some i) k;
               let n = inode_at k i;
               let t = cur k;
               let res = (if t_euid t \<noteq> 0 \<and> t_uid t \<noteq> 0 then res else if res AND 0x49 \<noteq> 0 then 0x1ff else 0x1b6);
               let res = (if t_euid t = i_uid n \<or> t_egid t = ucast (i_gid n) then drop_bit 6 res else res);
               Some (if res AND 7 AND mode = mode then 0 else - EACCES, k) } })"

definition sys_chdir :: "byte list \<Rightarrow> kernel \<Rightarrow> (int \<times> kernel) option" where
  "sys_chdir filename k =
     do { (inode, k) \<leftarrow> namei filename k;
          case inode of None \<Rightarrow> Some (- ENOENT, k)
          | Some i \<Rightarrow>
              if \<not> S_ISDIR (i_mode (inode_at k i)) then do { k \<leftarrow> iput (Some i) k; Some (- ENOTDIR, k) }
              else do { k \<leftarrow> iput (t_pwd (cur k)) k; Some (0, on_cur (\<lambda>t. t\<lparr>t_pwd := Some i\<rparr>) k) } }"

definition sys_chroot :: "byte list \<Rightarrow> kernel \<Rightarrow> (int \<times> kernel) option" where
  "sys_chroot filename k =
     do { (inode, k) \<leftarrow> namei filename k;
          case inode of None \<Rightarrow> Some (- ENOENT, k)
          | Some i \<Rightarrow>
              if \<not> S_ISDIR (i_mode (inode_at k i)) then do { k \<leftarrow> iput (Some i) k; Some (- ENOTDIR, k) }
              else do { k \<leftarrow> iput (t_root (cur k)) k; Some (0, on_cur (\<lambda>t. t\<lparr>t_root := Some i\<rparr>) k) } }"

definition sys_chmod :: "byte list \<Rightarrow> u16 \<Rightarrow> kernel \<Rightarrow> (int \<times> kernel) option" where
  "sys_chmod filename mode k =
     do { (inode, k) \<leftarrow> namei filename k;
          case inode of None \<Rightarrow> Some (- ENOENT, k)
          | Some i \<Rightarrow>
              let n = inode_at k i; t = cur k; user = (t_uid t \<noteq> 0 \<and> t_euid t \<noteq> 0) in
              if user \<and> t_uid t \<noteq> i_uid n \<and> t_euid t \<noteq> i_uid n
              then do { k \<leftarrow> iput (Some i) k; Some (- EACCES, k) }
              else let mode = (if user then (mode AND 0x1ff) OR (i_mode n AND 0xe00) else mode) in
                do { k \<leftarrow> iput (Some i) (on_inode i (\<lambda>n. n\<lparr>i_mode := (mode AND 0xfff) OR (i_mode n AND NOT 0xfff), i_dirt := 1\<rparr>) k);
                     Some (0, k) } }"

definition sys_chown :: "byte list \<Rightarrow> u16 \<Rightarrow> byte \<Rightarrow> kernel \<Rightarrow> (int \<times> kernel) option" where
  "sys_chown filename uid gid k =
     do { (inode, k) \<leftarrow> namei filename k;
          case inode of None \<Rightarrow> Some (- ENOENT, k)
          | Some i \<Rightarrow>
              if t_uid (cur k) \<noteq> 0 \<and> t_euid (cur k) \<noteq> 0 then do { k \<leftarrow> iput (Some i) k; Some (- EACCES, k) }
              else do { k \<leftarrow> iput (Some i) (on_inode i (\<lambda>n. n\<lparr>i_uid := uid, i_gid := gid, i_dirt := 1\<rparr>) k);
                        Some (0, k) } }"

section \<open>Opening and closing\<close>

text \<open>The descriptor and the file taken by a call that fails.\<close>

definition undo_open :: "nat \<Rightarrow> nat \<Rightarrow> kernel \<Rightarrow> kernel" where
  "undo_open fd f k = set_f_count f 0 (set_filp fd None k)"

text \<open>A session leader without a terminal gets the one it opens. The minor number is not checked.\<close>

definition take_tty :: "nat \<Rightarrow> kernel \<Rightarrow> kernel option" where
  "take_tty m k =
     (if t_leader (cur k) \<noteq> 0 \<and> t_tty (cur k) < 0 then
        if NR_TTY \<le> m then overrun ''tty_table''
        else Some (on_tty m (\<lambda>t. t\<lparr>pgrp := sint (t_pgrp (cur k))\<rparr>) (on_cur (\<lambda>t. t\<lparr>t_tty := int m\<rparr>) k))
      else Some k)"

text \<open>What \<^verbatim>\<open>sys_open\<close> does with the inode it has found.\<close>

definition open_inode :: "nat \<Rightarrow> nat \<Rightarrow> u32 \<Rightarrow> nat \<Rightarrow> kernel \<Rightarrow> (int \<times> kernel) option" where
  "open_inode fd f flag i k =
     (let n = inode_at k i in
      if S_ISCHR (i_mode n) \<and> MAJOR (i_zone n 0) = 5 \<and> t_tty (cur k) < 0
      then do { k \<leftarrow> iput (Some i) k; Some (- EPERM, undo_open fd f k) }
      else do {
        k \<leftarrow> (if S_ISCHR (i_mode n) \<and> MAJOR (i_zone n 0) = 4 then take_tty (MINOR (i_zone n 0)) k else Some k);
        Some (int fd, on_file f (\<lambda>x. x\<lparr>f_mode := i_mode n, f_flags := ucast flag, f_count := 1, f_inode := Some i, f_pos := 0\<rparr>) k) })"

definition sys_open :: "byte list \<Rightarrow> u32 \<Rightarrow> u32 \<Rightarrow> kernel \<Rightarrow> (int \<times> kernel) option" where
  "sys_open filename flag mode k =
     (let mode = mode AND 0x1ff AND NOT (ucast (t_umask (cur k))) in
      case free_fds k of [] \<Rightarrow> Some (- EINVAL, k)
      | fd # _ \<Rightarrow>
        let k = keep_on_exec fd k in
        case free_files k of [] \<Rightarrow> Some (- EINVAL, k)
        | f # _ \<Rightarrow> do {
            ((i, inode), k) \<leftarrow> open_namei filename flag mode (set_filp fd (Some f) (inc_f_count f k));
            if i < 0 then Some (i, undo_open fd f k)
            else do { inode \<leftarrow> inode; open_inode fd f flag inode k } })"

definition sys_creat :: "byte list \<Rightarrow> u32 \<Rightarrow> kernel \<Rightarrow> (int \<times> kernel) option" where
  "sys_creat pathname mode k = sys_open pathname (O_CREAT OR O_TRUNC) mode k"

definition sys_close :: "nat \<Rightarrow> kernel \<Rightarrow> (int \<times> kernel) option" where
  "sys_close fd k =
     (if NR_OPEN \<le> fd then Some (- EINVAL, k)
      else let k = keep_on_exec fd k in
        case filp_at k fd of None \<Rightarrow> Some (- EINVAL, k)
        | Some f \<Rightarrow>
          let k = set_filp fd None k in
          if f_count (file_table k f) = 0 then panic ''Close: file count is 0''
          else let k = set_f_count f (f_count (file_table k f) - 1) k in
            if f_count (file_table k f) \<noteq> 0 then Some (0, k)
            else do { k \<leftarrow> iput (f_inode (file_table k f)) k; Some (0, k) })"

section \<open>Descriptors of descriptors\<close>

definition dupfd :: "nat \<Rightarrow> nat \<Rightarrow> kernel \<Rightarrow> int \<times> kernel" where
  "dupfd fd arg k =
     (case (if NR_OPEN \<le> fd then None else filp_at k fd) of
        None \<Rightarrow> (- EBADF, k)
      | Some f \<Rightarrow>
        if NR_OPEN \<le> arg then (- EINVAL, k)
        else case List.find (\<lambda>n. filp_at k n = None) [arg..<NR_OPEN] of
          None \<Rightarrow> (- EMFILE, k)
        | Some n \<Rightarrow> (int n, inc_f_count f (set_filp n (Some f) (keep_on_exec n k))))"

definition sys_dup2 :: "nat \<Rightarrow> nat \<Rightarrow> kernel \<Rightarrow> (int \<times> kernel) option" where
  "sys_dup2 oldfd newfd k = do { (r, k) \<leftarrow> sys_close newfd k; Some (dupfd oldfd newfd k) }"

definition sys_dup :: "nat \<Rightarrow> kernel \<Rightarrow> int \<times> kernel" where
  "sys_dup fildes k = dupfd fildes 0 k"

abbreviation F_DUPFD :: nat where "F_DUPFD \<equiv> 0"
abbreviation F_GETFD :: nat where "F_GETFD \<equiv> 1"
abbreviation F_SETFD :: nat where "F_SETFD \<equiv> 2"
abbreviation F_GETFL :: nat where "F_GETFL \<equiv> 3"
abbreviation F_SETFL :: nat where "F_SETFL \<equiv> 4"

definition sys_fcntl :: "nat \<Rightarrow> nat \<Rightarrow> u32 \<Rightarrow> kernel \<Rightarrow> int \<times> kernel" where
  "sys_fcntl fd cmd arg k =
     (case (if NR_OPEN \<le> fd then None else filp_at k fd) of
        None \<Rightarrow> (- EBADF, k)
      | Some f \<Rightarrow>
        if cmd = F_DUPFD then dupfd fd (unat arg) k
        else if cmd = F_GETFD then (uint (drop_bit fd (t_close_on_exec (cur k)) AND 1), k)
        else if cmd = F_SETFD then
          (0, if arg AND 1 \<noteq> 0 then on_cur (\<lambda>t. t\<lparr>t_close_on_exec := t_close_on_exec t OR push_bit fd 1\<rparr>) k
              else keep_on_exec fd k)
        else if cmd = F_GETFL then (uint (f_flags (file_table k f)), k)
        else if cmd = F_SETFL then
          (0, on_file f (\<lambda>x. x\<lparr>f_flags := (f_flags x AND NOT (ucast (O_APPEND OR O_NONBLOCK)))
                                          OR ucast (arg AND (O_APPEND OR O_NONBLOCK))\<rparr>) k)
        else (- 1, k))"

definition sys_fcntl64 :: "nat \<Rightarrow> nat \<Rightarrow> u32 \<Rightarrow> kernel \<Rightarrow> int \<times> kernel" where
  "sys_fcntl64 fd cmd arg k =
     (if NR_OPEN \<le> fd \<or> filp_at k fd = None then (- EBADF, k)
      else if cmd = 12 \<or> cmd = 13 \<or> cmd = 14 then (- ENOSYS, k)
      else sys_fcntl fd cmd arg k)"

text \<open>\<^verbatim>\<open>sys_pipe\<close>: two files and two descriptors, or none.\<close>

definition sys_pipe :: "nat \<Rightarrow> kernel \<Rightarrow> (int \<times> kernel) option" where
  "sys_pipe fildes k =
     (case free_files k of
        [] \<Rightarrow> Some (- 1, k)
      | [f0] \<Rightarrow> Some (- 1, set_f_count f0 0 (inc_f_count f0 k))
      | f0 # f1 # _ \<Rightarrow>
        let k = inc_f_count f1 (inc_f_count f0 k) in
        case free_fds k of
          [] \<Rightarrow> Some (- 1, set_f_count f0 0 (set_f_count f1 0 k))
        | [d0] \<Rightarrow> Some (- 1, set_f_count f0 0 (set_f_count f1 0 (set_filp d0 None (set_filp d0 (Some f0) k))))
        | d0 # d1 # _ \<Rightarrow> do {
            (inode, k) \<leftarrow> get_pipe_inode (set_filp d1 (Some f1) (set_filp d0 (Some f0) k));
            case inode of
              None \<Rightarrow> Some (- 1, set_f_count f0 0 (set_f_count f1 0 (set_filp d0 None (set_filp d1 None k))))
            | Some i \<Rightarrow> Some (0,
                put_fs_long (of_nat d1) (fildes + 4) (put_fs_long (of_nat d0) fildes
                  (on_file f1 (\<lambda>x. x\<lparr>f_inode := Some i, f_pos := 0, f_mode := 2\<rparr>)
                    (on_file f0 (\<lambda>x. x\<lparr>f_inode := Some i, f_pos := 0, f_mode := 1\<rparr>) k)))) })"

section \<open>Reading and writing\<close>

definition rw_ttyx :: "world \<Rightarrow> world \<Rightarrow> bool \<Rightarrow> nat \<Rightarrow> nat \<Rightarrow> int \<Rightarrow> kernel \<Rightarrow> (int \<times> kernel) option" where
  "rw_ttyx rest intr isrd minor b cnt k = (if isrd then tty_read rest intr minor b cnt k else tty_write rest minor b cnt k)"

definition rw_tty :: "world \<Rightarrow> world \<Rightarrow> bool \<Rightarrow> nat \<Rightarrow> int \<Rightarrow> kernel \<Rightarrow> (int \<times> kernel) option" where
  "rw_tty rest intr isrd b cnt k =
     (if t_tty (cur k) < 0 then Some (- EPERM, k) else rw_ttyx rest intr isrd (nat (t_tty (cur k))) b cnt k)"

definition rw_char :: "world \<Rightarrow> world \<Rightarrow> bool \<Rightarrow> u16 \<Rightarrow> nat \<Rightarrow> int \<Rightarrow> kernel \<Rightarrow> (int \<times> kernel) option" where
  "rw_char rest intr isrd dev b cnt k =
     (if 8 \<le> MAJOR dev then panic ''rw_char: dev>NRDEV''
      else if MAJOR dev = 4 then rw_ttyx rest intr isrd (MINOR dev) b cnt k
      else if MAJOR dev = 5 then rw_tty rest intr isrd b cnt k
      else panic ''Trying to r/w from/to nonexistent character device'')"

definition IS_BLOCKDEV :: "nat \<Rightarrow> bool" where
  "IS_BLOCKDEV x \<longleftrightarrow> x = 2 \<or> x = 3"

text \<open>Positions are signed and 32 bits wide; the size of a file is unsigned.\<close>

definition sys_lseek :: "nat \<Rightarrow> u32 \<Rightarrow> int \<Rightarrow> kernel \<Rightarrow> int \<times> kernel" where
  "sys_lseek fd offset whence k =
     (case (if NR_OPEN \<le> fd then None else filp_at k fd) of None \<Rightarrow> (- EBADF, k)
      | Some f \<Rightarrow>
      (case f_inode (file_table k f) of None \<Rightarrow> (- EBADF, k)
      | Some i \<Rightarrow>
        let n = inode_at k i; p = f_pos (file_table k f);
            set = (\<lambda>p. if p <s 0 then (- EINVAL, k) else (sint p, on_file f (\<lambda>x. x\<lparr>f_pos := p\<rparr>) k)) in
        if \<not> IS_BLOCKDEV (MAJOR (i_dev n)) then (- EBADF, k)
        else if i_pipe n \<noteq> 0 then (- ESPIPE, k)
        else if whence = 0 then set offset
        else if whence = 1 then set (p + offset)
        else if whence = 2 then set (i_size n + offset)
        else (- EINVAL, k)))"

text \<open>The move of \<^verbatim>\<open>f_pos\<close> by the block devices.\<close>

definition dev_pos :: "nat \<Rightarrow> int \<times> u32 \<times> kernel \<Rightarrow> int \<times> kernel" where
  "dev_pos f = (\<lambda>(r, p, k). (r, on_file f (\<lambda>x. x\<lparr>f_pos := p\<rparr>) k))"

definition read_file :: "world \<Rightarrow> world \<Rightarrow> (nat \<Rightarrow> cbuf \<times> cbuf) \<Rightarrow> nat \<Rightarrow> nat \<Rightarrow> int \<Rightarrow> kernel \<Rightarrow> (int \<times> kernel) option" where
  "read_file rest intr stack f b cnt k =
     do { inode \<leftarrow> f_inode (file_table k f);
          let n = inode_at k inode;
          let p = f_pos (file_table k f);
          if i_pipe n \<noteq> 0 then
            if f_mode (file_table k f) AND 1 \<noteq> 0 then read_pipe rest inode b cnt k else Some (- 1, k)
          else if S_ISCHR (i_mode n) then rw_char rest intr True (i_zone n 0) b cnt k
          else if S_ISBLK (i_mode n) then map_option (dev_pos f) (block_read (i_zone n 0) p b cnt k)
          else if S_ISDIR (i_mode n) \<or> S_ISREG (i_mode n) then
            let cnt = (if i_size n < word_of_int cnt + p then sint (i_size n - p) else cnt) in
            if cnt \<le> 0 then Some (0, k) else file_read stack inode f b cnt k
          else Some (- EINVAL, k) }"

definition sys_read :: "world \<Rightarrow> world \<Rightarrow> (nat \<Rightarrow> cbuf \<times> cbuf) \<Rightarrow> nat \<Rightarrow> u32 \<Rightarrow> int \<Rightarrow> kernel \<Rightarrow> (nat + int \<times> kernel) option" where
  "sys_read rest intr stack fd b cnt k =
     (case (if NR_OPEN \<le> fd \<or> cnt < 0 then None else filp_at k fd) of
        None \<Rightarrow> Some (Inr (- EINVAL, k))
      | Some f \<Rightarrow>
        if cnt = 0 then Some (Inr (0, k))
        else with_area b (word_of_int cnt) (read_file rest intr stack f (unat b) cnt) k)"

definition sys_write :: "world \<Rightarrow> world \<Rightarrow> (nat \<Rightarrow> cbuf \<times> cbuf) \<Rightarrow> nat \<Rightarrow> u32 \<Rightarrow> int \<Rightarrow> kernel \<Rightarrow> (int \<times> kernel) option" where
  "sys_write rest intr stack fd b cnt k =
     (case (if NR_OPEN \<le> fd \<or> cnt < 0 then None else filp_at k fd) of
        None \<Rightarrow> Some (- EINVAL, k)
      | Some f \<Rightarrow>
        if cnt = 0 then Some (0, k)
        else do {
          inode \<leftarrow> f_inode (file_table k f);
          let n = inode_at k inode;
          let p = f_pos (file_table k f);
          if i_pipe n \<noteq> 0 then
            if f_mode (file_table k f) AND 2 \<noteq> 0 then write_pipe rest inode (unat b) cnt k else Some (- 1, k)
          else if S_ISCHR (i_mode n) then rw_char rest intr False (i_zone n 0) (unat b) cnt k
          else if S_ISBLK (i_mode n) then map_option (dev_pos f) (block_write (i_zone n 0) p (unat b) cnt k)
          else if S_ISREG (i_mode n) then file_write stack inode f (unat b) (nat cnt) k
          else Some (- EINVAL, k) })"

definition sys_ioctl :: "byte \<Rightarrow> nat \<Rightarrow> u32 \<Rightarrow> u32 \<Rightarrow> kernel \<Rightarrow> (nat + int \<times> kernel) option" where
  "sys_ioctl junk fd cmd arg k =
     (case (if NR_OPEN \<le> fd then None else filp_at k fd) of
        None \<Rightarrow> Some (Inr (- EBADF, k))
      | Some f \<Rightarrow> do {
          inode \<leftarrow> f_inode (file_table k f);
          let n = inode_at k inode;
          let dev = i_zone n 0;
          if \<not> S_ISCHR (i_mode n) \<and> \<not> S_ISBLK (i_mode n) then Some (Inr (- EINVAL, k))
          else if 8 \<le> MAJOR dev then panic ''unknown device for ioctl''
          else if MAJOR dev = 4 \<or> MAJOR dev = 5 then tty_ioctl junk dev cmd arg k
          else Some (Inr (- ENOTTY, k)) })"

section \<open>Counting descriptors\<close>

text \<open>The descriptor arrays of the processes, and the descriptors that refer to file \<open>f\<close>.\<close>

definition filps :: "kernel \<Rightarrow> nat \<Rightarrow> (nat \<Rightarrow> nat option) option" where
  "filps k i = map_option t_filp (task k i)"

definition refs :: "kernel \<Rightarrow> nat \<Rightarrow> (nat \<times> nat) set" where
  "refs k f = {(i, fd). i < NR_TASKS \<and> fd < NR_OPEN \<and> (\<exists>p. filps k i = Some p \<and> p fd = Some f)}"

text \<open>Every file is counted as often as descriptors refer to it, and descriptors refer to files of the table.\<close>

definition files_ok :: "kernel \<Rightarrow> bool" where
  "files_ok k \<longleftrightarrow> running k \<and> (\<forall>f. unat (f_count (file_table k f)) = card (refs k f) \<or> NR_FILE \<le> f) \<and>
     (\<forall>f. NR_FILE \<le> f \<longrightarrow> refs k f = {})"

lemma finite_refs [simp]: "finite (refs k f)"
  by (rule finite_subset [of _ "{..<NR_TASKS} \<times> {..<NR_OPEN}"]) (auto simp: refs_def)

lemma refs_bound: "card (refs k f) \<le> 1280"
proof -
  have "card (refs k f) \<le> card ({..<NR_TASKS} \<times> {..<NR_OPEN})" by (rule card_mono) (auto simp: refs_def)
  then show ?thesis by simp
qed

lemma files_ok_cong:
  assumes "filps k' = filps k" and "current k' = current k" and "\<And>f. f_count (file_table k' f) = f_count (file_table k f)"
  shows "files_ok k' = files_ok k"
proof -
  have "task k' (current k) = None \<longleftrightarrow> task k (current k) = None"
    using fun_cong [OF assms(1), of "current k"] by (cases "task k (current k)") (auto simp: filps_def)
  moreover have "refs k' f = refs k f" for f using assms(1) by (simp add: refs_def)
  ultimately show ?thesis using assms(2,3) by (simp add: files_ok_def running_def)
qed

lemma files_ok_other: "other k' = other k \<Longrightarrow> files_ok k' = files_ok k"
  by (rule files_ok_cong) (auto dest: other_sel intro!: other_task simp: filps_def fun_eq_iff)

lemma filps_on_cur:
  "(\<And>t. t_filp (h t) = t_filp t) \<Longrightarrow> filps (on_cur h k) = filps k"
  by (rule ext) (simp add: filps_def task_simps option.map_comp comp_def)

lemma filps_keep_on_exec [simp]: "filps (keep_on_exec fd k) = filps k"
  unfolding keep_on_exec_def by (rule filps_on_cur) simp

lemma filps_sel [simp]:
  "filps (on_file f g k) = filps k" "filps (set_f_count f n k) = filps k" "filps (inc_f_count f k) = filps k"
  "current (set_f_count f n k) = current k" "current (inc_f_count f k) = current k"
  "current (set_filp fd p k) = current k" "current (keep_on_exec fd k) = current k" "current (on_file f g k) = current k"
  "file_table (set_filp fd p k) = file_table k" "file_table (keep_on_exec fd k) = file_table k"
  "task (on_file f g k) = task k" "task (set_f_count f n k) = task k" "task (inc_f_count f k) = task k"
  by (simp_all add: inc_f_count_def set_f_count_def on_file_def keep_on_exec_def set_filp_def
      on_cur_def on_task_def filps_def fun_eq_iff)

lemma filps_set_filp: "running k \<Longrightarrow>
    filps (set_filp fd p k) = (filps k)(current k := Some ((t_filp (cur k))(fd := p)))"
  by (auto simp: filps_def fun_eq_iff task_simps set_filp_def running_def cur_def)

lemma filps_cur: "running k \<Longrightarrow> filps k (current k) = Some (t_filp (cur k))"
  by (auto simp: filps_def running_def cur_def)

lemma running_sel [simp]:
  "running (set_filp fd p k) = running k" "running (set_f_count f n k) = running k" "running (inc_f_count f k) = running k"
  "running (keep_on_exec fd k) = running k" "running (on_file f g k) = running k"
  by (simp_all add: running_def set_filp_def keep_on_exec_def task_simps)

lemma f_count_sel [simp]:
  "f_count (file_table (set_f_count f n k) g) = (if g = f then n else f_count (file_table k g))"
  "f_count (file_table (inc_f_count f k) g) = (if g = f then f_count (file_table k g) + 1 else f_count (file_table k g))"
  by (simp_all add: inc_f_count_def set_f_count_def on_file_def)

lemma refs_set_filp:
  assumes "running k" and "fd < NR_OPEN"
  shows "refs (set_filp fd p k) f = (if p = Some f then insert (current k, fd) (refs k f) else refs k f - {(current k, fd)})"
  using assms(2) filps_cur [OF assms(1)] assms(1) by (auto simp: refs_def filps_set_filp running_def split: if_splits)

lemma refs_sel [simp]:
  "refs (set_f_count f n k) g = refs k g" "refs (inc_f_count f k) g = refs k g" "refs (keep_on_exec fd k) g = refs k g"
  "refs (on_file f h k) g = refs k g"
  by (simp_all add: refs_def)

lemma cur_in_refs: "running k \<Longrightarrow> fd < NR_OPEN \<Longrightarrow> (current k, fd) \<in> refs k f \<longleftrightarrow> filp_at k fd = Some f"
  using filps_cur [of k] by (auto simp: refs_def filp_at_def running_def)

text \<open>A descriptor is taken, and given up.\<close>

lemma files_ok_take:
  assumes ok: "files_ok k" and f: "f < NR_FILE" and fd: "fd < NR_OPEN" "filp_at k fd = None"
  shows "files_ok (set_filp fd (Some f) (inc_f_count f k))"
proof -
  have r: "running k" using ok by (simp add: files_ok_def)
  have new: "(current k, fd) \<notin> refs k g" for g using cur_in_refs [OF r fd(1)] fd(2) by simp
  have c: "unat (f_count (file_table k g)) = card (refs k g) \<or> NR_FILE \<le> g" for g using ok by (simp add: files_ok_def)
  have "unat (f_count (file_table k f) + 1) = Suc (card (refs k f))"
    using c [of f] f refs_bound [of k f] by (simp add: unat_word_ariths)
  then show ?thesis
    using ok f new c by (auto simp: files_ok_def refs_set_filp [OF _ fd(1)])
qed

lemma files_ok_drop:
  assumes ok: "files_ok k" and fd: "fd < NR_OPEN" "filp_at k fd = Some f"
  shows "f_count (file_table k f) \<noteq> 0" "files_ok (set_f_count f (f_count (file_table k f) - 1) (set_filp fd None k))" "f < NR_FILE"
proof -
  have r: "running k" using ok by (simp add: files_ok_def)
  have mem: "(current k, fd) \<in> refs k f" using cur_in_refs [OF r fd(1)] fd(2) by simp
  show f: "f < NR_FILE" using ok mem by (auto simp: files_ok_def not_le [symmetric])
  have c: "unat (f_count (file_table k f)) = card (refs k f)" using ok f by (auto simp: files_ok_def)
  have pos: "0 < card (refs k f)" using mem by (auto simp: card_gt_0_iff)
  show nz: "f_count (file_table k f) \<noteq> 0" using c pos by auto
  have gone: "(current k, fd) \<notin> refs k g" if "g \<noteq> f" for g using cur_in_refs [OF r fd(1)] fd(2) that by simp
  have "unat (f_count (file_table k f) - 1) = card (refs k f - {(current k, fd)})"
    using c nz mem by (simp add: unat_minus_one)
  then show "files_ok (set_f_count f (f_count (file_table k f) - 1) (set_filp fd None k))"
    using ok f gone by (auto simp: files_ok_def refs_set_filp [OF _ fd(1)])
qed

section \<open>Every call keeps the counts\<close>

lemma files_ok_sel [simp]: "files_ok (keep_on_exec fd k) = files_ok k"
  by (rule files_ok_cong) (simp_all)

lemma files_ok_on_cur: "(\<And>t. t_filp (h t) = t_filp t) \<Longrightarrow> files_ok (on_cur h k) = files_ok k"
  by (rule files_ok_cong, rule filps_on_cur, assumption) (simp_all add: on_cur_def on_task_def)

lemma files_ok_on_file: "f_count (g (file_table k f)) = f_count (file_table k f) \<Longrightarrow> files_ok (on_file f g k) = files_ok k"
  by (rule files_ok_cong, simp, simp) (simp add: on_file_def)

lemma files_ok_on_inode [simp]: "files_ok (on_inode i g k) = files_ok k"
  by (rule files_ok_other) simp

lemma files_ok_put [simp]: "files_ok (put_fs_long v a k) = files_ok k" "files_ok (on_tty ch h k) = files_ok k"
  by (rule files_ok_cong; simp add: filps_def put_fs_long_def on_tty_def fun_eq_iff)+

lemma filp_at_sel [simp]:
  "filp_at (inc_f_count f k) fd = filp_at k fd" "filp_at (set_f_count f n k) fd = filp_at k fd"
  by (simp_all add: filp_at_def cur_def)

lemma filp_at_set_filp [simp]: "running k \<Longrightarrow> filp_at (set_filp fd p k) fd' = (if fd' = fd then p else filp_at k fd')"
  by (auto simp: filp_at_def cur_def set_filp_def task_simps running_def)

lemma filp_at_keep [simp]: "running k \<Longrightarrow> filp_at (keep_on_exec fd k) fd' = filp_at k fd'"
  by (auto simp: filp_at_def cur_def keep_on_exec_def task_simps running_def)

lemma filp_at_other: "other k' = other k \<Longrightarrow> filp_at k' fd = filp_at k fd"
  using other_cur [of k' k t_filp] by (simp add: filp_at_def)

lemma free_fds_hd: "free_fds k = fd # r \<Longrightarrow> fd < NR_OPEN \<and> filp_at k fd = None"
  unfolding free_fds_def by (drule arg_cong [of _ _ set]) auto

lemma free_files_hd: "free_files k = f # r \<Longrightarrow> f < NR_FILE \<and> f_count (file_table k f) = 0"
  unfolding free_files_def by (drule arg_cong [of _ _ set]) auto

lemma free_fds_two: "free_fds k = d0 # d1 # r \<Longrightarrow> d1 < NR_OPEN \<and> filp_at k d1 = None \<and> d0 \<noteq> d1"
proof -
  assume e: "free_fds k = d0 # d1 # r"
  have "distinct (d0 # d1 # r)" unfolding e [symmetric] by (simp add: free_fds_def)
  then show ?thesis using arg_cong [OF e, of set] by (auto simp: free_fds_def)
qed

lemma free_files_two: "free_files k = f0 # f1 # r \<Longrightarrow> f1 < NR_FILE \<and> f_count (file_table k f1) = 0 \<and> f0 \<noteq> f1"
proof -
  assume e: "free_files k = f0 # f1 # r"
  have "distinct (f0 # f1 # r)" unfolding e [symmetric] by (simp add: free_files_def)
  then show ?thesis using arg_cong [OF e, of set] by (auto simp: free_files_def)
qed

lemma files_ok_running: "files_ok k \<Longrightarrow> running k"
  by (simp add: files_ok_def)

lemma undo_open_ok:
  assumes "files_ok k" and "fd < NR_OPEN" and "filp_at k fd = Some f" and "f_count (file_table k f) = 1"
  shows "files_ok (undo_open fd f k)"
  using files_ok_drop(2) [OF assms(1-3)] assms(4) by (simp add: undo_open_def)

lemma open_inode_ok:
  assumes ok: "files_ok k" and fd: "fd < NR_OPEN" "filp_at k fd = Some f" and c: "f_count (file_table k f) = 1"
    and r: "open_inode fd f flag i k = Some (r, k')"
  shows "files_ok k'"
proof (cases "S_ISCHR (i_mode (inode_at k i)) \<and> MAJOR (i_zone (inode_at k i) 0) = 5 \<and> t_tty (cur k) < 0")
  case True
  then obtain k1 where "iput (Some i) k = Some k1" "k' = undo_open fd f k1"
    using r by (auto simp: open_inode_def Let_def bind_eq_Some_conv)
  then show ?thesis
    using undo_open_ok [of k1 fd f] ok fd c files_ok_other [of k1 k] filp_at_other [of k1 k] other_sel(3) [of k1 k]
    by (auto dest: frame)
next
  case False
  have "files_ok k1 \<and> f_count (file_table k1 f) = 1" if "take_tty m k = Some k1" for m k1
    using that ok c by (auto simp: take_tty_def files_ok_on_cur split: if_splits) (simp_all add: on_tty_def on_cur_def on_task_def)
  then obtain k1 where k1: "files_ok k1" "f_count (file_table k1 f) = 1"
    "k' = on_file f (\<lambda>x. x\<lparr>f_mode := i_mode (inode_at k i), f_flags := ucast flag, f_count := 1, f_inode := Some i, f_pos := 0\<rparr>) k1"
    using False r ok c by (auto simp: open_inode_def Let_def bind_eq_Some_conv split: if_splits)
  then show ?thesis by (simp add: files_ok_on_file)
qed

lemma sys_open_ok: "files_ok k \<Longrightarrow> sys_open name flag mode k = Some (r, k') \<Longrightarrow> files_ok k'"
proof -
  assume ok: "files_ok k" and r: "sys_open name flag mode k = Some (r, k')"
  show "files_ok k'"
  proof (cases "free_fds k")
    case (Cons fd fds)
    let ?k = "keep_on_exec fd k"
    show ?thesis
    proof (cases "free_files ?k")
      case (Cons f fs)
      let ?k1 = "set_filp fd (Some f) (inc_f_count f ?k)"
      note fd = free_fds_hd [OF \<open>free_fds k = _\<close>]
      note f = free_files_hd [OF Cons]
      have ok1: "files_ok ?k1" using ok f fd files_ok_running [OF ok] by (intro files_ok_take) simp_all
      have c: "f_count (file_table ?k1 f) = 1" "filp_at ?k1 fd = Some f"
        using f files_ok_running [OF ok] by simp_all
      obtain i inode k2 where k2: "open_namei name flag (mode AND 0x1ff AND NOT (ucast (t_umask (cur k)))) ?k1 = Some ((i, inode), k2)"
        "(if i < 0 then Some (i, undo_open fd f k2) else do { inode \<leftarrow> inode; open_inode fd f flag inode k2 }) = Some (r, k')"
        using r Cons \<open>free_fds k = _\<close> by (auto simp: sys_open_def Let_def bind_eq_Some_conv)
      then have o: "other k2 = other ?k1" by (auto dest: frame)
      then have "files_ok k2" "filp_at k2 fd = Some f" "f_count (file_table k2 f) = 1"
        using ok1 c files_ok_other [OF o] filp_at_other [OF o] other_sel(3) [OF o] by simp_all
      then show ?thesis
        using k2(2) fd undo_open_ok [of k2 fd f] open_inode_ok [of k2 fd f flag _ r k'] by (auto simp: bind_eq_Some_conv split: if_splits)
    qed (use ok r \<open>free_fds k = _\<close> in \<open>auto simp: sys_open_def Let_def\<close>)
  qed (use ok r in \<open>auto simp: sys_open_def Let_def\<close>)
qed

text \<open>The branch of \<^verbatim>\<open>sys_close\<close> that panics is dead.\<close>

lemma sys_close_ok:
  assumes ok: "files_ok k" and r: "sys_close fd k = Some (r, k')"
  shows "files_ok k'"
proof (cases "fd < NR_OPEN \<and> filp_at (keep_on_exec fd k) fd \<noteq> None")
  case False
  then show ?thesis using ok r by (auto simp: sys_close_def Let_def split: if_splits)
next
  case True
  then obtain f where f: "fd < NR_OPEN" "filp_at (keep_on_exec fd k) fd = Some f" by auto
  let ?k = "keep_on_exec fd k"
  let ?k1 = "set_f_count f (f_count (file_table ?k f) - 1) (set_filp fd None ?k)"
  have ok1: "files_ok ?k" using ok by simp
  have "k' = ?k1 \<or> iput (f_inode (file_table ?k1 f)) ?k1 = Some k'"
    using r f files_ok_drop(1) [OF ok1 f] by (auto simp: sys_close_def Let_def bind_eq_Some_conv split: if_splits)
  then show ?thesis
    using files_ok_drop(2) [OF ok1 f] files_ok_other [of k' ?k1] by (auto dest: frame)
qed

lemma set_filp_inc: "set_filp fd p (inc_f_count f k) = inc_f_count f (set_filp fd p k)"
  by (simp add: set_filp_def inc_f_count_def set_f_count_def on_file_def on_cur_def on_task_def)

lemma dupfd_ok: "files_ok k \<Longrightarrow> dupfd fd arg k = (r, k') \<Longrightarrow> files_ok k'"
proof -
  assume ok: "files_ok k" and r: "dupfd fd arg k = (r, k')"
  show "files_ok k'"
  proof (cases "\<exists>f n. fd < NR_OPEN \<and> filp_at k fd = Some f \<and> List.find (\<lambda>n. filp_at k n = None) [arg..<NR_OPEN] = Some n")
    case True
    then obtain f n where f: "fd < NR_OPEN" "filp_at k fd = Some f" "List.find (\<lambda>n. filp_at k n = None) [arg..<NR_OPEN] = Some n"
      by blast
    then have n: "n < NR_OPEN" "filp_at k n = None" by (auto simp: find_Some_iff2 find_Some_iff)
    have "files_ok (set_filp n (Some f) (inc_f_count f (keep_on_exec n k)))"
      using ok files_ok_drop(3) [OF ok f(1,2)] n files_ok_running [OF ok] by (intro files_ok_take) simp_all
    then show ?thesis using r f ok by (auto simp: dupfd_def set_filp_inc split: if_splits)
  qed (use ok r in \<open>auto simp: dupfd_def split: if_splits option.splits\<close>)
qed

lemma sys_fcntl_ok: "files_ok k \<Longrightarrow> sys_fcntl fd cmd arg k = (r, k') \<Longrightarrow> files_ok k'"
  by (auto simp: sys_fcntl_def files_ok_on_cur files_ok_on_file split: if_splits option.splits dest: dupfd_ok)

lemma sys_fcntl64_ok: "files_ok k \<Longrightarrow> sys_fcntl64 fd cmd arg k = (r, k') \<Longrightarrow> files_ok k'"
  by (auto simp: sys_fcntl64_def split: if_splits dest: sys_fcntl_ok)

lemma sys_dup2_ok: "files_ok k \<Longrightarrow> sys_dup2 a b k = Some (r, k') \<Longrightarrow> files_ok k'"
  using sys_close_ok [of k b] dupfd_ok [of _ a b r k'] by (auto simp: sys_dup2_def bind_eq_Some_conv)

lemma sys_lseek_ok: "files_ok k \<Longrightarrow> sys_lseek fd p w k = (r, k') \<Longrightarrow> files_ok k'"
  by (auto simp: sys_lseek_def Let_def files_ok_on_file split: if_splits option.splits)

lemma sys_pipe_ok:
  assumes ok: "files_ok k" and r: "sys_pipe a k = Some (r, k')"
  shows "files_ok k'"
proof (cases "free_files k")
  case Nil
  then show ?thesis using ok r by (simp add: sys_pipe_def)
next
  case f0: (Cons f0 fs)
  note f0' = free_files_hd [OF f0]
  have run: "running k" by (rule files_ok_running [OF ok])
  show ?thesis
  proof (cases fs)
    case Nil
    then have "k' = set_f_count f0 0 (inc_f_count f0 k)" using r f0 by (simp add: sys_pipe_def)
    then show ?thesis using ok f0' by (subst files_ok_cong [of _ k]) simp_all
  next
    case f1: (Cons f1 fs')
    note f1' = free_files_two [OF f0 [unfolded f1]]
    let ?k = "inc_f_count f1 (inc_f_count f0 k)"
    have same: "files_ok (set_f_count f0 0 (set_f_count f1 0 k2))"
      if "filps k2 = filps k" "current k2 = current k" "\<And>f. f \<noteq> f0 \<Longrightarrow> f \<noteq> f1 \<Longrightarrow> f_count (file_table k2 f) = f_count (file_table k f)" for k2
      using that ok f0' f1' by (subst files_ok_cong [of _ k]) auto
    have fds: "free_fds ?k = free_fds k" by (simp add: free_fds_def)
    have undone: "(filps k)(current k := Some ((t_filp (cur k))(d := None))) = filps k" if "filp_at k d = None" for d
      using filps_cur [OF run] that by (auto simp: fun_eq_iff filp_at_def)
    show ?thesis
    proof (cases "free_fds k")
      case Nil
      then show ?thesis using r f0 f1 fds same [of ?k] by (simp add: sys_pipe_def Let_def)
    next
      case d0: (Cons d0 ds)
      note d0' = free_fds_hd [OF d0]
      show ?thesis
      proof (cases ds)
        case Nil
        let ?k2 = "set_filp d0 None (set_filp d0 (Some f0) ?k)"
        have "cur (set_filp d0 (Some f0) ?k) = (cur k)\<lparr>t_filp := (t_filp (cur k))(d0 := Some f0)\<rparr>"
          using run by (auto simp: set_filp_def cur_def task_simps running_def)
        then have "filps ?k2 = filps k" using undone [of d0] d0' run by (simp add: filps_set_filp)
        then show ?thesis using r f0 f1 fds d0 Nil same [of ?k2] by (simp add: sys_pipe_def Let_def)
      next
        case d1: (Cons d1 ds')
        note d1' = free_fds_two [OF d0 [unfolded d1]]
        let ?k2 = "set_filp d1 (Some f1) (set_filp d0 (Some f0) ?k)"
        have eq: "?k2 = set_filp d1 (Some f1) (inc_f_count f1 (set_filp d0 (Some f0) (inc_f_count f0 k)))"
          by (simp add: set_filp_inc)
        have ok2: "files_ok ?k2" unfolding eq using ok f0' f1' d0' d1' run by (intro files_ok_take) simp_all
        obtain i k3 where g: "get_pipe_inode ?k2 = Some (i, k3)"
          using r f0 f1 fds d0 d1 by (auto simp: sys_pipe_def Let_def bind_eq_Some_conv)
        then have o: "other k3 = other ?k2" by (rule frame)
        have ok3: "files_ok k3" using ok2 files_ok_other [OF o] by simp
        have fl: "filp_at k3 d1 = Some f1" "filp_at k3 d0 = Some f0" "running k3"
          using d1' run files_ok_running [OF ok3] by (simp_all add: filp_at_other [OF o])
        have c: "f_count (file_table k3 f0) = 1" "f_count (file_table k3 f1) = 1"
          using other_sel(3) [OF o] f0' f1' by simp_all
        show ?thesis
        proof (cases i)
          case (Some i')
          then show ?thesis
            using r f0 f1 fds d0 d1 g ok3 by (auto simp: sys_pipe_def Let_def files_ok_on_file)
        next
          case None
          have ok4: "files_ok (undo_open d1 f1 k3)" using undo_open_ok [OF ok3 _ fl(1) c(2)] d1' by simp
          moreover have "filp_at (undo_open d1 f1 k3) d0 = Some f0" "f_count (file_table (undo_open d1 f1 k3) f0) = 1"
            using fl d1' f1' c by (auto simp: undo_open_def)
          ultimately have "files_ok (undo_open d0 f0 (undo_open d1 f1 k3))" using d0' by (auto intro: undo_open_ok)
          moreover have "k' = undo_open d0 f0 (undo_open d1 f1 k3)"
            using r f0 f1 fds d0 d1 g None
            by (simp add: sys_pipe_def Let_def undo_open_def set_filp_def set_f_count_def on_file_def on_cur_def on_task_def)
          ultimately show ?thesis by simp
        qed
      qed
    qed
  qed
qed

text \<open>The calls on descriptors and on attributes of files, made by whatever process is running.\<close>

inductive file_call :: "kernel \<Rightarrow> kernel \<Rightarrow> bool" where
  call_open: "sys_open name flag mode k = Some (r, k') \<Longrightarrow> file_call k k'"
| call_creat: "sys_creat name mode k = Some (r, k') \<Longrightarrow> file_call k k'"
| call_close: "sys_close fd k = Some (r, k') \<Longrightarrow> file_call k k'"
| call_dup: "sys_dup fd k = (r, k') \<Longrightarrow> file_call k k'"
| call_dup2: "sys_dup2 fd1 fd2 k = Some (r, k') \<Longrightarrow> file_call k k'"
| call_fcntl: "sys_fcntl fd cmd arg k = (r, k') \<Longrightarrow> file_call k k'"
| call_fcntl64: "sys_fcntl64 fd cmd arg k = (r, k') \<Longrightarrow> file_call k k'"
| call_pipe: "sys_pipe a k = Some (r, k') \<Longrightarrow> file_call k k'"
| call_lseek: "sys_lseek fd p w k = (r, k') \<Longrightarrow> file_call k k'"
| call_utime: "sys_utime name tb k = Some (r, k') \<Longrightarrow> file_call k k'"
| call_access: "sys_access name m k = Some (r, k') \<Longrightarrow> file_call k k'"
| call_chdir: "sys_chdir name k = Some (r, k') \<Longrightarrow> file_call k k'"
| call_chroot: "sys_chroot name k = Some (r, k') \<Longrightarrow> file_call k k'"
| call_chmod: "sys_chmod name m k = Some (r, k') \<Longrightarrow> file_call k k'"
| call_chown: "sys_chown name u g k = Some (r, k') \<Longrightarrow> file_call k k'"
| switch: "n < NR_TASKS \<Longrightarrow> task k n \<noteq> None \<Longrightarrow> file_call k (switch_to n k)"

interpretation files: part files_ok
  by unfold_locales (rule files_ok_other)

lemma attribute_calls:
  "keeps files_ok k snd (sys_utime name tb k)" "keeps files_ok k snd (sys_access name m k)"
  "keeps files_ok k snd (sys_chdir name k)" "keeps files_ok k snd (sys_chroot name k)"
  "keeps files_ok k snd (sys_chmod name m k)" "keeps files_ok k snd (sys_chown name u g k)"
  unfolding sys_utime_def sys_access_def sys_chdir_def sys_chroot_def sys_chmod_def sys_chown_def Let_def
  by (intro keeping refl; simp add: files_ok_on_cur)+

lemma files_ok_switch: "files_ok k \<Longrightarrow> n < NR_TASKS \<Longrightarrow> task k n \<noteq> None \<Longrightarrow> files_ok (switch_to n k)"
  by (simp add: files_ok_def running_def switch_to_def refs_def filps_def)

lemma file_call_ok: "file_call k k' \<Longrightarrow> files_ok k \<Longrightarrow> files_ok k'"
  by (induction rule: file_call.induct)
    (auto simp: sys_creat_def sys_dup_def intro: files_ok_switch
      elim: sys_open_ok sys_close_ok dupfd_ok sys_dup2_ok sys_fcntl_ok sys_fcntl64_ok sys_pipe_ok sys_lseek_ok dest: attribute_calls [THEN keepsD])

text \<open>
  C33: Whatever calls are made in whatever order by whatever processes, the count of every open file stays the
  number of descriptors that refer to it. So no descriptor refers to a free slot of the file table, and
  \<^verbatim>\<open>sys_close\<close> never finds a count of 0.
\<close>

theorem files_counted:
  assumes "file_call\<^sup>*\<^sup>* k k'" and "files_ok k"
  shows "files_ok k' \<and> (fd < NR_OPEN \<longrightarrow> filp_at k' fd = Some f \<longrightarrow> f < NR_FILE \<and> f_count (file_table k' f) \<noteq> 0)"
proof -
  have ok: "files_ok k'" using assms by (induction) (auto intro: file_call_ok)
  then show ?thesis using files_ok_drop(1,3) [OF ok] by blast
qed

text \<open>In the small kernel a pipe is opened and one end of it closed.\<close>

theorem files_counted_witness:
  "\<exists>k'. file_call\<^sup>*\<^sup>* (small_kernel small_cache) k' \<and> files_ok k' \<and> filp_at k' 1 = Some 1 \<and> f_count (file_table k' 1) \<noteq> 0 \<and>
     filp_at k' 0 = None"
proof -
  let ?k = "small_kernel small_cache"
  have "refs ?k f = {}" for f
    by (auto simp: refs_def filps_def small_kernel_def some_task_def INIT_TASK_def split: if_splits)
  then have ok: "files_ok ?k"
    by (simp add: files_ok_def running_def small_kernel_def zero_file_def)
  have "map_option (\<lambda>(r, k). map_option (\<lambda>(r, k). (filp_at k 0, filp_at k 1)) (sys_close 0 k)) (sys_pipe 0 ?k) = Some (Some (None, Some 1))"
    by code_simp
  then obtain r1 k1 r2 k2 where k2: "sys_pipe 0 ?k = Some (r1, k1)" "sys_close 0 k1 = Some (r2, k2)"
    "filp_at k2 0 = None" "filp_at k2 1 = Some 1" by auto
  then have "file_call\<^sup>*\<^sup>* ?k k2" by (meson call_pipe call_close rtranclp.rtrancl_refl rtranclp.rtrancl_into_rtrancl)
  from files_counted [OF this ok, of 1 1] this k2(3,4) show ?thesis by auto
qed

end
