(* ===== verification/Process.thy ===== *)
theory Process
  imports OpenFile
begin

text \<open>
  Processes come and go: \<^verbatim>\<open>kernel/fork.c\<close> (but for \<^verbatim>\<open>verify_area\<close>, theory Syscalls) and \<^verbatim>\<open>kernel/exit.c\<close>.

  A task structure lives at the start of a page; \<open>task\<close> holds the structure and \<open>task_page\<close> the address of the page.
  The state of the coprocessor that \<^verbatim>\<open>fnsave\<close> stores is the argument \<open>fpu\<close>.
\<close>

section \<open>Making a process\<close>

text \<open>The registers of the caller that the system call hands to \<^verbatim>\<open>copy_process\<close>.\<close>

record regs =
  g_ebp :: u32
  g_edi :: u32
  g_esi :: u32
  g_gs :: u32
  g_ebx :: u32
  g_ecx :: u32
  g_edx :: u32
  g_fs :: u32
  g_es :: u32
  g_ds :: u32
  g_eip :: u32
  g_cs :: u32
  g_eflags :: u32
  g_esp :: u32
  g_ss :: u32

text \<open>\<^verbatim>\<open>copy_mem(nr, p)\<close>: the descriptors of the new task and copies of the page tables.\<close>

definition copy_mem :: "nat \<Rightarrow> task_struct \<Rightarrow> kernel \<Rightarrow> ((int \<times> task_struct) \<times> kernel) option" where
  "copy_mem nr p k =
     (let t = cur k;
          code_limit = get_limit (t_ldt t 1); data_limit = get_limit (t_ldt t 2);
          old_code_base = get_base (t_ldt t 1); old_data_base = get_base (t_ldt t 2);
          base = of_nat nr * 0x4000000;
          p = p\<lparr>t_ldt := (t_ldt p)(1 := set_base base (t_ldt p 1), 2 := set_base base (t_ldt p 2))\<rparr> in
      if old_data_base \<noteq> old_code_base then panic ''We do not support separate I&D''
      else if data_limit < code_limit then panic ''Bad data_limit''
      else do {
        (r, m) \<leftarrow> copy_page_tables old_data_base base data_limit (mm k);
        if r \<noteq> 0 then do {
          (_, m) \<leftarrow> free_page_tables base data_limit m;
          Some ((- ENOMEM, p), k\<lparr>mm := m\<rparr>) }
        else Some ((0, p), k\<lparr>mm := m\<rparr>) })"

text \<open>The descriptor of a system segment of 104 bytes at \<open>addr\<close>; where \<^verbatim>\<open>tss\<close> and \<^verbatim>\<open>ldt\<close> are in a \<^verbatim>\<open>task_struct\<close>.\<close>

definition tssldt_desc :: "u32 \<Rightarrow> u32 \<Rightarrow> desc_struct" where
  "tssldt_desc addr type =
     \<lparr>da = 104 OR push_bit 16 addr,
      db = (drop_bit 16 addr AND mask 8) OR push_bit 8 type OR (addr AND push_bit 24 (mask 8))\<rparr>"

abbreviation LDT_OFFSET :: u32 where "LDT_OFFSET \<equiv> 328"
abbreviation TSS_OFFSET :: u32 where "TSS_OFFSET \<equiv> 352"
abbreviation FIRST_TSS_ENTRY :: nat where "FIRST_TSS_ENTRY \<equiv> 4"
abbreviation FIRST_LDT_ENTRY :: nat where "FIRST_LDT_ENTRY \<equiv> FIRST_TSS_ENTRY + 1"

definition set_tss_desc :: "nat \<Rightarrow> u32 \<Rightarrow> kernel \<Rightarrow> kernel" where
  "set_tss_desc n addr k = k\<lparr>gdt := (gdt k)(n := tssldt_desc addr 0x89)\<rparr>"

definition set_ldt_desc :: "nat \<Rightarrow> u32 \<Rightarrow> kernel \<Rightarrow> kernel" where
  "set_ldt_desc n addr k = k\<lparr>gdt := (gdt k)(n := tssldt_desc addr 0x82)\<rparr>"

text \<open>The structure of the new task, in the page \<open>page\<close>, before its memory is copied.\<close>

definition child_task :: "nat \<Rightarrow> regs \<Rightarrow> u32 \<Rightarrow> cbuf \<Rightarrow> kernel \<Rightarrow> task_struct" where
  "child_task nr r page fpu k =
     (let t = cur k; low = (\<lambda>w. w AND 0xffff) in
      t\<lparr>t_state := TASK_RUNNING, t_pid := last_pid k, t_father := t_pid t, t_counter := t_priority t, t_signal := 0,
        t_alarm := 0, t_leader := 0, t_utime := 0, t_stime := 0, t_cutime := 0, t_cstime := 0, t_start_time := jiffies k,
        t_tss := (t_tss t)\<lparr>back_link := 0, esp0 := PAGE_SIZE + page, ss0 := 0x10, r_eip := g_eip r, r_eflags := g_eflags r,
          r_eax := 0, r_ecx := g_ecx r, r_edx := g_edx r, r_ebx := g_ebx r, r_esp := g_esp r, r_ebp := g_ebp r,
          r_esi := g_esi r, r_edi := g_edi r, r_es := low (g_es r), r_cs := low (g_cs r), r_ss := low (g_ss r),
          r_ds := low (g_ds r), r_fs := low (g_fs r), r_gs := low (g_gs r), r_ldt := LDT_sel nr, trace_bitmap := 0x80000000,
          i387 := if last_task_used_math k = Some (current k) then fpu else i387 (t_tss t)\<rparr>\<rparr>)"

text \<open>Every open file, the working directory and the root get one more user.\<close>

primrec share_files :: "nat list \<Rightarrow> (nat \<Rightarrow> nat option) \<Rightarrow> kernel \<Rightarrow> kernel" where
  "share_files [] p k = k"
| "share_files (fd # fds) p k =
     share_files fds p (case p fd of None \<Rightarrow> k | Some f \<Rightarrow> inc_f_count f k)"

definition share_inode :: "nat option \<Rightarrow> kernel \<Rightarrow> kernel" where
  "share_inode io k = (case io of None \<Rightarrow> k | Some i \<Rightarrow> on_inode i (\<lambda>n. n\<lparr>i_count := i_count n + 1\<rparr>) k)"

definition copy_process :: "nat \<Rightarrow> regs \<Rightarrow> cbuf \<Rightarrow> kernel \<Rightarrow> (int \<times> kernel) option" where
  "copy_process nr r fpu k =
     (let (page, m) = get_free_page (mm k) in
      if page = 0 then Some (- EAGAIN, k\<lparr>mm := m\<rparr>)
      else let k = k\<lparr>mm := m\<rparr> in do {
        ((e, p), k) \<leftarrow> copy_mem nr (child_task nr r page fpu k) k;
        if e \<noteq> 0 then do { m \<leftarrow> free_page page (mm k); Some (- EAGAIN, k\<lparr>mm := m\<rparr>) }
        else let k = share_inode (t_root (cur k)) (share_inode (t_pwd (cur k)) (share_files [0..<NR_OPEN] (t_filp p) k));
                 k = set_ldt_desc (2 * nr + FIRST_LDT_ENTRY) (page + LDT_OFFSET)
                       (set_tss_desc (2 * nr + FIRST_TSS_ENTRY) (page + TSS_OFFSET) k) in
          Some (sint (last_pid k), k\<lparr>task := (task k)(nr \<mapsto> p), task_page := (task_page k)(nr := page)\<rparr>) })"

section \<open>Process numbers\<close>

definition next_pid :: "u32 \<Rightarrow> u32" where
  "next_pid l = (if l + 1 <s 0 then 1 else l + 1)"

definition pid_used :: "kernel \<Rightarrow> u32 \<Rightarrow> bool" where
  "pid_used k pid \<longleftrightarrow> list_ex (\<lambda>i. map_option t_pid (task k i) = Some pid) [0..<NR_TASKS]"

partial_function (option) find_pid_loop :: "kernel \<Rightarrow> u32 \<Rightarrow> u32 option" where
  "find_pid_loop k l = (let l = next_pid l in if pid_used k l then find_pid_loop k l else Some l)"

definition find_empty_process :: "kernel \<Rightarrow> (int \<times> kernel) option" where
  "find_empty_process k =
     do { l \<leftarrow> find_pid_loop k (last_pid k);
          let k = k\<lparr>last_pid := l\<rparr>;
          Some (case List.find (\<lambda>i. task k i = None) [1..<NR_TASKS] of None \<Rightarrow> (- EAGAIN, k) | Some i \<Rightarrow> (int i, k)) }"

text \<open>\<^verbatim>\<open>sys_fork\<close> of \<^verbatim>\<open>system_call.s\<close>.\<close>

definition sys_fork :: "regs \<Rightarrow> cbuf \<Rightarrow> kernel \<Rightarrow> (int \<times> kernel) option" where
  "sys_fork r fpu k =
     do { (nr, k) \<leftarrow> find_empty_process k;
          if nr < 0 then Some (nr, k) else copy_process (nat nr) r fpu k }"

section \<open>Signals\<close>

definition send_sig :: "int \<Rightarrow> nat \<Rightarrow> bool \<Rightarrow> kernel \<Rightarrow> kernel" where
  "send_sig sig p priv k =
     (case task k p of None \<Rightarrow> k
      | Some t \<Rightarrow>
        if sig < 1 \<or> 32 < sig then k
        else if priv \<or> t_uid (cur k) = t_uid t \<or> t_euid (cur k) = t_uid t \<or> t_uid (cur k) = t_euid t \<or> t_euid (cur k) = t_euid t
        then on_task p (\<lambda>t. t\<lparr>t_signal := t_signal t OR sig_bit (nat sig)\<rparr>) k
        else k)"

text \<open>Which tasks a number means. Note that 0 compares a process group with the number of the caller.\<close>

definition kill_target :: "int \<Rightarrow> kernel \<Rightarrow> nat \<Rightarrow> bool" where
  "kill_target pid k p =
     (case task k p of None \<Rightarrow> pid = - 1
      | Some t \<Rightarrow>
        if pid = 0 then t_pgrp t = t_pid (cur k)
        else if 0 < pid then sint (t_pid t) = pid
        else if pid = - 1 then True
        else sint (t_pgrp t) = - pid)"

definition do_kill :: "int \<Rightarrow> int \<Rightarrow> bool \<Rightarrow> kernel \<Rightarrow> kernel" where
  "do_kill pid sig priv k = fold (\<lambda>p k. if kill_target pid k p then send_sig sig p priv k else k) down_tasks k"

definition sys_kill :: "int \<Rightarrow> int \<Rightarrow> kernel \<Rightarrow> int \<times> kernel" where
  "sys_kill pid sig k = (0, do_kill pid sig (t_uid (cur k) = 0 \<and> t_euid (cur k) = 0) k)"

section \<open>The end of a process\<close>

text \<open>\<^verbatim>\<open>release(p)\<close> for the pointer \<open>task[p]\<close>.\<close>

definition release :: "nat \<Rightarrow> kernel \<Rightarrow> kernel option" where
  "release p k =
     (if task k p = None then Some k
      else if 1 \<le> p \<and> p < NR_TASKS
      then do { m \<leftarrow> free_page (task_page k p) (mm k); schedule (k\<lparr>task := (task k)(p := None), mm := m\<rparr>) }
      else panic ''trying to release non-existent task'')"

definition orphan_children :: "kernel \<Rightarrow> kernel" where
  "orphan_children k =
     k\<lparr>task := (\<lambda>i. if i < NR_TASKS
       then map_option (\<lambda>t. if t_father t = t_pid (cur k) then t\<lparr>t_father := 0\<rparr> else t) (task k i) else task k i)\<rparr>"

primrec close_all :: "nat list \<Rightarrow> kernel \<Rightarrow> kernel option" where
  "close_all [] k = Some k"
| "close_all (fd # fds) k =
     do { k \<leftarrow> (if filp_at k fd = None then Some k else map_option snd (sys_close fd k)); close_all fds k }"

definition drop_dirs :: "kernel \<Rightarrow> kernel option" where
  "drop_dirs k =
     do { k \<leftarrow> iput (t_pwd (cur k)) k;
          let k = on_cur (\<lambda>t. t\<lparr>t_pwd := None\<rparr>) k;
          k \<leftarrow> iput (t_root (cur k)) k;
          Some (on_cur (\<lambda>t. t\<lparr>t_root := None\<rparr>) k) }"

definition drop_tty :: "kernel \<Rightarrow> kernel option" where
  "drop_tty k =
     (if t_leader (cur k) \<noteq> 0 \<and> 0 \<le> t_tty (cur k) then
        if int NR_TTY \<le> t_tty (cur k) then overrun ''tty_table''
        else Some (on_tty (nat (t_tty (cur k))) (\<lambda>t. t\<lparr>pgrp := 0\<rparr>) k)
      else Some k)"

text \<open>
  \<^verbatim>\<open>do_exit\<close> up to the switch to another process; a process that has exited does not run again. A process
  without a father is released at once, which switches, too.
\<close>

definition do_exit :: "u32 \<Rightarrow> kernel \<Rightarrow> kernel option" where
  "do_exit code k =
     do { let t = cur k;
          (_, m) \<leftarrow> free_page_tables (get_base (t_ldt t 1)) (get_limit (t_ldt t 1)) (mm k);
          (_, m) \<leftarrow> free_page_tables (get_base (t_ldt t 2)) (get_limit (t_ldt t 2)) m;
          k \<leftarrow> close_all [0..<NR_OPEN] (orphan_children (k\<lparr>mm := m\<rparr>));
          k \<leftarrow> drop_dirs k;
          k \<leftarrow> drop_tty k;
          let k = (if last_task_used_math k = Some (current k) then k\<lparr>last_task_used_math := None\<rparr> else k);
          if t_father (cur k) \<noteq> 0
          then schedule (on_cur (\<lambda>t. t\<lparr>t_exit_code := code\<rparr>)
                 (do_kill (sint (t_father (cur k))) (int SIGCHLD) True (on_cur (\<lambda>t. t\<lparr>t_state := TASK_ZOMBIE\<rparr>) k)))
          else release (current k) k }"

definition sys_exit :: "u32 \<Rightarrow> kernel \<Rightarrow> kernel option" where
  "sys_exit error_code k = do_exit (push_bit 8 (error_code AND 0xff)) k"

section \<open>Waiting for a child\<close>

definition wait_child :: "int \<Rightarrow> kernel \<Rightarrow> nat \<Rightarrow> bool" where
  "wait_child pid k p \<longleftrightarrow>
     (case task k p of None \<Rightarrow> False
      | Some t \<Rightarrow> p \<noteq> current k \<and>
          (pid = - 1 \<or> sint (t_pid t) = pid \<or> pid = 0 \<and> t_pgrp t = t_pgrp (cur k) \<or> pid < 0 \<and> sint (t_pgrp t) = - pid) \<and>
          t_father t = t_pid (cur k))"

definition is_zombie :: "kernel \<Rightarrow> nat \<Rightarrow> bool" where
  "is_zombie k p \<longleftrightarrow> map_option t_state (task k p) = Some TASK_ZOMBIE"

text \<open>The child \<open>p\<close> is taken out of the table; \<^verbatim>\<open>release\<close> lets other processes run.\<close>

definition reap :: "world \<Rightarrow> nat \<Rightarrow> nat \<Rightarrow> kernel \<Rightarrow> (int \<times> kernel) option" where
  "reap rest stat_addr p k =
     do { t \<leftarrow> task k p;
          let k = put_fs_long (t_exit_code t) stat_addr k;
          let k = on_cur (\<lambda>c. c\<lparr>t_cutime := t_cutime c + t_utime t, t_cstime := t_cstime c + t_stime t\<rparr>) k;
          k \<leftarrow> release p k;
          k \<leftarrow> rest k;
          Some (sint (t_pid t), k) }"

partial_function (option) wait_loop :: "world \<Rightarrow> int \<Rightarrow> nat \<Rightarrow> bool \<Rightarrow> kernel \<Rightarrow> (int \<times> kernel) option" where
  "wait_loop rest pid stat_addr nohang k =
     (case List.find (\<lambda>p. wait_child pid k p \<and> is_zombie k p) down_tasks of
        Some p \<Rightarrow> reap rest stat_addr p k
      | None \<Rightarrow>
        if \<not> list_ex (wait_child pid k) down_tasks then Some (- ECHILD, k)
        else if nohang then Some (0, k)
        else do {
          (_, k) \<leftarrow> sys_pause k;
          k \<leftarrow> rest k;
          let k = on_cur (\<lambda>t. t\<lparr>t_signal := t_signal t AND NOT (sig_bit SIGCHLD)\<rparr>) k;
          if signals k = 0 then wait_loop rest pid stat_addr nohang k else Some (- EINTR, k) })"

definition sys_waitpid :: "world \<Rightarrow> int \<Rightarrow> u32 \<Rightarrow> u32 \<Rightarrow> kernel \<Rightarrow> (nat + int \<times> kernel) option" where
  "sys_waitpid rest pid stat_addr options k =
     with_area stat_addr 4 (wait_loop rest pid (unat stat_addr) (options AND 1 \<noteq> 0)) k"

section \<open>A new number is always found\<close>

lemma uint_next_pid:
  assumes "uint l < 2 ^ 31"
  shows "uint (next_pid l) = (if uint l = 2 ^ 31 - 1 then 1 else uint l + 1)"
proof (cases "uint l = 2 ^ 31 - 1")
  case True
  then have "l = word_of_int (2 ^ 31 - 1)" by (metis word_of_int_uint)
  then show ?thesis using True by (simp add: next_pid_def word_sless_alt)
next
  case False
  then have u: "uint (l + 1) = uint l + 1" using assms by (simp add: uint_word_ariths)
  then have "sint (l + 1) = uint l + 1" using assms False by (simp add: sint_uint signed_take_bit_int_eq_self)
  then have "\<not> l + 1 <s 0" using uint_ge_0 [of l] by (simp only: word_sless_alt sint_0)
  then show ?thesis using False u by (simp add: next_pid_def)
qed

abbreviation MAX_PID :: int where "MAX_PID \<equiv> 2 ^ 31 - 1"

lemma uint_nth_pid:
  assumes "uint l < 2 ^ 31" and "0 < n"
  shows "uint ((next_pid ^^ n) l) = (uint l - 1 + int n) mod MAX_PID + 1"
  using assms(2)
proof (induction n rule: nat_induct_non_zero)
  case 1
  have "uint l = 0 \<or> 0 < uint l" using uint_ge_0 [of l] by linarith
  then show ?case using uint_next_pid [OF assms(1)] assms(1) by (auto simp: mod_if)
next
  case (Suc n)
  have lt: "uint ((next_pid ^^ n) l) < 2 ^ 31" "1 \<le> uint ((next_pid ^^ n) l)"
    unfolding Suc.IH using pos_mod_bound [of MAX_PID "uint l - 1 + int n"] pos_mod_sign [of MAX_PID "uint l - 1 + int n"] by simp_all
  have "uint ((next_pid ^^ Suc n) l) = uint ((next_pid ^^ n) l) mod MAX_PID + 1"
    using uint_next_pid [OF lt(1)] lt by (auto simp: mod_if)
  also have "\<dots> = (uint l - 1 + int (Suc n)) mod MAX_PID + 1" unfolding Suc.IH by (simp add: mod_simps algebra_simps)
  finally show ?case .
qed

lemma pids_distinct:
  assumes "uint l < 2 ^ 31"
  shows "inj_on (\<lambda>n. (next_pid ^^ n) l) {1..65}"
proof (rule inj_onI)
  fix a b assume ab: "a \<in> {1..65 :: nat}" "b \<in> {1..65}" and e: "(next_pid ^^ a) l = (next_pid ^^ b) l"
  then have "(uint l - 1 + int a) mod MAX_PID = (uint l - 1 + int b) mod MAX_PID"
    using uint_nth_pid [OF assms, of a] uint_nth_pid [OF assms, of b] by auto
  then have "MAX_PID dvd (int a - int b)" by (metis add_diff_cancel_left mod_eq_dvd_iff)
  moreover have "1 \<le> int a" "int a \<le> 65" "1 \<le> int b" "int b \<le> 65" using ab by auto
  then have "\<bar>int a - int b\<bar> < MAX_PID" by (simp add: abs_if)
  ultimately show "a = b" using zdvd_not_zless [of "\<bar>int a - int b\<bar>" MAX_PID] by (cases "int a = int b") auto
qed

lemma free_pid:
  assumes "uint l < 2 ^ 31"
  shows "\<exists>n\<in>{1..65}. \<not> pid_used k ((next_pid ^^ n) l)"
proof (rule ccontr)
  assume used: "\<not> ?thesis"
  have "(\<lambda>n. (next_pid ^^ n) l) ` {1..65} \<subseteq> (\<lambda>i. t_pid (the (task k i))) ` {0..<64}"
  proof (rule image_subsetI)
    fix n :: nat assume "n \<in> {1..65}"
    then have "pid_used k ((next_pid ^^ n) l)" using used by blast
    then obtain i where "i < 64" "map_option t_pid (task k i) = Some ((next_pid ^^ n) l)" by (auto simp: pid_used_def list_ex_iff)
    then show "(next_pid ^^ n) l \<in> (\<lambda>i. t_pid (the (task k i))) ` {0..<64}" by (auto intro!: image_eqI [of _ _ i])
  qed
  then have "card ((\<lambda>n. (next_pid ^^ n) l) ` {1..65}) \<le> card ((\<lambda>i. t_pid (the (task k i))) ` {0..<64})"
    by (intro card_mono) auto
  also have "\<dots> \<le> card {0..<64 :: nat}" by (rule card_image_le) simp
  finally show False using card_image [OF pids_distinct [OF assms]] by simp
qed

text \<open>The loop takes the first number that is free, however many steps away it is.\<close>

lemma find_pid_loop_steps:
  "(\<And>j. 0 < j \<Longrightarrow> j \<le> n \<Longrightarrow> pid_used k ((next_pid ^^ j) l)) \<Longrightarrow> \<not> pid_used k ((next_pid ^^ Suc n) l) \<Longrightarrow>
    find_pid_loop k l = Some ((next_pid ^^ Suc n) l)"
proof (induction n arbitrary: l)
  case 0
  then show ?case by (subst find_pid_loop.simps) simp
next
  case (Suc n)
  have "pid_used k ((next_pid ^^ j) (next_pid l))" if "0 < j" "j \<le> n" for j
    using Suc.prems(1) [of "Suc j"] that by (simp add: funpow_swap1)
  then have "find_pid_loop k (next_pid l) = Some ((next_pid ^^ Suc n) (next_pid l))"
    using Suc.IH [of "next_pid l"] Suc.prems(2) by (simp add: funpow_swap1)
  then show ?case using Suc.prems(1) [of 1] by (subst find_pid_loop.simps) (simp add: funpow_swap1)
qed

lemma find_pid_loop_fresh:
  assumes "uint l < 2 ^ 31"
  shows "\<exists>p. find_pid_loop k l = Some p \<and> \<not> pid_used k p \<and> 0 < uint p \<and> uint p < 2 ^ 31"
proof -
  let ?P = "\<lambda>n. 0 < n \<and> \<not> pid_used k ((next_pid ^^ n) l)"
  obtain n0 where "?P n0" using free_pid [OF assms, of k] by (auto simp: Suc_le_eq)
  then have L: "?P (LEAST n. ?P n)" by (rule LeastI)
  then obtain n where n: "(LEAST n. ?P n) = Suc n" by (cases "LEAST n. ?P n") auto
  have "pid_used k ((next_pid ^^ j) l)" if "0 < j" "j \<le> n" for j
    using not_less_Least [of j ?P] that n by auto
  then have "find_pid_loop k l = Some ((next_pid ^^ Suc n) l)" using L n by (intro find_pid_loop_steps) auto
  moreover have "0 < uint ((next_pid ^^ Suc n) l)" "uint ((next_pid ^^ Suc n) l) < 2 ^ 31"
    using uint_nth_pid [OF assms, of "Suc n"] pos_mod_bound [of MAX_PID "uint l - 1 + int (Suc n)"]
      pos_mod_sign [of MAX_PID "uint l - 1 + int (Suc n)"] by simp_all
  ultimately show ?thesis using L n by auto
qed

text \<open>The number and the slot of a new process.\<close>

lemma find_empty_spec:
  assumes "0 \<le> sint (last_pid k)"
  shows "\<exists>r l. find_empty_process k = Some (r, k\<lparr>last_pid := l\<rparr>) \<and> 0 < sint l \<and> \<not> pid_used k l \<and>
    (if list_ex (\<lambda>i. task k i = None) [1..<NR_TASKS]
     then 1 \<le> r \<and> r < 64 \<and> task k (nat r) = None \<and> list_all (\<lambda>i. task k i \<noteq> None) [1..<nat r]
     else r = - EAGAIN)"
proof -
  have small: "uint w < 2 ^ 31" if "0 \<le> sint w" for w :: u32
  proof (rule ccontr)
    assume "\<not> ?thesis"
    moreover have u: "uint w < 2 ^ 32" using uint_lt2p [of w] by simp
    ultimately have "(uint w + 2 ^ 31) mod 2 ^ 32 = uint w - 2 ^ 31"
      by (simp add: mod_pos_geq)
    then have "sint w = uint w - 2 ^ 32" using int_word_sint [where 'a = 32, of "uint w"] by simp
    then show False using that u by simp
  qed
  have pos: "0 < sint w" if "0 < uint w" "uint w < 2 ^ 31" for w :: u32
    using that by (simp add: sint_uint signed_take_bit_int_eq_self)
  obtain l where l: "find_pid_loop k (last_pid k) = Some l" "\<not> pid_used k l" "0 < uint l" "uint l < 2 ^ 31"
    using find_pid_loop_fresh [of "last_pid k" k] small [OF assms] by blast
  note r = find_empty_process_def l(1)
  show ?thesis
  proof (cases "List.find (\<lambda>i. task k i = None) [1..<NR_TASKS]")
    case None
    then have "find_empty_process k = Some (- EAGAIN, k\<lparr>last_pid := l\<rparr>)" by (simp add: r Let_def)
    moreover have "\<not> list_ex (\<lambda>i. task k i = None) [1..<NR_TASKS]" using None by (auto simp: find_None_iff list_ex_iff)
    ultimately show ?thesis using l(2) pos [OF l(3,4)] by auto
  next
    case (Some n)
    then obtain j where "j < length [1..<NR_TASKS]" "task k ([1..<NR_TASKS] ! j) = None" "n = [1..<NR_TASKS] ! j"
      "\<forall>i<j. task k ([1..<NR_TASKS] ! i) \<noteq> None" by (auto simp: find_Some_iff)
    then have j: "j < 63" "task k (Suc j) = None" "n = Suc j" "\<And>i. i < j \<Longrightarrow> task k (Suc i) \<noteq> None" by auto
    have "task k i \<noteq> None" if "1 \<le> i" "i < n" for i using j(3,4) that by (cases i) auto
    then have n: "1 \<le> n" "n < 64" "task k n = None" "\<forall>i. 1 \<le> i \<longrightarrow> i < n \<longrightarrow> task k i \<noteq> None"
      using j by auto
    have "find_empty_process k = Some (int n, k\<lparr>last_pid := l\<rparr>)" using Some by (simp add: r Let_def)
    moreover have "list_ex (\<lambda>i. task k i = None) [1..<NR_TASKS]" using n by (auto simp: list_ex_iff)
    ultimately show ?thesis using l(2) pos [OF l(3,4)] n by (auto simp: list_all_iff)
  qed
qed

text \<open>
  C34: \<^verbatim>\<open>find_empty_process\<close> always comes to an end. The number it leaves in \<^verbatim>\<open>last_pid\<close> is positive and belongs to
  no process, and it answers with the first free slot but slot 0, or with \<^verbatim>\<open>-EAGAIN\<close> when there is none; nothing else
  changes.
\<close>

theorem fork_number:
  assumes "0 \<le> sint (last_pid k)"
  shows "\<exists>r l. find_empty_process k = Some (r, k\<lparr>last_pid := l\<rparr>) \<and> 0 < sint l \<and> \<not> pid_used k l \<and>
    (if list_ex (\<lambda>i. task k i = None) [1..<NR_TASKS]
     then 1 \<le> r \<and> r < 64 \<and> task k (nat r) = None \<and> list_all (\<lambda>i. task k i \<noteq> None) [1..<nat r]
     else r = - EAGAIN)"
  using assms by (rule find_empty_spec)

theorem fork_number_witness:
  "\<exists>r l. find_empty_process (small_kernel small_cache) = Some (r, (small_kernel small_cache)\<lparr>last_pid := l\<rparr>) \<and>
     0 < sint l \<and> r = 2"
proof -
  let ?k = "small_kernel small_cache"
  have s: "0 \<le> sint (last_pid ?k)" "list_ex (\<lambda>i. task ?k i = None) [1..<NR_TASKS]" by code_simp+
  have t: "task ?k 1 \<noteq> None" "task ?k 2 = None" by (simp_all add: small_kernel_def)
  from fork_number [OF s(1)] s(2) obtain r l where r: "find_empty_process ?k = Some (r, ?k\<lparr>last_pid := l\<rparr>)" "0 < sint l"
    "1 \<le> r" "task ?k (nat r) = None" "list_all (\<lambda>i. task ?k i \<noteq> None) [1..<nat r]" by auto
  have "\<not> 2 < nat r"
  proof
    assume "2 < nat r"
    then have "2 \<in> set [1..<nat r]" by simp
    then show False using r(5) t(2) by (simp only: list_all_iff)
  qed
  moreover have "nat r \<noteq> 1" using r(4) t(1) by metis
  ultimately show ?thesis using r(1-3) by auto
qed

section \<open>Who holds which files\<close>

text \<open>The number, the father and the descriptors of every process, and the counts of the files.\<close>

definition pview :: "task_struct \<Rightarrow> u32 \<times> u32 \<times> (nat \<Rightarrow> nat option)" where
  "pview t = (t_pid t, t_father t, t_filp t)"

definition fview :: "kernel \<Rightarrow> (nat \<Rightarrow> (u32 \<times> u32 \<times> (nat \<Rightarrow> nat option)) option) \<times> (nat \<Rightarrow> u16)" where
  "fview k = ((\<lambda>i. map_option pview (task k i)), (\<lambda>f. f_count (file_table k f)))"

definition pfview :: "kernel \<Rightarrow> nat \<times> (nat \<Rightarrow> (u32 \<times> u32 \<times> (nat \<Rightarrow> nat option)) option) \<times> (nat \<Rightarrow> u16)" where
  "pfview k = (current k, fview k)"

lemma fview_filps:
  assumes "fview k' = fview k"
  shows "filps k' = filps k"
proof
  fix i
  have "map_option pview (task k' i) = map_option pview (task k i)" using assms by (auto simp: fview_def dest: fun_cong)
  then have "map_option (snd \<circ> snd) (map_option pview (task k' i)) = map_option (snd \<circ> snd) (map_option pview (task k i))"
    by (rule arg_cong)
  then show "filps k' i = filps k i" by (simp add: filps_def option.map_comp comp_def pview_def)
qed

lemma pfview_files_ok: "pfview k' = pfview k \<Longrightarrow> files_ok k' = files_ok k"
  by (rule files_ok_cong) (auto simp: pfview_def intro: fview_filps dest: fun_cong simp: fview_def)

lemma pfview_other: "other k' = other k \<Longrightarrow> pfview k' = pfview k"
  using other_sel(2,3) [of k' k] other_task [of k' k pview] by (simp add: pfview_def fview_def pview_def)

interpretation procs: part pfview
  by unfold_locales (rule pfview_other)

lemma pfview_on_task: "(\<And>t. pview (h t) = pview t) \<Longrightarrow> pfview (on_task i h k) = pfview k"
  by (auto simp: pfview_def fview_def on_task_def fun_eq_iff option.map_comp comp_def)

lemma pfview_on_cur: "(\<And>t. pview (h t) = pview t) \<Longrightarrow> pfview (on_cur h k) = pfview k"
  unfolding on_cur_def by (rule pfview_on_task)

lemma pfview_sel [simp]:
  "pfview (on_tty ch g k) = pfview k" "pfview (k\<lparr>last_task_used_math := x\<rparr>) = pfview k"
  "pfview (k\<lparr>encryption_key := b\<rparr>) = pfview k" "pfview (k\<lparr>g_h_key := b\<rparr>) = pfview k"
  by (simp_all add: pfview_def fview_def on_tty_def)

subsection \<open>The scheduler\<close>

lemma pfview_fold: "(\<And>x k. pfview (h x k) = pfview k) \<Longrightarrow> pfview (fold h xs k) = pfview k"
  by (induction xs arbitrary: k) simp_all

lemma pfview_keyclear: "pfview (snd (sys_keyclear g k)) = pfview k"
  by (auto simp: sys_keyclear_def clear_key_def pfview_on_cur pview_def)

lemma pfview_check_tasks: "pfview (check_tasks k) = pfview k"
proof -
  have "pfview (check_task i k) = pfview k" for i k
    by (simp add: check_task_def check_alarm_def check_key_def check_global_key_def check_signal_def
        pfview_on_task pview_def pfview_keyclear split: option.split)
  then show ?thesis unfolding check_tasks_def by (rule pfview_fold)
qed

lemma pfview_recharge: "pfview (recharge k) = pfview k"
  unfolding recharge_def by (rule pfview_fold) (simp add: pfview_on_task recharge_task_def pview_def)

lemma pick_task: "snd (pick k) = 0 \<or> snd (pick k) < NR_TASKS \<and> task k (snd (pick k)) \<noteq> None"
proof -
  have "snd cn = 0 \<or> snd cn < NR_TASKS \<and> task k (snd cn) \<noteq> None \<Longrightarrow> set xs \<subseteq> {..<NR_TASKS} \<Longrightarrow>
      snd (fold (pick_step k) xs cn) = 0 \<or> snd (fold (pick_step k) xs cn) < NR_TASKS \<and> task k (snd (fold (pick_step k) xs cn)) \<noteq> None"
    for xs cn
  proof (induction xs arbitrary: cn)
    case (Cons x xs)
    then show ?case
      by (cases cn) (auto simp: pick_step_def split: option.split)
  qed simp
  then show ?thesis unfolding pick_def by (simp add: subset_iff)
qed

lemma schedule_loop_pfview:
  "schedule_loop k = Some (n, k') \<Longrightarrow> pfview k' = pfview k \<and> n = snd (pick k')"
proof -
  have "schedule_loop k = Some r \<Longrightarrow> pfview (snd r) = pfview k \<and> fst r = snd (pick (snd r))" for r
  proof (rule schedule_loop.raw_induct [where P = "\<lambda>k r. pfview (snd r) = pfview k \<and> fst r = snd (pick (snd r))"], rotate_tac)
    fix f :: "kernel \<Rightarrow> (nat \<times> kernel) option" and k r
    assume IH: "\<And>k r. f k = Some r \<Longrightarrow> pfview (snd r) = pfview k \<and> fst r = snd (pick (snd r))"
      and body: "(if fst (pick k) \<noteq> 0 then Some (snd (pick k), k) else f (recharge k)) = Some r"
    then show "pfview (snd r) = pfview k \<and> fst r = snd (pick (snd r))"
      using IH [of "recharge k" r] by (auto simp: pfview_recharge split: if_splits)
  qed assumption
  then show "schedule_loop k = Some (n, k') \<Longrightarrow> pfview k' = pfview k \<and> n = snd (pick k')" by fastforce
qed

lemma schedule_fview:
  assumes "schedule k = Some k'" and "task k 0 \<noteq> None"
  shows "fview k' = fview k \<and> running k'"
proof -
  obtain n k1 where k1: "schedule_loop (check_tasks k) = Some (n, k1)" "k' = switch_to n k1"
    using assms(1) by (auto simp: schedule_def bind_eq_Some_conv)
  have v: "fview k1 = fview k" "n = snd (pick k1)"
    using schedule_loop_pfview [OF k1(1)] pfview_check_tasks [of k] by (auto simp: pfview_def)
  have "map_option pview (task k1 0) = map_option pview (task k 0)" using v(1) by (auto simp: fview_def dest: fun_cong)
  then have "task k1 0 \<noteq> None" using assms(2) by auto
  then have "running k'" using pick_task [of k1] v(2) by (auto simp: k1(2) running_def switch_to_def)
  then show ?thesis using v(1) by (simp add: k1(2) switch_to_def fview_def)
qed

lemma schedule_files_ok:
  assumes "schedule k = Some k'" and "task k 0 \<noteq> None" and "files_ok k"
  shows "files_ok k'"
proof -
  note s = schedule_fview [OF assms(1,2)]
  have "refs k' f = refs k f" for f using fview_filps [of k' k] s by (simp add: refs_def)
  then show ?thesis using assms(3) s by (auto simp: files_ok_def fview_def fun_eq_iff)
qed

section \<open>Fork\<close>

lemma share_files_sel:
  "task (share_files fds p k) = task k" "current (share_files fds p k) = current k"
  "f_count (file_table (share_files fds p k) f) = f_count (file_table k f) + of_nat (length (filter (\<lambda>fd. p fd = Some f) fds))"
  by (induction fds arbitrary: k) (auto split: option.split)

lemma share_inode_sel:
  "task (share_inode io k) = task k" "current (share_inode io k) = current k" "file_table (share_inode io k) = file_table k"
  "last_pid (share_inode io k) = last_pid k"
  by (simp_all add: share_inode_def on_inode_def split: option.split)

lemma last_pid_share_files [simp]: "last_pid (share_files fds p k) = last_pid k"
  by (induction fds arbitrary: k) (simp_all add: inc_f_count_def set_f_count_def on_file_def split: option.split)

text \<open>A process with the descriptors of another one appears in an empty slot.\<close>

lemma files_ok_new_task:
  assumes ok: "files_ok k" and n: "n < NR_TASKS" "task k n = None" and p: "t_filp p = t_filp (cur k)"
    and t: "task k' = (task k)(n \<mapsto> p)" "current k' = current k"
    and c: "\<And>f. f_count (file_table k' f) = f_count (file_table k f) + of_nat (length (filter (\<lambda>fd. t_filp p fd = Some f) [0..<NR_OPEN]))"
  shows "files_ok k'"
proof -
  have run: "running k" by (rule files_ok_running [OF ok])
  let ?new = "\<lambda>f. Pair n ` set (filter (\<lambda>fd. t_filp p fd = Some f) [0..<NR_OPEN])"
  have refs: "refs k' f = refs k f \<union> ?new f" for f
    using n by (auto simp: refs_def filps_def t split: if_splits)
  have "refs k f \<inter> ?new f = {}" for f using n(2) by (auto simp: refs_def filps_def)
  then have card: "card (refs k' f) = card (refs k f) + length (filter (\<lambda>fd. t_filp p fd = Some f) [0..<NR_OPEN])" for f
    unfolding refs by (subst card_Un_disjoint) (simp_all add: card_image inj_on_def distinct_card del: set_filter)
  have "unat (f_count (file_table k' f)) = card (refs k' f) \<or> NR_FILE \<le> f" for f
  proof -
    have "unat (f_count (file_table k f)) = card (refs k f) \<or> NR_FILE \<le> f" using ok by (simp add: files_ok_def)
    then show ?thesis using refs_bound [of k' f] by (auto simp: c card unat_word_ariths unat_of_nat)
  qed
  moreover have "refs k' f = {}" if "NR_FILE \<le> f" for f
  proof -
    have "refs k f = {}" using ok that by (auto simp: files_ok_def)
    then have "t_filp (cur k) fd \<noteq> Some f" if "fd < NR_OPEN" for fd
      using cur_in_refs [OF run that, of f] by (simp add: filp_at_def)
    then show ?thesis using \<open>refs k f = {}\<close> by (auto simp: refs p)
  qed
  moreover have "running k'" using run by (simp add: running_def t)
  ultimately show ?thesis by (simp add: files_ok_def)
qed

lemma copy_mem_sel:
  "copy_mem nr p k = Some ((e, p'), k') \<Longrightarrow> (\<exists>m. k' = k\<lparr>mm := m\<rparr>) \<and> (\<exists>l. p' = p\<lparr>t_ldt := l\<rparr>) \<and> (e = 0 \<or> e = - ENOMEM)"
  by (auto simp: copy_mem_def Let_def bind_eq_Some_conv split: if_splits)

text \<open>What \<^verbatim>\<open>copy_process\<close> leaves behind: nothing but memory, or a child like its father.\<close>

definition is_child :: "kernel \<Rightarrow> regs \<Rightarrow> task_struct \<Rightarrow> bool" where
  "is_child k r p \<longleftrightarrow> t_pid p = last_pid k \<and> t_father p = t_pid (cur k) \<and> t_filp p = t_filp (cur k) \<and> t_pwd p = t_pwd (cur k) \<and>
     t_root p = t_root (cur k) \<and> t_uid p = t_uid (cur k) \<and> t_euid p = t_euid (cur k) \<and> t_state p = TASK_RUNNING \<and>
     t_signal p = 0 \<and> r_eax (t_tss p) = 0 \<and> r_eip (t_tss p) = g_eip r \<and> r_esp (t_tss p) = g_esp r"

lemma copy_process_spec:
  assumes "copy_process nr r fpu k = Some (e, k')"
  shows "(e = - EAGAIN \<and> (\<exists>m. k' = k\<lparr>mm := m\<rparr>)) \<or>
    (e = sint (last_pid k) \<and> (\<exists>p. task k' = (task k)(nr \<mapsto> p) \<and> is_child k r p) \<and> current k' = current k \<and> last_pid k' = last_pid k \<and>
     (\<forall>f. f_count (file_table k' f) = f_count (file_table k f) + of_nat (length (filter (\<lambda>fd. t_filp (cur k) fd = Some f) [0..<NR_OPEN]))))"
proof -
  obtain page m where g: "get_free_page (mm k) = (page, m)" by fastforce
  show ?thesis
  proof (cases "page = 0")
    case True
    then show ?thesis using assms g by (intro disjI1) (auto simp: copy_process_def)
  next
    case False
    let ?k = "k\<lparr>mm := m\<rparr>"
    let ?p = "child_task nr r page fpu ?k"
    have cur: "cur ?k = cur k" by (simp add: cur_def)
    have child: "is_child k r (?p\<lparr>t_ldt := l\<rparr>)" for l by (simp add: is_child_def child_task_def Let_def cur)
    obtain d p k1 where c: "copy_mem nr ?p ?k = Some ((d, p), k1)" using assms g False by (auto simp: copy_process_def Let_def bind_eq_Some_conv)
    obtain m1 l where k1: "k1 = k\<lparr>mm := m1\<rparr>" "p = ?p\<lparr>t_ldt := l\<rparr>" using copy_mem_sel [OF c] by auto
    have cur1: "cur k1 = cur k" by (simp add: k1 cur_def)
    have p: "is_child k r p" using child k1(2) by simp
    show ?thesis
    proof (cases "d = 0")
      case True
      let ?k2 = "share_inode (t_root (cur k)) (share_inode (t_pwd (cur k)) (share_files [0..<NR_OPEN] (t_filp p) k1))"
      have cs: "cur (share_inode x (share_files fds q k1)) = cur k" "cur (share_files fds q k1) = cur k" for x fds q
        by (simp_all add: cur_def share_inode_sel share_files_sel k1)
      have k': "e = sint (last_pid k) \<and> task k' = (task k)(nr \<mapsto> p) \<and> current k' = current ?k2 \<and> last_pid k' = last_pid ?k2 \<and>
          file_table k' = file_table ?k2"
        using assms g False c True
        by (auto simp: copy_process_def Let_def cs set_ldt_desc_def set_tss_desc_def share_inode_sel share_files_sel k1)
      moreover have "t_filp p = t_filp (cur k)" using p by (simp add: is_child_def)
      ultimately show ?thesis using p by (auto simp: share_inode_sel share_files_sel k1(1))
    next
      case nz: False
      then show ?thesis using assms g False c k1 by (intro disjI1) (auto simp: copy_process_def Let_def bind_eq_Some_conv)
    qed
  qed
qed

text \<open>
  C35: A fork either fails and changes neither a process nor a file, or makes exactly one process, in an empty slot:
  its number is positive and new, its father is the caller, it shares the caller's open files, whose counts go up with
  it, it is ready to run, with no signal, at the caller's instruction and stack, and finds 0 as the answer.
\<close>

theorem fork_copies:
  assumes "files_ok k" and "0 \<le> sint (last_pid k)" and "sys_fork r fpu k = Some (e, k')"
  shows "files_ok k' \<and> (if e < 0 then task k' = task k else
    \<exists>n p. 1 \<le> n \<and> n < NR_TASKS \<and> task k n = None \<and> task k' = (task k)(n \<mapsto> p) \<and> sint (t_pid p) = e \<and> 0 < e \<and>
      \<not> pid_used k (t_pid p) \<and> t_father p = t_pid (cur k) \<and> t_filp p = t_filp (cur k) \<and> t_state p = TASK_RUNNING \<and>
      t_signal p = 0 \<and> r_eax (t_tss p) = 0 \<and> r_eip (t_tss p) = g_eip r \<and> r_esp (t_tss p) = g_esp r)"
proof -
  obtain nr l where f: "find_empty_process k = Some (nr, k\<lparr>last_pid := l\<rparr>)" "0 < sint l" "\<not> pid_used k l"
    "nr < 0 \<or> 1 \<le> nr \<and> nr < 64 \<and> task k (nat nr) = None"
    using find_empty_spec [OF assms(2)] by (fastforce split: if_splits)
  let ?k = "k\<lparr>last_pid := l\<rparr>"
  have ok: "files_ok ?k" using assms(1) by (subst files_ok_cong [of _ k]) (simp_all add: filps_def fun_eq_iff)
  have cur: "cur ?k = cur k" by (simp add: cur_def)
  show ?thesis
  proof (cases "nr < 0")
    case True
    then show ?thesis using assms(3) f(1) ok by (auto simp: sys_fork_def)
  next
    case False
    then have c: "copy_process (nat nr) r fpu ?k = Some (e, k')" using assms(3) f(1) by (simp add: sys_fork_def)
    from copy_process_spec [OF c] show ?thesis
    proof (elim disjE conjE exE)
      fix m assume "e = - EAGAIN" "k' = ?k\<lparr>mm := m\<rparr>"
      then show ?thesis using ok by (simp add: files_ok_cong [of "?k\<lparr>mm := m\<rparr>" ?k] filps_def fun_eq_iff)
    next
      fix p assume e: "e = sint (last_pid ?k)" and t: "task k' = (task ?k)(nat nr \<mapsto> p)" and p: "is_child ?k r p"
        and k': "current k' = current ?k" "\<forall>f. f_count (file_table k' f) = f_count (file_table ?k f) +
          of_nat (length (filter (\<lambda>fd. t_filp (cur ?k) fd = Some f) [0..<NR_OPEN]))"
      have "files_ok k'"
        by (rule files_ok_new_task [OF ok _ _ _ t k'(1)]) (use f(4) False p k'(2) in \<open>simp_all add: is_child_def nat_less_iff\<close>)
      then show ?thesis
        using f False e t p cur by (intro conjI) (auto simp: is_child_def intro!: exI [of _ "nat nr"])
    qed
  qed
qed

definition some_regs :: regs where
  "some_regs = \<lparr>g_ebp = 0, g_edi = 0, g_esi = 0, g_gs = 23, g_ebx = 0, g_ecx = 0, g_edx = 0, g_fs = 23, g_es = 23, g_ds = 23,
     g_eip = 4660, g_cs = 15, g_eflags = 512, g_esp = 65536, g_ss = 23\<rparr>"

lemma small_files_ok: "files_ok (small_kernel small_cache)"
proof -
  have "refs (small_kernel small_cache) f = {}" for f
    by (auto simp: refs_def filps_def small_kernel_def some_task_def INIT_TASK_def split: if_splits)
  then show ?thesis by (simp add: files_ok_def running_def small_kernel_def zero_file_def)
qed

lemma copy_process_succeeds:
  assumes "get_free_page (mm k) = (page, m)" and "page \<noteq> 0"
    and "copy_mem nr (child_task nr r page fpu (k\<lparr>mm := m\<rparr>)) (k\<lparr>mm := m\<rparr>) = Some ((0, p), k1)"
  shows "\<exists>k'. copy_process nr r fpu k = Some (sint (last_pid k), k')"
  using assms copy_mem_sel [OF assms(3)]
  by (auto simp: copy_process_def Let_def share_inode_sel set_tss_desc_def set_ldt_desc_def)

lemma copy_process_small:
  "\<exists>k'. copy_process 2 some_regs (\<lambda>_. 0) ((small_kernel small_cache)\<lparr>last_pid := 10\<rparr>) = Some (10, k')"
proof -
  let ?k = "(small_kernel small_cache)\<lparr>last_pid := 10\<rparr>"
  let ?m = "snd (get_free_page (mm ?k))" and ?page = "fst (get_free_page (mm ?k))"
  let ?k1 = "?k\<lparr>mm := ?m\<rparr>"
  let ?p = "child_task 2 some_regs ?page (\<lambda>_. 0) ?k1"
  have g: "get_free_page (mm ?k) = (?page, ?m)" by (rule prod.collapse [symmetric])
  have page: "?page \<noteq> 0" by code_simp
  have "map_option (fst \<circ> fst) (copy_mem 2 ?p ?k1) = Some 0" by code_simp
  then obtain p k2 where c: "copy_mem 2 ?p ?k1 = Some ((0, p), k2)" by auto
  from copy_process_succeeds [OF g page c] show ?thesis by simp
qed

theorem fork_copies_witness:
  "\<exists>k'. sys_fork some_regs (\<lambda>_. 0) (small_kernel small_cache) = Some (10, k') \<and> files_ok k' \<and>
     (\<exists>n p. task (small_kernel small_cache) n = None \<and> task k' n = Some p \<and> t_pid p = 10 \<and> r_eip (t_tss p) = 4660)"
proof -
  let ?k = "small_kernel small_cache"
  have "find_pid_loop ?k 9 = Some 10" by (subst find_pid_loop.simps) code_simp
  moreover have "last_pid ?k = 9" by (simp add: small_kernel_def)
  moreover have "List.find (\<lambda>i. task ?k i = None) [1..<NR_TASKS] = Some 2" by code_simp
  ultimately have "sys_fork some_regs (\<lambda>_. 0) ?k = copy_process 2 some_regs (\<lambda>_. 0) (?k\<lparr>last_pid := 10\<rparr>)"
    by (simp add: sys_fork_def find_empty_process_def)
  then obtain k' where k': "sys_fork some_regs (\<lambda>_. 0) ?k = Some (10, k')" using copy_process_small by auto
  have l: "0 \<le> sint (last_pid ?k)" by code_simp
  from fork_copies [OF small_files_ok l k'] obtain n p where
    "files_ok k'" "task ?k n = None" "task k' = (task ?k)(n \<mapsto> p)" "sint (t_pid p) = 10" "r_eip (t_tss p) = g_eip some_regs"
    by auto
  moreover have "w = 10" if "sint w = 10" for w :: u32 
  proof -
    have "of_int (sint w) = w" by simp
    then show "w = 10" unfolding that by simp
  qed
  ultimately show ?thesis using k' by (auto simp: some_regs_def)
qed

section \<open>Exit\<close>

definition idents :: "kernel \<Rightarrow> nat \<Rightarrow> (u32 \<times> u32) option" where
  "idents k i = map_option (\<lambda>t. (t_pid t, t_father t)) (task k i)"

lemma idents_on_cur: "(\<And>t. t_pid (h t) = t_pid t) \<Longrightarrow> (\<And>t. t_father (h t) = t_father t) \<Longrightarrow> idents (on_cur h k) = idents k"
  by (rule ext) (simp add: idents_def task_simps option.map_comp comp_def)

lemma idents_other: "other k' = other k \<Longrightarrow> idents k' = idents k"
  using other_task [of k' k "\<lambda>t. (t_pid t, t_father t)"] by (simp add: idents_def fun_eq_iff)

lemma idents_sel [simp]:
  "idents (keep_on_exec fd k) = idents k" "idents (set_filp fd p k) = idents k" "idents (set_f_count f n k) = idents k"
  by (simp_all add: keep_on_exec_def set_filp_def idents_on_cur) (simp add: idents_def fun_eq_iff)

lemma idents_some: "idents k' = idents k \<Longrightarrow> task k i \<noteq> None \<Longrightarrow> task k' i \<noteq> None"
  by (drule fun_cong [of _ _ i]) (auto simp: idents_def)

lemma idents_fview: "fview k' = fview k \<Longrightarrow> idents k' = idents k"
proof
  fix i
  assume "fview k' = fview k"
  then have "map_option pview (task k' i) = map_option pview (task k i)" by (auto simp: fview_def dest: fun_cong)
  then have "map_option (\<lambda>(a, b, c). (a, b)) (map_option pview (task k' i)) = map_option (\<lambda>(a, b, c). (a, b)) (map_option pview (task k i))"
    by (rule arg_cong)
  then show "idents k' i = idents k i" by (simp add: idents_def option.map_comp comp_def pview_def)
qed

lemma sys_close_effect:
  assumes ok: "files_ok k" and fd: "fd < NR_OPEN" and r: "sys_close fd k = Some (r, k')"
  shows "filp_at k' fd' = (if fd' = fd then None else filp_at k fd') \<and> idents k' = idents k \<and> current k' = current k"
proof -
  have run: "running k" by (rule files_ok_running [OF ok])
  show ?thesis
  proof (cases "filp_at (keep_on_exec fd k) fd")
    case None
    then show ?thesis using r fd run by (auto simp: sys_close_def Let_def)
  next
    case (Some f)
    let ?k1 = "set_f_count f (f_count (file_table (set_filp fd None (keep_on_exec fd k)) f) - 1) (set_filp fd None (keep_on_exec fd k))"
    have "k' = ?k1 \<or> iput (f_inode (file_table ?k1 f)) ?k1 = Some k'"
      using r fd Some by (auto simp: sys_close_def Let_def bind_eq_Some_conv split: if_splits)
    then have "other k' = other ?k1" by (auto dest: frame)
    then show ?thesis
      using filp_at_other [of k' ?k1] idents_other [of k' ?k1] other_sel(2) [of k' ?k1] run by simp
  qed
qed

lemma close_all_effect:
  "files_ok k \<Longrightarrow> set fds \<subseteq> {..<NR_OPEN} \<Longrightarrow> close_all fds k = Some k' \<Longrightarrow>
    files_ok k' \<and> idents k' = idents k \<and> current k' = current k \<and>
    (\<forall>fd. filp_at k' fd = (if fd \<in> set fds then None else filp_at k fd))"
proof (induction fds arbitrary: k)
  case (Cons fd fds)
  show ?case
  proof (cases "filp_at k fd")
    case None
    then show ?thesis using Cons.IH [of k] Cons.prems by auto
  next
    case (Some f)
    then obtain r k1 where c: "sys_close fd k = Some (r, k1)" "close_all fds k1 = Some k'"
      using Cons.prems(3) by (auto simp: bind_eq_Some_conv)
    have "files_ok k1" using sys_close_ok [OF Cons.prems(1) c(1)] .
    then show ?thesis using Cons.IH [of k1] Cons.prems c sys_close_effect [OF Cons.prems(1) _ c(1)] by auto
  qed
qed simp

lemma pfview_drop_dirs: "drop_dirs k = Some k' \<Longrightarrow> pfview k' = pfview k"
proof -
  have "keeps pfview k id (drop_dirs k)"
    unfolding drop_dirs_def Let_def by (intro keeping refl; simp add: pfview_on_cur pview_def)
  then show "drop_dirs k = Some k' \<Longrightarrow> pfview k' = pfview k" by (simp add: keeps_def)
qed

lemma pfview_drop_tty: "drop_tty k = Some k' \<Longrightarrow> pfview k' = pfview k"
  by (auto simp: drop_tty_def split: if_splits)

lemma pfview_do_kill: "pfview (do_kill pid sig priv k) = pfview k"
  unfolding do_kill_def
  by (rule pfview_fold) (simp add: send_sig_def pfview_on_task pview_def split: option.split)

lemma orphan_sel:
  "files_ok (orphan_children (k\<lparr>mm := m\<rparr>)) = files_ok k" "current (orphan_children (k\<lparr>mm := m\<rparr>)) = current k"
  by (rule files_ok_cong) (auto simp: orphan_children_def filps_def fun_eq_iff option.map_comp comp_def intro!: option.map_cong)

text \<open>
  C36: When a process exits, every descriptor it had is given back and the counts of the files stay right; its
  children are orphans, so that no process is left with it as its father.
\<close>

theorem exit_closes:
  assumes ok: "files_ok k" and cur: "current k \<noteq> 0" and idle: "task k 0 \<noteq> None" and r: "do_exit code k = Some k'"
  shows "files_ok k' \<and> (current k, fd) \<notin> refs k' f \<and>
    (t_pid (cur k) \<noteq> 0 \<longrightarrow> i < NR_TASKS \<longrightarrow> map_option t_father (task k' i) \<noteq> Some (t_pid (cur k)))"
proof -
  obtain m k1 k2 k3 where k1: "close_all [0..<NR_OPEN] (orphan_children (k\<lparr>mm := m\<rparr>)) = Some k1" "drop_dirs k1 = Some k2"
    "drop_tty k2 = Some k3"
    "(let k4 = (if last_task_used_math k3 = Some (current k3) then k3\<lparr>last_task_used_math := None\<rparr> else k3) in
      if t_father (cur k4) \<noteq> 0
      then schedule (on_cur (\<lambda>t. t\<lparr>t_exit_code := code\<rparr>)
             (do_kill (sint (t_father (cur k4))) (int SIGCHLD) True (on_cur (\<lambda>t. t\<lparr>t_state := TASK_ZOMBIE\<rparr>) k4)))
      else release (current k4) k4) = Some k'"
    using r by (auto simp: do_exit_def Let_def bind_eq_Some_conv)
  let ?o = "orphan_children (k\<lparr>mm := m\<rparr>)"
  let ?k4 = "if last_task_used_math k3 = Some (current k3) then k3\<lparr>last_task_used_math := None\<rparr> else k3"
  have ok0: "files_ok ?o" using ok by (simp add: orphan_sel)
  have fds: "set [0..<NR_OPEN] \<subseteq> {..<NR_OPEN}" by auto
  have c: "files_ok k1" "idents k1 = idents ?o" "current k1 = current k" "\<And>fd. fd < NR_OPEN \<Longrightarrow> filp_at k1 fd = None"
    using close_all_effect [OF ok0 fds k1(1)] by (auto simp: orphan_sel)
  have v: "pfview ?k4 = pfview k1" using pfview_drop_dirs [OF k1(2)] pfview_drop_tty [OF k1(3)] by simp
  have ok4: "files_ok ?k4" using pfview_files_ok [OF v] c(1) by simp
  have cur4: "current ?k4 = current k" "fview ?k4 = fview k1" using v c(3) by (simp_all add: pfview_def)
  have none: "(current k, fd) \<notin> refs ?k4 f" for fd f
    using cur_in_refs [OF files_ok_running [OF c(1)]] c(3,4) fview_filps [OF cur4(2)]
    by (cases "fd < NR_OPEN") (auto simp: refs_def)
  have father: "map_option t_father (task ?k4 i) \<noteq> Some (t_pid (cur k))" if "t_pid (cur k) \<noteq> 0" "i < NR_TASKS" for i
  proof -
    have "idents ?k4 i = idents ?o i" using idents_fview [OF cur4(2)] c(2) by simp
    then have e: "map_option t_father (task ?k4 i) = map_option t_father (task ?o i)"
      by (cases "task ?k4 i"; cases "task ?o i") (simp_all add: idents_def)
    show ?thesis unfolding e using that by (cases "task k i") (auto simp: orphan_children_def cur_def)
  qed
  have t0: "task ?k4 0 \<noteq> None"
  proof (rule idents_some)
    show "idents ?k4 = idents ?o" using idents_fview [OF cur4(2)] c(2) by simp
    show "task ?o 0 \<noteq> None" using idle by (simp add: orphan_children_def)
  qed
  show ?thesis
  proof (cases "t_father (cur ?k4) \<noteq> 0")
    case True
    let ?z = "on_cur (\<lambda>t. t\<lparr>t_exit_code := code\<rparr>)
             (do_kill (sint (t_father (cur ?k4))) (int SIGCHLD) True (on_cur (\<lambda>t. t\<lparr>t_state := TASK_ZOMBIE\<rparr>) ?k4))"
    have s: "schedule ?z = Some k'" using k1(4) True by (simp add: Let_def)
    have z: "pfview ?z = pfview ?k4" by (simp add: pfview_on_cur pview_def pfview_do_kill)
    then have fz: "fview ?z = fview ?k4" by (simp add: pfview_def)
    have "task ?z 0 \<noteq> None" by (rule idents_some [OF idents_fview [OF fz] t0])
    moreover have "files_ok ?z" using pfview_files_ok [OF z] ok4 by simp
    ultimately have "files_ok k'" "fview k' = fview ?k4"
      using schedule_files_ok [OF s] schedule_fview [OF s] fz by simp_all
    moreover have "refs k' f = refs ?k4 f" using fview_filps [OF \<open>fview k' = _\<close>] by (simp add: refs_def)
    moreover have "map_option t_father (task k' i) = map_option t_father (task ?k4 i)"
      using fun_cong [OF idents_fview [OF \<open>fview k' = _\<close>], of i]
      by (cases "task k' i"; cases "task ?k4 i") (simp_all add: idents_def)
    ultimately show ?thesis using none father by simp
  next
    case False
    then have rel: "release (current ?k4) ?k4 = Some k'" using k1(4) by (simp add: Let_def)
    have run: "running ?k4" by (rule files_ok_running [OF ok4])
    obtain m' where s: "schedule (?k4\<lparr>task := (task ?k4)(current k := None), mm := m'\<rparr>) = Some k'"
      using rel run cur4(1) by (auto simp: release_def running_def bind_eq_Some_conv split: if_splits)
    let ?z = "?k4\<lparr>task := (task ?k4)(current k := None), mm := m'\<rparr>"
    have rz: "refs ?z g = refs ?k4 g" for g using none [of _ g] by (auto simp: refs_def filps_def split: if_splits)
    have "task ?z 0 \<noteq> None" using t0 cur by simp
    note sv = schedule_fview [OF s this]
    have "refs k' g = refs ?k4 g" for g using fview_filps [of k' ?z] sv rz by (simp add: refs_def)
    moreover have "f_count (file_table k' g) = f_count (file_table ?k4 g)" for g
      using fun_cong [OF conjunct2 [OF sv [unfolded fview_def prod.inject, THEN conjunct1]], of g] by simp
    ultimately have "files_ok k'" using ok4 sv by (simp add: files_ok_def)
    moreover have "map_option t_father (task k' i) = map_option t_father (task ?z i)"
      using fun_cong [OF idents_fview [OF conjunct1 [OF sv]], of i]
      by (cases "task k' i"; cases "task ?z i") (simp_all add: idents_def)
    ultimately show ?thesis using none father \<open>\<And>g. refs k' g = _\<close> by auto
  qed
qed

lemma schedule_returns: "sched_ok k \<Longrightarrow> \<exists>k'. schedule k = Some k'"
  using schedule_loop_picks [OF sched_ok_check_tasks, of k] by (auto simp: schedule_def)

text \<open>Process 1 with its own segment and one open file, whose father is process 5.\<close>

definition exit_kernel :: kernel where
  "exit_kernel = set_f_count 3 1 (on_cur (\<lambda>t. t\<lparr>t_filp := [0 \<mapsto> 3], t_father := 5, t_pwd := None, t_root := None,
     t_ldt := (\<lambda>_. set_base 0x8000000 (t_ldt t 1))\<rparr>) (small_kernel small_cache))"

lemma exit_kernel_seg:
  "get_base (t_ldt (cur exit_kernel) n) = 0x8000000" "get_limit (t_ldt (cur exit_kernel) n) = 0xa0000"
  by code_simp+

lemma exit_kernel_pages: "free_page_tables 0x8000000 0xa0000 empty_mm = Some (0, empty_mm)"
  by (simp add: free_page_tables_def dir_entry_def empty_mm_def rd_def)

lemma exit_kernel_sel: "mm exit_kernel = empty_mm" "current exit_kernel = 1" "running exit_kernel"
  by (simp_all add: exit_kernel_def set_f_count_def on_file_def on_cur_def on_task_def small_kernel_def running_def)

lemma sched_ok_on_task:
  "(\<And>t. t_counter (h t) = t_counter t) \<Longrightarrow> (\<And>t. t_priority (h t) = t_priority t) \<Longrightarrow> sched_ok k \<Longrightarrow> sched_ok (on_task i h k)"
  by (auto simp: sched_ok_def task_simps charge_ok_def split: if_splits)

lemma sched_ok_do_kill: "sched_ok k \<Longrightarrow> sched_ok (do_kill pid sig priv k)"
proof -
  have "sched_ok k \<Longrightarrow> sched_ok (fold (\<lambda>p k. if kill_target pid k p then send_sig sig p priv k else k) ps k)" for ps
    by (induction ps arbitrary: k) (auto simp: send_sig_def sched_ok_on_task split: option.split)
  then show "sched_ok k \<Longrightarrow> sched_ok (do_kill pid sig priv k)" by (simp add: do_kill_def)
qed

lemma do_exit_returns:
  assumes "free_page_tables (get_base (t_ldt (cur k) 1)) (get_limit (t_ldt (cur k) 1)) (mm k) = Some (0, m1)"
    and "free_page_tables (get_base (t_ldt (cur k) 2)) (get_limit (t_ldt (cur k) 2)) m1 = Some (0, m2)"
    and "do { k \<leftarrow> close_all [0..<NR_OPEN] (orphan_children (k\<lparr>mm := m2\<rparr>)); k \<leftarrow> drop_dirs k; drop_tty k } = Some k3"
    and "last_task_used_math k3 = None" and "t_father (cur k3) \<noteq> 0" and "sched_ok k3"
  shows "\<exists>k'. do_exit code k = Some k'"
proof -
  have "sched_ok (on_cur (\<lambda>t. t\<lparr>t_exit_code := code\<rparr>) (do_kill pid sig priv (on_cur (\<lambda>t. t\<lparr>t_state := TASK_ZOMBIE\<rparr>) k3)))" for pid sig priv
    unfolding on_cur_def using assms(6) by (intro sched_ok_on_task sched_ok_do_kill) simp_all
  note sc = schedule_returns [OF this]
  obtain k1 k2 where "close_all [0..<NR_OPEN] (orphan_children (k\<lparr>mm := m2\<rparr>)) = Some k1" "drop_dirs k1 = Some k2" "drop_tty k2 = Some k3"
    using assms(3) by (auto simp: bind_eq_Some_conv)
  then show ?thesis using assms(1,2,4,5) sc by (simp add: do_exit_def Let_def)
qed

lemma exit_kernel_returns: "\<exists>k'. do_exit 0 exit_kernel = Some k'"
proof -
  let ?p = "do { k \<leftarrow> close_all [0..<NR_OPEN] (orphan_children (exit_kernel\<lparr>mm := empty_mm\<rparr>)); k \<leftarrow> drop_dirs k; drop_tty k }"
  let ?ok = "\<lambda>k. list_all (\<lambda>i. case task k i of None \<Rightarrow> True | Some t \<Rightarrow> charge_ok t) [1..<NR_TASKS]"
  have "map_option (\<lambda>k. (last_task_used_math k = None, t_father (cur k), ?ok k)) ?p = Some (True, 5, True)" by code_simp
  then obtain k3 where k3: "?p = Some k3" "last_task_used_math k3 = None" "t_father (cur k3) = 5" "?ok k3" by auto
  have "sched_ok k3" using k3(4) by (fastforce simp: sched_ok_def list_all_iff split: option.splits)
  have f: "free_page_tables (get_base (t_ldt (cur exit_kernel) n)) (get_limit (t_ldt (cur exit_kernel) n)) empty_mm = Some (0, empty_mm)" for n
    unfolding exit_kernel_seg by (rule exit_kernel_pages)
  show ?thesis
    using do_exit_returns [OF f [of 1, folded exit_kernel_sel(1)] _ k3(1,2)] f [of 2] k3(3) \<open>sched_ok k3\<close> by (simp add: exit_kernel_sel)
qed

lemma exit_kernel_filp: "filp_at exit_kernel fd = (if fd = 0 then Some 3 else None)"
  by (simp add: exit_kernel_def filp_at_def cur_def set_f_count_def on_file_def on_cur_def on_task_def small_kernel_def)

lemma exit_kernel_ok: "files_ok exit_kernel"
proof -
  let ?h = "\<lambda>t. t\<lparr>t_father := 5, t_pwd := None, t_root := None, t_ldt := (\<lambda>_. set_base 0x8000000 (t_ldt t 1))\<rparr>"
  have "cur (small_kernel small_cache) = some_task 7 TASK_RUNNING 9" by (simp add: cur_def small_kernel_def)
  then have fd: "filp_at (small_kernel small_cache) 0 = None" by (simp add: filp_at_def some_task_def INIT_TASK_def)
  have "files_ok (set_filp 0 (Some 3) (inc_f_count 3 (small_kernel small_cache)))"
    by (rule files_ok_take [OF small_files_ok _ _ fd]) simp_all
  moreover have "filps exit_kernel = filps (set_filp 0 (Some 3) (inc_f_count 3 (small_kernel small_cache)))"
    by (rule ext) (auto simp: filps_def exit_kernel_def set_filp_def inc_f_count_def set_f_count_def on_file_def on_cur_def on_task_def
        small_kernel_def some_task_def INIT_TASK_def)
  moreover have "f_count (file_table exit_kernel f) = f_count (file_table (set_filp 0 (Some 3) (inc_f_count 3 (small_kernel small_cache))) f)" for f
    by (simp add: exit_kernel_def on_cur_def on_task_def) (simp add: small_kernel_def zero_file_def)
  ultimately show ?thesis by (subst files_ok_cong) (simp_all add: exit_kernel_sel small_kernel_def)
qed

theorem exit_closes_witness:
  "\<exists>k'. do_exit 0 exit_kernel = Some k' \<and> files_ok k' \<and> (1, 0) \<in> refs exit_kernel 3 \<and> (1, 0) \<notin> refs k' 3"
proof -
  obtain k' where k': "do_exit 0 exit_kernel = Some k'" using exit_kernel_returns by blast
  have "task exit_kernel 0 \<noteq> None" "current exit_kernel \<noteq> 0" by (simp_all add: exit_kernel_def small_kernel_def set_f_count_def on_file_def on_cur_def on_task_def)
  from exit_closes [OF exit_kernel_ok this(2,1) k', of 0 3] k'
  show ?thesis using cur_in_refs [OF exit_kernel_sel(3), of 0 3] by (auto simp: exit_kernel_sel exit_kernel_filp)
qed

end
