(* ===== verification/Exec.thy ===== *)
theory Exec
  imports Process
begin

text \<open>
  Running a program: \<^verbatim>\<open>fs/exec.c\<close> and the structures of \<^verbatim>\<open>elf.h\<close> it reads.

  The strings of the arguments are gathered in kernel pages; \<open>page_byte\<close> and \<open>put_page_byte\<close> reach the bytes
  of such a page in the words of physical memory. \<open>fsmem\<close> is the user memory of the caller: it is empty
  once the old page tables are gone (a page is cleared when it is first touched), and \<^verbatim>\<open>change_ldt\<close>
  shows the pages of the arguments at the end of the segment.
\<close>

section \<open>Blocks of an executable\<close>

text \<open>\<^verbatim>\<open>read_file_block_ind(dev, ind, n)\<close>: an entry of the table in block \<open>ind\<close>; \<open>n\<close> may point outside of it.\<close>

definition read_file_block_ind :: "u16 \<Rightarrow> nat \<Rightarrow> int \<Rightarrow> kernel \<Rightarrow> (nat option \<times> kernel) option" where
  "read_file_block_ind dev ind n k =
     do { (ih, k) \<leftarrow> kbread dev ind k;
          case ih of None \<Rightarrow> Some (None, k)
          | Some ih \<Rightarrow>
              if n < 0 \<or> 512 \<le> n then overrun ''b_data''
              else let block = unat (get16 (bdata k ih) (2 * nat n)) in do {
                (bh, k) \<leftarrow> (if block = 0 then Some (None, k) else kbread dev block k);
                k \<leftarrow> kbrelse (Some ih) k;
                Some (bh, k) } }"

definition read_file_block :: "nat \<Rightarrow> nat \<Rightarrow> kernel \<Rightarrow> (nat option \<times> kernel) option" where
  "read_file_block inode n k =
     (let dev = i_dev (inode_at k inode); zone = (\<lambda>i. unat (i_zone (inode_at k inode) i)) in
      if n \<le> 6 then kbread dev (zone n) k
      else let n = n - 7 in
      if n < 512 then read_file_block_ind dev (zone 7) (int n) k
      else let n = n - 512 in
      if 512 * 512 < n then panic ''Impossibly long executable''
      else if zone 8 = 0 then Some (None, k)
      else do {
        (dind, k) \<leftarrow> kbread dev (zone 8) k;
        case dind of None \<Rightarrow> Some (None, k)
        | Some d \<Rightarrow>
            if 512 \<le> n div 512 then overrun ''b_data''
            else let table = unat (get16 (bdata k d) (2 * (n div 512))) in do {
              k \<leftarrow> kbrelse (Some d) k;
              read_file_block_ind dev table (if 512 \<le> n then int n - (int n - 1) * 512 else int n) k } })"

section \<open>Sections\<close>

text \<open>
  \<^verbatim>\<open>cp_block(from, to, size)\<close> copies \<open>size/4\<close> words, here from offset \<open>p\<close> of the data of a buffer; what lies
  behind the 1024 bytes of a buffer is whatever \<open>bdata\<close> gives there.
\<close>

definition cp_block :: "nat \<Rightarrow> nat \<Rightarrow> u32 \<Rightarrow> nat \<Rightarrow> kernel \<Rightarrow> kernel" where
  "cp_block bh p dest sz k = put_bytes (4 * (sz div 4)) (bdata k bh) p (unat dest) k"

function copy_blocks :: "nat \<Rightarrow> nat \<Rightarrow> u32 \<Rightarrow> nat \<Rightarrow> kernel \<Rightarrow> (int \<times> kernel) option" where
  "copy_blocks inode n dest sz k =
     (if sz = 0 then Some (0, k)
      else do {
        (bh, k) \<leftarrow> read_file_block inode n k;
        case bh of None \<Rightarrow> Some (- 1, k)
        | Some b \<Rightarrow>
            let cp = min sz BLOCK_SIZE; k = cp_block b 0 dest (cp + 3) k in do {
              k \<leftarrow> kbrelse (Some b) k;
              copy_blocks inode (n + 1) (dest + of_nat cp) (sz - cp) k } })"
  by pat_completeness auto
termination by (relation "measure (\<lambda>(_, _, _, sz, _). sz)") auto

definition copy_section :: "nat \<Rightarrow> u32 \<Rightarrow> u32 \<Rightarrow> u32 \<Rightarrow> kernel \<Rightarrow> (int \<times> kernel) option" where
  "copy_section inode from dest sz k =
     (let n = unat from div BLOCK_SIZE; block_offset = unat from mod BLOCK_SIZE in do {
        (bh, k) \<leftarrow> read_file_block inode n k;
        case bh of None \<Rightarrow> Some (- 1, k)
        | Some b \<Rightarrow>
            let cp = min (unat sz) (BLOCK_SIZE - block_offset); k = cp_block b block_offset dest (cp + 3) k in do {
              k \<leftarrow> kbrelse (Some b) k;
              copy_blocks inode (n + 1) (dest + of_nat cp) (unat sz - cp) k } })"

definition create_bss_section :: "u32 \<Rightarrow> u32 \<Rightarrow> kernel \<Rightarrow> kernel" where
  "create_bss_section dest sz k = put_bytes (unat sz) (\<lambda>_. 0) 0 (unat dest) k"

section \<open>The file header\<close>

record Elf32_Ehdr =
  e_ident :: "byte list"
  e_type :: u16
  e_machine :: u16
  e_version :: u32
  e_entry :: u32
  e_phoff :: u32
  e_shoff :: u32
  e_flags :: u32
  e_ehsize :: u16
  e_phentsize :: u16
  e_phnum :: u16
  e_shentsize :: u16
  e_shnum :: u16
  e_shstrndx :: u16

record Elf32_Shdr =
  sh_name :: u32
  sh_type :: u32
  sh_flags :: u32
  sh_addr :: u32
  sh_offset :: u32
  sh_size :: u32
  sh_link :: u32
  sh_info :: u32
  sh_addralign :: u32
  sh_entsize :: u32

text \<open>The structures as they lie in the data of a buffer.\<close>

definition get_ehdr :: "cbuf \<Rightarrow> Elf32_Ehdr" where
  "get_ehdr a = \<lparr>e_ident = bytes_of 0 16 a, e_type = get16 a 16, e_machine = get16 a 18, e_version = get32 a 20,
     e_entry = get32 a 24, e_phoff = get32 a 28, e_shoff = get32 a 32, e_flags = get32 a 36, e_ehsize = get16 a 40,
     e_phentsize = get16 a 42, e_phnum = get16 a 44, e_shentsize = get16 a 46, e_shnum = get16 a 48, e_shstrndx = get16 a 50\<rparr>"

definition get_shdr :: "cbuf \<Rightarrow> nat \<Rightarrow> Elf32_Shdr" where
  "get_shdr a p = \<lparr>sh_name = get32 a p, sh_type = get32 a (p + 4), sh_flags = get32 a (p + 8), sh_addr = get32 a (p + 12),
     sh_offset = get32 a (p + 16), sh_size = get32 a (p + 20), sh_link = get32 a (p + 24), sh_info = get32 a (p + 28),
     sh_addralign = get32 a (p + 32), sh_entsize = get32 a (p + 36)\<rparr>"

definition is_valid_elf :: "Elf32_Ehdr \<Rightarrow> bool" where
  "is_valid_elf ex \<longleftrightarrow> take 4 (e_ident ex) = [0x7f, 0x45, 0x4c, 0x46] \<and> e_type ex = 2 \<and> e_machine ex = 3"

abbreviation SHT_PROGBITS :: u32 where "SHT_PROGBITS \<equiv> 1"
abbreviation SHT_NOBITS :: u32 where "SHT_NOBITS \<equiv> 8"

record bin_section =
  b_entry :: u32
  b_extent :: u32

text \<open>
  One section; the result says whether it could be loaded, with the number of bytes the program takes so far.
  The section headers are read from the last to the first. \<open>lb\<close> is the block of the current header and
  \<open>bht\<close> its buffer; before the first block other than 0, \<open>bht\<close> is the null pointer.
\<close>

definition load_section :: "nat \<Rightarrow> Elf32_Shdr \<Rightarrow> u32 \<Rightarrow> kernel \<Rightarrow> ((bool \<times> u32) \<times> kernel) option" where
  "load_section inode sect sz k =
     (let sz' = (if sz < sh_addr sect + sh_size sect then sh_addr sect + sh_size sect else sz) in
      if sh_size sect = 0 \<or> sh_addr sect = 0 then Some ((True, sz), k)
      else if sh_type sect = SHT_PROGBITS
      then do { (e, k) \<leftarrow> copy_section inode (sh_offset sect) (sh_addr sect) (sh_size sect) k;
                Some (if e = 0 then (True, sz') else (False, sz), k) }
      else if sh_type sect = SHT_NOBITS
      then Some ((True, sz'), create_bss_section (sh_addr sect) (sh_size sect) k)
      else Some ((True, sz), k))"

definition header_block :: "nat \<Rightarrow> u32 \<Rightarrow> u32 \<Rightarrow> nat option \<Rightarrow> kernel \<Rightarrow> ((u32 \<times> nat option) \<times> kernel) option" where
  "header_block inode off lb bht k =
     (if off div 1024 \<noteq> lb
      then do { k \<leftarrow> kbrelse bht k;
                (bht, k) \<leftarrow> read_file_block inode (unat (off div 1024)) k;
                Some ((off div 1024, bht), k) }
      else if bht = None then overrun ''bht'' else Some ((lb, bht), k))"

primrec load_sections :: "nat \<Rightarrow> Elf32_Ehdr \<Rightarrow> nat list \<Rightarrow> u32 \<Rightarrow> nat option \<Rightarrow> u32 \<Rightarrow> kernel \<Rightarrow> ((int \<times> u32) \<times> kernel) option" where
  "load_sections inode ex [] lb bht sz k = do { k \<leftarrow> kbrelse bht k; Some ((0, sz), k) }"
| "load_sections inode ex (n # ns) lb bht sz k =
     (let off = e_shoff ex + of_nat n * ucast (e_shentsize ex) in do {
        ((lb, bht), k) \<leftarrow> header_block inode off lb bht k;
        case bht of None \<Rightarrow> Some ((- 1, sz), k)
        | Some b \<Rightarrow> do {
            ((ok, sz), k) \<leftarrow> load_section inode (get_shdr (bdata k b) (unat (off mod 1024))) sz k;
            if ok then load_sections inode ex ns lb (Some b) sz k
            else do { k \<leftarrow> kbrelse (Some b) k; Some ((- 1, sz), k) } } })"

definition load_elf_binary :: "nat \<Rightarrow> nat \<Rightarrow> kernel \<Rightarrow> ((int \<times> bin_section) \<times> kernel) option" where
  "load_elf_binary inode bh k =
     (let ex = get_ehdr (bdata k bh); nsect = unat (e_shnum ex);
          sz = ucast (e_ehsize ex) + of_nat nsect * ucast (e_shentsize ex) in
      if \<not> is_valid_elf ex then Some ((- 1, \<lparr>b_entry = 0, b_extent = 0\<rparr>), k)
      else if nsect \<le> 1 then Some ((- 1, \<lparr>b_entry = e_entry ex, b_extent = sz\<rparr>), k)
      else do { ((e, sz), k) \<leftarrow> load_sections inode ex (rev [0..<nsect]) 0 None sz k;
                Some ((e, \<lparr>b_entry = e_entry ex, b_extent = sz\<rparr>), k) })"

section \<open>Arguments\<close>

abbreviation MAX_ARG_PAGES :: nat where "MAX_ARG_PAGES \<equiv> 32"

definition page_byte :: "u32 \<Rightarrow> mm \<Rightarrow> byte" where
  "page_byte a m = ucast (drop_bit (8 * unat (a AND 3)) (rd m (a AND NOT 3)))"

definition put_page_byte :: "u32 \<Rightarrow> byte \<Rightarrow> mm \<Rightarrow> mm" where
  "put_page_byte a v m =
     (let w = a AND NOT 3; s = 8 * unat (a AND 3) in
      wr w ((rd m w AND NOT (push_bit s 0xff)) OR push_bit s (ucast v)) m)"

partial_function (option) count_from :: "cbuf \<Rightarrow> nat \<Rightarrow> nat \<Rightarrow> nat option" where
  "count_from m tmp i = (if get32 m tmp \<noteq> 0 then count_from m (tmp + 4) (i + 1) else Some i)"

definition count_args :: "u32 \<Rightarrow> kernel \<Rightarrow> nat option" where
  "count_args argv k = (if argv = 0 then Some 0 else count_from (fsmem k) (unat argv) 0)"

text \<open>The pages from number \<open>i\<close> on, up to the first that is already there; the flag says that memory was left.\<close>

function alloc_pages :: "nat \<Rightarrow> (nat \<Rightarrow> u32) \<Rightarrow> mm \<Rightarrow> bool \<times> (nat \<Rightarrow> u32) \<times> mm" where
  "alloc_pages i page m =
     (if i < MAX_ARG_PAGES \<and> page i = 0
      then let (pg, m) = get_free_page m in
           if pg = 0 then (False, page, m) else alloc_pages (i + 1) (page(i := pg)) m
      else (True, page, m))"
  by pat_completeness auto
termination by (relation "measure (\<lambda>(i, _, _). MAX_ARG_PAGES - i)") auto

text \<open>The bytes of one string, from its terminating zero down, to the addresses below \<open>p\<close>.\<close>

primrec copy_down :: "byte list \<Rightarrow> (nat \<Rightarrow> u32) \<Rightarrow> u32 \<Rightarrow> mm \<Rightarrow> (u32 \<times> mm) option" where
  "copy_down [] page p m = Some (p, m)"
| "copy_down (c # cs) page p m =
     (let p = p - 1; i = unat (p div 4096) in
      if MAX_ARG_PAGES \<le> i then overrun ''page''
      else if page i = 0 then panic ''nonexistent page in exec.c''
      else copy_down cs page p (put_page_byte (page i + p mod 4096) c m))"

text \<open>\<^verbatim>\<open>p-len < 0\<close> is never true of an unsigned number.\<close>

primrec copy_strings :: "nat \<Rightarrow> u32 \<Rightarrow> (nat \<Rightarrow> u32) \<Rightarrow> u32 \<Rightarrow> kernel \<Rightarrow> ((u32 \<times> (nat \<Rightarrow> u32)) \<times> kernel) option" where
  "copy_strings 0 argv page p k = Some ((p, page), k)"
| "copy_strings (Suc n) argv page p k =
     (let tmp = get_fs_long k (unat argv + 4 * n) in
      if tmp = 0 then panic ''argc is wrong''
      else do {
        s \<leftarrow> user_string (fsmem k) (unat tmp);
        let len = of_nat (length s + 1);
        (case alloc_pages (unat (drop_bit 12 (p - len))) page (mm k) of
           (ok, page, m) \<Rightarrow>
             if \<not> ok then Some ((0, page), k\<lparr>mm := m\<rparr>)
             else do { (p, m) \<leftarrow> copy_down (rev (s @ [0])) page p m;
                       copy_strings n argv page p (k\<lparr>mm := m\<rparr>) }) })"

text \<open>
  \<^verbatim>\<open>change_ldt\<close>: the descriptors, and the pages of the arguments in the last 128 kB of the segment. A page for which
  \<^verbatim>\<open>put_page\<close> finds no memory is not seen there, but the call goes on.
\<close>

abbreviation DATA_LIMIT :: u32 where "DATA_LIMIT \<equiv> 0x4000000"

primrec put_pages :: "nat list \<Rightarrow> (nat \<Rightarrow> u32) \<Rightarrow> u32 \<Rightarrow> mm \<Rightarrow> ((nat \<Rightarrow> u32) \<times> mm) option" where
  "put_pages [] page data_base m = Some (page, m)"
| "put_pages (i # is) page data_base m =
     (let data_base = data_base - PAGE_SIZE in
      if page i = 0 then put_pages is page data_base m
      else do { (r, m) \<leftarrow> put_page (page i) data_base m;
                put_pages is (if r = 0 then page(i := 0) else page) data_base m })"

definition arg_view :: "(nat \<Rightarrow> u32) \<Rightarrow> mm \<Rightarrow> cbuf \<Rightarrow> cbuf" where
  "arg_view page m old a =
     (let low = unat DATA_LIMIT - MAX_ARG_PAGES * 4096; i = (a - low) div 4096 in
      if low \<le> a \<and> i < MAX_ARG_PAGES \<and> page i \<noteq> 0 then page_byte (page i + of_nat ((a - low) mod 4096)) m else old a)"

definition change_ldt :: "u32 \<Rightarrow> (nat \<Rightarrow> u32) \<Rightarrow> kernel \<Rightarrow> (u32 \<times> kernel) option" where
  "change_ldt text_size page k =
     (let code_limit = (text_size + PAGE_SIZE - 1) AND 0xfffff000;
          code_base = get_base (t_ldt (cur k) 1); data_base = code_base;
          k' = on_cur (\<lambda>t. t\<lparr>t_ldt := (t_ldt t)(1 := set_limit code_limit (set_base code_base (t_ldt t 1)),
                                              2 := set_limit DATA_LIMIT (set_base data_base (t_ldt t 2)))\<rparr>) k in
      do { (seen, m) \<leftarrow> put_pages (rev [0..<MAX_ARG_PAGES]) page (data_base + DATA_LIMIT) (mm k);
           Some (DATA_LIMIT, k'\<lparr>mm := m, fsmem := arg_view seen (mm k) (fsmem k)\<rparr>) })"

text \<open>A table of \<open>n\<close> pointers to the strings from \<open>p\<close> on.\<close>

primrec fill_table :: "nat \<Rightarrow> u32 \<Rightarrow> u32 \<Rightarrow> kernel \<Rightarrow> ((u32 \<times> u32) \<times> kernel) option" where
  "fill_table 0 ptr p k = Some ((ptr, p), k)"
| "fill_table (Suc n) ptr p k =
     (let k = put_fs_long p (unat ptr) k in
      do { s \<leftarrow> user_string (fsmem k) (unat p);
           fill_table n (ptr + 4) (p + of_nat (length s + 1)) k })"

definition create_tables :: "u32 \<Rightarrow> nat \<Rightarrow> nat \<Rightarrow> kernel \<Rightarrow> (u32 \<times> kernel) option" where
  "create_tables p argc envc k =
     (let sp = 0xfffffffc AND p; envp = sp - 4 * of_nat (envc + 1); argv = envp - 4 * of_nat (argc + 1); sp = argv - 4;
          k = put_fs_long (of_nat argc) (unat sp) k in
      do { ((argv, p), k) \<leftarrow> fill_table argc argv p k;
           let k = put_fs_long 0 (unat argv) k;
           ((envp, p), k) \<leftarrow> fill_table envc envp p k;
           Some (sp, put_fs_long 0 (unat envp) k) })"

section \<open>Starting a program\<close>

definition may_execute :: "nat \<Rightarrow> kernel \<Rightarrow> bool" where
  "may_execute inode k =
     (let n = inode_at k inode; t = cur k; i = i_mode n;
          i = (if t_uid t \<noteq> 0 \<and> t_euid t \<noteq> 0
               then if t_euid t = i_uid n then drop_bit 6 i else if t_egid t = ucast (i_gid n) then drop_bit 3 i else i
               else if i AND 0x49 \<noteq> 0 then 1 else i) in
      i AND 1 \<noteq> 0)"

primrec free_pages :: "nat list \<Rightarrow> (nat \<Rightarrow> u32) \<Rightarrow> mm \<Rightarrow> mm option" where
  "free_pages [] page m = Some m"
| "free_pages (i # is) page m = do { m \<leftarrow> free_page (page i) m; free_pages is page m }"

primrec close_marked :: "nat list \<Rightarrow> kernel \<Rightarrow> kernel option" where
  "close_marked [] k = Some k"
| "close_marked (i # is) k =
     do { k \<leftarrow> (if bit (t_close_on_exec (cur k)) i then map_option snd (sys_close i k) else Some k); close_marked is k }"

text \<open>The point of no return: handlers, marked descriptors and the old memory go.\<close>

definition flush_old :: "kernel \<Rightarrow> kernel option" where
  "flush_old k =
     do { let k = on_cur (\<lambda>t. t\<lparr>t_sig_fn := (\<lambda>i. if i < 32 then 0 else t_sig_fn t i)\<rparr>) k;
          k \<leftarrow> close_marked [0..<NR_OPEN] k;
          let k = on_cur (\<lambda>t. t\<lparr>t_close_on_exec := 0\<rparr>) k;
          (_, m) \<leftarrow> free_page_tables (get_base (t_ldt (cur k) 1)) (get_limit (t_ldt (cur k) 1)) (mm k);
          (_, m) \<leftarrow> free_page_tables (get_base (t_ldt (cur k) 2)) (get_limit (t_ldt (cur k) 2)) m;
          Some (k\<lparr>mm := m, fsmem := (\<lambda>_. 0)\<rparr>) }"

text \<open>The rest of the last page of the program is cleared.\<close>

definition zero_tail :: "u32 \<Rightarrow> kernel \<Rightarrow> kernel" where
  "zero_tail sz k = put_bytes (unat ((- sz) AND 0xfff)) (\<lambda>_. 0) 0 (unat sz) k"

definition start_program :: "nat \<Rightarrow> bin_section \<Rightarrow> (nat \<Rightarrow> u32) \<Rightarrow> u32 \<Rightarrow> nat \<Rightarrow> nat \<Rightarrow> kernel \<Rightarrow> (u32 \<times> kernel) option" where
  "start_program inode bs page p argc envc k =
     do { let k = (if last_task_used_math k = Some (current k) then k\<lparr>last_task_used_math := None\<rparr> else k);
          let k = on_cur (\<lambda>t. t\<lparr>t_used_math := 0\<rparr>) k;
          (limit, k) \<leftarrow> change_ldt (b_extent bs) page k;
          (sp, k) \<leftarrow> create_tables (p + (limit - of_nat MAX_ARG_PAGES * PAGE_SIZE)) argc envc k;
          let k = on_cur (\<lambda>t. t\<lparr>t_brk := b_extent bs, t_end_data := b_extent bs, t_end_code := b_extent bs,
                                t_start_stack := sp AND 0xfffff000\<rparr>) k;
          k \<leftarrow> iput (Some inode) k;
          Some (sp, zero_tail (b_extent bs) k) }"

text \<open>
  \<^verbatim>\<open>do_execve\<close> with the code segment of the caller, \<^verbatim>\<open>eip[1]\<close>. A successful call also gives the new values of
  \<^verbatim>\<open>eip[0]\<close> and \<^verbatim>\<open>eip[3]\<close>.
\<close>

definition do_execve :: "u32 \<Rightarrow> byte list \<Rightarrow> u32 \<Rightarrow> u32 \<Rightarrow> kernel \<Rightarrow> ((int \<times> (u32 \<times> u32) option) \<times> kernel) option" where
  "do_execve cs filename argv envp k =
     (if 0xffff AND cs \<noteq> 0xf then panic ''execve called from supervisor mode''
      else do {
        (inode, k) \<leftarrow> namei filename k;
        case inode of None \<Rightarrow> Some ((- ENOENT, None), k)
        | Some inode \<Rightarrow>
          if \<not> S_ISREG (i_mode (inode_at k inode)) then leave (- EACCES, None) [inode] k
          else if \<not> may_execute inode k then leave (- ENOEXEC, None) [inode] k
          else do {
            (bh, k) \<leftarrow> kbread (i_dev (inode_at k inode)) (unat (i_zone (inode_at k inode) 0)) k;
            case bh of None \<Rightarrow> leave (- EACCES, None) [inode] k
            | Some bh \<Rightarrow> do {
                argc \<leftarrow> count_args argv k;
                envc \<leftarrow> count_args envp k;
                ((p, page), k) \<leftarrow> copy_strings envc envp (\<lambda>_. 0) (PAGE_SIZE * of_nat MAX_ARG_PAGES) k;
                ((p, page), k) \<leftarrow> copy_strings argc argv page p k;
                if p = 0 then do { m \<leftarrow> free_pages [0..<MAX_ARG_PAGES] page (mm k); leave (- 1, None) [inode] (k\<lparr>mm := m\<rparr>) }
                else do {
                  k \<leftarrow> flush_old k;
                  ((e, bs), k) \<leftarrow> load_elf_binary inode bh k;
                  k \<leftarrow> kbrelse (Some bh) k;
                  if e \<noteq> 0 then leave (- EACCES, None) [inode] k
                  else do { (sp, k) \<leftarrow> start_program inode bs page p argc envc k;
                            Some ((0, Some (b_entry bs, sp)), k) } } } } })"

section \<open>The blocks of a file\<close>

text \<open>Room for \<open>n\<close> more buffers to be held at a time.\<close>

definition spare :: "nat \<Rightarrow> bcache \<Rightarrow> bool" where
  "spare n b \<longleftrightarrow> n \<le> card {i. i < nr_buffers b \<and> b_count (buf b i) = 0} \<and> (\<forall>i. unat (b_count (buf b i)) + n \<le> 255)"

lemma spare_calm:
  assumes "spare (Suc n) b"
  shows "calm b"
proof -
  have "{i. i < nr_buffers b \<and> b_count (buf b i) = 0} \<noteq> {}"
  proof
    assume "{i. i < nr_buffers b \<and> b_count (buf b i) = 0} = {}"
    then show False using assms unfolding spare_def by (simp del: Collect_empty_eq)
  qed
  moreover have "b_count (buf b i) \<noteq> 255" for i
  proof
    assume "b_count (buf b i) = 255"
    then have "unat (b_count (buf b i)) = 255" by simp
    then show False using assms by (auto simp: spare_def dest: spec [of _ i])
  qed
  ultimately show ?thesis by (auto simp: calm_def)
qed

lemma unat_Suc_le: "unat (x + 1 :: 'a :: len word) \<le> Suc (unat x)"
  by (simp add: unat_word_ariths order.trans [OF mod_less_eq_dividend])

lemma spare_reading:
  assumes "spare (Suc n) b" and "reading D blk h b b1"
  shows "spare n b1"
proof -
  have r: "nr_buffers b1 = nr_buffers b" "b_count (buf b1 j) = b_count (buf b j) + (if j = h then 1 else 0)" for j
    using assms(2) by (simp_all add: reading_def same_view_def)
  let ?F = "\<lambda>b. {i. i < nr_buffers b \<and> b_count (buf b i) = 0}"
  have "?F b - {h} \<subseteq> ?F b1" using r by auto
  then have "card (?F b - {h}) \<le> card (?F b1)" by (intro card_mono) auto
  moreover have "card (?F b) \<le> Suc (card (?F b - {h}))" by (simp add: card_Diff_singleton_if) linarith
  moreover have "Suc n \<le> card (?F b)" using assms(1) unfolding spare_def by blast
  ultimately have "n \<le> card (?F b1)" by linarith
  moreover have "unat (b_count (buf b1 j)) + n \<le> 255" for j
  proof -
    have "unat (b_count (buf b j)) + Suc n \<le> 255" using assms(1) unfolding spare_def by blast
    then show ?thesis using unat_Suc_le [of "b_count (buf b j)"] r(2) [of j] by (auto split: if_splits)
  qed
  ultimately show ?thesis unfolding spare_def by blast
qed

lemma spare_settled: "settled D b b' \<Longrightarrow> spare n b' = spare n b"
  by (simp add: spare_def settled_def same_view_def)

text \<open>A buffer is given back while another one is held.\<close>

lemma reading_release_other:
  assumes r1: "reading D z i b b1" and r2: "reading D n h b1 b2" and v: "valid b D n"
  obtains b3 where "kbrelse (Some i) (k\<lparr>bc := b2\<rparr>) = Some (k\<lparr>bc := b3\<rparr>)" "showing D n h b b3"
proof -
  let ?b = "on_buf i (\<lambda>bh. bh\<lparr>b_count := b_count bh - 1\<rparr>) b2"
  have c: "b_count (buf b1 j) = b_count (buf b j) + (if j = i then 1 else 0)" "b_count (buf b1 i) \<noteq> 0"
    "b_count (buf b2 j) = b_count (buf b1 j) + (if j = h then 1 else 0)" "b_count (buf b2 h) \<noteq> 0" for j
    using r1 r2 unfolding reading_def by blast+
  have "b_count (buf b2 i) \<noteq> 0" using c(2-4) by (cases "i = h") simp_all
  then have rel: "kbrelse (Some i) (k\<lparr>bc := b2\<rparr>) = Some (k\<lparr>bc := ?b\<rparr>)" by (simp add: kbrelse_def brelse_def)
  have ok2: "bc_ok D b2" using r2 by (simp add: reading_def)
  have sv: "same_view D b ?b" using r1 r2 bc_ok_count(2) [of D b2 i "\<lambda>bh. b_count bh - 1"]
    by (auto simp: reading_def intro: same_view_trans)
  have d: "b_data (buf b2 h) p = view b D n p" if "p < 1024" for p
    using r1 r2 v that by (simp add: reading_def same_view_def)
  have "b_count (buf ?b h) \<noteq> 0" using c(1) [of h] c(2-4) by (cases "h = i") (simp_all add: bc_simps add.commute)
  moreover have "b_count (buf ?b j) = b_count (buf b j) + (if j = h then 1 else 0)" for j
    by (cases "j = i"; cases "j = h") (simp_all add: bc_simps c(1,3))
  moreover have "nr_buffers ?b = nr_buffers b2" "holds ?b D n h = holds b2 D n h" "b_uptodate (buf ?b h) = b_uptodate (buf b2 h)"
    "b_data (buf ?b h) = b_data (buf b2 h)"
    by (simp_all add: on_buf_def holds_def)
  moreover have "h < nr_buffers b2" "holds b2 D n h" "b_uptodate (buf b2 h) \<noteq> 0" using r2 by (simp_all add: reading_def)
  ultimately have "showing D n h b ?b" using bc_ok_count(1) [OF ok2] sv d unfolding showing_def by simp
  then show ?thesis using that [OF rel] by simp
qed


lemma kbread_held:
  assumes "bc_ok D b" and "valid b D n" and "spare (Suc s) b"
  obtains h b1 where "kbread D n (k\<lparr>bc := b\<rparr>) = Some (Some h, k\<lparr>bc := b1\<rparr>)" "reading D n h b b1" "spare s b1"
  using kbread_spec [of D "k\<lparr>bc := b\<rparr>" n] assms spare_calm [OF assms(3)] spare_reading [OF assms(3)] by auto

text \<open>An entry of an indirect block that is not a hole leads to the block it names.\<close>

lemma read_file_block_ind_reads:
  assumes ok: "bc_ok D b" and sp: "spare (Suc (Suc s)) b" and v: "valid b D z" and n: "n < 512"
    and e: "unat (get16 (view b D z) (2 * n)) = blk" "blk \<noteq> 0" "valid b D blk"
  obtains h b1 where "read_file_block_ind D z (int n) (k\<lparr>bc := b\<rparr>) = Some (Some h, k\<lparr>bc := b1\<rparr>)" "showing D blk h b b1"
proof -
  obtain i b1 where r1: "kbread D z (k\<lparr>bc := b\<rparr>) = Some (Some i, k\<lparr>bc := b1\<rparr>)" "reading D z i b b1" "spare (Suc s) b1"
    using kbread_held [OF ok v sp] by metis
  have "bc_ok D b1" "valid b1 = valid b" using r1(2) by (auto simp: reading_def same_view_def intro!: valid_cong)
  then obtain h b2 where r2: "kbread D blk (k\<lparr>bc := b1\<rparr>) = Some (Some h, k\<lparr>bc := b2\<rparr>)" "reading D blk h b1 b2"
    using kbread_held [OF _ _ r1(3)] e(3) by metis
  obtain b3 where r3: "kbrelse (Some i) (k\<lparr>bc := b2\<rparr>) = Some (k\<lparr>bc := b3\<rparr>)" "showing D blk h b b3"
    using reading_release_other [OF r1(2) r2(2) e(3)] by metis
  have "get16 (b_data (buf b1 i)) (2 * n) = get16 (view b D z) (2 * n)"
    using reading_data [OF r1(2)] n by (intro get16_cong) simp_all
  then have "unat (get16 (bdata (k\<lparr>bc := b1\<rparr>) i) (2 * nat (int n))) = blk" using e(1) by (simp add: bdata_def)
  then have "read_file_block_ind D z (int n) (k\<lparr>bc := b\<rparr>) = Some (Some h, k\<lparr>bc := b3\<rparr>)"
    using r1(1) r2(1) r3(1) n e(2) by (simp add: read_file_block_ind_def)
  then show ?thesis using that r3(2) by blast
qed

text \<open>\<^verbatim>\<open>read_file_block\<close> is right for the direct blocks, the indirect ones and the first table of the double indirect ones.\<close>

lemma read_file_block_reads:
  assumes ok: "bc_ok D (bc k)" and sp: "spare (Suc (Suc s)) (bc k)" and m: "map_ok D k i" and n: "n < 1031"
    and z: "file_zone D k i n \<noteq> 0" "valid (bc k) D (file_zone D k i n)"
  obtains h b1 where "read_file_block i n k = Some (Some h, k\<lparr>bc := b1\<rparr>)" "showing D (file_zone D k i n) h (bc k) b1"
proof -
  let ?z = "\<lambda>m. unat (i_zone (inode_at k i) m)"
  have dev: "i_dev (inode_at k i) = D" using m by (simp add: map_ok_def)
  have nz: "i_zone (inode_at k i) m = 0 \<longleftrightarrow> ?z m = 0" for m by (simp add: unat_eq_zero)
  have kk: "k\<lparr>bc := bc k\<rparr> = k" by simp
  consider "n < 7" | "7 \<le> n" "n < 519" | "519 \<le> n" by linarith
  then show ?thesis
  proof cases
    case 1
    then have F: "file_zone D k i n = ?z n" by (simp add: file_zone_def)
    obtain h b1 where r: "kbread D (?z n) (k\<lparr>bc := bc k\<rparr>) = Some (Some h, k\<lparr>bc := b1\<rparr>)" "reading D (?z n) h (bc k) b1"
      using kbread_held [OF ok z(2) [unfolded F] sp] by metis
    have "read_file_block i n k = Some (Some h, k\<lparr>bc := b1\<rparr>)" using r(1) 1 by (simp add: read_file_block_def dev)
    then show ?thesis using that reading_showing [OF r(2)] F by metis
  next
    case 2
    then have nn: "n - 7 < 512" "\<not> n < 7" "\<not> n \<le> 6" by linarith+
    have F: "?z 7 \<noteq> 0" "file_zone D k i n = zone_entry D k (?z 7) (n - 7)"
      using z(1) 2 nn by (auto simp: file_zone_def split: if_splits)
    have "valid (bc k) D (?z 7)" using m F(1) nz by (simp add: map_ok_def)
    then obtain h b1 where r: "read_file_block_ind D (?z 7) (int (n - 7)) (k\<lparr>bc := bc k\<rparr>) = Some (Some h, k\<lparr>bc := b1\<rparr>)"
        "showing D (file_zone D k i n) h (bc k) b1"
      using read_file_block_ind_reads [OF ok sp _ nn(1) F(2) [symmetric, unfolded zone_entry_def] z] by metis
    have "read_file_block i n k = Some (Some h, k\<lparr>bc := b1\<rparr>)" using r(1) nn by (simp add: read_file_block_def dev)
    then show ?thesis using that r(2) by metis
  next
    case 3
    then have nn: "\<not> n - 7 < 512" "\<not> n < 7" "\<not> n \<le> 6" "\<not> n < 519" "n - 7 - 512 = n - 519" "n - 519 < 512" using n by linarith+
    have F: "?z 8 \<noteq> 0" "zone_entry D k (?z 8) 0 \<noteq> 0" "file_zone D k i n = zone_entry D k (zone_entry D k (?z 8) 0) (n - 519)"
      using z(1) nn by (auto simp: file_zone_def split: if_splits)
    have v: "valid (bc k) D (?z 8)" "valid (bc k) D (zone_entry D k (?z 8) 0)" using m F(1,2) nz by (auto simp: map_ok_def)
    obtain d b1 where r1: "kbread D (?z 8) (k\<lparr>bc := bc k\<rparr>) = Some (Some d, k\<lparr>bc := b1\<rparr>)" "reading D (?z 8) d (bc k) b1"
      using kbread_held [OF ok v(1) sp] by metis
    obtain b2 where r2: "kbrelse (Some d) (k\<lparr>bc := b1\<rparr>) = Some (k\<lparr>bc := b2\<rparr>)" "settled D (bc k) b2"
      using reading_release [of D "?z 8" d "bc k" "k\<lparr>bc := b1\<rparr>"] r1(2) by auto
    have tb: "get16 (b_data (buf b1 d)) 0 = get16 (view (bc k) D (?z 8)) 0"
      using reading_data [OF r1(2)] by (intro get16_cong) simp_all
    let ?t = "zone_entry D k (?z 8) 0"
    have e: "unat (get16 (view b2 D ?t) (2 * (n - 519))) = file_zone D k i n"
      unfolding F(3) zone_entry_def [of D k ?t] using settled_view [OF r2(2) v(2)] nn(6)
      by (intro arg_cong [where f = unat] get16_cong) simp_all
    have "bc_ok D b2" "spare (Suc (Suc s)) b2" "valid b2 = valid (bc k)"
      using r2(2) sp spare_settled [OF r2(2)] settled_valid [OF r2(2)] by (simp_all add: settled_def)
    then obtain h b3 where r3: "read_file_block_ind D ?t (int (n - 519)) (k\<lparr>bc := b2\<rparr>) = Some (Some h, k\<lparr>bc := b3\<rparr>)"
        "showing D (file_zone D k i n) h b2 b3"
      using read_file_block_ind_reads [OF _ _ _ nn(6) e z(1)] v(2) z(2) by metis
    have "get16 (bdata (k\<lparr>bc := b1\<rparr>) d) 0 = get16 (view (bc k) D (?z 8)) 0" using tb by (simp add: bdata_def)
    then have "read_file_block i n k = Some (Some h, k\<lparr>bc := b3\<rparr>)" using r1(1) r2(1) r3(1) nn F(1)
      by (simp add: read_file_block_def dev zone_entry_def)
    then show ?thesis using that settled_showing [OF r2(2) r3(2) z(2)] by metis
  qed
qed

section \<open>Loading a section\<close>

text \<open>The blocks with the bytes from \<open>p\<close> up to \<open>m\<close> are there, and within reach of \<^verbatim>\<open>read_file_block\<close>.\<close>

definition loadable :: "u16 \<Rightarrow> kernel \<Rightarrow> nat \<Rightarrow> nat \<Rightarrow> nat \<Rightarrow> bool" where
  "loadable D k i p m \<longleftrightarrow> bc_ok D (bc k) \<and> spare 2 (bc k) \<and> map_ok D k i \<and> m \<le> 1024 * 1031 \<and>
     (\<forall>q. p div 1024 \<le> q \<longrightarrow> 1024 * q < m \<longrightarrow> file_zone D k i q \<noteq> 0 \<and> valid (bc k) D (file_zone D k i q))"

text \<open>Up to three bytes behind the section are written, too.\<close>

definition loaded :: "u16 \<Rightarrow> kernel \<Rightarrow> nat \<Rightarrow> nat \<Rightarrow> nat \<Rightarrow> nat \<Rightarrow> cbuf \<Rightarrow> bool" where
  "loaded D k i p a sz f \<longleftrightarrow>
     (\<forall>x. (a \<le> x \<and> x < a + sz \<longrightarrow> f x = file_byte D k i (p + (x - a))) \<and> (x < a \<or> a + sz + 3 \<le> x \<longrightarrow> f x = fsmem k x))"

lemma bc_then_fsmem: "k\<lparr>fsmem := f, bc := b\<rparr> = (k :: kernel)\<lparr>bc := b, fsmem := f\<rparr>"
  by simp

lemma settled_file:
  assumes s: "settled D (bc k) b'" and m: "map_ok D k i"
  shows "map_ok D (k\<lparr>bc := b', fsmem := f\<rparr>) i"
    and "q < 1031 \<Longrightarrow> file_zone D (k\<lparr>bc := b', fsmem := f\<rparr>) i q = file_zone D k i q"
    and "p < 1024 * 1031 \<Longrightarrow> (file_zone D k i (p div 1024) \<noteq> 0 \<longrightarrow> valid (bc k) D (file_zone D k i (p div 1024))) \<Longrightarrow>
      file_byte D (k\<lparr>bc := b', fsmem := f\<rparr>) i p = file_byte D k i p"
proof -
  let ?k = "k\<lparr>bc := b', fsmem := f\<rparr>"
  have v: "view (bc ?k) D z p = view (bc k) D z p" if "z \<in> map_blocks D k i" "p < 1024" for z p
    using settled_view [OF s] m that by (simp add: map_ok_blocks)
  note c = file_zone_cong [of D k i ?k, OF v]
  show "map_ok D ?k i" using m c(1) settled_valid [OF s] by (simp add: map_ok_blocks inode_at_def)
  have z: "file_zone D ?k i q = file_zone D k i q" if "q < 1031" for q using c(2) that by (simp add: inode_at_def)
  then show "q < 1031 \<Longrightarrow> file_zone D ?k i q = file_zone D k i q" .
  show "file_byte D ?k i p = file_byte D k i p"
    if p: "p < 1024 * 1031" "file_zone D k i (p div 1024) \<noteq> 0 \<longrightarrow> valid (bc k) D (file_zone D k i (p div 1024))"
  proof -
    have "file_zone D ?k i (p div 1024) = file_zone D k i (p div 1024)" using p(1) by (intro z) (simp add: less_mult_imp_div_less mult.commute)
    then show ?thesis using p(2) settled_view [OF s] by (simp add: file_byte_def Let_def)
  qed
qed

lemma loadable_settled:
  assumes l: "loadable D k i p m" and s: "settled D (bc k) b'" and q: "p div 1024 \<le> p' div 1024"
  shows "loadable D (k\<lparr>bc := b', fsmem := f\<rparr>) i p' m"
proof -
  have "map_ok D k i" using l by (simp add: loadable_def)
  note st = settled_file [OF s this]
  have "file_zone D (k\<lparr>bc := b', fsmem := f\<rparr>) i x = file_zone D k i x" if "1024 * x < m" for x
    using that l by (intro st) (simp add: loadable_def)
  then show ?thesis using l s q st(1) spare_settled [OF s] settled_valid [OF s]
    by (auto simp: loadable_def settled_def)
qed

lemma loaded_append:
  assumes l: "loadable D k i p (p + sz)" and s: "settled D (bc k) b1" and c: "c \<le> sz"
    and l1: "loaded D k i p a c f1" and l2: "loaded D (k\<lparr>bc := b1, fsmem := f1\<rparr>) i (p + c) (a + c) (sz - c) f2"
  shows "loaded D k i p a sz f2"
proof -
  have fb: "file_byte D (k\<lparr>bc := b1, fsmem := f1\<rparr>) i (p + j) = file_byte D k i (p + j)" if "j < sz" for j
  proof (rule settled_file(3) [OF s])
    show "map_ok D k i" "p + j < 1024 * 1031" using l that by (simp_all add: loadable_def)
    have "p div 1024 \<le> (p + j) div 1024" "1024 * ((p + j) div 1024) < p + sz" using that by (simp_all add: div_le_mono)
    then show "file_zone D k i ((p + j) div 1024) \<noteq> 0 \<longrightarrow> valid (bc k) D (file_zone D k i ((p + j) div 1024))"
      using l by (simp add: loadable_def)
  qed
  show ?thesis unfolding loaded_def
  proof (intro allI conjI impI)
    fix x assume x: "a \<le> x \<and> x < a + sz"
    show "f2 x = file_byte D k i (p + (x - a))"
    proof (cases "x < a + c")
      case True
      then show ?thesis using l1 l2 x by (simp add: loaded_def)
    next
      case False
      then have "f2 x = file_byte D (k\<lparr>bc := b1, fsmem := f1\<rparr>) i (p + c + (x - (a + c)))" using l2 x c by (simp add: loaded_def)
      moreover have "p + c + (x - (a + c)) = p + (x - a)" using False by simp
      moreover have "x - a < sz" using x by linarith
      ultimately show ?thesis using fb by (simp only:)
    qed
  next
    fix x assume "x < a \<or> a + sz + 3 \<le> x"
    then show "f2 x = fsmem k x" using l1 l2 c by (auto simp: loaded_def)
  qed
qed

text \<open>One block: \<open>c\<close> bytes from position \<open>p\<close> of the file on, which lie in one block.\<close>

lemma block_loaded:
  assumes sh: "showing D (file_zone D k i (p div 1024)) b (bc k) b1" and z: "file_zone D k i (p div 1024) \<noteq> 0"
    and c: "p mod 1024 + c \<le> 1024"
  shows "\<exists>f. cp_block b (p mod 1024) dest (c + 3) (k\<lparr>bc := b1\<rparr>) = k\<lparr>bc := b1, fsmem := f\<rparr> \<and> loaded D k i p (unat dest) c f"
proof -
  let ?f = "\<lambda>x. if unat dest \<le> x \<and> x < unat dest + 4 * ((c + 3) div 4) then b_data (buf b1 b) (p mod 1024 + (x - unat dest)) else fsmem k x"
  have "cp_block b (p mod 1024) dest (c + 3) (k\<lparr>bc := b1\<rparr>) = k\<lparr>bc := b1, fsmem := ?f\<rparr>"
    by (simp add: cp_block_def put_bytes_eq bdata_def cong: if_cong)
  moreover have "loaded D k i p (unat dest) c ?f"
  proof -
    have "c \<le> 4 * ((c + 3) div 4)" "4 * ((c + 3) div 4) \<le> c + 3" by linarith+
    moreover have "b_data (buf b1 b) (p mod 1024 + j) = file_byte D k i (p + j)" if "j < c" for j
      using showing_data [OF sh] file_byte_in_block [of p j] z c that by simp
    ultimately have "b_data (buf b1 b) (p mod 1024 + (x - unat dest)) = file_byte D k i (p + (x - unat dest))"
      if "unat dest \<le> x" "x < unat dest + c" for x using that by (metis add_diff_inverse_nat leD nat_add_left_cancel_less)
    then show ?thesis using \<open>c \<le> _\<close> \<open>_ \<le> c + 3\<close> unfolding loaded_def by auto
  qed
  ultimately show ?thesis by blast
qed

text \<open>What loading does to the state: only user memory and the cache change.\<close>

definition loads :: "u16 \<Rightarrow> kernel \<Rightarrow> nat \<Rightarrow> nat \<Rightarrow> nat \<Rightarrow> nat \<Rightarrow> (int \<times> kernel) option \<Rightarrow> bool" where
  "loads D k i p a sz r \<longleftrightarrow>
     (\<exists>b f. r = Some (0, k\<lparr>bc := b, fsmem := f\<rparr>) \<and> settled D (bc k) b \<and> loaded D k i p a sz f)"

text \<open>One block is read, copied and given back.\<close>

lemma load_block:
  assumes l: "loadable D k i p (p + sz)" and c: "p mod 1024 + c \<le> 1024" "0 < sz"
  obtains b b1 b2 f where "read_file_block i (p div 1024) k = Some (Some b, k\<lparr>bc := b1\<rparr>)"
    "kbrelse (Some b) (cp_block b (p mod 1024) dest (c + 3) (k\<lparr>bc := b1\<rparr>)) = Some (k\<lparr>bc := b2, fsmem := f\<rparr>)"
    "settled D (bc k) b2" "loaded D k i p (unat dest) c f"
proof -
  have "1024 * (p div 1024) \<le> p" by simp
  then have "1024 * (p div 1024) < p + sz" using c(2) by linarith
  then have z: "file_zone D k i (p div 1024) \<noteq> 0" "valid (bc k) D (file_zone D k i (p div 1024))" "p div 1024 < 1031"
    and ok: "bc_ok D (bc k)" "spare (Suc (Suc 0)) (bc k)" "map_ok D k i"
    using l by (simp_all add: loadable_def numeral_2_eq_2)
  obtain b b1 where r: "read_file_block i (p div 1024) k = Some (Some b, k\<lparr>bc := b1\<rparr>)"
      "showing D (file_zone D k i (p div 1024)) b (bc k) b1"
    by (rule read_file_block_reads [OF ok z(3,1,2)])
  obtain f where f: "cp_block b (p mod 1024) dest (c + 3) (k\<lparr>bc := b1\<rparr>) = k\<lparr>bc := b1, fsmem := f\<rparr>" "loaded D k i p (unat dest) c f"
    using block_loaded [OF r(2) z(1) c(1)] by blast
  obtain b2 where "kbrelse (Some b) (k\<lparr>bc := b1, fsmem := f\<rparr>) = Some ((k\<lparr>bc := b1, fsmem := f\<rparr>)\<lparr>bc := b2\<rparr>)" "settled D (bc k) b2"
    using showing_release [of D _ b "bc k" "k\<lparr>bc := b1, fsmem := f\<rparr>"] r(2) by auto
  then show ?thesis using that [OF r(1)] f by (simp add: bc_then_fsmem)
qed

lemma loads_next:
  assumes l: "loadable D k i p (p + sz)" and s: "settled D (bc k) b1" and c: "c \<le> sz" and l1: "loaded D k i p a c f1"
    and r: "loads D (k\<lparr>bc := b1, fsmem := f1\<rparr>) i (p + c) (a + c) (sz - c) r"
  shows "loads D k i p a sz r"
proof -
  obtain b f where "r = Some (0, k\<lparr>bc := b, fsmem := f\<rparr>)" "settled D b1 b"
    "loaded D (k\<lparr>bc := b1, fsmem := f1\<rparr>) i (p + c) (a + c) (sz - c) f"
    using r by (auto simp: loads_def)
  then show ?thesis using loaded_append [OF l s c l1] settled_trans [OF s] by (auto simp: loads_def)
qed

lemma copy_blocks_loads:
  "loadable D k i (1024 * n) (1024 * n + sz) \<Longrightarrow> unat dest + sz < 2 ^ 32 \<Longrightarrow>
    loads D k i (1024 * n) (unat dest) sz (copy_blocks i n dest sz k)"
proof (induction sz arbitrary: n dest k rule: less_induct)
  case (less sz)
  show ?case
  proof (cases "sz = 0")
    case True
    have "settled D (bc k) (bc k)" using less.prems(1) by (simp add: loadable_def settled_refl)
    then have "loads D k i (1024 * n) (unat dest) 0 (Some (0, k))"
      unfolding loads_def by (intro exI [of _ "bc k"] exI [of _ "fsmem k"]) (auto simp: loaded_def)
    then show ?thesis using True by (subst copy_blocks.simps) simp
  next
    case False
    define c where "c = min sz 1024"
    have c: "c \<le> sz" "c \<le> 1024" "0 < c" using False by (simp_all add: c_def)
    have sz: "0 < sz" using False by simp
    have pm: "1024 * n mod 1024 = 0" "1024 * n div 1024 = n" by simp_all
    obtain b b1 b2 f where r: "read_file_block i n k = Some (Some b, k\<lparr>bc := b1\<rparr>)"
        "kbrelse (Some b) (cp_block b 0 dest (c + 3) (k\<lparr>bc := b1\<rparr>)) = Some (k\<lparr>bc := b2, fsmem := f\<rparr>)"
        "settled D (bc k) b2" "loaded D k i (1024 * n) (unat dest) c f"
      by (rule load_block [OF less.prems(1), of c dest, unfolded pm add_0, OF c(2) sz])
    have e: "copy_blocks i n dest sz k = copy_blocks i (n + 1) (dest + of_nat c) (sz - c) (k\<lparr>bc := b2, fsmem := f\<rparr>)"
      using False r(1,2) by (subst copy_blocks.simps) (simp add: c_def Let_def)
    have u: "unat (dest + of_nat c) = unat dest + c" using less.prems(2) c by (simp add: unat_word_ariths unat_of_nat)
    show ?thesis
    proof (rule loads_next [OF less.prems(1) r(3) c(1) r(4)])
      show "loads D (k\<lparr>bc := b2, fsmem := f\<rparr>) i (1024 * n + c) (unat dest + c) (sz - c) (copy_blocks i n dest sz k)"
      proof (cases "c = 1024")
        case True
        have "loadable D (k\<lparr>bc := b2, fsmem := f\<rparr>) i (1024 * (n + 1)) (1024 * n + sz)"
          by (rule loadable_settled [OF less.prems(1) r(3)]) simp
        moreover have q: "1024 * n + sz = 1024 * (n + 1) + (sz - c)" "1024 * n + c = 1024 * (n + 1)" using True c by simp_all
        moreover have "sz - c < sz" "unat (dest + of_nat c) + (sz - c) < 2 ^ 32" using c less.prems(2) u by simp_all
        ultimately have "loads D (k\<lparr>bc := b2, fsmem := f\<rparr>) i (1024 * (n + 1)) (unat (dest + of_nat c)) (sz - c)
            (copy_blocks i (n + 1) (dest + of_nat c) (sz - c) (k\<lparr>bc := b2, fsmem := f\<rparr>))"
          using less.IH by metis
        then show ?thesis by (simp only: e u q(2))
      next
        case False
        then have "sz - c = 0" by (simp add: c_def)
        moreover have "copy_blocks i (n + 1) (dest + of_nat c) 0 k' = Some (0, k')" for k' by (subst copy_blocks.simps) simp
        moreover have "settled D b2 b2" using r(3) by (simp add: settled_def)
        ultimately show ?thesis unfolding e loads_def
          by (intro exI [of _ b2] exI [of _ f]) (auto simp: loaded_def)
      qed
    qed
  qed
qed

text \<open>An empty section needs nothing.\<close>

lemma loads_none: "bc_ok D (bc k) \<Longrightarrow> loads D k i p a 0 (Some (0, k))"
  unfolding loads_def
  by (intro exI [of _ "bc k"] exI [of _ "fsmem k"]) (auto simp: loaded_def settled_refl)

lemma copy_section_loads:
  assumes l: "loadable D k i (unat from) (unat from + unat sz)" and sz: "0 < unat sz" and u: "unat dest + unat sz < 2 ^ 32"
  shows "loads D k i (unat from) (unat dest) (unat sz) (copy_section i from dest sz k)"
proof -
  define p where "p = unat from"
  define c where "c = min (unat sz) (1024 - p mod 1024)"
  have c: "c \<le> unat sz" "p mod 1024 + c \<le> 1024" by (simp_all add: c_def)
  have lp: "loadable D k i p (p + unat sz)" using l by (simp add: p_def)
  obtain b b1 b2 f where r: "read_file_block i (p div 1024) k = Some (Some b, k\<lparr>bc := b1\<rparr>)"
      "kbrelse (Some b) (cp_block b (p mod 1024) dest (c + 3) (k\<lparr>bc := b1\<rparr>)) = Some (k\<lparr>bc := b2, fsmem := f\<rparr>)"
      "settled D (bc k) b2" "loaded D k i p (unat dest) c f"
    by (rule load_block [OF lp c(2) sz])
  let ?k = "k\<lparr>bc := b2, fsmem := f\<rparr>"
  have e: "copy_section i from dest sz k = copy_blocks i (p div 1024 + 1) (dest + of_nat c) (unat sz - c) ?k"
    using r(1,2) by (simp add: copy_section_def Let_def c_def p_def)
  have ud: "unat (dest + of_nat c) = unat dest + c" using u c by (simp add: unat_word_ariths unat_of_nat)
  have "loads D ?k i (p + c) (unat dest + c) (unat sz - c) (copy_section i from dest sz k)"
  proof (cases "c = unat sz")
    case True
    have "copy_blocks i n d 0 k' = Some (0, k')" for n d k' by (subst copy_blocks.simps) simp
    then show ?thesis using True r(3) loads_none [of D ?k] by (simp add: e settled_def)
  next
    case False
    then have "c = 1024 - p mod 1024" unfolding c_def by linarith
    moreover have "1024 * (p div 1024) + p mod 1024 = p" "p mod 1024 < 1024" by simp_all
    ultimately have q: "p + c = 1024 * (p div 1024 + 1)" unfolding distrib_left by linarith
    have "loadable D ?k i (1024 * (p div 1024 + 1)) (p + unat sz)" by (rule loadable_settled [OF lp r(3)]) simp
    moreover have "p + unat sz = 1024 * (p div 1024 + 1) + (unat sz - c)" using q c(1) by linarith
    moreover have "unat (dest + of_nat c) + (unat sz - c) < 2 ^ 32" using u c(1) ud by simp
    ultimately have "loads D ?k i (1024 * (p div 1024 + 1)) (unat (dest + of_nat c)) (unat sz - c)
        (copy_blocks i (p div 1024 + 1) (dest + of_nat c) (unat sz - c) ?k)"
      using copy_blocks_loads by metis
    then show ?thesis by (simp only: e ud q)
  qed
  from loads_next [OF lp r(3) c(1) r(4) this] show ?thesis by (simp add: p_def)
qed

text \<open>
  C37: \<^verbatim>\<open>copy_section\<close> loads a section of a program, whichever blocks it crosses: when its blocks are
  within the first 1031 of the file (where \<^verbatim>\<open>read_file_block\<close> finds them) and are no holes, user memory holds the \<open>sz\<close>
  bytes of the file from \<open>from\<close> on at \<open>dest\<close>, nothing else changes but at most the three bytes behind them, and every
  buffer is given back.
\<close>

theorem copy_section_copies:
  assumes "bc_ok D (bc k)" and "spare 2 (bc k)" and "map_ok D k i" and "0 < unat sz"
    and "unat from + unat sz \<le> 1024 * (7 + 512 + 512)" and "unat dest + unat sz < 2 ^ 32"
    and "\<And>q. unat from div 1024 \<le> q \<Longrightarrow> 1024 * q < unat from + unat sz \<Longrightarrow>
      file_zone D k i q \<noteq> 0 \<and> valid (bc k) D (file_zone D k i q)"
  shows "\<exists>b f. copy_section i from dest sz k = Some (0, k\<lparr>bc := b, fsmem := f\<rparr>) \<and> settled D (bc k) b \<and>
    (\<forall>x. (unat dest \<le> x \<and> x < unat dest + unat sz \<longrightarrow> f x = file_byte D k i (unat from + (x - unat dest))) \<and>
         (x < unat dest \<or> unat dest + unat sz + 3 \<le> x \<longrightarrow> f x = fsmem k x))"
proof -
  have "loadable D k i (unat from) (unat from + unat sz)" using assms by (simp add: loadable_def)
  from copy_section_loads [OF this assms(4,6)] show ?thesis by (simp only: loads_def loaded_def)
qed

text \<open>
  Beyond the first table of the double indirect block the entry is looked up in front of the buffer.
\<close>

lemma read_file_block_large:
  assumes "1031 \<le> n"
  shows "read_file_block i n k \<noteq> Some (Some h, k')"
proof -
  define m where "m = n - 7 - 512"
  have nn: "\<not> n \<le> 6" "\<not> n - 7 < 512" "512 \<le> m" using assms by (simp_all add: m_def)
  then have "512 \<le> int m" by simp
  then have "int m - (int m - 1) * 512 < 0" by (simp add: algebra_simps)
  then have "read_file_block_ind dev t (int m - (int m - 1) * 512) k1 \<noteq> Some (Some h, k')" for dev t k1
    by (cases "kbread dev t k1") (auto simp: read_file_block_ind_def failing split: option.splits)
  then show ?thesis using nn unfolding read_file_block_def Let_def m_def [symmetric]
    by (auto simp: failing bind_eq_Some_conv split: option.splits if_splits)
qed

text \<open>
  C38: \<^verbatim>\<open>read_file_block\<close> finds what the block map says as long as the block is one of the first 1031: it returns a
  held buffer with the contents of the block. No block of a file behind them is ever returned, so that a program of more
  than 1031 blocks cannot be loaded and the directory calls do not see that far. (The index into the second table is then in
  front of the buffer or behind it; a read there is a failure in the model.)
\<close>

theorem read_file_block_reach:
  assumes "bc_ok D (bc k)" and "spare 2 (bc k)" and "map_ok D k i" and "n < 7 + 512 + 512 * 512"
    and "file_zone D k i n \<noteq> 0" and "valid (bc k) D (file_zone D k i n)"
  shows "if n < 7 + 512 + 512
    then \<exists>h b. read_file_block i n k = Some (Some h, k\<lparr>bc := b\<rparr>) \<and> b_count (buf b h) \<noteq> 0 \<and>
      same_view D (bc k) b \<and> (\<forall>p<1024. b_data (buf b h) p = view (bc k) D (file_zone D k i n) p)
    else \<forall>h k'. read_file_block i n k \<noteq> Some (Some h, k')"
proof (cases "n < 1031")
  case True
  obtain h b where "read_file_block i n k = Some (Some h, k\<lparr>bc := b\<rparr>)" "showing D (file_zone D k i n) h (bc k) b"
    by (rule read_file_block_reads [OF assms(1) _ assms(3) True assms(5,6)]) (use assms(2) in \<open>simp add: numeral_2_eq_2\<close>)
  then show ?thesis using True by (auto simp: showing_def)
next
  case False
  then show ?thesis using read_file_block_large [of n i k] by simp
qed

text \<open>A machine with two free buffers and a file whose blocks are 2, 3 and so on.\<close>

definition pair_cache :: bcache where
  "pair_cache = small_cache\<lparr>nr_buffers := 2, free_list := [0, 1], disk := (\<lambda>_ n p. of_nat (n + p))\<rparr>"

definition exec_kernel :: kernel where
  "exec_kernel = on_inode 0 (\<lambda>n. n\<lparr>i_dev := ROOT_DEV, i_zone := (\<lambda>z. if z < 7 then of_nat z + 2 else 0)\<rparr>) (small_kernel pair_cache)"

lemma pair_cache_ok: "bc_ok ROOT_DEV pair_cache" "spare 2 pair_cache" "valid pair_cache ROOT_DEV n \<longleftrightarrow> n < 50"
proof -
  have f: "nr_buffers pair_cache = 2" "free_list pair_cache = [0, 1]" "hash_queue pair_cache h = []" "b_dev (buf pair_cache i) = 0"
    "b_dirt (buf pair_cache i) = 0" for h i
    by (simp_all add: pair_cache_def small_cache_def)
  have "set [0, 1 :: nat] = {..<2}" by auto
  then have "Buffer.queues_ok pair_cache" unfolding Buffer.queues_ok_def f by simp
  then show "bc_ok ROOT_DEV pair_cache" by (simp add: bc_ok_def buf_ok_def f)
  have "{i. i < 2 \<and> True} = {0, 1 :: nat}" by auto
  then show "spare 2 pair_cache" by (simp add: spare_def pair_cache_def small_cache_def)
  show "valid pair_cache ROOT_DEV n \<longleftrightarrow> n < 50" by (auto simp: valid_def pair_cache_def small_cache_def MAJOR_def MINOR_def)
qed

lemma exec_kernel_file:
  "bc exec_kernel = pair_cache" "map_ok ROOT_DEV exec_kernel 0" "n < 7 \<Longrightarrow> file_zone ROOT_DEV exec_kernel 0 n = n + 2"
proof -
  have i: "inode_at exec_kernel 0 = zero_inode\<lparr>i_dev := ROOT_DEV, i_zone := (\<lambda>z. if z < 7 then of_nat z + 2 else 0)\<rparr>"
    by (simp add: exec_kernel_def on_inode_def inode_at_def small_kernel_def)
  show "bc exec_kernel = pair_cache" by (simp add: exec_kernel_def k_simps) (simp add: small_kernel_def)
  show "map_ok ROOT_DEV exec_kernel 0" by (simp add: map_ok_def i)
  show "file_zone ROOT_DEV exec_kernel 0 n = n + 2" if "n < 7"
    using that by (simp add: file_zone_def i zero_inode_def unat_word_ariths unat_of_nat)
qed


theorem copy_section_copies_witness:
  "\<exists>b f. copy_section 0 2000 5000 200 exec_kernel = Some (0, exec_kernel\<lparr>bc := b, fsmem := f\<rparr>) \<and>
     (\<forall>x. 5000 \<le> x \<and> x < 5200 \<longrightarrow> f x = file_byte ROOT_DEV exec_kernel 0 (2000 + (x - 5000))) \<and> f 4999 = 0"
proof -
  have "\<And>q. unat (2000 :: u32) div 1024 \<le> q \<Longrightarrow> 1024 * q < unat (2000 :: u32) + unat (200 :: u32) \<Longrightarrow>
      file_zone ROOT_DEV exec_kernel 0 q \<noteq> 0 \<and> valid (bc exec_kernel) ROOT_DEV (file_zone ROOT_DEV exec_kernel 0 q)"
    by (simp add: exec_kernel_file pair_cache_ok)
  moreover have "fsmem exec_kernel 4999 = 0" by (simp add: exec_kernel_def k_simps) (simp add: small_kernel_def)
  moreover have "bc_ok ROOT_DEV (bc exec_kernel)" "spare 2 (bc exec_kernel)" "map_ok ROOT_DEV exec_kernel 0"
    using pair_cache_ok exec_kernel_file by simp_all
  ultimately obtain b f where r: "copy_section 0 2000 5000 200 exec_kernel = Some (0, exec_kernel\<lparr>bc := b, fsmem := f\<rparr>)"
    "\<forall>x. (unat (5000 :: u32) \<le> x \<and> x < unat (5000 :: u32) + unat (200 :: u32) \<longrightarrow>
            f x = file_byte ROOT_DEV exec_kernel 0 (unat (2000 :: u32) + (x - unat (5000 :: u32)))) \<and>
         (x < unat (5000 :: u32) \<or> unat (5000 :: u32) + unat (200 :: u32) + 3 \<le> x \<longrightarrow> f x = fsmem exec_kernel x)"
    using copy_section_copies [of ROOT_DEV exec_kernel 0 200 2000 5000] by auto
  show ?thesis
    by (intro exI [of _ b] exI [of _ f]) (use r spec [OF r(2), of 4999] \<open>fsmem exec_kernel 4999 = 0\<close> in simp)
qed

theorem read_file_block_reach_witness:
  "\<exists>h b. read_file_block 0 3 exec_kernel = Some (Some h, exec_kernel\<lparr>bc := b\<rparr>) \<and> b_data (buf b h) 0 = view pair_cache ROOT_DEV 5 0"
proof -
  obtain h b where "read_file_block 0 3 exec_kernel = Some (Some h, exec_kernel\<lparr>bc := b\<rparr>)"
    "\<forall>p<1024. b_data (buf b h) p = view pair_cache ROOT_DEV 5 p"
    using read_file_block_reach [of ROOT_DEV exec_kernel 0 3] by (auto simp: exec_kernel_file pair_cache_ok)
  then show ?thesis by (intro exI [of _ h] exI [of _ b]) simp
qed

end
