(* ===== verification/Stat.thy ===== *)
theory Stat
  imports Exec
begin

text \<open>
  What a process can learn about files: \<^verbatim>\<open>fs/stat.c\<close> and \<^verbatim>\<open>fs/sys_getdents.c\<close>.

  A structure on the kernel stack that is not filled in completely keeps what the stack held, the argument
  \<open>stack\<close>. \<^verbatim>\<open>verify_area\<close> is as in theory Syscalls: \<open>Inl sig\<close> is a process that ends there.
\<close>

section \<open>Status of a file\<close>

text \<open>The fields of \<^verbatim>\<open>struct stat\<close> (64 bytes) and \<^verbatim>\<open>struct stat64\<close> (96 bytes) at their offsets.\<close>

definition stat_of :: "m_inode \<Rightarrow> cbuf \<Rightarrow> cbuf" where
  "stat_of n stack =
     put32 48 (i_ctime n) (put32 40 (i_mtime n) (put32 32 (i_atime n) (put32 20 (i_size n)
     (put16 16 (i_zone n 0) (put16 14 (ucast (i_gid n)) (put16 12 (i_uid n) (put16 10 (ucast (i_nlinks n))
     (put16 8 (i_mode n) (put32 4 (ucast (i_num n)) (put16 0 (i_dev n) stack))))))))))"

definition stat64_of :: "m_inode \<Rightarrow> cbuf \<Rightarrow> cbuf" where
  "stat64_of n stack =
     put32 80 (i_ctime n) (put32 72 (i_mtime n) (put32 64 (i_atime n) (put32 48 0 (put32 44 (i_size n)
     (put16 32 (i_zone n 0) (put32 28 (ucast (i_gid n)) (put32 24 (ucast (i_uid n)) (put32 20 (ucast (i_nlinks n))
     (put32 16 (ucast (i_mode n)) (put32 92 0 (put32 88 (ucast (i_num n)) (put16 0 (i_dev n) stack))))))))))))"

definition cp_stat :: "nat \<Rightarrow> u32 \<Rightarrow> cbuf \<Rightarrow> kernel \<Rightarrow> (nat + int \<times> kernel) option" where
  "cp_stat inode statbuf stack k =
     with_area statbuf 64 (\<lambda>k. Some (0, put_bytes 64 (stat_of (inode_at k inode) stack) 0 (unat statbuf) k)) k"

definition cp_stat64 :: "nat \<Rightarrow> u32 \<Rightarrow> cbuf \<Rightarrow> kernel \<Rightarrow> (nat + int \<times> kernel) option" where
  "cp_stat64 inode statbuf stack k =
     with_area statbuf 96 (\<lambda>k. Some (0, put_bytes 96 (stat64_of (inode_at k inode) stack) 0 (unat statbuf) k)) k"

text \<open>\<^verbatim>\<open>sys_stat\<close> and \<^verbatim>\<open>sys_stat64\<close> differ in the copying routine \<open>cp\<close>.\<close>

definition stat_path :: "(nat \<Rightarrow> u32 \<Rightarrow> cbuf \<Rightarrow> kernel \<Rightarrow> (nat + int \<times> kernel) option) \<Rightarrow>
    byte list \<Rightarrow> u32 \<Rightarrow> cbuf \<Rightarrow> kernel \<Rightarrow> (nat + int \<times> kernel) option" where
  "stat_path cp filename statbuf stack k =
     do { (inode, k) \<leftarrow> namei filename k;
          case inode of None \<Rightarrow> Some (Inr (- ENOENT, k))
          | Some inode \<Rightarrow> do {
              r \<leftarrow> cp inode statbuf stack k;
              case r of Inl sig \<Rightarrow> Some (Inl sig)
              | Inr (i, k) \<Rightarrow> do { k \<leftarrow> iput (Some inode) k; Some (Inr (i, k)) } } }"

definition stat_fd :: "(nat \<Rightarrow> u32 \<Rightarrow> cbuf \<Rightarrow> kernel \<Rightarrow> (nat + int \<times> kernel) option) \<Rightarrow>
    nat \<Rightarrow> u32 \<Rightarrow> cbuf \<Rightarrow> kernel \<Rightarrow> (nat + int \<times> kernel) option" where
  "stat_fd cp fd statbuf stack k =
     (if NR_OPEN \<le> fd then Some (Inr (- ENOENT, k))
      else case filp_at k fd of None \<Rightarrow> Some (Inr (- ENOENT, k))
      | Some f \<Rightarrow> (case f_inode (file_table k f) of None \<Rightarrow> Some (Inr (- ENOENT, k))
                  | Some inode \<Rightarrow> cp inode statbuf stack k))"

definition sys_stat :: "byte list \<Rightarrow> u32 \<Rightarrow> cbuf \<Rightarrow> kernel \<Rightarrow> (nat + int \<times> kernel) option" where
  "sys_stat = stat_path cp_stat"

definition sys_lstat :: "byte list \<Rightarrow> u32 \<Rightarrow> cbuf \<Rightarrow> kernel \<Rightarrow> (nat + int \<times> kernel) option" where
  "sys_lstat = sys_stat"

definition sys_fstat :: "nat \<Rightarrow> u32 \<Rightarrow> cbuf \<Rightarrow> kernel \<Rightarrow> (nat + int \<times> kernel) option" where
  "sys_fstat = stat_fd cp_stat"

definition sys_stat64 :: "byte list \<Rightarrow> u32 \<Rightarrow> cbuf \<Rightarrow> kernel \<Rightarrow> (nat + int \<times> kernel) option" where
  "sys_stat64 = stat_path cp_stat64"

definition sys_fstat64 :: "nat \<Rightarrow> u32 \<Rightarrow> cbuf \<Rightarrow> kernel \<Rightarrow> (nat + int \<times> kernel) option" where
  "sys_fstat64 = stat_fd cp_stat64"

definition sys_lstat64 :: "byte list \<Rightarrow> u32 \<Rightarrow> cbuf \<Rightarrow> kernel \<Rightarrow> (nat + int \<times> kernel) option" where
  "sys_lstat64 = sys_stat64"

definition sys_oldstat :: int where "sys_oldstat = 0"
definition sys_oldfstat :: int where "sys_oldfstat = 0"

section \<open>Reading a directory\<close>

text \<open>The name of the entry at offset \<open>p\<close>: at most 14 bytes, up to a zero.\<close>

definition entry_name :: "cbuf \<Rightarrow> nat \<Rightarrow> byte list" where
  "entry_name d p = takeWhile (\<lambda>c. c \<noteq> 0) (bytes_of (p + 2) NAME_LEN d)"

text \<open>The inner loop: the next entry in the block that is in use and has a name, and the new position.\<close>

function next_entry :: "cbuf \<Rightarrow> nat \<Rightarrow> u32 \<Rightarrow> u32 \<Rightarrow> nat option \<times> u32" where
  "next_entry d off fpos sz =
     (if off < 1024 \<and> fpos < sz
      then if get16 d off \<noteq> 0 \<and> entry_name d off \<noteq> [] then (Some off, fpos + 16)
           else next_entry d (off + 16) (fpos + 16) sz
      else (None, fpos))"
  by pat_completeness auto
termination by (relation "measure (\<lambda>(d, off, fpos, sz). 1024 - off)") auto

declare next_entry.simps [simp del]

definition set_f_pos :: "nat \<Rightarrow> u32 \<Rightarrow> kernel \<Rightarrow> kernel" where
  "set_f_pos f p k = on_file f (\<lambda>f. f\<lparr>f_pos := p\<rparr>) k"

text \<open>
  An entry as it is handed to the caller. \<open>reclen\<close> is the offset of \<^verbatim>\<open>d_reclen\<close>, \<open>nm\<close> that of \<^verbatim>\<open>d_name\<close>; of
  the other fields only the low half of \<^verbatim>\<open>d_ino\<close> is written.
\<close>

definition put_dirent :: "nat \<Rightarrow> nat \<Rightarrow> nat \<Rightarrow> u16 \<Rightarrow> byte list \<Rightarrow> kernel \<Rightarrow> kernel" where
  "put_dirent reclen nm dirp ino name k =
     (let i = length name;
          k = put_bytes i (\<lambda>j. name ! j) 0 (dirp + nm) k;
          k = put_fs_long (ucast ino) dirp k;
          k = put_fs_byte 0 (dirp + nm + i) k
      in put_fs_word (of_nat i) (dirp + reclen) k)"

text \<open>\<^verbatim>\<open>read_file_block(inode,(filp->f_pos)/BLOCK_SIZE)\<close>: positions are signed; a negative block is in front of \<^verbatim>\<open>i_zone\<close>.\<close>

definition block_at :: "nat \<Rightarrow> u32 \<Rightarrow> kernel \<Rightarrow> (nat option \<times> kernel) option" where
  "block_at inode fpos k =
     (let n = sint fpos sdiv 1024 in if n < 0 then overrun ''i_zone'' else read_file_block inode (nat n) k)"

partial_function (option) getdents_loop :: "nat \<Rightarrow> nat \<Rightarrow> nat \<Rightarrow> nat \<Rightarrow> nat \<Rightarrow> kernel \<Rightarrow> (int \<times> kernel) option" where
  "getdents_loop reclen nm inode f dirp k =
     (let fpos = f_pos (file_table k f); sz = i_size (inode_at k inode) in
      if \<not> fpos < sz then Some (0, k)
      else do {
        (bh, k) \<leftarrow> block_at inode fpos k;
        case bh of None \<Rightarrow> getdents_loop reclen nm inode f dirp (set_f_pos f (fpos + (1024 - (fpos AND 1023))) k)
        | Some b \<Rightarrow>
            let d = bdata k b; (found, fpos) = next_entry d (unat (fpos AND 1023)) fpos sz; k = set_f_pos f fpos k in
            case found of
              None \<Rightarrow> do { k \<leftarrow> kbrelse bh k; getdents_loop reclen nm inode f dirp k }
            | Some off \<Rightarrow> do {
                let k = put_dirent reclen nm dirp (get16 d off) (entry_name d off) k;
                k \<leftarrow> kbrelse bh k;
                Some (int (length (entry_name d off)), k) } })"

definition minix_getdents :: "nat \<Rightarrow> nat \<Rightarrow> nat \<Rightarrow> kernel \<Rightarrow> (int \<times> kernel) option" where
  "minix_getdents inode f dirp k =
     (if \<not> S_ISDIR (i_mode (inode_at k inode)) then Some (- EBADF, k) else getdents_loop 8 10 inode f dirp k)"

definition minix_getdents64 :: "nat \<Rightarrow> nat \<Rightarrow> nat \<Rightarrow> kernel \<Rightarrow> (int \<times> kernel) option" where
  "minix_getdents64 inode f dirp k =
     (if \<not> S_ISDIR (i_mode (inode_at k inode)) then Some (- EBADF, k) else getdents_loop 16 19 inode f dirp k)"

definition sys_getdents :: "nat \<Rightarrow> u32 \<Rightarrow> kernel \<Rightarrow> (nat + int \<times> kernel) option" where
  "sys_getdents fd dirp k =
     (if NR_OPEN \<le> fd then Some (Inr (- EBADF, k))
      else case filp_at k fd of None \<Rightarrow> Some (Inr (- EBADF, k))
      | Some f \<Rightarrow> (case f_inode (file_table k f) of None \<Rightarrow> Some (Inr (- EBADF, k))
                  | Some inode \<Rightarrow> with_area dirp 268 (minix_getdents inode f (unat dirp)) k))"

definition sys_getdents64 :: "nat \<Rightarrow> u32 \<Rightarrow> kernel \<Rightarrow> (nat + int \<times> kernel) option" where
  "sys_getdents64 fd dirp k =
     (if NR_OPEN \<le> fd then Some (Inr (- EBADF, k))
      else case filp_at k fd of None \<Rightarrow> Some (Inr (- EBADF, k))
      | Some f \<Rightarrow> (case f_inode (file_table k f) of None \<Rightarrow> Some (Inr (- EBADF, k))
                  | Some inode \<Rightarrow> with_area dirp 276 (minix_getdents64 inode f (unat dirp)) k))"
section \<open>What a directory lists\<close>

text \<open>An entry of a directory that is in use and has a name, at position \<open>q\<close> of the file.\<close>

definition file_bytes :: "u16 \<Rightarrow> kernel \<Rightarrow> nat \<Rightarrow> nat \<Rightarrow> cbuf" where
  "file_bytes D k i q = (\<lambda>j. file_byte D k i (q + j))"

definition listed :: "u16 \<Rightarrow> kernel \<Rightarrow> nat \<Rightarrow> nat \<Rightarrow> bool" where
  "listed D k i q \<longleftrightarrow> get16 (file_bytes D k i q) 0 \<noteq> 0 \<and> entry_name (file_bytes D k i q) 0 \<noteq> []"

text \<open>The first listed entry from \<open>p\<close> on lies at \<open>q\<close>.\<close>

definition first_listed :: "(nat \<Rightarrow> bool) \<Rightarrow> nat \<Rightarrow> nat \<Rightarrow> bool" where
  "first_listed L p q \<longleftrightarrow> p \<le> q \<and> 16 dvd q \<and> L q \<and> (\<forall>r. p \<le> r \<longrightarrow> r < q \<longrightarrow> 16 dvd r \<longrightarrow> \<not> L r)"

lemma next_entry_spec:
  assumes "16 dvd off" and "off \<le> 1024" and "B + 1024 + 16 < 2 ^ 32" and "n < 2 ^ 32"
  shows "\<exists>x. off \<le> x \<and> x \<le> 1024 \<and> 16 dvd x \<and>
    (\<forall>r. off \<le> r \<longrightarrow> r < x \<longrightarrow> 16 dvd r \<longrightarrow> \<not> (get16 d r \<noteq> 0 \<and> entry_name d r \<noteq> [])) \<and>
    (if x < 1024 \<and> B + x < n
     then get16 d x \<noteq> 0 \<and> entry_name d x \<noteq> [] \<and> next_entry d off (of_nat (B + off)) (of_nat n) = (Some x, of_nat (B + x + 16))
     else next_entry d off (of_nat (B + off)) (of_nat n) = (None, of_nat (B + x)))"
  using assms(1,2)
proof (induction "1024 - off" arbitrary: off rule: less_induct)
  case less
  have lt: "(of_nat (B + off) :: u32) < of_nat n \<longleftrightarrow> B + off < n"
    using less.prems assms(3,4) by (simp add: word_less_nat_alt unat_of_nat del: of_nat_add)
  show ?case
  proof (cases "off < 1024 \<and> B + off < n \<and> \<not> (get16 d off \<noteq> 0 \<and> entry_name d off \<noteq> [])")
    case True
    obtain m where m: "off = 16 * m" using less.prems(1) by (rule dvdE)
    then have "m \<le> 63" using True by linarith
    then have o: "off + 16 \<le> 1024" "16 dvd off + 16" using m less.prems(1) by simp_all
    have sm: "1024 - (off + 16) < 1024 - off" using True by (intro diff_less_mono2) simp_all
    have e: "next_entry d off (of_nat (B + off)) (of_nat n) = next_entry d (off + 16) (of_nat (B + (off + 16))) (of_nat n)"
      using True lt by (subst next_entry.simps) (auto simp: add.assoc)
    obtain x where x: "off + 16 \<le> x" "x \<le> 1024" "16 dvd x"
      "\<forall>r. off + 16 \<le> r \<longrightarrow> r < x \<longrightarrow> 16 dvd r \<longrightarrow> \<not> (get16 d r \<noteq> 0 \<and> entry_name d r \<noteq> [])"
      "if x < 1024 \<and> B + x < n
       then get16 d x \<noteq> 0 \<and> entry_name d x \<noteq> [] \<and> next_entry d off (of_nat (B + off)) (of_nat n) = (Some x, of_nat (B + x + 16))
       else next_entry d off (of_nat (B + off)) (of_nat n) = (None, of_nat (B + x))"
      using less.hyps [OF sm o(2,1)] unfolding e by blast
    have "r = off \<or> off + 16 \<le> r" if "off \<le> r" "16 dvd r" for r
      using that less.prems(1) by (auto elim!: dvdE)
    then have "\<forall>r. off \<le> r \<longrightarrow> r < x \<longrightarrow> 16 dvd r \<longrightarrow> \<not> (get16 d r \<noteq> 0 \<and> entry_name d r \<noteq> [])"
      using x(4) True by metis
    then show ?thesis using x(1-3,5) by (intro exI [of _ x]) simp
  next
    case False
    have "next_entry d off (of_nat (B + off)) (of_nat n) =
        (if off < 1024 \<and> B + off < n then (Some off, of_nat (B + off + 16)) else (None, of_nat (B + off)))"
      using False lt by (subst next_entry.simps) (auto simp: add.assoc add.commute)
    then show ?thesis using False less.prems by (intro exI [of _ off]) auto
  qed
qed

text \<open>The bytes of the caller's structure after an entry was stored in it.\<close>

lemma get32_put32_other: "q + 3 < p \<or> p + 3 < q \<Longrightarrow> get32 (put32 p v a) q = get32 a q"
  by (rule get32_cong) (auto simp: put32_same)

lemma put_dirent_stores:
  fixes dirp :: nat and ino :: u16 and k :: kernel
  assumes "4 \<le> reclen" and "reclen + 2 \<le> nm" and "length name \<le> 14"
  defines "m \<equiv> fsmem (put_dirent reclen nm dirp ino name k)"
  shows "get32 m dirp = ucast ino" "get16 m (dirp + reclen) = of_nat (length name)"
    "j < length name \<Longrightarrow> m (dirp + nm + j) = name ! j" "m (dirp + nm + length name) = 0"
proof -
  let ?b = "\<lambda>x. if dirp + nm \<le> x \<and> x < dirp + nm + length name then name ! (x - (dirp + nm)) else fsmem k x"
  have m: "m = put16 (dirp + reclen) (of_nat (length name)) ((put32 dirp (ucast ino) ?b)(dirp + nm + length name := 0))"
    by (simp add: m_def put_dirent_def put_bytes_eq put_fs_long_def put_fs_byte_def put_fs_word_def Let_def cong: if_cong)
  show "get16 m (dirp + reclen) = of_nat (length name)" unfolding m by simp
  have "get32 m dirp = get32 (put32 dirp (ucast ino) ?b) dirp"
    unfolding m using assms(1,2) by (intro get32_cong) (simp add: put16_same)
  then show "get32 m dirp = ucast ino" by simp
  show "j < length name \<Longrightarrow> m (dirp + nm + j) = name ! j" "m (dirp + nm + length name) = 0"
    using assms(1,2) by (simp_all add: m put16_same put32_same)
qed

lemma entry_name_short: "length (entry_name d p) \<le> 14"
  using length_takeWhile_le [of "\<lambda>c. c \<noteq> 0" "bytes_of (p + 2) NAME_LEN d"] by (simp add: entry_name_def bytes_of_def)

lemma entry_cong:
  assumes "\<And>j. j < 16 \<Longrightarrow> d (p + j) = e (q + j)"
  shows "get16 d p = get16 e q" "entry_name d p = entry_name e q"
proof -
  show "get16 d p = get16 e q" using assms [of 0] assms [of 1] by (simp add: get16_def)
  have "bytes_of (p + 2) 14 d = bytes_of (q + 2) 14 e"
    unfolding bytes_of_def using assms [of "2 + j" for j] by (intro map_cong) (auto simp: add.assoc)
  then show "entry_name d p = entry_name e q" by (simp add: entry_name_def)
qed

text \<open>One call that starts at position \<open>p\<close> of a directory of \<open>n\<close> bytes.\<close>

definition lists :: "u16 \<Rightarrow> kernel \<Rightarrow> nat \<Rightarrow> nat \<Rightarrow> nat \<Rightarrow> nat \<Rightarrow> nat \<Rightarrow> nat \<Rightarrow> nat \<Rightarrow> (int \<times> kernel) option \<Rightarrow> bool" where
  "lists D k i reclen nm dirp f p n r \<longleftrightarrow>
     (\<exists>k'. settled D (bc k) (bc k') \<and>
       ((\<exists>q. first_listed (listed D k i) p q \<and> q < n \<and>
           r = Some (int (length (entry_name (file_bytes D k i q) 0)), k') \<and> f_pos (file_table k' f) = of_nat (q + 16) \<and>
           fsmem k' = fsmem (put_dirent reclen nm dirp (get16 (file_bytes D k i q) 0) (entry_name (file_bytes D k i q) 0) k)) \<or>
        (\<forall>q. p \<le> q \<longrightarrow> q < n \<longrightarrow> 16 dvd q \<longrightarrow> \<not> listed D k i q) \<and> r = Some (0, k') \<and> fsmem k' = fsmem k \<and>
          (\<exists>p'. n \<le> p' \<and> f_pos (file_table k' f) = of_nat p')))"

lemma put_dirent_sel: "bc (put_dirent reclen nm dirp ino name k) = bc k" "inode_at (put_dirent reclen nm dirp ino name k) i = inode_at k i"
  "file_table (put_dirent reclen nm dirp ino name k) = file_table k"
  by (simp_all add: put_dirent_def put_bytes_eq put_fs_long_def put_fs_byte_def put_fs_word_def Let_def inode_at_def)

lemma put_dirent_cong: "fsmem k' = fsmem k \<Longrightarrow> fsmem (put_dirent reclen nm dirp ino name k') = fsmem (put_dirent reclen nm dirp ino name k)"
  by (simp add: put_dirent_def put_bytes_eq put_fs_long_def put_fs_byte_def put_fs_word_def Let_def cong: if_cong)

lemma entry_offset:
  assumes "16 dvd q"
  shows "q mod 1024 \<le> (1008 :: nat)"
proof -
  have "16 dvd q mod 1024" using assms by (simp add: dvd_mod)
  then obtain m where "q mod 1024 = 16 * m" by (rule dvdE)
  moreover have "q mod 1024 < 1024" by simp
  ultimately have "m \<le> 63" by simp
  then show ?thesis using \<open>q mod 1024 = 16 * m\<close> by simp
qed

text \<open>The same directory after a block of it was read.\<close>

lemma same_directory:
  assumes l: "loadable D k i p n" and s: "settled D (bc k) (bc k')"
    and m: "i_zone (inode_at k' i) = i_zone (inode_at k i)" "i_dev (inode_at k' i) = i_dev (inode_at k i)" and q: "p \<le> q" "q < n" "16 dvd q" "j < 16"
  shows "file_bytes D k' i q j = file_bytes D k i q j"
proof -
  have "q mod 1024 \<le> 1008" by (rule entry_offset [OF q(3)])
  then have d: "(q + j) div 1024 = q div 1024" using q(4) by (simp add: div_add1_eq [of q j])
  have "1024 * (q div 1024) < n" "p div 1024 \<le> q div 1024"
    using q(1) le_less_trans [OF times_div_less_eq_dividend q(2)] by (simp_all add: div_le_mono)
  then have z: "valid (bc k) D (file_zone D k i ((q + j) div 1024))" "q div 1024 < 1031" and mo: "map_ok D k i"
    using l by (auto simp: loadable_def d)
  have "file_byte D k' i (q + j) = file_byte D (k\<lparr>bc := bc k', fsmem := fsmem k\<rparr>) i (q + j)"
    using m by (simp add: file_byte_def Let_def map_frame(1) [of k' "k\<lparr>bc := bc k', fsmem := fsmem k\<rparr>"] inode_at_def)
  also have "\<dots> = file_byte D k i (q + j)" using z d by (intro settled_file(3) [OF s mo]) simp_all
  finally show ?thesis by (simp add: file_bytes_def)
qed

lemma lists_on:
  assumes l: "loadable D k i p n" and s: "settled D (bc k) (bc k1)" and m: "inode_at k1 i = inode_at k i" and u: "fsmem k1 = fsmem k"
    and none: "\<forall>q. p \<le> q \<longrightarrow> q < p1 \<longrightarrow> 16 dvd q \<longrightarrow> \<not> listed D k i q" and p: "p \<le> p1"
    and r: "lists D k1 i reclen nm dirp f p1 n r"
  shows "lists D k i reclen nm dirp f p n r"
proof -
  have e: "get16 (file_bytes D k1 i q) 0 = get16 (file_bytes D k i q) 0"
    "entry_name (file_bytes D k1 i q) 0 = entry_name (file_bytes D k i q) 0" if "p \<le> q" "q < n" "16 dvd q" for q
    using entry_cong [of "file_bytes D k1 i q" 0 "file_bytes D k i q" 0] same_directory [OF l s _ _ that] m by simp_all
  then have ls: "listed D k1 i q = listed D k i q" if "p \<le> q" "q < n" "16 dvd q" for q
    using that by (simp add: listed_def)
  have split: "q < p1 \<or> p1 \<le> q" for q by linarith
  obtain k' where k': "settled D (bc k1) (bc k')"
    "(\<exists>q. first_listed (listed D k1 i) p1 q \<and> q < n \<and>
           r = Some (int (length (entry_name (file_bytes D k1 i q) 0)), k') \<and> f_pos (file_table k' f) = of_nat (q + 16) \<and>
           fsmem k' = fsmem (put_dirent reclen nm dirp (get16 (file_bytes D k1 i q) 0) (entry_name (file_bytes D k1 i q) 0) k1)) \<or>
        (\<forall>q. p1 \<le> q \<longrightarrow> q < n \<longrightarrow> 16 dvd q \<longrightarrow> \<not> listed D k1 i q) \<and> r = Some (0, k') \<and> fsmem k' = fsmem k1 \<and>
          (\<exists>p'. n \<le> p' \<and> f_pos (file_table k' f) = of_nat p')"
    using r by (auto simp: lists_def)
  have s': "settled D (bc k) (bc k')" by (rule settled_trans [OF s k'(1)])
  from k'(2) show ?thesis
  proof
    assume "\<exists>q. first_listed (listed D k1 i) p1 q \<and> q < n \<and>
           r = Some (int (length (entry_name (file_bytes D k1 i q) 0)), k') \<and> f_pos (file_table k' f) = of_nat (q + 16) \<and>
           fsmem k' = fsmem (put_dirent reclen nm dirp (get16 (file_bytes D k1 i q) 0) (entry_name (file_bytes D k1 i q) 0) k1)"
    then obtain q where q: "first_listed (listed D k1 i) p1 q" "q < n" "r = Some (int (length (entry_name (file_bytes D k1 i q) 0)), k')"
      "f_pos (file_table k' f) = of_nat (q + 16)"
      "fsmem k' = fsmem (put_dirent reclen nm dirp (get16 (file_bytes D k1 i q) 0) (entry_name (file_bytes D k1 i q) 0) k1)" by blast
    have pq: "p \<le> q" "16 dvd q" using q(1) p by (auto simp: first_listed_def)
    have "first_listed (listed D k i) p q"
      unfolding first_listed_def
    proof (intro conjI allI impI)
      show "listed D k i q" using q(1) ls [OF pq(1) q(2) pq(2)] by (simp add: first_listed_def)
      fix r assume r: "p \<le> r" "r < q" "16 dvd r"
      show "\<not> listed D k i r" using split [of r] none r q(1,2) ls [of r] unfolding first_listed_def by (meson less_trans)
    qed (fact pq)+
    then show ?thesis using s' q(2-5) e [OF pq(1) q(2) pq(2)] put_dirent_cong [OF u] unfolding lists_def
      by (intro exI [of _ k'] conjI disjI1 exI [of _ q]) simp_all
  next
    assume a: "(\<forall>q. p1 \<le> q \<longrightarrow> q < n \<longrightarrow> 16 dvd q \<longrightarrow> \<not> listed D k1 i q) \<and> r = Some (0, k') \<and> fsmem k' = fsmem k1 \<and>
          (\<exists>p'. n \<le> p' \<and> f_pos (file_table k' f) = of_nat p')"
    then have "\<forall>q. p \<le> q \<longrightarrow> q < n \<longrightarrow> 16 dvd q \<longrightarrow> \<not> listed D k i q" using none ls split by metis
    then show ?thesis using s' a u unfolding lists_def by (intro exI [of _ k']) simp
  qed
qed

lemma position_split:
  assumes "p < 2 ^ 31"
  shows "unat ((of_nat p :: u32) AND 1023) = p mod 1024" "block_at i (of_nat p) k = read_file_block i (p div 1024) k"
proof -
  have "(of_nat p :: u32) AND mask 10 = of_nat p mod 2 ^ 10" by (simp only: take_bit_eq_mask [symmetric] take_bit_eq_mod)
  then have "(of_nat p :: u32) AND 1023 = of_nat p mod 1024" by (simp add: mask_eq_exp_minus_1)
  then show "unat ((of_nat p :: u32) AND 1023) = p mod 1024" using assms by (simp add: unat_mod unat_of_nat)
  have "sint (of_nat p :: u32) sdiv 1024 = int (p div 1024)"
    using sint_small [OF assms] by (cases "p = 0") (simp_all add: signed_divide_int_def zdiv_int)
  then show "block_at i (of_nat p) k = read_file_block i (p div 1024) k" by (simp add: block_at_def)
qed

lemma set_f_pos_sel [simp]:
  "bc (set_f_pos f p k) = bc k" "inode_at (set_f_pos f p k) i = inode_at k i" "fsmem (set_f_pos f p k) = fsmem k"
  "f_pos (file_table (set_f_pos f p k) f) = p"
  by (simp_all add: set_f_pos_def k_simps)

lemma getdents_loop_lists:
  assumes "loadable D k i p n" and "16 dvd p" and "p \<le> 1024 * 1031"
    and "f_pos (file_table k f) = of_nat p" and "i_size (inode_at k i) = of_nat n"
  shows "lists D k i reclen nm dirp f p n (getdents_loop reclen nm i f dirp k)"
  using assms
proof (induction "n - p" arbitrary: p k rule: less_induct)
  case less
  have nb: "n \<le> 1024 * 1031" and ok: "bc_ok D (bc k)" "map_ok D k i" "spare (Suc (Suc 0)) (bc k)"
    using less.prems(1) by (simp_all add: loadable_def numeral_2_eq_2)
  have lt: "(of_nat p :: u32) < of_nat n \<longleftrightarrow> p < n"
    using nb less.prems(3) by (simp add: word_less_nat_alt unat_of_nat)
  show ?case
  proof (cases "p < n")
    case False
    then have "getdents_loop reclen nm i f dirp k = Some (0, k)"
      using lt less.prems(4,5) by (subst getdents_loop.simps) simp
    then show ?thesis using False less.prems(4) ok(1)
      unfolding lists_def by (intro exI [of _ k]) (auto simp: settled_refl intro!: exI [of _ p])
  next
    case True
    define B where "B = 1024 * (p div 1024)"
    define off where "off = p mod 1024"
    have p: "p = B + off" "off < 1024" by (simp_all add: B_def off_def)
    have od: "16 dvd off" using less.prems(2) unfolding off_def by (simp add: dvd_mod)
    have "B < n" using True p(1) by simp
    then have z: "file_zone D k i (p div 1024) \<noteq> 0" "valid (bc k) D (file_zone D k i (p div 1024))" "p div 1024 < 1031"
      using less.prems(1) by (auto simp: loadable_def B_def)
    obtain b b1 where rd: "read_file_block i (p div 1024) k = Some (Some b, k\<lparr>bc := b1\<rparr>)"
        "showing D (file_zone D k i (p div 1024)) b (bc k) b1"
      by (rule read_file_block_reads [OF ok(1,3,2) z(3,1,2)])
    let ?d = "bdata (k\<lparr>bc := b1\<rparr>) b"
    have same: "get16 ?d r = get16 (file_bytes D k i (B + r)) 0" "entry_name ?d r = entry_name (file_bytes D k i (B + r)) 0"
      if "16 dvd r" "r < 1024" for r
    proof -
      have "r \<le> 1008" using that by (auto elim!: dvdE)
      then have "?d (r + j) = file_bytes D k i (B + r) (0 + j)" if "j < 16" for j
        using showing_data [OF rd(2), of "r + j"] that z(1)
        by (simp add: bdata_def file_bytes_def file_byte_def B_def add.assoc)
      then show "get16 ?d r = get16 (file_bytes D k i (B + r)) 0" "entry_name ?d r = entry_name (file_bytes D k i (B + r)) 0"
        by (rule entry_cong; blast)+
    qed
    obtain x where x: "off \<le> x" "x \<le> 1024" "16 dvd x"
        "\<forall>r. off \<le> r \<longrightarrow> r < x \<longrightarrow> 16 dvd r \<longrightarrow> \<not> (get16 ?d r \<noteq> 0 \<and> entry_name ?d r \<noteq> [])"
        "if x < 1024 \<and> B + x < n
         then get16 ?d x \<noteq> 0 \<and> entry_name ?d x \<noteq> [] \<and> next_entry ?d off (of_nat (B + off)) (of_nat n) = (Some x, of_nat (B + x + 16))
         else next_entry ?d off (of_nat (B + off)) (of_nat n) = (None, of_nat (B + x))"
    proof -
      have "off \<le> 1024" "B + 1024 + 16 < 2 ^ 32" "n < 2 ^ 32" using p less.prems(3) nb by simp_all
      from next_entry_spec [OF od this, of ?d] show ?thesis using that by metis
    qed
    have none: "\<not> listed D k i q" if "p \<le> q" "q < B + x" "16 dvd q" for q
    proof -
      have "16 dvd B" by (simp add: B_def)
      then have "16 dvd q - B" using that by (simp add: dvd_diff_nat)
      moreover have "off \<le> q - B" "q - B < x" "q - B < 1024" "B + (q - B) = q" using that p x(2) by simp_all
      ultimately show ?thesis using x(4) same [of "q - B"] by (metis listed_def)
    qed
    have step: "getdents_loop reclen nm i f dirp k =
        (case next_entry ?d off (of_nat (B + off)) (of_nat n) of (res, fpos) \<Rightarrow>
          let k = set_f_pos f fpos (k\<lparr>bc := b1\<rparr>) in
          (case res of
              None \<Rightarrow> do { k \<leftarrow> kbrelse (Some b) k; getdents_loop reclen nm i f dirp k }
            | Some off \<Rightarrow> do {
                let k = put_dirent reclen nm dirp (get16 ?d off) (entry_name ?d off) k;
                k \<leftarrow> kbrelse (Some b) k;
                Some (int (length (entry_name ?d off)), k) }))"
    proof -
      have "p < 2 ^ 31" using less.prems(3) by simp
      note ps = position_split [OF this]
      show ?thesis using True lt less.prems(4,5) rd(1) ps p(1) unfolding off_def B_def
        by (subst getdents_loop.simps) (simp add: Let_def)
    qed
    have rel: "\<exists>b2. kbrelse (Some b) k1 = Some (k1\<lparr>bc := b2\<rparr>) \<and> settled D (bc k) b2" if "bc k1 = b1" for k1
      using showing_release [of D _ b "bc k" k1] rd(2) that by metis
    show ?thesis
    proof (cases "x < 1024 \<and> B + x < n")
      case True
      let ?k = "put_dirent reclen nm dirp (get16 ?d x) (entry_name ?d x) (set_f_pos f (of_nat (B + x + 16)) (k\<lparr>bc := b1\<rparr>))"
      have e: "next_entry ?d off (of_nat (B + off)) (of_nat n) = (Some x, of_nat (B + x + 16))"
        "get16 ?d x \<noteq> 0" "entry_name ?d x \<noteq> []"
        using x(5) True by simp_all
      have "bc ?k = b1" by (simp add: put_dirent_sel)
      then obtain b2 where b2: "kbrelse (Some b) ?k = Some (?k\<lparr>bc := b2\<rparr>)" "settled D (bc k) b2" using rel by blast
      have r: "getdents_loop reclen nm i f dirp k = Some (int (length (entry_name ?d x)), ?k\<lparr>bc := b2\<rparr>)"
        unfolding step e(1) using b2(1) by (simp add: Let_def)
      have "16 dvd B + x" using x(3) by (simp add: B_def)
      then have fl: "first_listed (listed D k i) p (B + x)"
        using none x(1) p e(2,3) same [OF x(3)] True by (simp add: first_listed_def listed_def)
      show ?thesis unfolding lists_def r
        using fl b2(2) True same [OF x(3)]
        by (intro exI [of _ "?k\<lparr>bc := b2\<rparr>"] conjI disjI1 exI [of _ "B + x"])
          (simp_all add: put_dirent_sel, rule put_dirent_cong, simp)
    next
      case False
      let ?k = "set_f_pos f (of_nat (B + x)) (k\<lparr>bc := b1\<rparr>)"
      have e: "next_entry ?d off (of_nat (B + off)) (of_nat n) = (None, of_nat (B + x))" using x(5) False by argo
      have "bc ?k = b1" by simp
      then obtain b2 where b2: "kbrelse (Some b) ?k = Some (?k\<lparr>bc := b2\<rparr>)" "settled D (bc k) b2" using rel by blast
      let ?k2 = "?k\<lparr>bc := b2\<rparr>"
      have r: "getdents_loop reclen nm i f dirp k = getdents_loop reclen nm i f dirp ?k2"
        unfolding step e using b2(1) by (simp add: Let_def)
      have k2: "inode_at ?k2 i = inode_at k i" "fsmem ?k2 = fsmem k" "f_pos (file_table ?k2 f) = of_nat (B + x)" "bc ?k2 = b2"
        by (simp_all add: inode_at_def set_f_pos_def on_file_def)
      have "p < B + x" using False x(1) p True by (cases "x = off") auto
      have "16 dvd B + x" "B + x \<le> 1024 * 1031" using x(2,3) z(3) by (simp_all add: B_def)
      moreover have "loadable D ?k2 i (B + x) n"
      proof -
        have "p div 1024 \<le> (B + x) div 1024" using \<open>p < B + x\<close> by (simp add: div_le_mono)
        from loadable_settled [OF less.prems(1) b2(2) this, of "fsmem k"] show ?thesis
          using map_frame [of ?k2 "k\<lparr>bc := b2, fsmem := fsmem k\<rparr>" i D] k2 by (simp add: loadable_def inode_at_def)
      qed
      ultimately have "lists D ?k2 i reclen nm dirp f (B + x) n (getdents_loop reclen nm i f dirp ?k2)"
        using less.hyps [of "B + x" ?k2] less.prems(5) True \<open>p < B + x\<close> k2 by simp
      then show ?thesis unfolding r
        using none \<open>p < B + x\<close> b2(2) k2 by (intro lists_on [OF less.prems(1), of ?k2 "B + x"]) simp_all
    qed
  qed
qed

definition dir_name :: "u16 \<Rightarrow> kernel \<Rightarrow> nat \<Rightarrow> nat \<Rightarrow> byte list" where
  "dir_name D k i q = entry_name (file_bytes D k i q) 0"

definition dir_inode :: "u16 \<Rightarrow> kernel \<Rightarrow> nat \<Rightarrow> nat \<Rightarrow> u16" where
  "dir_inode D k i q = get16 (file_bytes D k i q) 0"

text \<open>
  C39: Reading a directory lists its entries in order. A call at position \<open>p\<close> hands over the first entry from
  there on that is in use and has a name, and leaves the position just behind it, so that repeated calls list
  every such entry once: the result is the length of the name, and the caller's structure holds the inode number,
  the length and the name with a zero behind it. When no entry is left the result is 0 and user memory
  stays as it was. Every buffer is given back.
\<close>

theorem getdents_lists:
  assumes "S_ISDIR (i_mode (inode_at k i))" and "bc_ok D (bc k)" and "spare 2 (bc k)" and "map_ok D k i"
    and "16 dvd p" and "p \<le> n" and "n \<le> 1024 * (7 + 512 + 512)"
    and "f_pos (file_table k f) = of_nat p" and "i_size (inode_at k i) = of_nat n"
    and "\<And>q. p div 1024 \<le> q \<Longrightarrow> 1024 * q < n \<Longrightarrow> file_zone D k i q \<noteq> 0 \<and> valid (bc k) D (file_zone D k i q)"
  shows "\<exists>r k'. minix_getdents i f dirp k = Some (r, k') \<and> settled D (bc k) (bc k') \<and>
    ((\<exists>q. first_listed (listed D k i) p q \<and> q < n \<and> r = int (length (dir_name D k i q)) \<and> 0 < r \<and>
        f_pos (file_table k' f) = of_nat (q + 16) \<and> get_fs_long k' dirp = ucast (dir_inode D k i q) \<and>
        get_fs_word k' (dirp + 8) = of_nat (nat r) \<and> bytes_of (dirp + 10) (nat r) (fsmem k') = dir_name D k i q \<and>
        get_fs_byte k' (dirp + 10 + nat r) = 0) \<or>
     (\<forall>q. p \<le> q \<longrightarrow> q < n \<longrightarrow> 16 dvd q \<longrightarrow> \<not> listed D k i q) \<and> r = 0 \<and> fsmem k' = fsmem k)"
proof -
  have "loadable D k i p n" using assms by (simp add: loadable_def)
  moreover have "p \<le> 1024 * 1031" using assms(6,7) by simp
  ultimately have "lists D k i 8 10 dirp f p n (getdents_loop 8 10 i f dirp k)"
    using assms(5,8,9) by (intro getdents_loop_lists)
  moreover have "minix_getdents i f dirp k = getdents_loop 8 10 i f dirp k" using assms(1) by (simp add: minix_getdents_def)
  ultimately obtain k' where s: "settled D (bc k) (bc k')"
    and k': "(\<exists>q. first_listed (listed D k i) p q \<and> q < n \<and> minix_getdents i f dirp k = Some (int (length (dir_name D k i q)), k') \<and>
        f_pos (file_table k' f) = of_nat (q + 16) \<and>
        fsmem k' = fsmem (put_dirent 8 10 dirp (dir_inode D k i q) (dir_name D k i q) k)) \<or>
      (\<forall>q. p \<le> q \<longrightarrow> q < n \<longrightarrow> 16 dvd q \<longrightarrow> \<not> listed D k i q) \<and> minix_getdents i f dirp k = Some (0, k') \<and> fsmem k' = fsmem k"
    by (auto simp: lists_def dir_name_def dir_inode_def)
  from k' show ?thesis
  proof
    assume "\<exists>q. first_listed (listed D k i) p q \<and> q < n \<and> minix_getdents i f dirp k = Some (int (length (dir_name D k i q)), k') \<and>
        f_pos (file_table k' f) = of_nat (q + 16) \<and>
        fsmem k' = fsmem (put_dirent 8 10 dirp (dir_inode D k i q) (dir_name D k i q) k)"
    then obtain q where q: "first_listed (listed D k i) p q" "q < n"
        "minix_getdents i f dirp k = Some (int (length (dir_name D k i q)), k')" "f_pos (file_table k' f) = of_nat (q + 16)"
        "fsmem k' = fsmem (put_dirent 8 10 dirp (dir_inode D k i q) (dir_name D k i q) k)" by blast
    have l: "length (dir_name D k i q) \<le> 14" unfolding dir_name_def by (rule entry_name_short)
    note st = put_dirent_stores [where reclen = 8 and nm = 10 and name = "dir_name D k i q" and dirp = dirp and ino = "dir_inode D k i q" and k = k,
      OF _ _ l, folded q(5)]
    have "bytes_of (dirp + 10) (length (dir_name D k i q)) (fsmem k') = dir_name D k i q"
      unfolding bytes_of_def by (rule nth_equalityI) (simp_all add: st(3))
    moreover have "dir_name D k i q \<noteq> []" using q(1) by (simp add: first_listed_def listed_def dir_name_def)
    ultimately show ?thesis using q(1-4) s st(1,2,4)
      by (intro exI [of _ "int (length (dir_name D k i q))"] exI [of _ k'] conjI disjI1 exI [of _ q])
        (simp_all add: get_fs_long_def get_fs_word_def get_fs_byte_def)
  qed (use s in blast)
qed

text \<open>A directory whose first entry has the number 1541 and the name 7, 8, ..., 20.\<close>

definition listing_kernel :: kernel where
  "listing_kernel = on_inode 0 (\<lambda>n. n\<lparr>i_mode := 0x41ed, i_size := 32\<rparr>) exec_kernel"

lemma listing_kernel_file:
  "bc listing_kernel = pair_cache" "map_ok ROOT_DEV listing_kernel 0" "n < 7 \<Longrightarrow> file_zone ROOT_DEV listing_kernel 0 n = n + 2"
  "i_mode (inode_at listing_kernel 0) = 0x41ed" "i_size (inode_at listing_kernel 0) = 32" "f_pos (file_table listing_kernel 0) = 0"
proof -
  have b: "bc listing_kernel = bc exec_kernel" "i_zone (inode_at listing_kernel 0) = i_zone (inode_at exec_kernel 0)"
    "i_dev (inode_at listing_kernel 0) = i_dev (inode_at exec_kernel 0)"
    by (simp_all add: listing_kernel_def k_simps)
  show "bc listing_kernel = pair_cache" "map_ok ROOT_DEV listing_kernel 0" "n < 7 \<Longrightarrow> file_zone ROOT_DEV listing_kernel 0 n = n + 2"
    using map_frame [OF b] exec_kernel_file b(1) by simp_all
  show "i_mode (inode_at listing_kernel 0) = 0x41ed" "i_size (inode_at listing_kernel 0) = 32"
    by (simp_all add: listing_kernel_def k_simps)
  show "f_pos (file_table listing_kernel 0) = 0"
    by (simp add: listing_kernel_def exec_kernel_def k_simps) (simp add: small_kernel_def zero_file_def)
qed

lemma listing_kernel_bytes: "j < 16 \<Longrightarrow> file_bytes ROOT_DEV listing_kernel 0 0 j = of_nat (5 + j)"
  by (simp add: file_bytes_def file_byte_def listing_kernel_file Let_def view_def find_buffer_def)
    (simp add: pair_cache_def small_cache_def disk_block_def lba_def MINOR_def)

theorem getdents_lists_witness:
  "\<exists>k'. minix_getdents 0 0 100 listing_kernel = Some (14, k') \<and> f_pos (file_table k' 0) = 16 \<and> get_fs_long k' 100 = 1541 \<and>
     bytes_of 110 14 (fsmem k') = map of_nat [7..<21]"
proof -
  have n: "dir_name ROOT_DEV listing_kernel 0 0 = map of_nat [7..<21]" "dir_inode ROOT_DEV listing_kernel 0 0 = 1541"
  proof -
    have "bytes_of 2 14 (file_bytes ROOT_DEV listing_kernel 0 0) = map of_nat [7..<21]"
      unfolding bytes_of_def by (simp add: listing_kernel_bytes upt_rec)
    moreover have "takeWhile (\<lambda>c. c \<noteq> (0 :: byte)) (map of_nat [7..<21]) = map of_nat [7..<21]" by code_simp
    ultimately show "dir_name ROOT_DEV listing_kernel 0 0 = map of_nat [7..<21]"
      by (simp only: dir_name_def entry_name_def add_0)
    have "get16 (file_bytes ROOT_DEV listing_kernel 0 0) 0 = get16 (\<lambda>j. of_nat (5 + j)) 0"
      by (intro get16_cong) (simp_all add: listing_kernel_bytes)
    also have "\<dots> = 1541" by code_simp
    finally show "dir_inode ROOT_DEV listing_kernel 0 0 = 1541" by (simp add: dir_inode_def)
  qed
  then have l0: "listed ROOT_DEV listing_kernel 0 0" by (simp add: listed_def dir_name_def dir_inode_def upt_rec)
  have "S_ISDIR (i_mode (inode_at listing_kernel 0))" by (simp add: listing_kernel_file) code_simp
  moreover have "\<And>q. 0 div 1024 \<le> q \<Longrightarrow> 1024 * q < 32 \<Longrightarrow> file_zone ROOT_DEV listing_kernel 0 q \<noteq> 0 \<and>
      valid (bc listing_kernel) ROOT_DEV (file_zone ROOT_DEV listing_kernel 0 q)"
    by (simp add: listing_kernel_file pair_cache_ok)
  ultimately obtain r k' where r: "minix_getdents 0 0 100 listing_kernel = Some (r, k')"
    "(\<exists>q. first_listed (listed ROOT_DEV listing_kernel 0) 0 q \<and> q < 32 \<and> r = int (length (dir_name ROOT_DEV listing_kernel 0 q)) \<and> 0 < r \<and>
        f_pos (file_table k' 0) = of_nat (q + 16) \<and> get_fs_long k' 100 = ucast (dir_inode ROOT_DEV listing_kernel 0 q) \<and>
        get_fs_word k' (100 + 8) = of_nat (nat r) \<and> bytes_of (100 + 10) (nat r) (fsmem k') = dir_name ROOT_DEV listing_kernel 0 q \<and>
        get_fs_byte k' (100 + 10 + nat r) = 0) \<or>
     (\<forall>q. 0 \<le> q \<longrightarrow> q < 32 \<longrightarrow> 16 dvd q \<longrightarrow> \<not> listed ROOT_DEV listing_kernel 0 q) \<and> r = 0 \<and> fsmem k' = fsmem listing_kernel"
    using getdents_lists [of listing_kernel 0 ROOT_DEV 0 32 0 100] pair_cache_ok by (auto simp: listing_kernel_file)
  then obtain q where q: "first_listed (listed ROOT_DEV listing_kernel 0) 0 q" "r = int (length (dir_name ROOT_DEV listing_kernel 0 q))"
      "f_pos (file_table k' 0) = of_nat (q + 16)" "get_fs_long k' 100 = ucast (dir_inode ROOT_DEV listing_kernel 0 q)"
      "bytes_of (100 + 10) (nat r) (fsmem k') = dir_name ROOT_DEV listing_kernel 0 q"
    using l0 by auto
  moreover have "q = 0" using q(1) l0 by (auto simp: first_listed_def)
  ultimately show ?thesis using r(1) n by (intro exI [of _ k']) simp
qed

section \<open>What a status holds\<close>

lemma verify_area_mm: "verify_area a n k = Some (Inr k1) \<Longrightarrow> \<exists>m. k1 = k\<lparr>mm := m\<rparr>"
  unfolding verify_area_def bind_eq_Some_conv by (elim exE conjE, rename_tac r, case_tac r) auto

lemma with_area_mm: "with_area a n f k = Some (Inr r) \<Longrightarrow> \<exists>m. f (k\<lparr>mm := m\<rparr>) = Some r"
  unfolding with_area_def bind_eq_Some_conv
  by (elim exE conjE, rename_tac y, case_tac y) (auto dest: verify_area_mm)

lemma get16_put32_other: "q + 1 < p \<or> p + 3 < q \<Longrightarrow> get16 (put32 p v a) q = get16 a q"
  by (rule get16_cong) (auto simp: put32_same)

lemma get32_put16_other: "q + 3 < p \<or> p + 1 < q \<Longrightarrow> get32 (put16 p v a) q = get32 a q"
  by (rule get32_cong) (auto simp: put16_same)

lemmas field_simps = get32_put32_other get16_put32_other get32_put16_other get16_put16_other

lemma put_bytes_field:
  assumes "p + 4 \<le> n"
  shows "get32 (fsmem (put_bytes n d 0 a k)) (a + p) = get32 d p" "get16 (fsmem (put_bytes n d 0 a k)) (a + p) = get16 d p"
  using assms by (simp_all add: put_bytes_eq get32_def get16_def numeral_3_eq_3)

text \<open>
  C40: \<^verbatim>\<open>cp_stat\<close> tells the caller what the inode says: every field of the structure it fills in can be read back
  from user memory. The fields it does not fill in, like the block count, show four bytes each of the kernel's stack.
\<close>

theorem stat_reports:
  assumes "cp_stat i a stack k = Some (Inr (r, k'))"
  shows "r = 0 \<and> inode_at k' i = inode_at k i \<and>
    get_fs_word k' (unat a) = i_dev (inode_at k i) \<and> get_fs_long k' (unat a + 4) = ucast (i_num (inode_at k i)) \<and>
    get_fs_word k' (unat a + 8) = i_mode (inode_at k i) \<and> get_fs_word k' (unat a + 10) = ucast (i_nlinks (inode_at k i)) \<and>
    get_fs_word k' (unat a + 12) = i_uid (inode_at k i) \<and> get_fs_word k' (unat a + 14) = ucast (i_gid (inode_at k i)) \<and>
    get_fs_word k' (unat a + 16) = i_zone (inode_at k i) 0 \<and> get_fs_long k' (unat a + 20) = i_size (inode_at k i) \<and>
    get_fs_long k' (unat a + 32) = i_atime (inode_at k i) \<and> get_fs_long k' (unat a + 40) = i_mtime (inode_at k i) \<and>
    get_fs_long k' (unat a + 48) = i_ctime (inode_at k i) \<and>
    get_fs_long k' (unat a + 24) = get32 stack 24 \<and> get_fs_long k' (unat a + 28) = get32 stack 28"
proof -
  obtain m where m: "r = 0" "k' = put_bytes 64 (stat_of (inode_at k i) stack) 0 (unat a) (k\<lparr>mm := m\<rparr>)"
    using assms by (auto simp: cp_stat_def inode_at_def dest!: with_area_mm)
  note f = put_bytes_field [of _ 64 "stat_of (inode_at k i) stack" "unat a" "k\<lparr>mm := m\<rparr>", folded m(2)]
  have "inode_at k' i = inode_at k i" by (simp add: m(2) put_bytes_eq inode_at_def)
  moreover have "get_fs_word k' (unat a) = get16 (stat_of (inode_at k i) stack) 0" using f(2) [of 0] by (simp add: get_fs_word_def)
  ultimately show ?thesis using m(1) f
    by (simp add: get_fs_word_def get_fs_long_def) (simp add: stat_of_def field_simps)
qed

theorem stat_reports_witness:
  "\<exists>k'. cp_stat 0 4096 (\<lambda>_. 9) listing_kernel = Some (Inr (0, k')) \<and> get_fs_word k' 4104 = 0x41ed \<and>
     get_fs_long k' 4116 = 32 \<and> get_fs_long k' 4124 = 0x09090909"
proof -
  have m: "mm listing_kernel = empty_mm"
    by (simp add: listing_kernel_def exec_kernel_def k_simps) (simp add: small_kernel_def)
  have w: "write_verify s empty_mm = Some (Inr empty_mm)" for s by (simp add: write_verify_def empty_mm_def)
  have "verify_pages 64 s empty_mm = Some (Inr empty_mm)" for s
    by (subst verify_pages.simps) (simp add: w verify_pages_done verify_pages.simps [of "- 4032"])
  then obtain r k' where c: "cp_stat 0 4096 (\<lambda>_. 9) listing_kernel = Some (Inr (r, k'))"
    by (simp add: cp_stat_def with_area_def verify_area_def m)
  have "get32 (\<lambda>_. 9 :: byte) 28 = 0x09090909" by code_simp
  then show ?thesis using stat_reports [OF c] c listing_kernel_file(4,5) by (intro exI [of _ k']) simp
qed

end
