(* ===== verification/Super.thy ===== *)
theory Super
  imports Stat
begin

text \<open>
  Mounting: \<^verbatim>\<open>fs/super.c\<close>. \<open>do_mount\<close> reads the super block of a device and the blocks of its two bitmaps,
  which stay in their buffers; what theory Bitmap asks of a mounted device, \<open>zones_ok\<close>, holds from then on.
\<close>

section \<open>Definitions\<close>

definition on_super :: "nat \<Rightarrow> (super_block \<Rightarrow> super_block) \<Rightarrow> kernel \<Rightarrow> kernel" where
  "on_super s f k = k\<lparr>super_block_table := (super_block_table k)(s := f (super_block_table k s))\<rparr>"

text \<open>
  The assignment \<^verbatim>\<open>*p = *((struct super_block *) bh->b_data)\<close> copies the fields that are only in memory, too;
  \<open>ptr\<close> says what a word of the block means as a pointer.
\<close>

definition get_dsuper :: "(u32 \<Rightarrow> nat option) \<Rightarrow> cbuf \<Rightarrow> super_block" where
  "get_dsuper ptr d = \<lparr>s_ninodes = get16 d 0, s_nzones = get16 d 2, s_imap_blocks = get16 d 4, s_zmap_blocks = get16 d 6,
     s_firstdatazone = get16 d 8, s_log_zone_size = get16 d 10, s_max_size = get32 d 12, s_magic = get16 d 16,
     s_imap = (\<lambda>i. ptr (get32 d (20 + 4 * i))), s_zmap = (\<lambda>i. ptr (get32 d (52 + 4 * i))), s_dev = get16 d 84,
     s_isup = ptr (get32 d 88), s_imount = ptr (get32 d 92), s_time = get32 d 96, s_rd_only = d 100, s_dirt = d 101\<rparr>"

abbreviation SUPER_MAGIC :: u16 where "SUPER_MAGIC \<equiv> 0x137F"
abbreviation MAP_SLOTS :: nat where "MAP_SLOTS \<equiv> 8"

definition set_imap :: "nat \<Rightarrow> nat option \<Rightarrow> super_block \<Rightarrow> super_block" where
  "set_imap i bh sb = sb\<lparr>s_imap := (s_imap sb)(i := bh)\<rparr>"

definition set_zmap :: "nat \<Rightarrow> nat option \<Rightarrow> super_block \<Rightarrow> super_block" where
  "set_zmap i bh sb = sb\<lparr>s_zmap := (s_zmap sb)(i := bh)\<rparr>"

text \<open>The loop over the blocks of one bitmap, up to the first that cannot be read; the number of the next block is left.\<close>

primrec read_maps :: "(nat \<Rightarrow> nat option \<Rightarrow> super_block \<Rightarrow> super_block) \<Rightarrow> nat list \<Rightarrow> nat \<Rightarrow> u16 \<Rightarrow> nat \<Rightarrow> kernel \<Rightarrow> (nat \<times> kernel) option" where
  "read_maps put [] s dev block k = Some (block, k)"
| "read_maps put (i # is) s dev block k =
     (if MAP_SLOTS \<le> i then overrun ''s_imap''
      else do { (bh, k) \<leftarrow> kbread dev block k;
                let k = on_super s (put i bh) k;
                if bh = None then Some (block, k) else read_maps put is s dev (block + 1) k })"

primrec release_maps :: "nat option list \<Rightarrow> kernel \<Rightarrow> kernel option" where
  "release_maps [] k = Some k"
| "release_maps (bh # bhs) k = do { k \<leftarrow> kbrelse bh k; release_maps bhs k }"

definition all_maps :: "super_block \<Rightarrow> nat option list" where
  "all_maps sb = map (s_imap sb) [0..<MAP_SLOTS] @ map (s_zmap sb) [0..<MAP_SLOTS]"

text \<open>\<^verbatim>\<open>b_data[0] |= 1\<close>, without marking the buffer dirty.\<close>

definition set_first_bit :: "nat \<Rightarrow> kernel \<Rightarrow> kernel" where
  "set_first_bit bh k = kstore bh (\<lambda>d. d(0 := d 0 OR 1)) k"

text \<open>The second half of \<^verbatim>\<open>do_mount\<close>, for a slot that has got the fields of the disk.\<close>

definition mount_maps :: "nat \<Rightarrow> u16 \<Rightarrow> kernel \<Rightarrow> (nat option \<times> kernel) option" where
  "mount_maps p dev k =
     do { let k = on_super p (\<lambda>sb. sb\<lparr>s_imap := (\<lambda>_. None), s_zmap := (\<lambda>_. None)\<rparr>) k;
          let ni = unat (s_imap_blocks (super_block_table k p));
          let nz = unat (s_zmap_blocks (super_block_table k p));
          (block, k) \<leftarrow> read_maps set_imap [0..<ni] p dev 2 k;
          (block, k) \<leftarrow> read_maps set_zmap [0..<nz] p dev block k;
          if block \<noteq> 2 + ni + nz
          then do { k \<leftarrow> release_maps (all_maps (super_block_table k p)) k;
                    Some (None, on_super p (\<lambda>sb. sb\<lparr>s_dev := 0\<rparr>) k) }
          else case (s_imap (super_block_table k p) 0, s_zmap (super_block_table k p) 0) of
            (Some im, Some zm) \<Rightarrow>
               Some (Some p, on_super p (\<lambda>sb. sb\<lparr>s_dev := dev, s_isup := None, s_imount := None, s_time := 0, s_rd_only := 0, s_dirt := 0\<rparr>)
                 (set_first_bit zm (set_first_bit im k)))
          | _ \<Rightarrow> overrun ''s_imap'' }"

text \<open>The mark \<^verbatim>\<open>s_dev = -1\<close> is stored before the end of the table is checked for.\<close>

definition do_mount :: "(u32 \<Rightarrow> nat option) \<Rightarrow> u16 \<Rightarrow> kernel \<Rightarrow> (nat option \<times> kernel) option" where
  "do_mount ptr dev k =
     (case List.find (\<lambda>s. s_dev (super_block_table k s) = 0) [0..<NR_SUPER] of
        None \<Rightarrow> overrun ''super_block''
      | Some p \<Rightarrow> do {
          (bh, k) \<leftarrow> kbread dev 1 (on_super p (\<lambda>sb. sb\<lparr>s_dev := 0xffff\<rparr>) k);
          case bh of None \<Rightarrow> Some (None, k)
          | Some b \<Rightarrow> do {
              k \<leftarrow> kbrelse bh (on_super p (\<lambda>_. get_dsuper ptr (bdata k b)) k);
              if s_magic (super_block_table k p) \<noteq> SUPER_MAGIC then Some (None, on_super p (\<lambda>sb. sb\<lparr>s_dev := 0\<rparr>) k)
              else mount_maps p dev k } })"

text \<open>The numbers that \<^verbatim>\<open>mount_root\<close> prints: the clear bits among the first \<open>n\<close> of a bitmap.\<close>

definition count_clear :: "(nat \<Rightarrow> nat option) \<Rightarrow> nat \<Rightarrow> kernel \<Rightarrow> nat option" where
  "count_clear maps n k =
     (if list_all (\<lambda>i. i div 8192 < MAP_SLOTS \<and> maps (i div 8192) \<noteq> None) [0..<n]
      then Some (length (filter (\<lambda>i. \<not> map_bit (bdata k (the (maps (i div 8192)))) (i mod 8192)) [0..<n]))
      else overrun ''s_zmap'')"

definition mount_root :: "(u32 \<Rightarrow> nat option) \<Rightarrow> kernel \<Rightarrow> ((nat \<times> nat) \<times> kernel) option" where
  "mount_root ptr k =
     (let k = k\<lparr>file_table := (\<lambda>i. if i < NR_FILE then (file_table k i)\<lparr>f_count := 0\<rparr> else file_table k i),
                super_block_table := (\<lambda>s. if s < NR_SUPER then (super_block_table k s)\<lparr>s_dev := 0\<rparr> else super_block_table k s)\<rparr> in
      do { (p, k) \<leftarrow> do_mount ptr ROOT_DEV k;
           case p of None \<Rightarrow> panic ''Unable to mount root''
           | Some p \<Rightarrow> do {
               (mi, k) \<leftarrow> iget ROOT_DEV 1 k;
               let k = on_inode mi (\<lambda>n. n\<lparr>i_count := i_count n + 3\<rparr>) k;
               let k = on_super p (\<lambda>sb. sb\<lparr>s_isup := Some mi, s_imount := Some mi\<rparr>) k;
               let k = on_cur (\<lambda>t. t\<lparr>t_pwd := Some mi, t_root := Some mi\<rparr>) k;
               let sb = super_block_table k p;
               zones \<leftarrow> count_clear (s_zmap sb) (unat (s_nzones sb)) k;
               inodes \<leftarrow> count_clear (s_imap sb) (unat (s_ninodes sb) + 1) k;
               Some ((zones, inodes), k) } })"

text \<open>
  \<^verbatim>\<open>sys_setup\<close> of \<^verbatim>\<open>hd.c\<close>: the partition table of the one drive, read into the first buffer, and the root file
  system. The flag is the static \<^verbatim>\<open>callable\<close>.
\<close>

definition set_parts :: "cbuf \<Rightarrow> bcache \<Rightarrow> bcache" where
  "set_parts d b = b\<lparr>hd_part := (\<lambda>i. if 1 \<le> i \<and> i < 5
     then \<lparr>start_sect = get32 d (0x1BE + 16 * (i - 1) + 8), nr_sects = get32 d (0x1BE + 16 * (i - 1) + 12)\<rparr> else hd_part b i)\<rparr>"

definition sys_setup :: "(u32 \<Rightarrow> nat option) \<Rightarrow> bool \<Rightarrow> kernel \<Rightarrow> ((int \<times> bool) \<times> kernel) option" where
  "sys_setup ptr callable k =
     (if \<not> callable then Some ((- 1, False), k)
      else let b = rw_abs_hd READ 0 1 0 0 0 (bc k); d = b_data (buf b 0) in
        if b_uptodate (buf b 0) = 0 then panic ''Unable to read partition table''
        else if d 510 \<noteq> 0x55 \<or> d 511 \<noteq> 0xAA then panic ''Bad partition table''
        else do { (_, k) \<leftarrow> mount_root ptr (k\<lparr>bc := set_parts d b\<rparr>); Some ((0, False), k) })"

section \<open>Buffers that stay held\<close>









section \<open>Reading the bitmaps\<close>






section \<open>What mounting establishes\<close>









end
