(* ===== verification/Explorer.thy ===== *)
theory Explorer
  imports OpenFile
begin

text \<open>
  The file explorer that \<^verbatim>\<open>kernel/console.c\<close> draws in a corner of the screen: the keys that open it, that enter and
  leave directories and that paste a name. What it draws is in theory Console.

  The handlers run in the keyboard interrupt. \<^verbatim>\<open>namei\<close> reads its path through the segment \<^verbatim>\<open>fs\<close>, which the
  interrupt does not change; the model takes the case that it shows the kernel's memory, as it does
  while the idle process runs.
\<close>

section \<open>Paths\<close>

definition con_do :: "(console \<Rightarrow> console option) \<Rightarrow> kernel \<Rightarrow> kernel option" where
  "con_do f k = map_option (\<lambda>c. k\<lparr>con := c\<rparr>) (f (con k))"

abbreviation SLASH :: byte where "SLASH \<equiv> 47"

text \<open>\<^verbatim>\<open>current_dir_path\<close> has room for 22 bytes.\<close>

definition set_path :: "byte list \<Rightarrow> console \<Rightarrow> console option" where
  "set_path p c =
     (if 22 \<le> length p then overrun ''current_dir_path''
      else Some (c\<lparr>current_dir_path := store_str p (current_dir_path c)\<rparr>))"

text \<open>A path followed by a name, with a slash between them unless the path is the root.\<close>

definition join_path :: "byte list \<Rightarrow> byte list \<Rightarrow> byte list" where
  "join_path p name = p @ (if p = [SLASH] then [] else [SLASH]) @ name"

definition short_to_str :: "(nat \<Rightarrow> u16) \<Rightarrow> byte list option" where
  "short_to_str str = map_option (\<lambda>n. map (\<lambda>i. ucast (str i)) [0..<nat n]) (short_len str)"

definition selected :: "console \<Rightarrow> nat option" where
  "selected c =
     (if 0 \<le> selected_row_index c \<and> selected_row_index c < 10 then Some (nat (selected_row_index c)) else overrun ''ls_files'')"

definition enter_dir :: "console \<Rightarrow> console option" where
  "enter_dir c =
     do { p \<leftarrow> dir_path c; r \<leftarrow> selected c;
          new_path \<leftarrow> short_to_str (ls_files c r);
          if 15 \<le> length new_path then overrun ''new_path'' else set_path (join_path p new_path) c }"

text \<open>The path is cut behind its last slash.\<close>

definition leave_dir :: "console \<Rightarrow> console option" where
  "leave_dir c =
     do { p \<leftarrow> dir_path c;
          (case List.find (\<lambda>i. p ! (i - 1) = SLASH) (rev [1..<length p + 1]) of
             None \<Rightarrow> overrun ''current_dir_path''
           | Some i \<Rightarrow> Some (c\<lparr>current_dir_path := (current_dir_path c)(i := 0)\<rparr>)) }"

section \<open>Reading a directory\<close>

definition set_dirs :: "nat option \<Rightarrow> kernel \<Rightarrow> kernel" where
  "set_dirs i k = on_cur (\<lambda>t. t\<lparr>t_pwd := i, t_root := i\<rparr>) k"

text \<open>The string at offset \<open>p\<close> of a block.\<close>

definition block_string :: "cbuf \<Rightarrow> nat \<Rightarrow> byte list option" where
  "block_string d p = map_option (\<lambda>n. bytes_of p n d) (strlen_in (1024 - p) (\<lambda>j. d (p + j)))"

definition file_color :: "u16 \<Rightarrow> u16" where
  "file_color mode =
     (if bit mode 13 then 0x0600 else if S_ISDIR mode then 0x0100 else if bit mode 6 then 0x0200 else 0x0700)"

text \<open>The row of a name; \<^verbatim>\<open>ls_files[k][i] = color | file_name[i++]\<close> is taken to store at the old index.\<close>

definition put_row :: "nat \<Rightarrow> u16 \<Rightarrow> byte list \<Rightarrow> console \<Rightarrow> console option" where
  "put_row k color name c =
     (if 16 \<le> length name then overrun ''ls_files''
      else Some (c\<lparr>ls_files := (ls_files c)(k := (\<lambda>i. if i < length name then cell color (name ! i)
                                                else if i = length name then 0 else ls_files c k i)),
                   current_dir_len := current_dir_len c + (if name = [] then 0 else 1)\<rparr>))"

primrec list_children :: "nat list \<Rightarrow> nat \<Rightarrow> kernel \<Rightarrow> kernel option" where
  "list_children [] b k = Some k"
| "list_children (n # ns) b k =
     (let entry = 32 + 16 * n in do {
        file_name \<leftarrow> block_string (bdata k b) (entry + 2);
        let k = k\<lparr>con := (con k)\<lparr>children_inodes := (children_inodes (con k))(n := get16 (bdata k b) entry)\<rparr>\<rparr>;
        p \<leftarrow> dir_path (con k);
        let temp_name = join_path p file_name;
        if 22 \<le> length temp_name then overrun ''temp_name''
        else do {
          (curr, k) \<leftarrow> namei temp_name k;
          case curr of None \<Rightarrow> overrun ''curr_inode''
          | Some i \<Rightarrow> do {
              let mode = i_mode (inode_at k i);
              let k = k\<lparr>con := (con k)\<lparr>is_dir := (is_dir (con k))(n := if S_ISDIR mode then 1 else 0)\<rparr>\<rparr>;
              k \<leftarrow> iput (Some i) k;
              k \<leftarrow> con_do (put_row n (file_color mode) file_name) k;
              list_children ns b k } } })"

text \<open>The buffer of the directory is not given back.\<close>

definition get_children_from_fs :: "kernel \<Rightarrow> kernel option" where
  "get_children_from_fs k =
     do { (root_node, k) \<leftarrow> iget ROOT_DEV 1 k;
          let k = set_dirs (Some root_node) k;
          (bh, k) \<leftarrow> (if init_flag (con k) = 0 then kbread ROOT_DEV (unat (i_zone (inode_at k root_node) 0)) k
             else do {
               p \<leftarrow> dir_path (con k);
               (dir_node, k) \<leftarrow> namei p k;
               case dir_node of None \<Rightarrow> overrun ''dir_node''
               | Some i \<Rightarrow> do {
                   (bh, k) \<leftarrow> kbread ROOT_DEV (unat (i_zone (inode_at k i) 0)) k;
                   k \<leftarrow> iput (Some i) k;
                   Some (bh, k) } });
          case bh of None \<Rightarrow> overrun ''bf_head''
          | Some b \<Rightarrow> do {
              let k = k\<lparr>con := (con k)\<lparr>ls_files := (\<lambda>r. if r < 10 then (ls_files (con k) r)(0 := 0) else ls_files (con k) r),
                                     current_dir_len := 0\<rparr>\<rparr>;
              k \<leftarrow> list_children [0..<10] b k;
              let k = k\<lparr>con := (con k)\<lparr>init_flag := (if init_flag (con k) = 0 then 1 else init_flag (con k))\<rparr>\<rparr>;
              k \<leftarrow> iput (Some root_node) k;
              Some (set_dirs None k) } }"

section \<open>The keys\<close>

definition f2_handle :: "int \<Rightarrow> kernel \<Rightarrow> kernel option" where
  "f2_handle f2_flag k =
     (let k = k\<lparr>con := (con k)\<lparr>scrupt_state_flag := f2_flag, selected_row_index := 0\<rparr>\<rparr> in
      if f2_flag = 1 then do { k \<leftarrow> con_do render_path k; k \<leftarrow> get_children_from_fs k; con_do render_ls k }
      else if f2_flag = 2 then
        con_do (\<lambda>c. do { s \<leftarrow> clip_line c 0;
                         c \<leftarrow> render_border CLIPBOARD (c\<lparr>cursor_row := 0, cursor_col := of_nat (length s)\<rparr>);
                         print_clipboard c }) k
      else Some k)"

definition show_dir :: "kernel \<Rightarrow> kernel option" where
  "show_dir k = do { k \<leftarrow> get_children_from_fs k; k \<leftarrow> con_do render_path k; con_do render_ls k }"

definition arrow_right_handle :: "int \<Rightarrow> kernel \<Rightarrow> kernel option" where
  "arrow_right_handle f2_flag k =
     (if f2_flag = 1 then do {
        r \<leftarrow> selected (con k);
        if is_dir (con k) r = 0 then Some k else do { k \<leftarrow> con_do enter_dir k; show_dir k } }
      else Some k)"

definition arrow_left_handle :: "int \<Rightarrow> kernel \<Rightarrow> kernel option" where
  "arrow_left_handle f2_flag k =
     (if f2_flag = 1 then do {
        p \<leftarrow> dir_path (con k);
        if p = [SLASH] then Some k else do { k \<leftarrow> con_do leave_dir k; show_dir k } }
      else Some k)"

text \<open>
  \<^verbatim>\<open>strcat(file_to_cpy, ls_files[...])\<close> takes the cells of a row for characters: each is followed by its colour. When no
  window is open the string is what the stack holds.
\<close>

definition row_string :: "(nat \<Rightarrow> u16) \<Rightarrow> byte list option" where
  "row_string row =
     (let bytes = (\<lambda>j. ucast (if even j then row (j div 2) else drop_bit 8 (row (j div 2)))) in
      map_option (\<lambda>n. bytes_of 0 n bytes) (strlen_in 32 bytes))"

definition file_to_cpy :: "int \<Rightarrow> cbuf \<Rightarrow> console \<Rightarrow> byte list option" where
  "file_to_cpy f2_flag stack c =
     (if f2_flag = 1 then do { p \<leftarrow> dir_path c; r \<leftarrow> selected c; s \<leftarrow> row_string (ls_files c r);
                               if 22 \<le> length (join_path p s) then overrun ''file_to_cpy'' else Some (join_path p s) }
      else if f2_flag = 2 then do { r \<leftarrow> selected c; clip_line c r }
      else map_option (\<lambda>n. bytes_of 0 n stack) (strlen_in 22 stack))"

primrec type_chars :: "byte list \<Rightarrow> kernel \<Rightarrow> kernel option" where
  "type_chars [] k = Some k"
| "type_chars (c # cs) k =
     do { k \<leftarrow> (if 31 <s c \<and> c <s 127 then do_tty_interrupt 0 (on_tty 0 (\<lambda>t. t\<lparr>read_q := PUTCH c (read_q t)\<rparr>) k) else Some k);
          type_chars cs k }"

definition space_handle :: "int \<Rightarrow> cbuf \<Rightarrow> kernel \<Rightarrow> kernel option" where
  "space_handle f2_flag stack k = do { s \<leftarrow> file_to_cpy f2_flag stack (con k); type_chars s k }"

section \<open>Walking through directories\<close>

lemma strlen_in_at: "n < N \<Longrightarrow> a n = 0 \<Longrightarrow> (\<And>i. i < n \<Longrightarrow> a i \<noteq> 0) \<Longrightarrow> strlen_in N a = Some n"
  unfolding strlen_in_def by (auto simp: find_Some_iff intro!: exI [of _ n])

lemma strlen_in_cases:
  assumes "strlen_in N a = Some n"
  shows "n < N" "a n = 0" "\<And>i. i < n \<Longrightarrow> a i \<noteq> 0"
  using assms unfolding strlen_in_def by (auto simp: find_Some_iff)

lemma dir_path_iff:
  "dir_path c = Some p \<longleftrightarrow> length p < 22 \<and> 0 \<notin> set p \<and> (\<forall>i<length p. current_dir_path c i = p ! i) \<and> current_dir_path c (length p) = 0"
proof
  assume "dir_path c = Some p"
  then obtain n where n: "strlen_in 22 (current_dir_path c) = Some n" "p = bytes_of 0 n (current_dir_path c)"
    by (auto simp: dir_path_def)
  then show "length p < 22 \<and> 0 \<notin> set p \<and> (\<forall>i<length p. current_dir_path c i = p ! i) \<and> current_dir_path c (length p) = 0"
    using strlen_in_cases [OF n(1)] by (auto simp: bytes_of_def in_set_conv_nth)
next
  assume p: "length p < 22 \<and> 0 \<notin> set p \<and> (\<forall>i<length p. current_dir_path c i = p ! i) \<and> current_dir_path c (length p) = 0"
  then have "strlen_in 22 (current_dir_path c) = Some (length p)"
    by (intro strlen_in_at) (auto simp: in_set_conv_nth)
  moreover have "bytes_of 0 (length p) (current_dir_path c) = p"
    using p unfolding bytes_of_def by (intro nth_equalityI) simp_all
  ultimately show "dir_path c = Some p" by (simp add: dir_path_def)
qed

lemma dir_path_set: "set_path p c = Some c' \<Longrightarrow> 0 \<notin> set p \<Longrightarrow> dir_path c' = Some p"
  by (auto simp: set_path_def dir_path_iff store_str_def failing split: if_splits)

lemma find_last:
  "P i \<Longrightarrow> 1 \<le> i \<Longrightarrow> i \<le> n \<Longrightarrow> (\<forall>j. i < j \<longrightarrow> j \<le> n \<longrightarrow> \<not> P j) \<Longrightarrow> List.find P (rev [1..<n + 1]) = Some i"
proof (induction n)
  case (Suc n)
  then show ?case by (cases "i = Suc n") auto
qed simp

lemma leave_dir_path:
  assumes "dir_path c = Some (q @ SLASH # s)" and "SLASH \<notin> set s"
  shows "\<exists>c'. leave_dir c = Some c' \<and> dir_path c' = Some (q @ [SLASH])"
proof -
  let ?p = "q @ SLASH # s"
  have "List.find (\<lambda>i. ?p ! (i - 1) = SLASH) (rev [1..<length ?p + 1]) = Some (length q + 1)"
  proof (rule find_last)
    show "\<forall>j. length q + 1 < j \<longrightarrow> j \<le> length ?p \<longrightarrow> ?p ! (j - 1) \<noteq> SLASH"
    proof (intro allI impI)
      fix j assume j: "length q + 1 < j" "j \<le> length ?p"
      then obtain i where i: "j = length q + 2 + i" "i < length s" by (auto dest!: less_imp_Suc_add)
      then have "?p ! (j - 1) = s ! i" by (simp add: nth_append)
      then show "?p ! (j - 1) \<noteq> SLASH" using assms(2) nth_mem [OF i(2)] by metis
    qed
  qed simp_all
  then have "leave_dir c = Some (c\<lparr>current_dir_path := (current_dir_path c)(length q + 1 := 0)\<rparr>)"
    using assms(1) by (simp add: leave_dir_def)
  moreover have "dir_path (c\<lparr>current_dir_path := (current_dir_path c)(length q + 1 := 0)\<rparr>) = Some (q @ [SLASH])"
    using assms(1) by (auto simp: dir_path_iff nth_append)
  ultimately show ?thesis by blast
qed

lemma short_to_str_nonzero:
  assumes "short_to_str row = Some nm"
  shows "0 \<notin> set nm"
proof -
  obtain n where n: "short_len row = Some n" "nm = map (\<lambda>i. ucast (row i)) [0..<nat n]" using assms by (auto simp: short_to_str_def)
  have "(ucast (row i) :: byte) \<noteq> 0" if "i < nat n" for i
    using n(1) that by (auto simp: short_len_def failing find_Some_iff split: if_splits option.splits)
  then show ?thesis using n(2) by auto
qed

text \<open>
  Entering a directory and leaving it again does not lead back, except from the root: the slash that was added
  stays at the end of the path, and leaving once more changes nothing, so that from the second level on the root
  cannot be reached any more.
\<close>

theorem left_sticks:
  assumes "dir_path c = Some p" and "selected c = Some r" and "short_to_str (ls_files c r) = Some nm"
    and "nm \<noteq> []" and "SLASH \<notin> set nm" and "enter_dir c = Some c1"
  shows "dir_path c1 = Some (join_path p nm) \<and>
    (\<exists>c2. leave_dir c1 = Some c2 \<and> dir_path c2 = Some (if p = [SLASH] then [SLASH] else p @ [SLASH]) \<and>
      (\<exists>c3. leave_dir c2 = Some c3 \<and> dir_path c3 = dir_path c2))"
proof -
  have "set_path (join_path p nm) c = Some c1" using assms by (auto simp: enter_dir_def failing split: if_splits)
  moreover have "0 \<notin> set (join_path p nm)"
    using assms(1) short_to_str_nonzero [OF assms(3)] by (auto simp: join_path_def dir_path_iff)
  ultimately have c1: "dir_path c1 = Some (join_path p nm)" by (rule dir_path_set)
  let ?q = "if p = [SLASH] then [] else p"
  have "join_path p nm = ?q @ SLASH # nm" by (simp add: join_path_def)
  then obtain c2 where c2: "leave_dir c1 = Some c2" "dir_path c2 = Some (?q @ [SLASH])"
    using leave_dir_path [of c1 ?q nm] c1 assms(5) by auto
  then obtain c3 where "leave_dir c2 = Some c3" "dir_path c3 = Some (?q @ [SLASH])"
    using leave_dir_path [of c2 ?q "[]"] by auto
  then show ?thesis using c1 c2 by (intro conjI exI [of _ c2] exI [of _ c3]) (auto split: if_splits)
qed

text \<open>In the directory \<^verbatim>\<open>/a\<close>, whose first entry is \<^verbatim>\<open>b\<close>.\<close>

definition deep_console :: console where
  "deep_console = console0\<lparr>current_dir_path := store_str [47, 97] (\<lambda>_. 0), ls_files := (\<lambda>_ i. if i = 0 then 0x162 else 0),
     selected_row_index := 0\<rparr>"

theorem left_sticks_witness:
  "\<exists>c1 c2 c3. enter_dir deep_console = Some c1 \<and> dir_path c1 = Some [47, 97, 47, 98] \<and> leave_dir c1 = Some c2 \<and>
     dir_path c2 = Some [47, 97, 47] \<and> leave_dir c2 = Some c3 \<and> dir_path c3 = Some [47, 97, 47]"
proof -
  have h: "dir_path deep_console = Some [47, 97]" "selected deep_console = Some 0"
    "short_to_str (ls_files deep_console 0) = Some [98]" by code_simp+
  have "map_option (\<lambda>_. ()) (enter_dir deep_console) = Some ()" by code_simp
  then obtain c1 where c1: "enter_dir deep_console = Some c1" by auto
  from left_sticks [OF h _ _ c1] show ?thesis using c1 by (auto simp: join_path_def)
qed

end
